(* ===== verification/XPrelude.thy ===== *)
theory XPrelude
  imports Main "HOL-Library.Word"
begin

text \<open>
  Shared vocabulary of the development: the machine integer types of
  \<^verbatim>\<open>include/xfiredb/types.h\<close>, the error codes of \<^verbatim>\<open>include/xfiredb/error.h\<close>,
  C strings, segments of pointer-linked lists, and the generic lemmas on lists and words
  that the component theories use. Collections: \<open>seg_simps\<close> (linked segments),
  \<open>xdb_defs\<close> (the constants that stand for C macros).

  Data model: LP64 (x86-64 Linux, the configuration \<^verbatim>\<open>HAVE_X64\<close>/\<^verbatim>\<open>HAVE_LINUX\<close>),
  \<^verbatim>\<open>char\<close> is signed and the byte order is little endian.
\<close>

unbundle bit_operations_syntax

named_theorems xdb_defs \<open>constants that stand for C macros\<close>
named_theorems seg_simps \<open>rewrite rules for linked segments\<close>

section \<open>Machine integers and error codes\<close>

type_synonym u8 = "8 word"
type_synonym u16 = "16 word"
type_synonym u32 = "32 word"
type_synonym u64 = "64 word"

text \<open>Pointers of the shared store are 64-bit words, the null pointer is 0.\<close>

type_synonym ptr = "64 word"

definition XFIREDB_OK :: int where
  [xdb_defs]: "XFIREDB_OK = 0"

definition XFIREDB_ERR :: int where
  [xdb_defs]: "XFIREDB_ERR = 1"

lemma error_codes [simp]: "- XFIREDB_OK = 0" "- XFIREDB_ERR = -1" "XFIREDB_OK = 0"
  by (simp_all add: xdb_defs)

section \<open>C strings\<close>

text \<open>
  A C string is represented by its characters before the terminator, so it contains no
  NUL; \<open>strlen\<close> is \<^const>\<open>length\<close> and \<open>strcmp (a, b) = 0\<close> is equality.
\<close>

definition cstr :: "string \<Rightarrow> bool" where
  "cstr s \<longleftrightarrow> CHR 0x00 \<notin> set s"

text \<open>A signed \<^verbatim>\<open>char\<close> promoted to \<^verbatim>\<open>int\<close> and converted to an unsigned word.\<close>

definition schar :: "char \<Rightarrow> 'a::len word" where
  "schar c = signed (of_char c :: 8 word)"

definition uchar :: "char \<Rightarrow> 'a::len word" where
  "uchar c = of_char c"

section \<open>Linked segments\<close>

text \<open>
  \<open>lseg nx p xs q\<close>: following the pointer field \<open>nx\<close> from \<open>p\<close> visits exactly the
  cells \<open>xs\<close>, in order, and ends at \<open>q\<close>.
\<close>

primrec lseg :: "('a \<Rightarrow> 'a) \<Rightarrow> 'a \<Rightarrow> 'a list \<Rightarrow> 'a \<Rightarrow> bool" where
  "lseg nx p [] q \<longleftrightarrow> p = q"
| "lseg nx p (x # xs) q \<longleftrightarrow> p = x \<and> lseg nx (nx x) xs q"

lemma lseg_append [seg_simps]:
  "lseg nx p (xs @ ys) q \<longleftrightarrow> (\<exists>r. lseg nx p xs r \<and> lseg nx r ys q)"
  by (induction xs arbitrary: p) auto

lemma lseg_upd [seg_simps]:
  "u \<notin> set xs \<Longrightarrow> lseg (nx(u := v)) p xs q \<longleftrightarrow> lseg nx p xs q"
  by (induction xs arbitrary: p) auto

lemma lseg_cong:
  "(\<And>x. x \<in> set xs \<Longrightarrow> f x = g x) \<Longrightarrow> lseg f p xs q \<longleftrightarrow> lseg g p xs q"
  by (induction xs arbitrary: p) auto

lemma lseg_start: "lseg nx p xs q \<Longrightarrow> p = hd (xs @ [q])"
  by (cases xs) auto

text \<open>The successor of a cell in a segment is the next cell, or the end of the segment.\<close>

lemma lseg_next: "lseg nx p (xs @ x # ys) q \<Longrightarrow> nx x = hd (ys @ [q])"
  by (cases ys) (auto simp: lseg_append)

section \<open>Generic lemmas on lists\<close>

lemma concat_replicate_Nil [simp]: "concat (replicate n []) = []"
  by (induction n) auto

lemma concat_list_update:
  "i < length bs \<Longrightarrow>
   concat (bs[i := b]) = concat (take i bs) @ b @ concat (drop (Suc i) bs)"
  by (simp add: upd_conv_take_nth_drop)

lemma concat_split_nth:
  "i < length bs \<Longrightarrow> concat bs = concat (take i bs) @ bs ! i @ concat (drop (Suc i) bs)"
  by (metis concat.simps(2) concat_append id_take_nth_drop)

lemma map_of_None_iff: "map_of xs k = None \<longleftrightarrow> k \<notin> fst ` set xs"
  by (simp add: map_of_eq_None_iff)

end
