(* ===== verification/Hashkey.thy ===== *)
theory Hashkey
  imports XPrelude
begin

text \<open>
  The key hash of \<^verbatim>\<open>storage/dict.c\<close> (\<^verbatim>\<open>dict_hash_key\<close>) and \<^verbatim>\<open>storage/skiplist.c\<close>
  (\<^verbatim>\<open>skiplist_hash_key\<close>): a variant of MurmurHash3 on 32-bit words. Blocks are read
  through a \<^verbatim>\<open>u32\<close> pointer (little endian); the tail bytes are signed \<^verbatim>\<open>char\<close>s.
\<close>

definition MURMUR_C1 :: u32 where [xdb_defs]: "MURMUR_C1 = 0xcc9e2d51"
definition MURMUR_C2 :: u32 where [xdb_defs]: "MURMUR_C2 = 0x1b873593"
definition MURMUR_R1 :: nat where [xdb_defs]: "MURMUR_R1 = 15"
definition MURMUR_R2 :: nat where [xdb_defs]: "MURMUR_R2 = 13"
definition MURMUR_MIX1 :: u32 where [xdb_defs]: "MURMUR_MIX1 = 5"
definition MURMUR_MIX2 :: u32 where [xdb_defs]: "MURMUR_MIX2 = 0xe6546b64"
definition DICT_SEED :: u32 where [xdb_defs]: "DICT_SEED = 0x8FE3C9A1"
definition SKIPLIST_SEED :: u32 where [xdb_defs]: "SKIPLIST_SEED = 0x8FE3C9A1"

text \<open>The four bytes at the head of the string, as the little endian word \<^verbatim>\<open>blocks[i]\<close>.\<close>

definition block32 :: "string \<Rightarrow> u32" where
  "block32 s = uchar (s ! 0) OR push_bit 8 (uchar (s ! 1)) OR push_bit 16 (uchar (s ! 2))
     OR push_bit 24 (uchar (s ! 3))"

primrec hash_blocks :: "nat \<Rightarrow> string \<Rightarrow> u32 \<Rightarrow> u32" where
  "hash_blocks 0 key hash = hash"
| "hash_blocks (Suc n) key hash =
     (let k1 = block32 key * MURMUR_C1;
          k1 = push_bit MURMUR_R1 k1 OR drop_bit (32 - MURMUR_R1) k1;
          k1 = k1 * MURMUR_C2;
          hash = hash XOR k1;
          hash = (push_bit MURMUR_R2 hash OR drop_bit (32 - MURMUR_R2) hash) * MURMUR_MIX1
            + MURMUR_MIX2
      in hash_blocks n (drop 4 key) hash)"

text \<open>The \<^verbatim>\<open>switch (len & 3)\<close> with its fall-through cases.\<close>

definition hash_tail :: "nat \<Rightarrow> string \<Rightarrow> u32 \<Rightarrow> u32" where
  "hash_tail n tail hash =
     (if n = 0 then hash
      else
        let k2 = 0;
            k2 = (if n = 3 then k2 XOR push_bit 16 (schar (tail ! 2)) else k2);
            k2 = (if n = 2 \<or> n = 3 then k2 XOR push_bit 8 (schar (tail ! 1)) else k2);
            k2 = k2 XOR schar (tail ! 0);
            k2 = k2 * MURMUR_C1;
            k2 = push_bit MURMUR_R2 k2 OR drop_bit (32 - MURMUR_R1) k2;
            k2 = k2 * MURMUR_C2
        in hash XOR k2)"

definition hash_final :: "u32 \<Rightarrow> u32 \<Rightarrow> u32" where
  "hash_final len hash =
     (let hash = hash XOR len;
          hash = hash XOR drop_bit 16 hash;
          hash = hash * 0x85ebca6b;
          hash = hash XOR drop_bit 13 hash;
          hash = hash * 0xc2b2ae35
      in hash XOR drop_bit 16 hash)"

definition dict_hash_key :: "string \<Rightarrow> u32 \<Rightarrow> u32" where
  "dict_hash_key key seed =
     (let len = of_nat (length key) :: u32;
          nblocks = len div 4;
          hash = hash_blocks (unat nblocks) key seed;
          tail = drop (unat nblocks * 4) key;
          hash = hash_tail (unat (len AND 3)) tail hash
      in hash_final len hash)"

definition skiplist_hash_key :: "string \<Rightarrow> u32 \<Rightarrow> u32" where
  "skiplist_hash_key key seed =
     (let len = of_nat (length key) :: u32;
          nblocks = len div 4;
          hash = hash_blocks (unat nblocks) key seed;
          tail = drop (unat nblocks * 4) key;
          hash = hash_tail (unat (len AND 3)) tail hash
      in hash_final len hash)"

lemma skiplist_hash_key_eq: "skiplist_hash_key = dict_hash_key"
  by (simp add: fun_eq_iff dict_hash_key_def skiplist_hash_key_def)

lemmas hash_eval = dict_hash_key_def hash_final_def hash_tail_def block32_def schar_def uchar_def
  Let_def xdb_defs

text \<open>
  Keys that matter for the hashed structures: two printable keys with the same hash, and one
  whose hash is the value \<^verbatim>\<open>SKIPLIST_MAX_SIZE\<close> that marks the end of a skip list.
\<close>

lemma hash_abcdefgh: "dict_hash_key ''abcdefgh'' DICT_SEED = 0xc09422e3"
  by code_simp

lemma hash_aai6zeve: "dict_hash_key ''aai6zeve'' DICT_SEED = 0xc09422e3"
  by code_simp

lemma hash_aad5dfxz: "dict_hash_key ''aad5dfxz'' DICT_SEED = 0xFFFFFFFF"
  by code_simp

end
