(* ===== verification/DictModel.thy ===== *)
theory DictModel
  imports Hashkey
begin

text \<open>
  The hashed dictionary of \<^verbatim>\<open>storage/dict.c\<close> and \<^verbatim>\<open>include/xfiredb/dict.h\<close>: the data
  structures and every operation. Proofs are in \<open>DictProps\<close> and \<open>DictIter\<close>.

  Representation. A bucket (the chain that starts at \<^verbatim>\<open>array[i]\<close> and follows \<^verbatim>\<open>next\<close>) is
  the list of its entries in chain order; \<^verbatim>\<open>array\<close> is the list of its buckets, or
  \<^const>\<open>None\<close> for the null pointer. A pointer to an entry is its location: table, bucket and
  position. \<^verbatim>\<open>union entry_data\<close> is its 64-bit pattern; \<^verbatim>\<open>long\<close> counters are integers (they
  count live heap entries and cannot reach \<open>2^63\<close>), masks and sizes that are computed with
  bit operations are 64-bit words. A read outside an array, a read through a null array and
  a failed \<^verbatim>\<open>assert\<close> make the operation return \<^const>\<open>None\<close>. The mutex is recursive and is
  held for every access to the tables, so each operation is a sequence of atomic sections;
  \<open>DictProps\<close> interleaves them with the rehash worker.
\<close>

section \<open>Data structures (dict.h)\<close>

datatype dict_type = DICT_PTR | DICT_U64 | DICT_S64 | DICT_FLT

datatype dict_status = DICT_STATUS_NONE | DICT_STATUS_FREE

record dict_entry =
  e_key :: string
  e_value :: u64
  e_length :: u64
  e_type :: dict_type

type_synonym chain = "dict_entry list"

record dict_map =
  m_array :: "chain list option"
  m_size :: int
  m_sizemask :: u64
  m_length :: int

record dict =
  primary :: dict_map
  rehash :: dict_map
  status :: dict_status
  rehashidx :: int
  rehashing :: bool
  iterators :: int

text \<open>The two static configuration variables of \<^verbatim>\<open>dict.c\<close>.\<close>

record dict_conf =
  dict_can_expand :: int
  dict_resize_ratio :: int

definition default_conf :: dict_conf where
  "default_conf = \<lparr>dict_can_expand = 1, dict_resize_ratio = 5\<rparr>"

definition DICT_MINIMAL_SIZE :: nat where
  [xdb_defs]: "DICT_MINIMAL_SIZE = 4"

definition dict_set_can_expand :: "int \<Rightarrow> dict_conf \<Rightarrow> dict_conf" where
  "dict_set_can_expand x g = g\<lparr>dict_can_expand := (if x \<noteq> 0 then 1 else 0)\<rparr>"

definition dict_set_resize_ratio :: "int \<Rightarrow> dict_conf \<Rightarrow> dict_conf" where
  "dict_set_resize_ratio r g = (if r < 0 then g else g\<lparr>dict_resize_ratio := r\<rparr>)"

text \<open>Locations of entries, and access to tables and buckets.\<close>

type_synonym entry_loc = "nat \<times> nat \<times> nat"

definition dict_table :: "nat \<Rightarrow> dict \<Rightarrow> dict_map" where
  "dict_table t d = (if t = 0 then primary d else rehash d)"

definition set_table :: "nat \<Rightarrow> dict_map \<Rightarrow> dict \<Rightarrow> dict" where
  "set_table t m d = (if t = 0 then d\<lparr>primary := m\<rparr> else d\<lparr>rehash := m\<rparr>)"

definition bucket :: "dict_map \<Rightarrow> int \<Rightarrow> chain option" where
  "bucket m i =
     (case m_array m of
        None \<Rightarrow> None
      | Some bs \<Rightarrow> if 0 \<le> i \<and> nat i < length bs then Some (bs ! nat i) else None)"

definition set_bucket :: "int \<Rightarrow> chain \<Rightarrow> dict_map \<Rightarrow> dict_map" where
  "set_bucket i ch m = m\<lparr>m_array := map_option (\<lambda>bs. bs[nat i := ch]) (m_array m)\<rparr>"

section \<open>Construction and small helpers\<close>

definition dict_reset :: dict_map where
  "dict_reset = \<lparr>m_array = None, m_size = 0, m_sizemask = 0, m_length = 0\<rparr>"

text \<open>\<^verbatim>\<open>xfiredb_zalloc(n * PTR_SIZE)\<close>: a block of null pointers, the null pointer for no bytes.\<close>

definition zalloc_ptrs :: "u64 \<Rightarrow> chain list option" where
  "zalloc_ptrs n =
     (let bytes = n * 8 in if bytes = 0 then None else Some (replicate (unat bytes div 8) []))"

definition dict_alloc :: dict where
  "dict_alloc =
     \<lparr>primary = \<lparr>m_array = zalloc_ptrs (of_nat DICT_MINIMAL_SIZE),
                 m_size = int DICT_MINIMAL_SIZE,
                 m_sizemask = of_nat DICT_MINIMAL_SIZE - 1,
                 m_length = 0\<rparr>,
      rehash = \<lparr>m_array = None, m_size = 0, m_sizemask = 0, m_length = 0\<rparr>,
      status = DICT_STATUS_NONE, rehashidx = 0, rehashing = False, iterators = 0\<rparr>"

definition dict_get_size :: "dict \<Rightarrow> int" where
  "dict_get_size d = 0 + m_length (primary d) + m_length (rehash d)"

definition dict_has_iterators :: "dict \<Rightarrow> bool" where
  "dict_has_iterators d \<longleftrightarrow> iterators d \<noteq> 0"

text \<open>
  \<^verbatim>\<open>data\<close> is a pointer; for the numeric types the eight bytes it points to are read, which
  is the parameter \<open>mem\<close>. The field \<^verbatim>\<open>type\<close> of the entry is not written.
\<close>

definition dict_set_val :: "(ptr \<Rightarrow> u64) \<Rightarrow> dict_entry \<Rightarrow> ptr \<Rightarrow> dict_type \<Rightarrow> dict_entry" where
  "dict_set_val mem e data t =
     (case t of
        DICT_PTR \<Rightarrow> e\<lparr>e_value := data\<rparr>
      | DICT_U64 \<Rightarrow> e\<lparr>e_value := mem data\<rparr>
      | DICT_S64 \<Rightarrow> e\<lparr>e_value := mem data\<rparr>
      | DICT_FLT \<Rightarrow> e\<lparr>e_value := mem data\<rparr>)"

definition dict_get_entry_length :: "dict_type \<Rightarrow> u64" where
  "dict_get_entry_length t =
     (case t of DICT_PTR \<Rightarrow> 8 | DICT_U64 \<Rightarrow> 8 | DICT_S64 \<Rightarrow> 8 | DICT_FLT \<Rightarrow> 8)"

text \<open>The bucket index: \<^verbatim>\<open>hash & sizemask\<close> stored in a \<^verbatim>\<open>u32\<close>.\<close>

definition key_idx :: "u64 \<Rightarrow> string \<Rightarrow> u32" where
  "key_idx msk key = ucast ((ucast (dict_hash_key key DICT_SEED) :: u64) AND msk)"

section \<open>Rehashing\<close>

text \<open>The inner loop of \<^verbatim>\<open>dict_rehash\<close>: move the entries of one chain to the new table.\<close>

primrec rehash_chain :: "chain \<Rightarrow> dict \<Rightarrow> dict option" where
  "rehash_chain [] d = Some d"
| "rehash_chain (de # rest) d =
     (let idx = uint (key_idx (m_sizemask (rehash d)) (e_key de)) in
      case bucket (rehash d) idx of
        None \<Rightarrow> None
      | Some b \<Rightarrow>
          rehash_chain rest
            (d\<lparr>rehash := (set_bucket idx (de # b) (rehash d))\<lparr>m_length := m_length (rehash d) + 1\<rparr>,
               primary := (primary d)\<lparr>m_length := m_length (primary d) - 1\<rparr>\<rparr>))"

text \<open>
  The loop over empty buckets: \<^verbatim>\<open>visits\<close> counts down and the function returns 1 when it
  reaches zero. The result is \<^const>\<open>None\<close> in the second component in that case, and the
  remaining visits when a non-empty bucket was found.
\<close>

primrec rehash_skip :: "nat \<Rightarrow> dict \<Rightarrow> (dict \<times> nat option) option" where
  "rehash_skip 0 d = None"
| "rehash_skip (Suc visits) d =
     (case bucket (primary d) (rehashidx d) of
        None \<Rightarrow> None
      | Some [] \<Rightarrow>
          (let d' = d\<lparr>rehashidx := rehashidx d + 1\<rparr>
           in if visits = 0 then Some (d', None) else rehash_skip visits d')
      | Some (_ # _) \<Rightarrow> Some (d, Some (Suc visits)))"

definition rehash_finish :: "dict \<Rightarrow> dict" where
  "rehash_finish d =
     d\<lparr>primary := rehash d, rehash := dict_reset, rehashidx := -1, rehashing := False\<rparr>"

primrec rehash_loop :: "nat \<Rightarrow> nat \<Rightarrow> dict \<Rightarrow> (int \<times> dict) option" where
  "rehash_loop 0 visits d = Some (1, d)"
| "rehash_loop (Suc num) visits d =
     (if \<not> m_length (primary d) > 0 then Some (1, d)
      else if \<not> m_size (primary d) > rehashidx d then None
      else case rehash_skip visits d of
        None \<Rightarrow> None
      | Some (d1, None) \<Rightarrow> Some (1, d1)
      | Some (d1, Some visits1) \<Rightarrow>
          (case bucket (primary d1) (rehashidx d1) of
             None \<Rightarrow> None
           | Some ch \<Rightarrow>
               (case rehash_chain ch d1 of
                  None \<Rightarrow> None
                | Some d2 \<Rightarrow>
                    (let d3 = d2\<lparr>primary := set_bucket (rehashidx d2) [] (primary d2),
                                 rehashidx := rehashidx d2 + 1\<rparr>
                     in if m_length (primary d3) = 0 then Some (0, rehash_finish d3)
                        else rehash_loop num visits1 d3))))"

definition dict_rehash :: "dict \<Rightarrow> nat \<Rightarrow> (int \<times> dict) option" where
  "dict_rehash d num =
     (if \<not> rehashing d then Some (0, d) else rehash_loop num (num * 10) d)"

definition dict_rehash_step :: "dict \<Rightarrow> dict option" where
  "dict_rehash_step d =
     (if \<not> dict_has_iterators d then map_option snd (dict_rehash d 1) else Some d)"

text \<open>
  \<^verbatim>\<open>dict_rehash_ms\<close>: the successive values of the millisecond clock are the argument
  \<open>clock\<close>; the result is \<^const>\<open>None\<close> when they run out before the loop ends.
\<close>

fun rehash_ms_loop :: "int list \<Rightarrow> int \<Rightarrow> int \<Rightarrow> int \<Rightarrow> dict \<Rightarrow> (int \<times> dict) option" where
  "rehash_ms_loop clock start ms num d =
     (case dict_rehash d 100 of
        None \<Rightarrow> None
      | Some (rc, d') \<Rightarrow>
          if rc = 0 then Some (num, d')
          else (case clock of
            [] \<Rightarrow> None
          | now # clock' \<Rightarrow>
              if now - start > ms then Some (num + 100, d')
              else rehash_ms_loop clock' start ms (num + 100) d'))"

declare rehash_ms_loop.simps [simp del]

definition dict_rehash_ms :: "int list \<Rightarrow> dict \<Rightarrow> int \<Rightarrow> (int \<times> dict) option" where
  "dict_rehash_ms clock d ms =
     (case clock of [] \<Rightarrow> None | start # rest \<Rightarrow> rehash_ms_loop rest start ms 0 d)"

section \<open>Growing\<close>

definition LONG_MAX :: u64 where
  [xdb_defs]: "LONG_MAX = 0x7FFFFFFFFFFFFFFF"

definition dict_real_size :: "u64 \<Rightarrow> u64" where
  "dict_real_size n =
     (if n \<ge> LONG_MAX then LONG_MAX
      else
        let n = n - 1;
            n = n OR drop_bit 1 n;
            n = n OR drop_bit 2 n;
            n = n OR drop_bit 4 n;
            n = n OR drop_bit 8 n;
            n = n OR drop_bit 16 n;
            n = n OR drop_bit 32 n
        in n + 1)"

definition dict_expand :: "dict \<Rightarrow> u64 \<Rightarrow> int \<times> dict" where
  "dict_expand d n =
     (let rsize = dict_real_size n in
      if rehashing d \<or> of_int (m_length (primary d)) > n then (- XFIREDB_ERR, d)
      else if of_int (m_size (primary d)) = rsize then (- XFIREDB_ERR, d)
      else
        let m = \<lparr>m_array = zalloc_ptrs rsize, m_size = sint rsize, m_sizemask = rsize - 1,
                 m_length = 0\<rparr>
        in if m_array (primary d) = None then (- XFIREDB_OK, d\<lparr>primary := m\<rparr>)
           else (- XFIREDB_OK, d\<lparr>rehash := m, rehashidx := 0, rehashing := True\<rparr>))"

definition dict_should_expand :: "dict_conf \<Rightarrow> dict \<Rightarrow> bool" where
  "dict_should_expand g d \<longleftrightarrow>
     m_length (primary d) \<ge> m_size (primary d) \<and>
     (dict_can_expand g \<noteq> 0 \<or>
      m_length (primary d) div m_size (primary d) < dict_resize_ratio g)"

definition dict_expand_if :: "dict_conf \<Rightarrow> dict \<Rightarrow> int \<times> dict" where
  "dict_expand_if g d =
     (if rehashing d then (- XFIREDB_OK, d)
      else if m_size (primary d) = 0 then dict_expand d (of_nat DICT_MINIMAL_SIZE)
      else if dict_should_expand g d then dict_expand d (of_int (m_length (primary d) * 2))
      else (- XFIREDB_OK, d))"

section \<open>Adding\<close>

definition chain_has :: "string \<Rightarrow> chain \<Rightarrow> bool" where
  "chain_has key ch \<longleftrightarrow> list_ex (\<lambda>de. e_key de = key) ch"

definition dict_calc_index :: "dict_conf \<Rightarrow> dict \<Rightarrow> string \<Rightarrow> (int \<times> dict) option" where
  "dict_calc_index g d key =
     (case dict_expand_if g d of (rc, d) \<Rightarrow>
      if rc = -1 then Some (- XFIREDB_ERR, d)
      else
        let idx = key_idx (m_sizemask (primary d)) key in
        case bucket (primary d) (uint idx) of
          None \<Rightarrow> None
        | Some ch \<Rightarrow>
            if chain_has key ch then Some (- XFIREDB_ERR, d)
            else if \<not> rehashing d then Some (sint idx, d)
            else
              let idx = key_idx (m_sizemask (rehash d)) key in
              (case bucket (rehash d) (uint idx) of
                 None \<Rightarrow> None
               | Some ch \<Rightarrow>
                   if chain_has key ch then Some (- XFIREDB_ERR, d) else Some (sint idx, d)))"

definition new_entry :: "string \<Rightarrow> dict_entry" where
  "new_entry key = \<lparr>e_key = key, e_value = 0, e_length = 0, e_type = DICT_PTR\<rparr>"

definition dict_add_entry :: "dict_conf \<Rightarrow> dict \<Rightarrow> string \<Rightarrow> (entry_loc option \<times> dict) option"
  where
  "dict_add_entry g d key =
     (case (if rehashing d then dict_rehash_step d else Some d) of
        None \<Rightarrow> None
      | Some d \<Rightarrow>
          (case dict_calc_index g d key of
             None \<Rightarrow> None
           | Some (index, d) \<Rightarrow>
               if index = - XFIREDB_ERR then Some (None, d)
               else
                 let t = (if rehashing d then 1 else 0); m = dict_table t d in
                 (case bucket m index of
                    None \<Rightarrow> None
                  | Some ch \<Rightarrow>
                      Some (Some (t, nat index, 0),
                        set_table t
                          ((set_bucket index (new_entry key # ch) m)\<lparr>m_length := m_length m + 1\<rparr>)
                          d))))"

text \<open>Writing through an entry pointer.\<close>

definition upd_entry :: "entry_loc \<Rightarrow> (dict_entry \<Rightarrow> dict_entry) \<Rightarrow> dict \<Rightarrow> dict" where
  "upd_entry loc f d =
     (case loc of (t, i, pos) \<Rightarrow>
      case bucket (dict_table t d) (int i) of
        None \<Rightarrow> d
      | Some ch \<Rightarrow>
          set_table t (set_bucket (int i) (ch[pos := f (ch ! pos)]) (dict_table t d)) d)"

definition raw_dict_add ::
  "dict_conf \<Rightarrow> (ptr \<Rightarrow> u64) \<Rightarrow> dict \<Rightarrow> string \<Rightarrow> ptr \<Rightarrow> dict_type \<Rightarrow> u64 \<Rightarrow> (int \<times> dict) option" where
  "raw_dict_add g mem d key data t len =
     (case dict_add_entry g d key of
        None \<Rightarrow> None
      | Some (None, d) \<Rightarrow> Some (- XFIREDB_ERR, d)
      | Some (Some e, d) \<Rightarrow>
          Some (- XFIREDB_OK,
            upd_entry e (\<lambda>e. (dict_set_val mem e data t)\<lparr>e_length := len\<rparr>) d))"

definition dict_add ::
  "dict_conf \<Rightarrow> (ptr \<Rightarrow> u64) \<Rightarrow> dict \<Rightarrow> string \<Rightarrow> ptr \<Rightarrow> dict_type \<Rightarrow> (int \<times> dict) option" where
  "dict_add g mem d key data t = raw_dict_add g mem d key data t (dict_get_entry_length t)"

section \<open>Deleting\<close>

text \<open>Unlink the first entry of a chain with the key.\<close>

fun unlink :: "string \<Rightarrow> chain \<Rightarrow> (dict_entry \<times> chain) option" where
  "unlink key [] = None"
| "unlink key (e # ch) =
     (if e_key e = key then Some (e, ch)
      else map_option (\<lambda>(x, ch'). (x, e # ch')) (unlink key ch))"

definition delete_in :: "nat \<Rightarrow> string \<Rightarrow> dict \<Rightarrow> (dict_entry option \<times> dict) option" where
  "delete_in t key d =
     (let m = dict_table t d; idx = uint (key_idx (m_sizemask m) key) in
      case bucket m idx of
        None \<Rightarrow> None
      | Some ch \<Rightarrow>
          (case unlink key ch of
             None \<Rightarrow> Some (None, d)
           | Some (e, ch') \<Rightarrow>
               Some (Some e,
                 set_table t ((set_bucket idx ch' m)\<lparr>m_length := m_length m - 1\<rparr>) d)))"

definition dict_delete_entry :: "dict \<Rightarrow> string \<Rightarrow> (dict_entry option \<times> dict) option" where
  "dict_delete_entry d key =
     (case (if rehashing d then dict_rehash_step d else Some d) of
        None \<Rightarrow> None
      | Some d \<Rightarrow>
          if m_size (primary d) = 0 then Some (None, d)
          else
            (case delete_in 0 key d of
               None \<Rightarrow> None
             | Some (Some e, d) \<Rightarrow> Some (Some e, d)
             | Some (None, d) \<Rightarrow>
                 if \<not> rehashing d then Some (None, d) else delete_in 1 key d))"

text \<open>
  \<^verbatim>\<open>dict_delete\<close>: result code, the value stored through \<^verbatim>\<open>data\<close> (when \<^verbatim>\<open>free\<close> is false
  and an entry was removed), and the dictionary. A missing key argument is the null pointer.
\<close>

definition dict_delete :: "dict \<Rightarrow> string option \<Rightarrow> bool \<Rightarrow> (int \<times> u64 option \<times> dict) option" where
  "dict_delete d key free =
     (case key of
        None \<Rightarrow> Some (- XFIREDB_ERR, None, d)
      | Some key \<Rightarrow>
          (case dict_delete_entry d key of
             None \<Rightarrow> None
           | Some (Some e, d) \<Rightarrow>
               Some (- XFIREDB_OK, (if free then None else Some (e_value e)), d)
           | Some (None, d) \<Rightarrow> Some (- XFIREDB_ERR, None, d)))"

section \<open>Looking up and updating\<close>

primrec chain_find :: "string \<Rightarrow> chain \<Rightarrow> nat option" where
  "chain_find key [] = None"
| "chain_find key (e # ch) =
     (if e_key e = key then Some 0 else map_option Suc (chain_find key ch))"

definition lookup_in :: "nat \<Rightarrow> string \<Rightarrow> dict \<Rightarrow> entry_loc option option" where
  "lookup_in t key d =
     (let m = dict_table t d; idx = uint (key_idx (m_sizemask m) key) in
      case bucket m idx of
        None \<Rightarrow> None
      | Some ch \<Rightarrow> Some (map_option (\<lambda>pos. (t, nat idx, pos)) (chain_find key ch)))"

definition dict_lookup_entry :: "dict \<Rightarrow> string \<Rightarrow> (entry_loc option \<times> dict) option" where
  "dict_lookup_entry d key =
     (case (if rehashing d then dict_rehash_step d else Some d) of
        None \<Rightarrow> None
      | Some d \<Rightarrow>
          if m_size (primary d) = 0 then Some (None, d)
          else
            (case lookup_in 0 key d of
               None \<Rightarrow> None
             | Some (Some e) \<Rightarrow> Some (Some e, d)
             | Some None \<Rightarrow>
                 if \<not> rehashing d then Some (None, d)
                 else (case lookup_in 1 key d of None \<Rightarrow> None | Some e \<Rightarrow> Some (e, d))))"

definition entry_at :: "dict \<Rightarrow> entry_loc \<Rightarrow> dict_entry option" where
  "entry_at d loc =
     (case loc of (t, i, pos) \<Rightarrow>
      case bucket (dict_table t d) (int i) of
        None \<Rightarrow> None
      | Some ch \<Rightarrow> if pos < length ch then Some (ch ! pos) else None)"

definition dict_lookup :: "dict \<Rightarrow> string option \<Rightarrow> (int \<times> (u64 \<times> u64) option \<times> dict) option" where
  "dict_lookup d key =
     (case key of
        None \<Rightarrow> Some (- XFIREDB_ERR, None, d)
      | Some key \<Rightarrow>
          (case dict_lookup_entry d key of
             None \<Rightarrow> None
           | Some (None, d) \<Rightarrow> Some (- XFIREDB_ERR, None, d)
           | Some (Some loc, d) \<Rightarrow>
               (case entry_at d loc of
                  None \<Rightarrow> None
                | Some e \<Rightarrow> Some (- XFIREDB_OK, Some (e_value e, e_length e), d))))"

definition dict_key_available :: "dict \<Rightarrow> string option \<Rightarrow> (bool \<times> dict) option" where
  "dict_key_available d key =
     (case dict_lookup d key of None \<Rightarrow> None | Some (found, _, d) \<Rightarrow> Some (found = - XFIREDB_OK, d))"

definition raw_dict_update ::
  "dict_conf \<Rightarrow> (ptr \<Rightarrow> u64) \<Rightarrow> dict \<Rightarrow> string \<Rightarrow> ptr \<Rightarrow> dict_type \<Rightarrow> u64 \<Rightarrow> (int \<times> dict) option" where
  "raw_dict_update g mem d key data type l =
     (case dict_lookup_entry d key of
        None \<Rightarrow> None
      | Some (None, d) \<Rightarrow> dict_add g mem d key data type
      | Some (Some e, d) \<Rightarrow>
          Some (- XFIREDB_OK,
            upd_entry e (\<lambda>e. (dict_set_val mem e data type)\<lparr>e_length := l\<rparr>) d))"

definition dict_update ::
  "dict_conf \<Rightarrow> (ptr \<Rightarrow> u64) \<Rightarrow> dict \<Rightarrow> string \<Rightarrow> ptr \<Rightarrow> dict_type \<Rightarrow> (int \<times> dict) option" where
  "dict_update g mem d key data type =
     raw_dict_update g mem d key data type (dict_get_entry_length type)"

section \<open>Clearing\<close>

text \<open>
  \<^verbatim>\<open>__dict_clear\<close> on one table: the loop frees the entries bucket by bucket while
  \<^verbatim>\<open>length > 0\<close>; the result is the list of freed entries. Then the table is reset.
\<close>

primrec clear_loop :: "nat \<Rightarrow> int \<Rightarrow> dict_map \<Rightarrow> (dict_entry list \<times> dict_map) option" where
  "clear_loop 0 i m = Some ([], m)"
| "clear_loop (Suc n) i m =
     (if \<not> m_length m > 0 then Some ([], m)
      else case bucket m i of
        None \<Rightarrow> None
      | Some ch \<Rightarrow>
          (case clear_loop n (i + 1) (m\<lparr>m_length := m_length m - int (length ch)\<rparr>) of
             None \<Rightarrow> None
           | Some (freed, m') \<Rightarrow> Some (ch @ freed, m')))"

definition dict_clear_map :: "dict_map \<Rightarrow> (dict_entry list \<times> dict_map) option" where
  "dict_clear_map m =
     (case clear_loop (nat (m_size m)) 0 m of
        None \<Rightarrow> None
      | Some (freed, _) \<Rightarrow> Some (freed, dict_reset))"

definition dict_clear :: "dict \<Rightarrow> (int \<times> dict_entry list \<times> dict) option" where
  "dict_clear d =
     (case dict_clear_map (primary d) of
        None \<Rightarrow> None
      | Some (f1, m1) \<Rightarrow>
          (case dict_clear_map (rehash d) of
             None \<Rightarrow> None
           | Some (f2, m2) \<Rightarrow>
               Some (- XFIREDB_OK, f1 @ f2,
                 d\<lparr>primary := m1, rehash := m2, rehashidx := -1, rehashing := False\<rparr>)))"

section \<open>The rehash worker and destruction\<close>

text \<open>
  One turn of the loop of \<^verbatim>\<open>dict_rehash_worker\<close>, from the moment the thread holds the mutex
  and does not wait: the boolean says that the thread leaves the loop.
\<close>

definition dict_rehash_worker :: "int list \<Rightarrow> dict \<Rightarrow> (bool \<times> dict) option" where
  "dict_rehash_worker clock d =
     (if status d = DICT_STATUS_FREE then Some (True, d)
      else map_option (\<lambda>(num, d'). (False, d')) (dict_rehash_ms clock d 2))"

text \<open>\<^verbatim>\<open>dict_free\<close>: the arrays that are released, and the state the worker then sees.\<close>

definition dict_free :: "dict \<Rightarrow> chain list list \<times> dict" where
  "dict_free d =
     ((case m_array (rehash d) of None \<Rightarrow> [] | Some a \<Rightarrow> [a]) @
      (case m_array (primary d) of None \<Rightarrow> [] | Some a \<Rightarrow> [a]),
      d\<lparr>status := DICT_STATUS_FREE\<rparr>)"

end
