(* ===== verification/DictInv.thy ===== *)
theory DictInv
  imports DictModel "HOL-Library.Multiset"
begin

text \<open>
  The representation invariant of the dictionary and the lemmas about one hash table and about
  the incremental rehash of \<^verbatim>\<open>storage/dict.c\<close>. \<open>map_ok\<close> is the invariant of one table,
  \<open>dict_ok\<close> that of the dictionary, \<open>dmap\<close> the finite map a dictionary stands for.
\<close>

section \<open>The invariant\<close>

definition entries_of :: "dict_map \<Rightarrow> dict_entry list" where
  "entries_of m = (case m_array m of None \<Rightarrow> [] | Some bs \<Rightarrow> concat bs)"

definition entries :: "dict \<Rightarrow> dict_entry list" where
  "entries d = entries_of (primary d) @ entries_of (rehash d)"

definition hidx :: "dict_map \<Rightarrow> string \<Rightarrow> nat" where
  "hidx m key = unat (key_idx (m_sizemask m) key)"

definition table_size :: "dict_map \<Rightarrow> nat \<Rightarrow> nat \<Rightarrow> bool" where
  "table_size m n k \<longleftrightarrow> k \<le> 31 \<and> n = 2 ^ k \<and> m_size m = 2 ^ k \<and> m_sizemask m = mask k"

definition map_ok :: "dict_map \<Rightarrow> bool" where
  "map_ok m \<longleftrightarrow>
     (case m_array m of
        None \<Rightarrow> m_size m = 0 \<and> m_sizemask m = 0 \<and> m_length m = 0
      | Some bs \<Rightarrow>
          (\<exists>k. table_size m (length bs) k) \<and> m_length m = int (length (concat bs)) \<and>
          (\<forall>i < length bs. \<forall>e \<in> set (bs ! i). hidx m (e_key e) = i))"

definition dict_ok :: "dict \<Rightarrow> bool" where
  "dict_ok d \<longleftrightarrow>
     map_ok (primary d) \<and> map_ok (rehash d) \<and> distinct (map e_key (entries d)) \<and>
     (if rehashing d then
        (\<exists>bs. m_array (primary d) = Some bs \<and> 0 \<le> rehashidx d \<and>
              rehashidx d \<le> int (length bs) \<and>
              (\<forall>i < nat (rehashidx d). bs ! i = [])) \<and>
        m_array (rehash d) \<noteq> None
      else m_array (rehash d) = None)"

text \<open>The finite map a dictionary stands for: key to value word and stored length.\<close>

definition entry_pair :: "dict_entry \<Rightarrow> string \<times> u64 \<times> u64" where
  "entry_pair e = (e_key e, e_value e, e_length e)"

definition dmap :: "dict \<Rightarrow> string \<rightharpoonup> (u64 \<times> u64)" where
  "dmap d = map_of (map entry_pair (entries d))"

section \<open>One table\<close>

lemma unat_key_idx:
  "k \<le> 31 \<Longrightarrow> unat (key_idx (mask k) key) = unat (dict_hash_key key DICT_SEED) mod 2 ^ k"
  by (simp add: key_idx_def take_bit_eq_mask [symmetric] unsigned_take_bit_eq
      unsigned_ucast_eq take_bit_take_bit take_bit_eq_mod min_def flip: take_bit_eq_mod)

lemma hidx_less: "map_ok m \<Longrightarrow> m_array m = Some bs \<Longrightarrow> hidx m key < length bs"
  by (auto simp: map_ok_def table_size_def hidx_def unat_key_idx)

lemma hidx_small: "map_ok m \<Longrightarrow> m_array m = Some bs \<Longrightarrow> hidx m key < 2 ^ 31"
proof -
  assume a: "map_ok m" "m_array m = Some bs"
  then obtain k where "k \<le> 31" "length bs = 2 ^ k"
    by (auto simp: map_ok_def table_size_def)
  then have "length bs \<le> 2 ^ 31"
    using power_increasing [of k 31 "2::nat"] by simp
  then show ?thesis
    using hidx_less [OF a, of key] by linarith
qed

lemma uint_key_idx: "uint (key_idx (m_sizemask m) key) = int (hidx m key)"
  by (simp add: hidx_def)

lemma sint_key_idx:
  "map_ok m \<Longrightarrow> m_array m = Some bs \<Longrightarrow> sint (key_idx (m_sizemask m) key) = int (hidx m key)"
  using hidx_small [of m bs key]
  by (simp add: sint_uint uint_key_idx signed_take_bit_int_eq_self)

lemma bucket_hidx:
  "map_ok m \<Longrightarrow> m_array m = Some bs \<Longrightarrow>
   bucket m (int (hidx m key)) = Some (bs ! hidx m key)"
  by (simp add: bucket_def hidx_less)

lemma bucket_Some_iff:
  "bucket m i = Some ch \<longleftrightarrow>
   (\<exists>bs. m_array m = Some bs \<and> 0 \<le> i \<and> nat i < length bs \<and> ch = bs ! nat i)"
  by (auto simp: bucket_def split: option.splits)

lemma bucket_mem: "bucket m i = Some ch \<Longrightarrow> set ch \<subseteq> set (entries_of m)"
  by (auto simp: bucket_Some_iff entries_of_def intro!: bexI [OF _ nth_mem])

text \<open>All entries with a given key are in the bucket of that key.\<close>

lemma key_in_bucket:
  assumes "map_ok m" "bucket m (int (hidx m key)) = Some ch"
    and "e \<in> set (entries_of m)" "e_key e = key"
  shows "e \<in> set ch"
proof -
  obtain bs where bs: "m_array m = Some bs" "ch = bs ! hidx m key"
    using assms(2) by (auto simp: bucket_Some_iff)
  then obtain b where "b \<in> set bs" "e \<in> set b"
    using assms(3) by (auto simp: entries_of_def)
  then obtain i where "i < length bs" "e \<in> set (bs ! i)"
    by (metis in_set_conv_nth)
  then show ?thesis
    using assms(1,4) bs by (auto simp: map_ok_def)
qed

text \<open>Replacing a bucket by another one whose entries belong there.\<close>

definition put_bucket :: "int \<Rightarrow> chain \<Rightarrow> chain \<Rightarrow> dict_map \<Rightarrow> dict_map" where
  "put_bucket i ch ch' m =
     (set_bucket i ch' m)\<lparr>m_length := m_length m + int (length ch') - int (length ch)\<rparr>"

lemma put_bucket_sel [simp]:
  "m_size (put_bucket i ch ch' m) = m_size m"
  "m_sizemask (put_bucket i ch ch' m) = m_sizemask m"
  "m_array (put_bucket i ch ch' m) = map_option (\<lambda>bs. bs[nat i := ch']) (m_array m)"
  "m_length (put_bucket i ch ch' m) = m_length m + int (length ch') - int (length ch)"
  "hidx (put_bucket i ch ch' m) = hidx m"
  by (simp_all add: put_bucket_def set_bucket_def hidx_def fun_eq_iff)

lemma put_bucket_mset:
  assumes "bucket m i = Some ch"
  shows "mset (entries_of (put_bucket i ch ch' m)) + mset ch = mset (entries_of m) + mset ch'"
proof -
  obtain bs where bs: "m_array m = Some bs" "nat i < length bs" "ch = bs ! nat i"
    using assms by (auto simp: bucket_Some_iff)
  then show ?thesis
    by (simp add: entries_of_def concat_list_update concat_split_nth [OF bs(2)])
qed

lemma put_bucket_ok:
  assumes ok: "map_ok m" and b: "bucket m i = Some ch"
    and mem: "\<And>e. e \<in> set ch' \<Longrightarrow> int (hidx m (e_key e)) = i"
  shows "map_ok (put_bucket i ch ch' m)"
proof -
  obtain bs where bs: "m_array m = Some bs" "0 \<le> i" "nat i < length bs" "ch = bs ! nat i"
    using b by (auto simp: bucket_Some_iff)
  have len: "int (length (concat (bs[nat i := ch']))) =
      int (length (concat bs)) + int (length ch') - int (length ch)"
    using bs by (simp add: concat_list_update concat_split_nth [OF bs(3)])
  have "\<exists>k. table_size (put_bucket i ch ch' m) (length (bs[nat i := ch'])) k"
    using ok bs by (auto simp: map_ok_def table_size_def)
  moreover have "hidx m (e_key e) = j"
    if "j < length bs" "e \<in> set (bs[nat i := ch'] ! j)" for j e
    using that ok bs mem [of e] by (cases "j = nat i") (auto simp: map_ok_def)
  ultimately show ?thesis
    using ok bs len by (auto simp: map_ok_def)
qed

lemma bucket_hidx_eq:
  assumes "map_ok m" "bucket m i = Some ch" "e \<in> set ch"
  shows "int (hidx m (e_key e)) = i"
  using assms by (auto simp: bucket_Some_iff map_ok_def)

lemma entries_of_None: "m_array m = None \<Longrightarrow> entries_of m = []"
  by (simp add: entries_of_def)

lemma map_ok_length: "map_ok m \<Longrightarrow> m_length m = int (length (entries_of m))"
  by (auto simp: map_ok_def entries_of_def split: option.splits)

lemma map_ok_size: "map_ok m \<Longrightarrow> m_array m = Some bs \<Longrightarrow> m_size m = int (length bs)"
  by (auto simp: map_ok_def table_size_def)

lemma map_ok_size_0: "map_ok m \<Longrightarrow> m_size m = 0 \<longleftrightarrow> m_array m = None"
  by (auto simp: map_ok_def table_size_def split: option.splits)

lemma map_ok_reset [simp]: "map_ok dict_reset" "entries_of dict_reset = []" "m_array dict_reset = None"
  by (simp_all add: map_ok_def dict_reset_def entries_of_def)

section \<open>The finite map depends on the multiset of entries only\<close>

lemma map_of_mset:
  assumes "mset xs = mset ys" "distinct (map fst xs)"
  shows "map_of xs = map_of ys"
proof -
  have "mset (map fst xs) = mset (map fst ys)"
    using assms(1) by simp
  then have "distinct (map fst ys)"
    using assms(2) mset_eq_imp_distinct_iff by blast
  then show ?thesis
    using assms mset_eq_setD [OF assms(1)] by (simp add: map_of_inject_set)
qed

lemma fst_entry_pair [simp]: "fst (entry_pair e) = e_key e" "map (fst \<circ> entry_pair) xs = map e_key xs"
  by (simp_all add: entry_pair_def)

lemma dmap_cong:
  assumes "mset (entries d) = mset (entries d')" "distinct (map e_key (entries d))"
  shows "dmap d = dmap d'"
  unfolding dmap_def by (rule map_of_mset) (use assms in simp_all)

lemma distinct_keys_cong:
  "mset (entries d) = mset (entries d') \<Longrightarrow>
   distinct (map e_key (entries d)) = distinct (map e_key (entries d'))"
  using mset_eq_imp_distinct_iff mset_map by metis

lemma dmap_dom: "key \<in> dom (dmap d) \<longleftrightarrow> key \<in> e_key ` set (entries d)"
  by (simp add: dmap_def dom_map_of_conv_image_fst image_image)

lemma dmap_SomeI:
  assumes "distinct (map e_key (entries d))" "e \<in> set (entries d)"
  shows "dmap d (e_key e) = Some (e_value e, e_length e)"
  unfolding dmap_def
  by (rule map_of_is_SomeI) (use assms in \<open>auto simp: entry_pair_def intro!: image_eqI [of _ _ e]\<close>)

section \<open>Rehashing\<close>

lemma rehash_chain_ok:
  assumes "map_ok (rehash d)" "m_array (rehash d) \<noteq> None"
  shows "\<exists>m'. rehash_chain ch d =
             Some (d\<lparr>rehash := m',
                     primary := (primary d)\<lparr>m_length := m_length (primary d) - int (length ch)\<rparr>\<rparr>) \<and>
           map_ok m' \<and> m_array m' \<noteq> None \<and>
           mset (entries_of m') = mset (entries_of (rehash d)) + mset ch"
  using assms
proof (induction ch arbitrary: d)
  case Nil
  then show ?case
    by (auto intro: exI [of _ "rehash d"])
next
  case (Cons de ch)
  let ?m = "rehash d" and ?i = "int (hidx (rehash d) (e_key de))"
  obtain bs where bs: "m_array ?m = Some bs"
    using Cons.prems by auto
  then have b: "bucket ?m ?i = Some (bs ! hidx ?m (e_key de))" (is "_ = Some ?b")
    using Cons.prems by (simp add: bucket_hidx)
  let ?m1 = "put_bucket ?i ?b (de # ?b) ?m"
  let ?d1 = "d\<lparr>rehash := ?m1, primary := (primary d)\<lparr>m_length := m_length (primary d) - 1\<rparr>\<rparr>"
  have "map_ok ?m1"
    using Cons.prems b bucket_hidx_eq [OF _ b] by (intro put_bucket_ok) auto
  then obtain m' where m': "rehash_chain ch ?d1 = Some (?d1\<lparr>rehash := m', primary :=
        (primary ?d1)\<lparr>m_length := m_length (primary ?d1) - int (length ch)\<rparr>\<rparr>)"
      "map_ok m'" "m_array m' \<noteq> None" "mset (entries_of m') = mset (entries_of ?m1) + mset ch"
    using Cons.IH [of ?d1] bs by auto
  have "mset (entries_of ?m1) = mset (entries_of ?m) + {#de#}"
    using put_bucket_mset [OF b, of "de # ?b"] by simp
  moreover have "rehash_chain (de # ch) d = rehash_chain ch ?d1"
    using b by (simp add: uint_key_idx put_bucket_def)
  ultimately show ?case
    using m' by (intro exI [of _ m']) (simp add: algebra_simps)
qed

lemma rehash_skip_ok:
  assumes "m_array (primary d) = Some bs" "0 \<le> rehashidx d" "rehashidx d \<le> int i"
    and "i < length bs" "bs ! i \<noteq> []" "0 < visits"
  shows "\<exists>j r. rehash_skip visits d = Some (d\<lparr>rehashidx := j\<rparr>, r) \<and>
           rehashidx d \<le> j \<and> j \<le> int i \<and> (\<forall>x. rehashidx d \<le> int x \<and> int x < j \<longrightarrow> bs ! x = []) \<and>
           (case r of None \<Rightarrow> rehashidx d < j \<and> int visits = j - rehashidx d
            | Some v \<Rightarrow> bs ! nat j \<noteq> [] \<and> 0 < v \<and> int v + (j - rehashidx d) = int visits)"
  using assms
proof (induction visits arbitrary: d)
  case (Suc visits)
  let ?j = "nat (rehashidx d)"
  have b: "bucket (primary d) (rehashidx d) = Some (bs ! ?j)"
    using Suc.prems by (simp add: bucket_def)
  show ?case
  proof (cases "bs ! ?j")
    case Cons
    then show ?thesis
      using b Suc.prems
      by (intro exI [of _ "rehashidx d"] exI [of _ "Some (Suc visits)"]) auto
  next
    case Nil
    let ?d = "d\<lparr>rehashidx := rehashidx d + 1\<rparr>"
    have ne: "rehashidx d \<noteq> int i"
      using Nil Suc.prems by auto
    have sk: "rehash_skip (Suc visits) d =
        (if visits = 0 then Some (?d, None) else rehash_skip visits ?d)"
      using b Nil by simp
    show ?thesis
    proof (cases "visits = 0")
      case True
      then show ?thesis
        using sk ne Suc.prems Nil
        by (intro exI [of _ "rehashidx d + 1"] exI [of _ None]) (auto intro: arg_cong [OF Nil])
    next
      case False
      then obtain j r where j: "rehash_skip visits ?d = Some (?d\<lparr>rehashidx := j\<rparr>, r)"
          "rehashidx ?d \<le> j" "j \<le> int i"
          "\<forall>x. rehashidx ?d \<le> int x \<and> int x < j \<longrightarrow> bs ! x = []"
          "case r of None \<Rightarrow> rehashidx ?d < j \<and> int visits = j - rehashidx ?d
            | Some v \<Rightarrow> bs ! nat j \<noteq> [] \<and> 0 < v \<and> int v + (j - rehashidx ?d) = int visits"
        using Suc.IH [of ?d] ne Suc.prems by auto
      have "bs ! x = []" if "rehashidx d \<le> int x" "int x < j" for x
      proof -
        have "x = ?j \<or> rehashidx d + 1 \<le> int x"
          using that by linarith
        then show ?thesis
          using that j(4) Nil by auto
      qed
      then show ?thesis
        using j sk False
        by (intro exI [of _ j] exI [of _ r]) (auto split: option.splits)
    qed
  qed
qed simp

text \<open>What every operation that does not change the contents keeps.\<close>

definition same_contents :: "dict \<Rightarrow> dict \<Rightarrow> bool" where
  "same_contents d d' \<longleftrightarrow>
     mset (entries d') = mset (entries d) \<and> status d' = status d \<and> iterators d' = iterators d"

lemma same_contents_refl [simp]: "same_contents d d"
  by (simp add: same_contents_def)

lemma same_contents_trans [trans]:
  "same_contents d d' \<Longrightarrow> same_contents d' d'' \<Longrightarrow> same_contents d d''"
  by (simp add: same_contents_def)

lemma same_contents_dmap: "dict_ok d \<Longrightarrow> same_contents d d' \<Longrightarrow> dmap d' = dmap d"
  using dmap_cong [of d d'] by (simp add: same_contents_def dict_ok_def)

lemma dict_ok_rehashingD:
  assumes "dict_ok d" "rehashing d"
  obtains bs where "m_array (primary d) = Some bs" "0 \<le> rehashidx d"
    "rehashidx d \<le> int (length bs)" "\<And>i. int i < rehashidx d \<Longrightarrow> bs ! i = []"
    "m_array (rehash d) \<noteq> None" "m_size (primary d) = int (length bs)"
  using assms map_ok_size [of "primary d"] by (auto simp: dict_ok_def)

lemma rehash_advance:
  assumes "dict_ok d" "rehashing d" "m_array (primary d) = Some bs"
    and "rehashidx d \<le> j" "j \<le> int (length bs)"
    and "\<And>x. rehashidx d \<le> int x \<Longrightarrow> int x < j \<Longrightarrow> bs ! x = []"
  shows "dict_ok (d\<lparr>rehashidx := j\<rparr>)"
proof -
  have "bs ! i = []" if "i < nat j" for i
    using assms that by (cases "int i < rehashidx d") (auto simp: dict_ok_def)
  then show ?thesis
    using assms by (auto simp: dict_ok_def entries_def)
qed

lemma entries_of_m_length [simp]: "entries_of (m\<lparr>m_length := n\<rparr>) = entries_of m"
  by (simp add: entries_of_def)

text \<open>Moving one bucket: the body of the loop after the skip of the empty buckets.\<close>

lemma rehash_move:
  assumes ok: "dict_ok d" "rehashing d" and b: "bucket (primary d) (rehashidx d) = Some ch"
  shows "\<exists>d2 d3. rehash_chain ch d = Some d2 \<and>
           d3 = d2\<lparr>primary := set_bucket (rehashidx d2) [] (primary d2),
                   rehashidx := rehashidx d2 + 1\<rparr> \<and>
           dict_ok d3 \<and> same_contents d d3 \<and> rehashing d3 \<and> rehashidx d3 = rehashidx d + 1 \<and>
           m_size (primary d3) = m_size (primary d)"
proof -
  obtain bs where bs: "m_array (primary d) = Some bs" "0 \<le> rehashidx d"
      "rehashidx d \<le> int (length bs)" "\<And>i. int i < rehashidx d \<Longrightarrow> bs ! i = []"
      "m_array (rehash d) \<noteq> None"
    using ok by (rule dict_ok_rehashingD) blast
  have lt: "nat (rehashidx d) < length bs"
    using b bs by (auto simp: bucket_Some_iff)
  let ?p = "put_bucket (rehashidx d) ch [] (primary d)"
  obtain m' where m': "rehash_chain ch d = Some (d\<lparr>rehash := m', primary :=
        (primary d)\<lparr>m_length := m_length (primary d) - int (length ch)\<rparr>\<rparr>)"
      "map_ok m'" "m_array m' \<noteq> None" "mset (entries_of m') = mset (entries_of (rehash d)) + mset ch"
    using rehash_chain_ok [of d ch] ok bs by (auto simp: dict_ok_def)
  let ?d3 = "d\<lparr>rehash := m', primary := ?p, rehashidx := rehashidx d + 1\<rparr>"
  have mp: "map_ok ?p"
    using ok b by (intro put_bucket_ok) (auto simp: dict_ok_def)
  have ms: "mset (entries ?d3) = mset (entries d)"
    using put_bucket_mset [OF b, of "[]"] m'(4) by (simp add: entries_def algebra_simps)
  have emp: "bs[nat (rehashidx d) := []] ! i = []" if "i < nat (rehashidx d + 1)" for i
    using that bs(4) [of i] lt by (cases "i = nat (rehashidx d)") auto
  have "distinct (map e_key (entries ?d3))"
    using ok distinct_keys_cong [OF ms] by (simp add: dict_ok_def)
  then have "dict_ok ?d3"
    using mp m' emp bs lt ok(2) by (auto simp: dict_ok_def)
  moreover have "set_bucket (rehashidx d) []
      ((primary d)\<lparr>m_length := m_length (primary d) - int (length ch)\<rparr>) = ?p"
    by (simp add: put_bucket_def set_bucket_def)
  ultimately show ?thesis
    using m'(1) ms ok(2) by (simp add: same_contents_def)
qed

lemma rehash_finish_ok:
  assumes "dict_ok d" "rehashing d" "m_length (primary d) = 0"
  shows "dict_ok (rehash_finish d)" "same_contents d (rehash_finish d)"
    "\<not> rehashing (rehash_finish d)"
proof -
  have "entries_of (primary d) = []"
    using assms map_ok_length [of "primary d"] by (simp add: dict_ok_def)
  then show "dict_ok (rehash_finish d)" "same_contents d (rehash_finish d)"
    "\<not> rehashing (rehash_finish d)"
    using assms by (auto simp: dict_ok_def rehash_finish_def same_contents_def entries_def)
qed

text \<open>When entries remain, the scan finds a non-empty bucket in range.\<close>

lemma rehash_scan:
  assumes ok: "dict_ok d" "rehashing d" and len: "0 < m_length (primary d)" and v: "0 < visits"
  shows "rehashidx d < m_size (primary d)"
    and "\<exists>j r. rehash_skip visits d = Some (d\<lparr>rehashidx := j\<rparr>, r) \<and> rehashidx d \<le> j \<and>
           dict_ok (d\<lparr>rehashidx := j\<rparr>) \<and> j < m_size (primary d) \<and>
           (case r of None \<Rightarrow> rehashidx d < j \<and> int visits = j - rehashidx d
            | Some v \<Rightarrow> (\<exists>ch. bucket (primary d) j = Some ch) \<and> 0 < v \<and>
                        int v + (j - rehashidx d) = int visits)"
proof -
  obtain bs where bs: "m_array (primary d) = Some bs" "0 \<le> rehashidx d"
      "rehashidx d \<le> int (length bs)" "\<And>i. int i < rehashidx d \<Longrightarrow> bs ! i = []"
      "m_array (rehash d) \<noteq> None" "m_size (primary d) = int (length bs)"
    using ok by (rule dict_ok_rehashingD) blast
  have "concat bs \<noteq> []"
    using ok len bs by (auto simp: dict_ok_def map_ok_def)
  then obtain i where i: "i < length bs" "bs ! i \<noteq> []"
    by (metis concat_eq_Nil_conv in_set_conv_nth)
  then have le: "rehashidx d \<le> int i"
    using bs(4) by (meson not_le)
  then show "rehashidx d < m_size (primary d)"
    using i bs by simp
  obtain j r where j: "rehash_skip visits d = Some (d\<lparr>rehashidx := j\<rparr>, r)"
      "rehashidx d \<le> j" "j \<le> int i" "\<forall>x. rehashidx d \<le> int x \<and> int x < j \<longrightarrow> bs ! x = []"
      "case r of None \<Rightarrow> rehashidx d < j \<and> int visits = j - rehashidx d
        | Some v \<Rightarrow> bs ! nat j \<noteq> [] \<and> 0 < v \<and> int v + (j - rehashidx d) = int visits"
    using rehash_skip_ok [OF bs(1,2) le i v] by auto
  moreover have "dict_ok (d\<lparr>rehashidx := j\<rparr>)"
    by (rule rehash_advance [OF ok bs(1) j(2)]) (use i j in auto)
  moreover have "bucket (primary d) j = Some (bs ! nat j)"
    using bs i j by (simp add: bucket_def)
  ultimately show "\<exists>j r. rehash_skip visits d = Some (d\<lparr>rehashidx := j\<rparr>, r) \<and> rehashidx d \<le> j \<and>
      dict_ok (d\<lparr>rehashidx := j\<rparr>) \<and> j < m_size (primary d) \<and>
      (case r of None \<Rightarrow> rehashidx d < j \<and> int visits = j - rehashidx d
       | Some v \<Rightarrow> (\<exists>ch. bucket (primary d) j = Some ch) \<and> 0 < v \<and>
                   int v + (j - rehashidx d) = int visits)"
    using i bs by (intro exI [of _ j] exI [of _ r]) (auto split: option.splits)
qed

text \<open>
  One iteration of the outer loop when entries remain: it ends inside the scan, ends with the
  tables swapped, or goes on with a dictionary that has the same contents.
\<close>

lemma rehash_loop_iter:
  assumes ok: "dict_ok d" "rehashing d" and len: "0 < m_length (primary d)" and v: "0 < visits"
  obtains
    (scan) d1 where "rehash_loop (Suc num) visits d = Some (1, d1)" "dict_ok d1"
      "same_contents d d1" "rehashing d1" "rehashidx d < rehashidx d1"
      "int visits \<le> m_size (primary d) - rehashidx d"
  | (swap) d3 where "rehash_loop (Suc num) visits d = Some (0, rehash_finish d3)" "dict_ok d3"
      "same_contents d d3" "rehashing d3" "m_length (primary d3) = 0"
  | (more) d3 v1 where "rehash_loop (Suc num) visits d = rehash_loop num v1 d3" "dict_ok d3"
      "same_contents d d3" "rehashing d3" "m_length (primary d3) \<noteq> 0" "0 < v1"
      "m_size (primary d3) = m_size (primary d)" "rehashidx d < rehashidx d3"
      "int visits - int v1 < rehashidx d3 - rehashidx d"
proof -
  obtain j r where j: "rehash_skip visits d = Some (d\<lparr>rehashidx := j\<rparr>, r)" "rehashidx d \<le> j"
      "dict_ok (d\<lparr>rehashidx := j\<rparr>)" "j < m_size (primary d)"
      "case r of None \<Rightarrow> rehashidx d < j \<and> int visits = j - rehashidx d
       | Some v \<Rightarrow> (\<exists>ch. bucket (primary d) j = Some ch) \<and> 0 < v \<and>
                   int v + (j - rehashidx d) = int visits"
    using rehash_scan(2) [OF ok len v] by blast
  have idx: "rehashidx d < m_size (primary d)"
    by (rule rehash_scan(1) [OF ok len v])
  let ?d1 = "d\<lparr>rehashidx := j\<rparr>"
  have sc: "same_contents d ?d1"
    by (simp add: same_contents_def entries_def)
  show thesis
  proof (cases r)
    case None
    then show thesis
      using j idx len sc ok(2) by (intro scan [of ?d1]) auto
  next
    case (Some v1)
    then obtain ch where ch: "bucket (primary ?d1) (rehashidx ?d1) = Some ch"
      using j by auto
    obtain d2 d3 where d: "rehash_chain ch ?d1 = Some d2"
        "d3 = d2\<lparr>primary := set_bucket (rehashidx d2) [] (primary d2), rehashidx := rehashidx d2 + 1\<rparr>"
        "dict_ok d3" "same_contents ?d1 d3" "rehashing d3" "rehashidx d3 = rehashidx ?d1 + 1"
        "m_size (primary d3) = m_size (primary ?d1)"
      using rehash_move [OF j(3) _ ch] ok(2) by auto
    have sc3: "same_contents d d3"
      using sc d(4) by (rule same_contents_trans)
    have eq: "rehash_loop (Suc num) visits d =
        (if m_length (primary d3) = 0 then Some (0, rehash_finish d3) else rehash_loop num v1 d3)"
      using j(1) Some ch d(1,2) idx len by (simp add: Let_def)
    show thesis
    proof (cases "m_length (primary d3) = 0")
      case True
      with eq d sc3 show thesis
        by (intro swap [of d3]) auto
    next
      case False
      with eq d sc3 j Some show thesis
        by (intro more [of v1 d3]) auto
    qed
  qed
qed

lemma rehash_loop_ok:
  assumes "dict_ok d" "rehashing d" "0 < visits \<or> num = 0"
  shows "\<exists>rc d'. rehash_loop num visits d = Some (rc, d') \<and> dict_ok d' \<and> same_contents d d' \<and>
           rc \<in> {0, 1} \<and> (rehashing d' \<longleftrightarrow> rc = 1)"
  using assms
proof (induction num arbitrary: visits d)
  case (Suc num)
  show ?case
  proof (cases "0 < m_length (primary d)")
    case True
    have v: "0 < visits"
      using Suc.prems by simp
    show ?thesis
    proof (rule rehash_loop_iter [OF Suc.prems(1,2) True v, of num])
      fix d3 v1
      assume m: "rehash_loop (Suc num) visits d = rehash_loop num v1 d3" "dict_ok d3"
        "same_contents d d3" "rehashing d3" "0 < v1"
      obtain rc d' where "rehash_loop num v1 d3 = Some (rc, d')" "dict_ok d'"
          "same_contents d3 d'" "rc \<in> {0, 1}" "rehashing d' \<longleftrightarrow> rc = 1"
        using Suc.IH [OF m(2,4)] m(5) by blast
      then show ?thesis
        using m(1) same_contents_trans [OF m(3)] by auto
    next
      fix d3
      assume "rehash_loop (Suc num) visits d = Some (0, rehash_finish d3)" "dict_ok d3"
        "same_contents d d3" "rehashing d3" "m_length (primary d3) = 0"
      then show ?thesis
        using rehash_finish_ok [of d3] same_contents_trans by auto
    qed auto
  qed (use Suc.prems in auto)
qed auto

lemma rehash_loop_completes:
  assumes "dict_ok d" "rehashing d" "0 < m_length (primary d)"
    and "m_size (primary d) - rehashidx d \<le> int num"
    and "m_size (primary d) - rehashidx d < int visits"
  shows "\<exists>d'. rehash_loop num visits d = Some (0, d')"
  using assms
proof (induction num arbitrary: visits d)
  case 0
  then show ?case
    using rehash_scan(1) [of d 1] by simp
next
  case (Suc num)
  have v: "0 < visits"
    using Suc.prems rehash_scan(1) [OF Suc.prems(1-3), of 1] by simp
  show ?case
  proof (rule rehash_loop_iter [OF Suc.prems(1-3) v, of num])
    fix d3 v1
    assume m: "rehash_loop (Suc num) visits d = rehash_loop num v1 d3" "dict_ok d3" "rehashing d3"
      "m_length (primary d3) \<noteq> 0" "m_size (primary d3) = m_size (primary d)"
      "rehashidx d < rehashidx d3" "int visits - int v1 < rehashidx d3 - rehashidx d"
    have "0 < m_length (primary d3)"
      using m(2,4) map_ok_length [of "primary d3"] by (simp add: dict_ok_def)
    then show ?thesis
      using Suc.IH [OF m(2,3), of v1] Suc.prems(4,5) m by simp
  qed (use Suc.prems(5) in auto)
qed

lemma rehash_loop_progress:
  assumes ok: "dict_ok d" "rehashing d" and len: "0 < m_length (primary d)" and v: "0 < visits"
    and res: "rehash_loop (Suc num) visits d = Some (1, d')"
  shows "rehashidx d < rehashidx d'"
proof -
  have mono: "rehashidx e \<le> rehashidx e'"
    if "rehash_loop n w e = Some (1, e')" "dict_ok e" "rehashing e" "0 < w" for n w e e'
    using that
  proof (induction n arbitrary: w e)
    case (Suc n)
    show ?case
    proof (cases "0 < m_length (primary e)")
      case True
      show ?thesis
        by (rule rehash_loop_iter [OF Suc.prems(2,3) True Suc.prems(4), of n])
          (use Suc.IH Suc.prems(1) in \<open>fastforce+\<close>)
    qed (use Suc.prems in auto)
  qed auto
  show ?thesis
    by (rule rehash_loop_iter [OF ok len v, of num]) (use res mono in \<open>fastforce+\<close>)
qed

lemma dict_rehash_ok:
  assumes "dict_ok d"
  shows "\<exists>rc d'. dict_rehash d num = Some (rc, d') \<and> dict_ok d' \<and> same_contents d d' \<and>
           rc \<in> {0, 1} \<and> (rehashing d' \<longleftrightarrow> rc = 1)"
  using assms rehash_loop_ok [of d "num * 10" num] by (auto simp: dict_rehash_def)

lemma dict_rehash_step_ok:
  assumes "dict_ok d"
  shows "\<exists>d'. dict_rehash_step d = Some d' \<and> dict_ok d' \<and> same_contents d d'"
  using assms dict_rehash_ok [OF assms, of 1] by (auto simp: dict_rehash_step_def)

text \<open>The call that opens every operation: a rehash step when the dictionary is rehashing.\<close>

lemma rehash_prologue:
  assumes "dict_ok d"
  obtains d' where "(if rehashing d then dict_rehash_step d else Some d) = Some d'"
    "dict_ok d'" "same_contents d d'"
  using assms dict_rehash_step_ok [OF assms] by (cases "rehashing d") auto

end
