(* ===== verification/DictGrow.thy ===== *)
theory DictGrow
  imports DictInv
begin

text \<open>
  Growing the dictionary of \<^verbatim>\<open>storage/dict.c\<close>: \<^verbatim>\<open>dict_real_size\<close> rounds up to a power of two
  and \<^verbatim>\<open>dict_expand_if\<close> keeps the invariant and never fails.
\<close>

section \<open>The smear of \<open>dict_real_size\<close>\<close>

text \<open>\<open>smeared w n x\<close>: bit \<open>i\<close> of \<open>x\<close> is the disjunction of \<open>w\<close> bits of \<open>n\<close> from \<open>i\<close> on.\<close>

definition smeared :: "nat \<Rightarrow> u64 \<Rightarrow> u64 \<Rightarrow> bool" where
  "smeared w n x \<longleftrightarrow> (\<forall>i. bit x i \<longleftrightarrow> (\<exists>t < w. bit n (i + t)))"

lemma smeared_1: "smeared 1 n n"
  by (simp add: smeared_def)

lemma smeared_double:
  assumes "smeared w n x"
  shows "smeared (2 * w) n (x OR drop_bit w x)"
  unfolding smeared_def
proof
  fix i
  have "bit (x OR drop_bit w x) i \<longleftrightarrow> (\<exists>t < w. bit n (i + t)) \<or> (\<exists>t < w. bit n (w + i + t))"
    using assms by (simp add: smeared_def bit_or_iff bit_drop_bit_eq)
  also have "\<dots> \<longleftrightarrow> (\<exists>t < 2 * w. bit n (i + t))" (is "?l \<longleftrightarrow> ?r")
  proof
    assume ?l
    then show ?r
    proof (elim disjE exE conjE)
      fix t assume "t < w" "bit n (w + i + t)"
      then show ?r
        by (intro exI [of _ "w + t"]) (simp add: ac_simps)
    next
      fix t assume "t < w" "bit n (i + t)"
      then show ?r
        by (intro exI [of _ t]) simp
    qed
  next
    assume ?r
    then obtain t where t: "t < 2 * w" "bit n (i + t)"
      by blast
    show ?l
    proof (cases "t < w")
      case False
      with t have "t - w < w" "bit n (w + i + (t - w))"
        by (simp_all add: ac_simps)
      then show ?l
        by blast
    qed (use t in blast)
  qed
  finally show "bit (x OR drop_bit w x) i \<longleftrightarrow> (\<exists>t < 2 * w. bit n (i + t))" .
qed

lemma smeared_64_mask:
  assumes sm: "smeared 64 n x" and hi: "unat n < 2 ^ k" and lo: "\<And>j. j < k \<Longrightarrow> 2 ^ j \<le> unat n"
    and k: "k \<le> 63"
  shows "x = mask k"
proof (rule bit_word_eqI)
  fix i assume i: "i < LENGTH(64)"
  have "i < k" if "bit n (i + t)" for t
  proof (rule ccontr)
    assume "\<not> i < k"
    then have "(2::nat) ^ k \<le> 2 ^ (i + t)"
      by (intro power_increasing) simp_all
    then have "unat n < 2 ^ (i + t)"
      using hi by linarith
    then have "\<not> bit (unat n) (i + t)"
      by (simp add: bit_iff_odd)
    then show False
      using that by (simp add: bit_unsigned_iff)
  qed
  moreover have "\<exists>t < 64. bit n (i + t)" if "i < k"
  proof -
    have "2 ^ (k - 1) \<le> unat n" "unat n < 2 * 2 ^ (k - 1)"
      using that lo [of "k - 1"] hi by (simp_all flip: power_Suc)
    then have "unat n div 2 ^ (k - 1) = 1"
      by (simp add: div_nat_eqI)
    then have "bit (unat n) (k - 1)"
      by (simp add: bit_iff_odd)
    then have "bit n (k - 1)"
      by (simp add: bit_unsigned_iff)
    then show ?thesis
      using that k by (intro exI [of _ "k - 1 - i"]) simp
  qed
  ultimately show "bit x i \<longleftrightarrow> bit (mask k :: u64) i"
    using sm i by (auto simp: smeared_def bit_mask_iff)
qed

lemma dict_real_size_smear:
  assumes "n < LONG_MAX"
  shows "\<exists>x. smeared 64 (n - 1) x \<and> dict_real_size n = x + 1"
proof -
  let ?a = "n - 1"
  let ?b = "?a OR drop_bit 1 ?a" let ?c = "?b OR drop_bit 2 ?b" let ?d = "?c OR drop_bit 4 ?c"
  let ?e = "?d OR drop_bit 8 ?d" let ?f = "?e OR drop_bit 16 ?e"
  let ?x = "?f OR drop_bit 32 ?f"
  have "smeared 2 ?a ?b"
    using smeared_double [OF smeared_1, of ?a] by simp
  then have "smeared 4 ?a ?c"
    by (rule smeared_double [of 2, simplified])
  then have "smeared 8 ?a ?d"
    by (rule smeared_double [of 4, simplified])
  then have "smeared 16 ?a ?e"
    by (rule smeared_double [of 8, simplified])
  then have "smeared 32 ?a ?f"
    by (rule smeared_double [of 16, simplified])
  then have "smeared 64 ?a ?x"
    by (rule smeared_double [of 32, simplified])
  moreover have "dict_real_size n = ?x + 1"
    using assms by (simp add: dict_real_size_def Let_def flip: not_less)
  ultimately show ?thesis
    by blast
qed

lemma real_size_least:
  assumes "0 < n" "n < LONG_MAX"
  shows "\<exists>k \<le> 63. dict_real_size n = 2 ^ k \<and> unat n \<le> 2 ^ k \<and> (\<forall>j. unat n \<le> 2 ^ j \<longrightarrow> k \<le> j)"
proof -
  define k where "k = (LEAST k. unat n \<le> 2 ^ k)"
  have n: "unat (n - 1) = unat n - 1" "0 < unat n"
    using assms(1) by (simp_all add: unat_minus_one unat_gt_0)
  have "unat n < unat LONG_MAX"
    using assms(2) by (simp add: word_less_nat_alt)
  then have 63: "unat n \<le> 2 ^ 63"
    by (simp add: xdb_defs)
  then have up: "unat n \<le> 2 ^ k"
    unfolding k_def by (rule LeastI)
  have least: "k \<le> j" if "unat n \<le> 2 ^ j" for j
    unfolding k_def using that by (rule Least_le)
  have k: "k \<le> 63"
    using 63 by (rule least)
  obtain x where x: "smeared 64 (n - 1) x" "dict_real_size n = x + 1"
    using dict_real_size_smear [OF assms(2)] by blast
  have "x = mask k"
  proof (rule smeared_64_mask [OF x(1) _ _ k])
    show "unat (n - 1) < 2 ^ k"
      using up n by linarith
    show "2 ^ j \<le> unat (n - 1)" if "j < k" for j
    proof -
      have "\<not> unat n \<le> 2 ^ j"
        using least [of j] that by linarith
      then show ?thesis
        using n by linarith
    qed
  qed
  then have "dict_real_size n = 2 ^ k"
    using x(2) by (simp add: mask_eq_exp_minus_1)
  then show ?thesis
    using up least k by blast
qed

text \<open>
  For every positive size below \<^verbatim>\<open>LONG_MAX\<close>, \<^verbatim>\<open>dict_real_size\<close> returns a power of two
  that is at least the size, and the least one.
\<close>

theorem dict_real_size_least_power:
  assumes "0 < n" "n < LONG_MAX"
  shows "\<exists>k \<le> 63. dict_real_size n = 2 ^ k \<and> unat n \<le> 2 ^ k \<and> (\<forall>j. unat n \<le> 2 ^ j \<longrightarrow> k \<le> j)"
  using assms by (rule real_size_least)

theorem dict_real_size_least_power_witness:
  "dict_real_size 35 = 64"
proof -
  obtain k where k: "dict_real_size 35 = 2 ^ k" "unat (35 :: u64) \<le> 2 ^ k" "\<forall>j. unat (35 :: u64) \<le> 2 ^ j \<longrightarrow> k \<le> j"
    using dict_real_size_least_power [of 35] by (auto simp: xdb_defs)
  have "k \<le> 6"
    using k(3) [rule_format, of 6] by simp
  moreover have "\<not> k \<le> 5"
    using k(2) power_increasing [of k 5 "2 :: nat"] by auto
  ultimately have "k = 6"
    by simp
  then show ?thesis
    using k(1) by simp
qed

section \<open>Expanding\<close>

lemma uint_pow2: "k \<le> 63 \<Longrightarrow> uint (2 ^ k :: u64) = 2 ^ k"
  by (rule bit_eqI) (auto simp: bit_unsigned_iff bit_exp_iff)

lemma unat_pow2: "k \<le> 63 \<Longrightarrow> unat (2 ^ k :: u64) = 2 ^ k"
  using uint_pow2 [of k] by (metis nat_numeral nat_power_eq of_nat_numeral of_nat_power
      nat_uint_eq zero_le_numeral)

lemma zalloc_ptrs_pow:
  "k \<le> 31 \<Longrightarrow> zalloc_ptrs (2 ^ k) = Some (replicate (2 ^ k) [])"
proof -
  assume k: "k \<le> 31"
  have "(2 ^ k * 8 :: u64) = 2 ^ (k + 3)"
    by (simp add: power_add)
  moreover have "unat (2 ^ (k + 3) :: u64) = 2 ^ (k + 3)"
    using k by (simp add: unat_pow2)
  moreover have "(2 ^ (k + 3) :: u64) \<noteq> 0"
    using k by (simp add: exp_eq_zero_iff del: power_add)
  moreover have "(2 ^ (k + 3) :: nat) div 8 = 2 ^ k"
    by (simp add: power_add)
  ultimately show ?thesis
    by (simp add: zalloc_ptrs_def)
qed

lemma new_map_ok:
  assumes "k \<le> 31" "m = \<lparr>m_array = zalloc_ptrs (2 ^ k), m_size = sint (2 ^ k :: u64),
      m_sizemask = 2 ^ k - 1, m_length = 0\<rparr>"
  shows "map_ok m" "entries_of m = []" "m_array m \<noteq> None"
proof -
  have "sint (2 ^ k :: u64) = 2 ^ k"
  proof -
    have "(2::int) ^ k < 2 ^ 63"
      using assms(1) by (intro power_strict_increasing) simp_all
    moreover have "- (2 ^ 63) \<le> (2::int) ^ k"
      by (rule order_trans [of _ 0]) simp_all
    ultimately show ?thesis
      using assms(1) by (simp add: sint_uint uint_pow2 signed_take_bit_int_eq_self)
  qed
  then show "map_ok m" "entries_of m = []" "m_array m \<noteq> None"
    using assms
    by (auto simp: map_ok_def table_size_def entries_of_def zalloc_ptrs_pow mask_eq_exp_minus_1)
qed

lemma dict_expand_ok:
  assumes ok: "dict_ok d" and nr: "\<not> rehashing d" and n: "0 < n" "n \<le> 2 ^ 31"
    and len: "m_length (primary d) \<le> int n" and sz: "m_size (primary d) < int n"
  shows "\<exists>d'. dict_expand d (of_nat n) = (0, d') \<and> dict_ok d' \<and> same_contents d d' \<and>
           m_array (primary d') \<noteq> None"
proof -
  let ?w = "of_nat n :: u64"
  have uw: "unat ?w = n" "uint ?w = int n"
    using n by (simp_all add: unat_of_nat take_bit_nat_eq_self uint_nat)
  have "0 < ?w" "?w < LONG_MAX"
    using n uw by (simp_all add: word_less_nat_alt xdb_defs)
  then obtain k where k: "dict_real_size ?w = 2 ^ k" "n \<le> 2 ^ k" "\<And>j. n \<le> 2 ^ j \<Longrightarrow> k \<le> j"
    using real_size_least [of ?w] uw by auto
  have k31: "k \<le> 31"
    using k(3) n(2) by blast
  have bounds: "0 \<le> m_length (primary d)" "0 \<le> m_size (primary d)"
    using ok map_ok_length [of "primary d"]
    by (auto simp: dict_ok_def map_ok_def table_size_def split: option.splits)
  have "uint (of_int (m_length (primary d)) :: u64) = m_length (primary d)"
    using bounds len n by (simp add: uint_word_of_int take_bit_int_eq_self)
  then have c1: "\<not> of_int (m_length (primary d)) > ?w"
    using len uw by (simp add: word_less_def)
  have "uint (of_int (m_size (primary d)) :: u64) = m_size (primary d)"
    using bounds sz n by (simp add: uint_word_of_int take_bit_int_eq_self)
  moreover have "uint (2 ^ k :: u64) = 2 ^ k"
    using k31 by (simp add: uint_pow2)
  ultimately have c2: "of_int (m_size (primary d)) \<noteq> (2 ^ k :: u64)"
    using sz k(2) by (metis of_nat_le_iff of_nat_numeral of_nat_power not_less)
  define m where "m = \<lparr>m_array = zalloc_ptrs (2 ^ k), m_size = sint (2 ^ k :: u64),
      m_sizemask = 2 ^ k - 1, m_length = 0\<rparr>"
  note m = new_map_ok [OF k31 m_def]
  have eq: "dict_expand d ?w =
      (if m_array (primary d) = None then (0, d\<lparr>primary := m\<rparr>)
       else (0, d\<lparr>rehash := m, rehashidx := 0, rehashing := True\<rparr>))"
    using nr c1 c2 k(1) by (simp add: dict_expand_def m_def [symmetric] Let_def)
  have er: "entries_of (rehash d) = []"
    using ok nr by (simp add: dict_ok_def entries_of_None)
  show ?thesis
  proof (cases "m_array (primary d)")
    case None
    then show ?thesis
      using eq m ok nr er by (simp add: dict_ok_def same_contents_def entries_def entries_of_None)
  next
    case (Some bs)
    then show ?thesis
      using eq m ok er by (simp add: dict_ok_def same_contents_def entries_def)
  qed
qed

text \<open>
  Up to \<open>2 ^ 30\<close> entries the tables have at most \<open>2 ^ 31\<close> buckets, so an index fits the
  \<^verbatim>\<open>int\<close> that \<^verbatim>\<open>dict_calc_index\<close> returns.
\<close>

definition has_room :: "dict \<Rightarrow> bool" where
  "has_room d \<longleftrightarrow> dict_get_size d \<le> 2 ^ 30"

lemma dict_get_size_entries: "dict_ok d \<Longrightarrow> dict_get_size d = int (length (entries d))"
  by (simp add: dict_get_size_def dict_ok_def entries_def map_ok_length)

lemma same_contents_size:
  "dict_ok d \<Longrightarrow> dict_ok d' \<Longrightarrow> same_contents d d' \<Longrightarrow> dict_get_size d' = dict_get_size d"
  using mset_eq_length [of "entries d'" "entries d"]
  by (simp add: dict_get_size_entries same_contents_def)

lemma dict_expand_if_ok:
  assumes ok: "dict_ok d" and room: "has_room d"
  shows "\<exists>d'. dict_expand_if g d = (0, d') \<and> dict_ok d' \<and> same_contents d d' \<and>
           m_array (primary d') \<noteq> None"
proof -
  have len: "0 \<le> m_length (primary d)" "m_length (primary d) \<le> 2 ^ 30"
    using ok room map_ok_length [of "primary d"] map_ok_length [of "rehash d"]
    by (simp_all add: has_room_def dict_get_size_def dict_ok_def)
  consider (busy) "rehashing d" | (empty) "\<not> rehashing d" "m_size (primary d) = 0"
    | (full) "\<not> rehashing d" "m_size (primary d) \<noteq> 0" "dict_should_expand g d"
    | (fits) "\<not> rehashing d" "m_size (primary d) \<noteq> 0" "\<not> dict_should_expand g d"
    by blast
  then show ?thesis
  proof cases
    case empty
    then have "m_length (primary d) = 0"
      using ok map_ok_size_0 [of "primary d"] map_ok_length [of "primary d"]
      by (simp add: dict_ok_def entries_of_None)
    then show ?thesis
      using empty dict_expand_ok [OF ok, of 4]
      by (simp add: dict_expand_if_def xdb_defs)
  next
    case full
    let ?n = "nat (m_length (primary d) * 2)"
    have "0 < m_size (primary d)"
      using full ok map_ok_size_0 [of "primary d"]
      by (auto simp: dict_ok_def map_ok_def table_size_def)
    then have "0 < m_length (primary d)" "m_size (primary d) \<le> m_length (primary d)"
      using full by (simp_all add: dict_should_expand_def)
    then show ?thesis
      using full dict_expand_ok [OF ok full(1), of ?n] len
      by (simp add: dict_expand_if_def)
  qed (use ok map_ok_size_0 [of "primary d"] in
      \<open>auto simp: dict_expand_if_def dict_ok_def\<close>)
qed

end
