(* ===== verification/DictProps.thy ===== *)
theory DictProps
  imports DictGrow
begin

text \<open>
  Correctness of the dictionary operations of \<^verbatim>\<open>storage/dict.c\<close>: every operation returns (no
  access outside a table, no failed assertion), keeps the invariant \<open>dict_ok\<close> and acts on the
  finite map \<open>dmap\<close> as the corresponding map operation, at every stage of a rehash.
\<close>

section \<open>Effect of a bucket change on the finite map\<close>

lemma set_table_put_ok:
  assumes ok: "dict_ok d" and b: "bucket (dict_table t d) i = Some ch"
    and mem: "\<And>e. e \<in> set ch' \<Longrightarrow> int (hidx (dict_table t d) (e_key e)) = i"
    and emp: "ch = [] \<Longrightarrow> t = 0 \<Longrightarrow> rehashing d \<Longrightarrow> ch' = []"
    and d': "d' = set_table t (put_bucket i ch ch' (dict_table t d)) d"
    and dist: "distinct (map e_key (entries d'))"
  shows "dict_ok d'"
proof -
  have "map_ok (put_bucket i ch ch' (dict_table t d))"
    using ok b mem by (intro put_bucket_ok) (auto simp: dict_table_def dict_ok_def)
  moreover have "bs[nat i := ch'] ! x = []"
    if "t = 0" "rehashing d" "m_array (primary d) = Some bs" "bs ! x = []" for bs x
    using that emp b by (cases "x = nat i") (auto simp: bucket_Some_iff dict_table_def nth_list_update)
  ultimately show ?thesis
    using ok b dist d'
    by (auto simp: dict_ok_def set_table_def dict_table_def bucket_Some_iff split: if_splits)
qed

lemma set_table_put_mset:
  assumes "bucket (dict_table t d) i = Some ch"
  shows "mset (entries (set_table t (put_bucket i ch ch' (dict_table t d)) d)) + mset ch =
    mset (entries d) + mset ch'"
  using put_bucket_mset [OF assms, of ch']
  by (simp add: entries_def set_table_def dict_table_def split: if_splits)

lemma set_table_sel [simp]:
  "status (set_table t m d) = status d" "iterators (set_table t m d) = iterators d"
  "rehashing (set_table t m d) = rehashing d"
  by (simp_all add: set_table_def)

lemma dmap_add:
  assumes "mset (entries d') = add_mset e (mset (entries d))" "distinct (map e_key (entries d'))"
  shows "dmap d' = (dmap d)(e_key e \<mapsto> (e_value e, e_length e))"
proof -
  have "dmap d' = map_of (map entry_pair (e # entries d))"
    unfolding dmap_def by (rule map_of_mset) (use assms in simp_all)
  then show ?thesis
    by (simp add: dmap_def entry_pair_def)
qed

lemma distinct_keys_add:
  assumes "mset (entries d') = add_mset e (mset (entries d))"
  shows "distinct (map e_key (entries d')) \<longleftrightarrow>
    distinct (map e_key (entries d)) \<and> dmap d (e_key e) = None"
proof -
  have "mset (map e_key (entries d')) = mset (map e_key (e # entries d))"
    using assms by simp
  then have "distinct (map e_key (entries d')) = distinct (map e_key (e # entries d))"
    by (rule mset_eq_imp_distinct_iff)
  then show ?thesis
    using dmap_dom [of "e_key e" d] by (auto simp: domIff)
qed

lemma dmap_remove:
  assumes "mset (entries d) = add_mset e (mset (entries d'))" "distinct (map e_key (entries d))"
  shows "dmap d (e_key e) = Some (e_value e, e_length e)" "dmap d' = (dmap d)(e_key e := None)"
  using dmap_add [OF assms] distinct_keys_add [OF assms(1)] assms(2) by (auto simp: fun_eq_iff)

section \<open>Entry pointers\<close>

lemma entry_at_iff:
  "entry_at d (t, i, pos) = Some e \<longleftrightarrow>
   (\<exists>ch. bucket (dict_table t d) (int i) = Some ch \<and> pos < length ch \<and> e = ch ! pos)"
  by (auto simp: entry_at_def split: option.splits)

lemma entry_at_mem: "entry_at d loc = Some e \<Longrightarrow> e \<in> set (entries d)"
  using bucket_mem by (cases loc)
    (fastforce simp: entry_at_iff entries_def dict_table_def split: if_splits dest: nth_mem)

lemma mset_list_update:
  "pos < length ch \<Longrightarrow> add_mset (ch ! pos) (mset (ch[pos := x])) = add_mset x (mset ch)"
  by (simp add: mset_update)

lemma upd_entry_ok:
  assumes ok: "dict_ok d" and e: "entry_at d loc = Some e" and key: "e_key (f e) = e_key e"
  shows "dict_ok (upd_entry loc f d)"
    and "add_mset e (mset (entries (upd_entry loc f d))) = add_mset (f e) (mset (entries d))"
    and "status (upd_entry loc f d) = status d" "iterators (upd_entry loc f d) = iterators d"
    and "rehashing (upd_entry loc f d) = rehashing d"
proof -
  obtain t i pos where loc: "loc = (t, i, pos)"
    by (cases loc) auto
  then obtain ch where ch: "bucket (dict_table t d) (int i) = Some ch" "pos < length ch" "e = ch ! pos"
    using e by (auto simp: entry_at_iff)
  let ?ch = "ch[pos := f e]" and ?m = "dict_table t d"
  have u: "upd_entry loc f d = set_table t (put_bucket (int i) ch ?ch ?m) d" (is "_ = ?d")
    using loc ch by (simp add: upd_entry_def put_bucket_def set_bucket_def)
  have "mset (entries ?d) + mset ch = mset (entries d) + mset ?ch"
    by (rule set_table_put_mset [OF ch(1)])
  then have "mset (entries ?d) + add_mset e (mset ch) = mset (entries d) + add_mset e (mset ?ch)"
    by simp
  then have "mset (entries ?d) + add_mset e (mset ch) = mset (entries d) + add_mset (f e) (mset ch)"
    using mset_list_update [OF ch(2), of "f e"] ch(3) by simp
  then show ms: "add_mset e (mset (entries (upd_entry loc f d))) = add_mset (f e) (mset (entries d))"
    using u by simp
  have "mset (map e_key (entries ?d)) = mset (map e_key (entries d))"
    using arg_cong [OF ms, of "image_mset e_key"] key u by simp
  from mset_eq_imp_distinct_iff [OF this] have dist: "distinct (map e_key (entries ?d))"
    using ok by (simp add: dict_ok_def)
  have "x \<in> set ch \<or> x = f e" if "x \<in> set ?ch" for x
    using that set_update_subset_insert [of ch pos "f e"] by auto
  then have mem: "int (hidx ?m (e_key x)) = int i" if "x \<in> set ?ch" for x
    using that bucket_hidx_eq [OF _ ch(1)] ok ch key
    by (metis dict_ok_def dict_table_def nth_mem)
  show "dict_ok (upd_entry loc f d)"
    unfolding u by (rule set_table_put_ok [OF ok ch(1) mem _ refl dist]) (use ch in auto)
  show "status (upd_entry loc f d) = status d" "iterators (upd_entry loc f d) = iterators d"
    "rehashing (upd_entry loc f d) = rehashing d"
    using u by simp_all
qed

lemma upd_entry_dmap:
  assumes ok: "dict_ok d" and e: "entry_at d loc = Some e" and key: "e_key (f e) = e_key e"
  shows "dmap (upd_entry loc f d) = (dmap d)(e_key e \<mapsto> (e_value (f e), e_length (f e)))"
    and "dict_get_size (upd_entry loc f d) = dict_get_size d"
proof -
  let ?d = "upd_entry loc f d"
  note u = upd_entry_ok [where f = f, OF assms]
  obtain M where M: "mset (entries d) = add_mset e M"
    using entry_at_mem [OF e] by (metis mset_add set_mset_mset)
  then have M': "mset (entries ?d) = add_mset (f e) M"
    using u(2) by (metis add_mset_add_mset_same_iff add_mset_commute)
  obtain xs where xs: "mset xs = M"
    by (metis ex_mset)
  define d0 where "d0 = d\<lparr>primary := \<lparr>m_array = Some [xs], m_size = 0, m_sizemask = 0, m_length = 0\<rparr>,
      rehash := dict_reset\<rparr>"
  have d0: "mset (entries d0) = M"
    using xs by (simp add: d0_def entries_def entries_of_def dict_reset_def)
  have "dmap d = (dmap d0)(e_key e \<mapsto> (e_value e, e_length e))"
    by (rule dmap_add) (use M d0 ok in \<open>simp_all add: dict_ok_def\<close>)
  moreover have "dmap ?d = (dmap d0)(e_key (f e) \<mapsto> (e_value (f e), e_length (f e)))"
    by (rule dmap_add) (use M' d0 u(1) in \<open>simp_all add: dict_ok_def\<close>)
  ultimately show "dmap ?d = (dmap d)(e_key e \<mapsto> (e_value (f e), e_length (f e)))"
    using key by (simp add: fun_eq_iff)
  have "length (entries ?d) = length (entries d)"
    using M M' by (metis size_mset size_add_mset)
  then show "dict_get_size ?d = dict_get_size d"
    using ok u(1) by (simp add: dict_get_size_entries)
qed

section \<open>Lookup\<close>

lemma chain_find_Some: "chain_find key ch = Some p \<Longrightarrow> p < length ch \<and> e_key (ch ! p) = key"
  by (induction ch arbitrary: p) (auto split: if_splits)

lemma chain_find_None: "chain_find key ch = None \<longleftrightarrow> key \<notin> e_key ` set ch"
  by (induction ch) auto

lemma lookup_in_ok:
  assumes "map_ok (dict_table t d)" "m_array (dict_table t d) \<noteq> None"
  shows "\<exists>r. lookup_in t key d = Some r \<and>
     (case r of None \<Rightarrow> key \<notin> e_key ` set (entries_of (dict_table t d))
      | Some loc \<Rightarrow> \<exists>e. entry_at d loc = Some e \<and> e_key e = key)"
proof -
  let ?m = "dict_table t d"
  obtain ch where ch: "bucket ?m (int (hidx ?m key)) = Some ch"
    using assms bucket_hidx by blast
  have l: "lookup_in t key d = Some (map_option (\<lambda>pos. (t, hidx ?m key, pos)) (chain_find key ch))"
    using ch by (simp add: lookup_in_def uint_key_idx Let_def)
  show ?thesis
  proof (cases "chain_find key ch")
    case None
    then have "key \<notin> e_key ` set ch"
      by (simp add: chain_find_None)
    then have "key \<notin> e_key ` set (entries_of ?m)"
      using key_in_bucket [OF assms(1) ch] by blast
    then show ?thesis
      using l None by simp
  next
    case (Some p)
    then show ?thesis
      using l ch chain_find_Some [OF Some] by (auto simp: entry_at_iff)
  qed
qed

lemma dict_table_ok:
  assumes "dict_ok d"
  shows "map_ok (dict_table t d)" "rehashing d \<Longrightarrow> m_array (dict_table t d) \<noteq> None"
    "m_size (primary d) \<noteq> 0 \<Longrightarrow> m_array (dict_table 0 d) \<noteq> None"
  using assms map_ok_size_0 [of "primary d"] by (auto simp: dict_ok_def dict_table_def)

lemma dict_ok_size_0: "dict_ok d \<Longrightarrow> m_size (primary d) = 0 \<Longrightarrow> entries d = []"
  using map_ok_size_0 [of "primary d"]
  by (cases "rehashing d") (auto simp: dict_ok_def entries_def entries_of_None)

lemma dict_table_simps [simp]: "dict_table 0 d = primary d" "dict_table (Suc 0) d = rehash d"
  by (simp_all add: dict_table_def)

lemma dict_lookup_entry_ok:
  assumes ok: "dict_ok d"
  obtains r d' where "dict_lookup_entry d key = Some (r, d')" "dict_ok d'" "same_contents d d'"
    "case r of None \<Rightarrow> dmap d key = None | Some loc \<Rightarrow> \<exists>e. entry_at d' loc = Some e \<and> e_key e = key"
proof -
  obtain d' where d': "(if rehashing d then dict_rehash_step d else Some d) = Some d'"
      "dict_ok d'" "same_contents d d'"
    using rehash_prologue [OF ok] .
  note t = dict_table_ok [OF d'(2)]
  have none: "dmap d key = None" if "key \<notin> e_key ` set (entries d')"
    using that dmap_dom [of key d'] same_contents_dmap [OF ok d'(3)] by (auto simp: domIff)
  have fin: "entries_of (rehash d') = []" if "\<not> rehashing d'"
    using that d'(2) by (simp add: dict_ok_def entries_of_None)
  have "\<exists>r. dict_lookup_entry d key = Some (r, d') \<and>
      (case r of None \<Rightarrow> dmap d key = None | Some loc \<Rightarrow> \<exists>e. entry_at d' loc = Some e \<and> e_key e = key)"
  proof (cases "m_size (primary d') = 0")
    case True
    then have "entries d' = []"
      by (rule dict_ok_size_0 [OF d'(2)])
    then show ?thesis
      using d'(1) True none by (simp add: dict_lookup_entry_def)
  next
    case False
    obtain r0 where r0: "lookup_in 0 key d' = Some r0"
        "case r0 of None \<Rightarrow> key \<notin> e_key ` set (entries_of (primary d'))
         | Some loc \<Rightarrow> \<exists>e. entry_at d' loc = Some e \<and> e_key e = key"
      using lookup_in_ok [OF t(1) t(3) [OF False], of key] unfolding dict_table_simps by blast
    show ?thesis
    proof (cases r0)
      case (Some loc)
      then show ?thesis
        using d'(1) False r0 by (simp add: dict_lookup_entry_def)
    next
      case None
      show ?thesis
      proof (cases "rehashing d'")
        case True
        then obtain r1 where "lookup_in 1 key d' = Some r1"
            "case r1 of None \<Rightarrow> key \<notin> e_key ` set (entries_of (rehash d'))
             | Some loc \<Rightarrow> \<exists>e. entry_at d' loc = Some e \<and> e_key e = key"
          using lookup_in_ok [OF t(1) t(2), of 1 key] unfolding One_nat_def dict_table_simps by blast
        then show ?thesis
          using d'(1) False r0 None True none
          by (cases r1) (auto simp: dict_lookup_entry_def entries_def)
      next
        case False
        then show ?thesis
          using d'(1) \<open>m_size (primary d') \<noteq> 0\<close> r0 None none fin
          by (simp add: dict_lookup_entry_def entries_def)
      qed
    qed
  qed
  then show thesis
    using d' that by blast
qed

lemma dict_lookup_ok:
  assumes ok: "dict_ok d"
  shows "\<exists>d'. dict_lookup d (Some key) =
      Some (case dmap d key of None \<Rightarrow> (- XFIREDB_ERR, None, d') | Some v \<Rightarrow> (- XFIREDB_OK, Some v, d')) \<and>
    dict_ok d' \<and> dmap d' = dmap d \<and> same_contents d d'"
proof -
  obtain r d' where r: "dict_lookup_entry d key = Some (r, d')" "dict_ok d'" "same_contents d d'"
    "case r of None \<Rightarrow> dmap d key = None | Some loc \<Rightarrow> \<exists>e. entry_at d' loc = Some e \<and> e_key e = key"
    using dict_lookup_entry_ok [OF ok] .
  have dm: "dmap d' = dmap d"
    using same_contents_dmap [OF ok r(3)] .
  show ?thesis
  proof (cases r)
    case None
    then show ?thesis
      using r dm by (auto simp: dict_lookup_def)
  next
    case (Some loc)
    then obtain e where e: "entry_at d' loc = Some e" "e_key e = key"
      using r by auto
    then have "dmap d key = Some (e_value e, e_length e)"
      using dmap_SomeI [OF _ entry_at_mem [OF e(1)]] r(2) dm by (simp add: dict_ok_def)
    then show ?thesis
      using r e Some dm by (auto simp: dict_lookup_def)
  qed
qed

section \<open>Insertion\<close>

lemma chain_has_iff: "chain_has key ch \<longleftrightarrow> key \<in> e_key ` set ch"
  by (auto simp: chain_has_def list_ex_iff)

text \<open>The table that receives new entries.\<close>

definition target :: "dict \<Rightarrow> nat" where
  "target d = (if rehashing d then 1 else 0)"

lemma bucket_of_key:
  assumes "map_ok m" "m_array m \<noteq> None"
  obtains ch where "bucket m (int (hidx m key)) = Some ch"
    "chain_has key ch \<longleftrightarrow> key \<in> e_key ` set (entries_of m)"
    "sint (key_idx (m_sizemask m) key) = int (hidx m key)"
proof -
  obtain bs where bs: "m_array m = Some bs"
    using assms by auto
  have b: "bucket m (int (hidx m key)) = Some (bs ! hidx m key)"
    using bucket_hidx [OF assms(1) bs] .
  have "chain_has key (bs ! hidx m key) \<longleftrightarrow> key \<in> e_key ` set (entries_of m)"
    using key_in_bucket [OF assms(1) b] bucket_mem [OF b] by (auto simp: chain_has_iff)
  then show thesis
    using that b sint_key_idx [OF assms(1) bs] by blast
qed

lemma dict_calc_index_ok:
  assumes ok: "dict_ok d" and room: "has_room d"
  obtains d' where "dict_ok d'" "same_contents d d'" "m_array (dict_table (target d') d') \<noteq> None"
    "dict_calc_index g d key =
       Some (if dmap d key = None then int (hidx (dict_table (target d') d') key) else -1, d')"
proof -
  obtain d' where d': "dict_expand_if g d = (0, d')" "dict_ok d'" "same_contents d d'"
      "m_array (primary d') \<noteq> None"
    using dict_expand_if_ok [OF ok room] by blast
  have dm: "dmap d key = None \<longleftrightarrow> key \<notin> e_key ` set (entries d')"
    using dmap_dom [of key d'] same_contents_dmap [OF ok d'(3)] by (auto simp: domIff)
  obtain c0 where c0: "bucket (primary d') (int (hidx (primary d') key)) = Some c0"
      "chain_has key c0 \<longleftrightarrow> key \<in> e_key ` set (entries_of (primary d'))"
      "sint (key_idx (m_sizemask (primary d')) key) = int (hidx (primary d') key)"
    using bucket_of_key [of "primary d'" key] d' by (auto simp: dict_ok_def)
  show thesis
  proof (cases "rehashing d'")
    case False
    then have "entries_of (rehash d') = []"
      using d'(2) by (simp add: dict_ok_def entries_of_None)
    then show thesis
      using False d' c0 dm
      by (intro that [of d']) (auto simp: dict_calc_index_def uint_key_idx target_def entries_def Let_def)
  next
    case True
    then have ne: "m_array (rehash d') \<noteq> None"
      using d'(2) by (simp add: dict_ok_def)
    then obtain c1 where c1: "bucket (rehash d') (int (hidx (rehash d') key)) = Some c1"
      "chain_has key c1 \<longleftrightarrow> key \<in> e_key ` set (entries_of (rehash d'))"
      "sint (key_idx (m_sizemask (rehash d')) key) = int (hidx (rehash d') key)"
      using bucket_of_key [of "rehash d'" key] d' by (auto simp: dict_ok_def)
    then show thesis
      using True ne d' c0 dm
      by (intro that [of d']) (auto simp: dict_calc_index_def uint_key_idx target_def entries_def Let_def)
  qed
qed

lemma has_room_cong:
  "dict_ok d \<Longrightarrow> dict_ok d' \<Longrightarrow> same_contents d d' \<Longrightarrow> has_room d \<Longrightarrow> has_room d'"
  using same_contents_size [of d d'] by (simp add: has_room_def)

lemma e_key_new_entry [simp]: "e_key (new_entry key) = key"
  by (simp add: new_entry_def)

lemma dict_add_entry_ok:
  assumes ok: "dict_ok d" and room: "has_room d"
  obtains (old) d' where "dict_add_entry g d key = Some (None, d')" "dmap d key \<noteq> None"
      "dict_ok d'" "same_contents d d'"
    | (new) loc d' where "dict_add_entry g d key = Some (Some loc, d')" "dmap d key = None"
      "dict_ok d'" "entry_at d' loc = Some (new_entry key)"
      "mset (entries d') = add_mset (new_entry key) (mset (entries d))"
      "status d' = status d" "iterators d' = iterators d"
proof -
  obtain d1 where d1: "(if rehashing d then dict_rehash_step d else Some d) = Some d1"
      "dict_ok d1" "same_contents d d1"
    using rehash_prologue [OF ok] .
  have dm1: "dmap d1 = dmap d"
    using same_contents_dmap [OF ok d1(3)] .
  obtain d2 where d2: "dict_ok d2" "same_contents d1 d2" "m_array (dict_table (target d2) d2) \<noteq> None"
    "dict_calc_index g d1 key =
       Some (if dmap d1 key = None then int (hidx (dict_table (target d2) d2) key) else -1, d2)"
    using dict_calc_index_ok [OF d1(2) has_room_cong [OF ok d1(2,3) room]] .
  have sc: "same_contents d d2"
    using d1(3) d2(2) by (rule same_contents_trans)
  have dm2: "dmap d2 = dmap d"
    using same_contents_dmap [OF ok sc] .
  show thesis
  proof (cases "dmap d key")
    case (Some v)
    then show thesis
      using d1 d2 dm1 sc by (intro old [of d2]) (simp_all add: dict_add_entry_def)
  next
    case None
    let ?t = "target d2" let ?m = "dict_table ?t d2" let ?i = "int (hidx ?m key)"
    have mok: "map_ok ?m"
      using dict_table_ok(1) [OF d2(1)] .
    obtain ch where ch: "bucket ?m ?i = Some ch"
      using bucket_of_key [OF mok d2(3)] by metis
    let ?d3 = "set_table ?t (put_bucket ?i ch (new_entry key # ch) ?m) d2"
    have ms: "mset (entries ?d3) = add_mset (new_entry key) (mset (entries d2))"
      using set_table_put_mset [OF ch, of "new_entry key # ch"] by simp
    then have dist: "distinct (map e_key (entries ?d3))"
      using distinct_keys_add [OF ms] d2(1) None dm2 by (simp add: dict_ok_def)
    have "dict_ok ?d3"
      by (rule set_table_put_ok [OF d2(1) ch _ _ refl dist])
        (use bucket_hidx_eq [OF mok ch] in \<open>auto simp: target_def split: if_splits\<close>)
    moreover have "entry_at ?d3 (?t, hidx ?m key, 0) = Some (new_entry key)"
      using ch by (auto simp: entry_at_def bucket_def dict_table_def set_table_def
          split: option.splits if_splits)
    moreover have "dict_add_entry g d key = Some (Some (?t, hidx ?m key, 0), ?d3)"
      using d1(1) d2(4) dm1 None ch
      by (simp add: dict_add_entry_def target_def put_bucket_def Let_def)
    moreover have "status ?d3 = status d" "iterators ?d3 = iterators d"
      "mset (entries d2) = mset (entries d)"
      using sc by (simp_all add: same_contents_def)
    ultimately show thesis
      using None ms by (intro new [of "(?t, hidx ?m key, 0)" ?d3]) auto
  qed
qed

definition stored_value :: "(ptr \<Rightarrow> u64) \<Rightarrow> ptr \<Rightarrow> dict_type \<Rightarrow> u64" where
  "stored_value mem data t = (if t = DICT_PTR then data else mem data)"

lemma dict_set_val_sel [simp]:
  "e_key (dict_set_val mem e data t) = e_key e"
  "e_value (dict_set_val mem e data t) = stored_value mem data t"
  by (cases t; simp add: dict_set_val_def stored_value_def)+

lemma raw_dict_add_ok:
  assumes ok: "dict_ok d" and room: "has_room d"
  shows "\<exists>d'. raw_dict_add g mem d key data t len =
       Some (if dmap d key = None then - XFIREDB_OK else - XFIREDB_ERR, d') \<and> dict_ok d' \<and>
     status d' = status d \<and> iterators d' = iterators d \<and>
     dmap d' = (if dmap d key = None then (dmap d)(key \<mapsto> (stored_value mem data t, len)) else dmap d) \<and>
     dict_get_size d' = dict_get_size d + (if dmap d key = None then 1 else 0)"
proof (rule dict_add_entry_ok [OF ok room, of g key])
  fix d' assume o: "dict_add_entry g d key = Some (None, d')" "dmap d key \<noteq> None" "dict_ok d'"
    "same_contents d d'"
  then show ?thesis
    using same_contents_dmap [OF ok o(4)] same_contents_size [OF ok o(3,4)]
    by (auto simp: raw_dict_add_def same_contents_def)
next
  fix loc d' assume n: "dict_add_entry g d key = Some (Some loc, d')" "dmap d key = None"
    "dict_ok d'" "entry_at d' loc = Some (new_entry key)"
    "mset (entries d') = add_mset (new_entry key) (mset (entries d))"
    "status d' = status d" "iterators d' = iterators d"
  let ?f = "\<lambda>e. (dict_set_val mem e data t)\<lparr>e_length := len\<rparr>"
  note u = upd_entry_ok [where f = ?f, OF n(3,4)] upd_entry_dmap [where f = ?f, OF n(3,4)]
  have dm: "dmap d' = (dmap d)(key \<mapsto> (0, 0))"
    using dmap_add [OF n(5)] n(3) by (simp add: dict_ok_def new_entry_def)
  have sz: "dict_get_size d' = dict_get_size d + 1"
    using arg_cong [OF n(5), of size] ok n(3) by (simp add: dict_get_size_entries)
  show ?thesis
    using n u dm sz by (auto simp: raw_dict_add_def)
qed

section \<open>Update\<close>

lemma raw_dict_update_ok:
  assumes ok: "dict_ok d" and room: "has_room d"
  shows "\<exists>d'. raw_dict_update g mem d key data t len = Some (- XFIREDB_OK, d') \<and> dict_ok d' \<and>
     status d' = status d \<and> iterators d' = iterators d \<and>
     dmap d' = (dmap d)(key \<mapsto> (stored_value mem data t,
        if dmap d key = None then dict_get_entry_length t else len)) \<and>
     dict_get_size d' = dict_get_size d + (if dmap d key = None then 1 else 0)"
proof -
  obtain r d1 where r: "dict_lookup_entry d key = Some (r, d1)" "dict_ok d1" "same_contents d d1"
    "case r of None \<Rightarrow> dmap d key = None | Some loc \<Rightarrow> \<exists>e. entry_at d1 loc = Some e \<and> e_key e = key"
    using dict_lookup_entry_ok [OF ok] .
  have dm: "dmap d1 = dmap d" and sz: "dict_get_size d1 = dict_get_size d"
    using same_contents_dmap [OF ok r(3)] same_contents_size [OF ok r(2,3)] .
  show ?thesis
  proof (cases r)
    case None
    then obtain d' where "raw_dict_add g mem d1 key data t (dict_get_entry_length t) = Some (0, d')"
      "dict_ok d'" "status d' = status d1" "iterators d' = iterators d1"
      "dmap d' = (dmap d1)(key \<mapsto> (stored_value mem data t, dict_get_entry_length t))"
      "dict_get_size d' = dict_get_size d1 + 1"
      using raw_dict_add_ok [OF r(2) has_room_cong [OF ok r(2,3) room],
          of g mem key data t "dict_get_entry_length t"] r(4) dm by auto
    then show ?thesis
      using None r dm sz by (auto simp: raw_dict_update_def dict_add_def same_contents_def)
  next
    case (Some loc)
    then obtain e where e: "entry_at d1 loc = Some e" "e_key e = key"
      using r(4) by auto
    let ?f = "\<lambda>e. (dict_set_val mem e data t)\<lparr>e_length := len\<rparr>"
    note u = upd_entry_ok [where f = ?f, OF r(2) e(1)] upd_entry_dmap [where f = ?f, OF r(2) e(1)]
    have "dmap d key \<noteq> None"
      using dmap_SomeI [OF _ entry_at_mem [OF e(1)]] r(2) dm e(2) by (simp add: dict_ok_def)
    then show ?thesis
      using Some r(1,3) u e dm sz by (auto simp: raw_dict_update_def same_contents_def)
  qed
qed

section \<open>Deletion\<close>

lemma unlink_Some:
  "unlink key ch = Some (e, ch') \<Longrightarrow> e_key e = key \<and> mset ch = add_mset e (mset ch')"
  by (induction ch arbitrary: ch') (auto split: if_splits)

lemma unlink_None: "unlink key ch = None \<longleftrightarrow> key \<notin> e_key ` set ch"
  by (induction ch) auto

lemma delete_in_ok:
  assumes ok: "dict_ok d" and ne: "m_array (dict_table t d) \<noteq> None"
  obtains (absent) "delete_in t key d = Some (None, d)"
      "key \<notin> e_key ` set (entries_of (dict_table t d))"
    | (hit) e d' where "delete_in t key d = Some (Some e, d')" "e_key e = key" "dict_ok d'"
      "mset (entries d) = add_mset e (mset (entries d'))" "status d' = status d"
      "iterators d' = iterators d"
proof -
  let ?m = "dict_table t d" let ?i = "int (hidx ?m key)"
  have mok: "map_ok ?m"
    using dict_table_ok(1) [OF ok] .
  obtain ch where ch: "bucket ?m ?i = Some ch"
      "chain_has key ch \<longleftrightarrow> key \<in> e_key ` set (entries_of ?m)"
    using bucket_of_key [OF mok ne] by metis
  show thesis
  proof (cases "unlink key ch")
    case None
    then have "key \<notin> e_key ` set (entries_of ?m)"
      using ch(2) by (simp add: unlink_None chain_has_iff)
    moreover have "delete_in t key d = Some (None, d)"
      using ch(1) None by (simp add: delete_in_def uint_key_idx Let_def)
    ultimately show thesis
      by (rule absent [rotated])
  next
    case (Some p)
    obtain e ch' where p: "p = (e, ch')"
      by (cases p)
    then have e: "e_key e = key" "mset ch = add_mset e (mset ch')"
      using Some unlink_Some by auto
    let ?d = "set_table t (put_bucket ?i ch ch' ?m) d"
    have "length ch = Suc (length ch')"
      using arg_cong [OF e(2), of size] by simp
    then have del: "delete_in t key d = Some (Some e, ?d)"
      using ch(1) Some p by (simp add: delete_in_def uint_key_idx Let_def put_bucket_def)
    have ms: "mset (entries d) = add_mset e (mset (entries ?d))"
      using set_table_put_mset [OF ch(1), of ch'] e(2) by simp
    then have dist: "distinct (map e_key (entries ?d))"
      using distinct_keys_add [OF ms] ok by (simp add: dict_ok_def)
    have "set ch' \<subseteq> set ch"
      using arg_cong [OF e(2), of set_mset] by auto
    then have "dict_ok ?d"
      using bucket_hidx_eq [OF mok ch(1)] e(2)
      by (intro set_table_put_ok [OF ok ch(1) _ _ refl dist]) auto
    then show thesis
      using del e ms by (intro hit [of e ?d]) simp_all
  qed
qed

lemma dict_delete_entry_ok:
  assumes ok: "dict_ok d"
  obtains (absent) d' where "dict_delete_entry d key = Some (None, d')" "dmap d key = None"
      "dict_ok d'" "same_contents d d'"
    | (hit) e d' where "dict_delete_entry d key = Some (Some e, d')" "e_key e = key" "dict_ok d'"
      "mset (entries d) = add_mset e (mset (entries d'))" "status d' = status d"
      "iterators d' = iterators d"
proof -
  obtain d1 where d1: "(if rehashing d then dict_rehash_step d else Some d) = Some d1"
      "dict_ok d1" "same_contents d d1"
    using rehash_prologue [OF ok] .
  have none: "dmap d key = None" if "key \<notin> e_key ` set (entries d1)"
    using that dmap_dom [of key d1] same_contents_dmap [OF ok d1(3)] by (auto simp: domIff)
  have sc: "mset (entries d1) = mset (entries d)" "status d1 = status d" "iterators d1 = iterators d"
    using d1(3) by (simp_all add: same_contents_def)
  show thesis
  proof (cases "m_size (primary d1) = 0")
    case True
    then show thesis
      using d1 none dict_ok_size_0 [OF d1(2)]
      by (intro absent [of d1]) (simp_all add: dict_delete_entry_def)
  next
    case nz: False
    have ne: "m_array (dict_table 0 d1) \<noteq> None"
      using dict_table_ok(3) [OF d1(2) nz] .
    show thesis
    proof (rule delete_in_ok [OF d1(2) ne, of key])
      fix e d' assume "delete_in 0 key d1 = Some (Some e, d')" "e_key e = key" "dict_ok d'"
        "mset (entries d1) = add_mset e (mset (entries d'))" "status d' = status d1"
        "iterators d' = iterators d1"
      then show thesis
        using d1(1) nz sc by (intro hit [of e d']) (simp_all add: dict_delete_entry_def)
    next
      assume a0: "delete_in 0 key d1 = Some (None, d1)"
        "key \<notin> e_key ` set (entries_of (dict_table 0 d1))"
      show thesis
      proof (cases "rehashing d1")
        case False
        then have "entries_of (rehash d1) = []"
          using d1(2) by (simp add: dict_ok_def entries_of_None)
        then show thesis
          using d1 a0 nz none False
          by (intro absent [of d1]) (simp_all add: dict_delete_entry_def entries_def)
      next
        case True
        have eq: "dict_delete_entry d key = delete_in 1 key d1"
          using d1(1) a0 nz True by (simp add: dict_delete_entry_def)
        show thesis
          by (rule delete_in_ok [OF d1(2) dict_table_ok(2) [OF d1(2) True], of 1 key])
            (use eq d1 sc a0 none in \<open>auto simp: entries_def intro: hit absent\<close>)
      qed
    qed
  qed
qed

lemma dict_delete_ok:
  assumes ok: "dict_ok d"
  shows "\<exists>d'. dict_delete d (Some key) fr =
       Some (case dmap d key of None \<Rightarrow> (- XFIREDB_ERR, None, d')
             | Some (v, _) \<Rightarrow> (- XFIREDB_OK, if fr then None else Some v, d')) \<and>
     dict_ok d' \<and> dmap d' = (dmap d)(key := None) \<and> status d' = status d \<and>
     iterators d' = iterators d \<and>
     dict_get_size d' = dict_get_size d - (if dmap d key = None then 0 else 1)"
proof (rule dict_delete_entry_ok [OF ok, of key])
  fix d' assume a: "dict_delete_entry d key = Some (None, d')" "dmap d key = None" "dict_ok d'"
    "same_contents d d'"
  then show ?thesis
    using same_contents_dmap [OF ok a(4)] same_contents_size [OF ok a(3,4)]
    by (auto simp: dict_delete_def same_contents_def)
next
  fix e d' assume h: "dict_delete_entry d key = Some (Some e, d')" "e_key e = key" "dict_ok d'"
    "mset (entries d) = add_mset e (mset (entries d'))" "status d' = status d"
    "iterators d' = iterators d"
  have "dict_get_size d' = dict_get_size d - 1"
    using arg_cong [OF h(4), of size] ok h(3) by (simp add: dict_get_size_entries)
  then show ?thesis
    using h dmap_remove [OF h(4)] ok by (auto simp: dict_delete_def dict_ok_def)
qed

section \<open>Clearing\<close>

lemma clear_loop_ok:
  assumes "m_array m = Some bs" "i \<le> length bs" "m_length m = int (length (concat (drop i bs)))"
  shows "\<exists>m'. clear_loop (length bs - i) (int i) m = Some (concat (drop i bs), m')"
  using assms
proof (induction "length bs - i" arbitrary: i m)
  case (Suc n)
  have lt: "i < length bs"
    using Suc.hyps(2) by simp
  then have dr: "drop i bs = bs ! i # drop (Suc i) bs"
    by (simp add: Cons_nth_drop_Suc)
  let ?m = "m\<lparr>m_length := m_length m - int (length (bs ! i))\<rparr>"
  have n: "n = length bs - Suc i"
    using Suc.hyps(2) by simp
  obtain m' where "clear_loop (length bs - Suc i) (int (Suc i)) ?m = Some (concat (drop (Suc i) bs), m')"
    using Suc.hyps(1) [OF n, of ?m] Suc.prems dr lt by auto
  moreover have "bucket m (int i) = Some (bs ! i)"
    using Suc.prems(1) lt by (simp add: bucket_def)
  moreover have "length bs - i = Suc (length bs - Suc i)"
    using lt by simp
  ultimately have step: "clear_loop (length bs - i) (int i) m =
      (if m_length m > 0 then Some (concat (drop i bs), m') else Some ([], m))"
    using dr by (simp add: algebra_simps)
  show ?case
  proof (cases "m_length m > 0")
    case False
    then have "length (concat (drop i bs)) = 0"
      using Suc.prems(3) by linarith
    then show ?thesis
      using step False by (simp del: concat_eq_Nil_conv)
  qed (use step in simp)
qed auto

lemma dict_clear_map_ok:
  assumes "map_ok m"
  shows "dict_clear_map m = Some (entries_of m, dict_reset)"
proof (cases "m_array m")
  case None
  then show ?thesis
    using assms by (simp add: dict_clear_map_def map_ok_def entries_of_def)
next
  case (Some bs)
  then show ?thesis
    using clear_loop_ok [of m bs 0] assms map_ok_size [OF assms Some]
    by (auto simp: dict_clear_map_def map_ok_def entries_of_def)
qed

lemma dict_clear_ok:
  assumes "dict_ok d"
  shows "\<exists>d'. dict_clear d = Some (- XFIREDB_OK, entries d, d') \<and> dict_ok d' \<and> entries d' = [] \<and>
    status d' = status d \<and> iterators d' = iterators d"
  using assms by (auto simp: dict_clear_def dict_clear_map_ok dict_ok_def entries_def)

end
