(* ===== verification/DictRefine.thy ===== *)
theory DictRefine
  imports DictProps
begin

text \<open>
  The dictionary as an implementation of a finite map: any sequence of calls, interleaved with
  any number of turns of the rehash worker thread, gives the results of the same calls on an
  abstract map. Also the progress of the rehash, and the case in which it makes none.
\<close>

section \<open>The worker\<close>

text \<open>The clock readings of one call: the last one is past the time limit.\<close>

definition clock_ok :: "int \<Rightarrow> int list \<Rightarrow> bool" where
  "clock_ok ms clock \<longleftrightarrow> 2 \<le> length clock \<and> last clock - hd clock > ms"

lemma rehash_ms_loop_ok:
  assumes "dict_ok d" "clock \<noteq> []" "last clock - start > ms"
  shows "\<exists>n d'. rehash_ms_loop clock start ms num d = Some (n, d') \<and> dict_ok d' \<and> same_contents d d'"
  using assms
proof (induction clock arbitrary: num d)
  case (Cons now clock)
  obtain rc d1 where d1: "dict_rehash d 100 = Some (rc, d1)" "dict_ok d1" "same_contents d d1"
    using dict_rehash_ok [OF Cons.prems(1), of 100] by blast
  consider (stop) "rc = 0 \<or> now - start > ms" | (go) "rc \<noteq> 0" "\<not> now - start > ms"
    by blast
  then show ?case
  proof cases
    case stop
    then show ?thesis
      using d1 by (auto simp: rehash_ms_loop.simps [of "now # clock"])
  next
    case go
    then have "clock \<noteq> []"
      using Cons.prems by auto
    then obtain n d' where "rehash_ms_loop clock start ms (num + 100) d1 = Some (n, d')" "dict_ok d'"
        "same_contents d1 d'"
      using Cons.IH [of d1 "num + 100"] d1 Cons.prems by auto
    then show ?thesis
      using go d1 same_contents_trans [OF d1(3)]
      by (auto simp: rehash_ms_loop.simps [of "now # clock"])
  qed
qed simp

lemma dict_rehash_ms_ok:
  assumes "dict_ok d" "clock_ok ms clock"
  shows "\<exists>n d'. dict_rehash_ms clock d ms = Some (n, d') \<and> dict_ok d' \<and> same_contents d d'"
proof -
  obtain start now rest where "clock = start # now # rest"
    using assms(2) by (auto simp: clock_ok_def numeral_2_eq_2 Suc_le_length_iff)
  then show ?thesis
    using rehash_ms_loop_ok [OF assms(1), of "now # rest" ms start 0] assms(2)
    by (simp add: dict_rehash_ms_def clock_ok_def)
qed

lemma dict_rehash_worker_ok:
  assumes "dict_ok d" "clock_ok 2 clock"
  shows "\<exists>x d'. dict_rehash_worker clock d = Some (x, d') \<and> dict_ok d' \<and> same_contents d d'"
  using assms dict_rehash_ms_ok [OF assms] by (auto simp: dict_rehash_worker_def)

section \<open>Calls and their specification\<close>

datatype dict_op =
    OpLookup string
  | OpAdd string ptr dict_type u64
  | OpUpdate string ptr dict_type u64
  | OpDelete string bool
  | OpSize
  | OpClear
  | OpWorker "int list"

datatype dict_res = RLookup int "(u64 \<times> u64) option" | RCode int | RDelete int "u64 option" | RSize int | RNone

definition exec_op :: "dict_conf \<Rightarrow> (ptr \<Rightarrow> u64) \<Rightarrow> dict_op \<Rightarrow> dict \<Rightarrow> (dict_res \<times> dict) option" where
  "exec_op g mem cmd d =
     (case cmd of
        OpLookup k \<Rightarrow> map_option (\<lambda>(rc, v, d). (RLookup rc v, d)) (dict_lookup d (Some k))
      | OpAdd k p t l \<Rightarrow> map_option (\<lambda>(rc, d). (RCode rc, d)) (raw_dict_add g mem d k p t l)
      | OpUpdate k p t l \<Rightarrow> map_option (\<lambda>(rc, d). (RCode rc, d)) (raw_dict_update g mem d k p t l)
      | OpDelete k fr \<Rightarrow> map_option (\<lambda>(rc, v, d). (RDelete rc v, d)) (dict_delete d (Some k) fr)
      | OpSize \<Rightarrow> Some (RSize (dict_get_size d), d)
      | OpClear \<Rightarrow> map_option (\<lambda>(rc, _, d). (RCode rc, d)) (dict_clear d)
      | OpWorker clock \<Rightarrow> map_option (\<lambda>(_, d). (RNone, d)) (dict_rehash_worker clock d))"

text \<open>The same call on a finite map from keys to value and length.\<close>

definition spec_op ::
  "(ptr \<Rightarrow> u64) \<Rightarrow> dict_op \<Rightarrow> (string \<rightharpoonup> u64 \<times> u64) \<Rightarrow> dict_res \<times> (string \<rightharpoonup> u64 \<times> u64)" where
  "spec_op mem cmd m =
     (case cmd of
        OpLookup k \<Rightarrow> (RLookup (if m k = None then - XFIREDB_ERR else - XFIREDB_OK) (m k), m)
      | OpAdd k p t l \<Rightarrow>
          (if m k = None then (RCode (- XFIREDB_OK), m(k \<mapsto> (stored_value mem p t, l)))
           else (RCode (- XFIREDB_ERR), m))
      | OpUpdate k p t l \<Rightarrow>
          (RCode (- XFIREDB_OK),
           m(k \<mapsto> (stored_value mem p t, if m k = None then dict_get_entry_length t else l)))
      | OpDelete k fr \<Rightarrow>
          (case m k of
             None \<Rightarrow> (RDelete (- XFIREDB_ERR) None, m)
           | Some (v, _) \<Rightarrow> (RDelete (- XFIREDB_OK) (if fr then None else Some v), m(k := None)))
      | OpSize \<Rightarrow> (RSize (int (card (dom m))), m)
      | OpClear \<Rightarrow> (RCode (- XFIREDB_OK), Map.empty)
      | OpWorker _ \<Rightarrow> (RNone, m))"

definition op_ok :: "dict_op \<Rightarrow> bool" where
  "op_ok cmd = (case cmd of OpWorker clock \<Rightarrow> clock_ok 2 clock | _ \<Rightarrow> True)"

primrec exec_ops ::
  "dict_conf \<Rightarrow> (ptr \<Rightarrow> u64) \<Rightarrow> dict_op list \<Rightarrow> dict \<Rightarrow> (dict_res list \<times> dict) option" where
  "exec_ops g mem [] d = Some ([], d)"
| "exec_ops g mem (cmd # cmds) d =
     (case exec_op g mem cmd d of
        None \<Rightarrow> None
      | Some (r, d) \<Rightarrow>
          (case exec_ops g mem cmds d of None \<Rightarrow> None | Some (rs, d) \<Rightarrow> Some (r # rs, d)))"

primrec spec_ops ::
  "(ptr \<Rightarrow> u64) \<Rightarrow> dict_op list \<Rightarrow> (string \<rightharpoonup> u64 \<times> u64) \<Rightarrow> dict_res list \<times> (string \<rightharpoonup> u64 \<times> u64)"
  where
  "spec_ops mem [] m = ([], m)"
| "spec_ops mem (cmd # cmds) m =
     (let (r, m) = spec_op mem cmd m; (rs, m) = spec_ops mem cmds m in (r # rs, m))"

lemma dict_get_size_card:
  assumes "dict_ok d"
  shows "dict_get_size d = int (card (dom (dmap d)))"
proof -
  have "dom (dmap d) = set (map e_key (entries d))"
    using dmap_dom [of _ d] by auto
  then show ?thesis
    using assms distinct_card [of "map e_key (entries d)"]
    by (simp add: dict_get_size_entries dict_ok_def)
qed

lemma dmap_empty: "entries d = [] \<Longrightarrow> dmap d = Map.empty"
  by (simp add: dmap_def)

lemma exec_op_refines:
  assumes ok: "dict_ok d" and room: "has_room d" and op: "op_ok cmd"
  shows "\<exists>d'. exec_op g mem cmd d = Some (fst (spec_op mem cmd (dmap d)), d') \<and> dict_ok d' \<and>
     dmap d' = snd (spec_op mem cmd (dmap d)) \<and> dict_get_size d' \<le> dict_get_size d + 1"
proof (cases cmd)
  case (OpLookup k)
  obtain r d1 where r: "dict_lookup d (Some k) = Some (case dmap d k of None \<Rightarrow> (- XFIREDB_ERR, None, d1)
      | Some v \<Rightarrow> (- XFIREDB_OK, Some v, d1))" "dict_ok d1" "same_contents d d1" "dmap d1 = dmap d"
    using dict_lookup_ok [OF ok] by blast
  then show ?thesis
    using OpLookup same_contents_size [OF ok r(2,3)]
    by (cases "dmap d k") (auto simp: exec_op_def spec_op_def)
next
  case (OpAdd k p t l)
  then show ?thesis
    using raw_dict_add_ok [OF ok room, of g mem k p t l]
    by (cases "dmap d k") (auto simp: exec_op_def spec_op_def)
next
  case (OpUpdate k p t l)
  then show ?thesis
    using raw_dict_update_ok [OF ok room, of g mem k p t l]
    by (cases "dmap d k") (auto simp: exec_op_def spec_op_def)
next
  case (OpDelete k fr)
  then show ?thesis
    using dict_delete_ok [OF ok, of k fr]
    by (cases "dmap d k") (auto simp: exec_op_def spec_op_def fun_upd_idem)
next
  case OpSize
  then show ?thesis
    using ok by (simp add: exec_op_def spec_op_def dict_get_size_card)
next
  case OpClear
  then show ?thesis
    using dict_clear_ok [OF ok] ok
    by (auto simp: exec_op_def spec_op_def dmap_empty dict_get_size_entries)
next
  case (OpWorker clock)
  then obtain x d' where w: "dict_rehash_worker clock d = Some (x, d')" "dict_ok d'" "same_contents d d'"
    using dict_rehash_worker_ok [OF ok, of clock] op by (auto simp: op_ok_def)
  then show ?thesis
    using OpWorker same_contents_dmap [OF ok w(3)] same_contents_size [OF ok w(2,3)]
    by (simp add: exec_op_def spec_op_def)
qed

lemma exec_ops_refine:
  assumes "dict_ok d" "dict_get_size d + int (length cmds) \<le> 2 ^ 30" "list_all op_ok cmds"
  shows "\<exists>d'. exec_ops g mem cmds d = Some (fst (spec_ops mem cmds (dmap d)), d') \<and> dict_ok d' \<and>
     dmap d' = snd (spec_ops mem cmds (dmap d))"
  using assms
proof (induction cmds arbitrary: d)
  case (Cons cmd cmds)
  obtain d1 where d1: "exec_op g mem cmd d = Some (fst (spec_op mem cmd (dmap d)), d1)" "dict_ok d1"
     "dmap d1 = snd (spec_op mem cmd (dmap d))" "dict_get_size d1 \<le> dict_get_size d + 1"
    using exec_op_refines [OF Cons.prems(1), of cmd g mem] Cons.prems by (auto simp: has_room_def)
  then show ?case
    using Cons.IH [OF d1(2)] Cons.prems by (auto simp: case_prod_unfold Let_def)
qed simp

lemma dict_alloc_tables:
  "m_array (primary dict_alloc) = Some [[], [], [], []]" "m_array (rehash dict_alloc) = None"
  using zalloc_ptrs_pow [of 2]
  by (simp_all add: dict_alloc_def DICT_MINIMAL_SIZE_def eval_nat_numeral)

lemma dict_alloc_ok: "dict_ok dict_alloc" "entries dict_alloc = []" "dict_get_size dict_alloc = 0"
proof -
  show e: "entries dict_alloc = []"
    by (simp add: entries_def entries_of_def dict_alloc_tables)
  have "table_size (primary dict_alloc) (length [[], [], [], [] :: chain]) 2"
    by (simp add: table_size_def dict_alloc_def xdb_defs mask_eq_exp_minus_1)
  moreover have "[[], [], [], [] :: chain] ! i = []" if "i < 4" for i
    using that by (simp add: less_Suc_eq numeral_eq_Suc) auto
  ultimately have "map_ok (primary dict_alloc)"
    using dict_alloc_tables(1) by (auto simp: map_ok_def) (simp_all add: dict_alloc_def)
  moreover have "map_ok (rehash dict_alloc)"
    using dict_alloc_tables(2) by (simp add: map_ok_def) (simp add: dict_alloc_def)
  moreover have "\<not> rehashing dict_alloc"
    by (simp add: dict_alloc_def)
  ultimately show "dict_ok dict_alloc"
    using e dict_alloc_tables(2) by (simp add: dict_ok_def)
  show "dict_get_size dict_alloc = 0"
    by (simp add: dict_get_size_def dict_alloc_def)
qed

section \<open>Properties of the operations\<close>

text \<open>A history that leaves the dictionary in the middle of a rehash: five insertions.\<close>

definition sample_ops :: "dict_op list" where
  "sample_ops = map (\<lambda>k. OpAdd k 7 DICT_PTR 8) [''c'', ''m'', ''o'', ''b'', ''e'']"

definition sample_dict :: "dict_op list \<Rightarrow> dict" where
  "sample_dict cmds =
     (case exec_ops default_conf (\<lambda>_. 0) cmds dict_alloc of None \<Rightarrow> dict_alloc | Some (_, d) \<Rightarrow> d)"

lemma sample_dict_ok:
  assumes "length cmds \<le> 2 ^ 30" "list_all op_ok cmds"
  shows "dict_ok (sample_dict cmds)"
proof -
  have "dict_get_size dict_alloc + int (length cmds) \<le> 2 ^ 30"
    using assms(1) dict_alloc_ok(3) by simp
  from exec_ops_refine [OF dict_alloc_ok(1) this assms(2), of default_conf "\<lambda>_. 0"]
  show ?thesis
    by (auto simp: sample_dict_def)
qed

lemma sample_dict_facts:
  "dict_ok (sample_dict sample_ops)" "has_room (sample_dict sample_ops)"
  "rehashing (sample_dict sample_ops)" "m_length (primary (sample_dict sample_ops)) = 4"
  "m_size (primary (sample_dict sample_ops)) = 4"
proof -
  show "dict_ok (sample_dict sample_ops)"
    by (rule sample_dict_ok) (simp_all add: sample_ops_def op_ok_def)
  show "rehashing (sample_dict sample_ops)" "m_length (primary (sample_dict sample_ops)) = 4"
    "m_size (primary (sample_dict sample_ops)) = 4" "has_room (sample_dict sample_ops)"
    by code_simp+
qed

text \<open>
  C3: any sequence of lookups, insertions, updates, deletions, size queries and clears on a
  fresh dictionary, interleaved with any number of turns of the rehash worker, returns (it
  never reads outside a table and no assertion fails), keeps the invariant, and gives the
  results of the same calls on a finite map. The bound is the number of calls: up to
  \<open>2 ^ 30\<close> entries a bucket index fits the \<^verbatim>\<open>int\<close> result of \<^verbatim>\<open>dict_calc_index\<close>.
\<close>

theorem dict_sequence_refines_map:
  assumes "int (length cmds) \<le> 2 ^ 30" "list_all op_ok cmds"
  shows "\<exists>d. exec_ops g mem cmds dict_alloc = Some (fst (spec_ops mem cmds Map.empty), d) \<and>
    dict_ok d \<and> dmap d = snd (spec_ops mem cmds Map.empty)"
  using exec_ops_refine [OF dict_alloc_ok(1), of cmds g mem] assms dict_alloc_ok(2,3)
  by (simp add: dmap_empty)

theorem dict_sequence_refines_map_witness:
  "\<exists>d. exec_ops default_conf (\<lambda>_. 0) [OpAdd ''c'' 7 DICT_PTR 8, OpWorker [0, 5], OpLookup ''c''] dict_alloc =
      Some ([RCode 0, RNone, RLookup 0 (Some (7, 8))], d) \<and> dict_ok d \<and> dmap d = [''c'' \<mapsto> (7, 8)]"
  using dict_sequence_refines_map
    [of "[OpAdd ''c'' 7 DICT_PTR 8, OpWorker [0, 5], OpLookup ''c'']" default_conf "\<lambda>_. 0"]
  by (simp add: op_ok_def clock_ok_def spec_op_def stored_value_def Let_def)

text \<open>
  \<^verbatim>\<open>dict_lookup\<close> on a well-formed dictionary, in any stage of a rehash, returns the value
  and length stored under the key and \<^verbatim>\<open>-XFIREDB_OK\<close>, or \<^verbatim>\<open>-XFIREDB_ERR\<close> exactly when the key
  is absent; the rehash step it performs keeps the invariant and the contents.
\<close>

theorem dict_lookup_refines:
  assumes "dict_ok d"
  shows "\<exists>d'. dict_lookup d (Some key) =
      Some (case dmap d key of None \<Rightarrow> (- XFIREDB_ERR, None, d') | Some v \<Rightarrow> (- XFIREDB_OK, Some v, d')) \<and>
    dict_ok d' \<and> dmap d' = dmap d \<and> same_contents d d'"
  using assms by (rule dict_lookup_ok)

theorem dict_lookup_refines_witness:
  "\<exists>d'. dict_lookup (sample_dict sample_ops) (Some ''b'') =
      Some (case dmap (sample_dict sample_ops) ''b'' of None \<Rightarrow> (- XFIREDB_ERR, None, d')
            | Some v \<Rightarrow> (- XFIREDB_OK, Some v, d')) \<and>
    dict_ok d' \<and> dmap d' = dmap (sample_dict sample_ops) \<and> same_contents (sample_dict sample_ops) d'"
  by (rule dict_lookup_refines [OF sample_dict_facts(1)])

text \<open>
  \<^verbatim>\<open>raw_dict_add\<close> inserts a new key with the given value and length, or reports
  \<^verbatim>\<open>-XFIREDB_ERR\<close> and changes nothing when the key is present; growing the table never fails.
\<close>

theorem raw_dict_add_refines:
  assumes "dict_ok d" "has_room d"
  shows "\<exists>d'. raw_dict_add g mem d key data t len =
       Some (if dmap d key = None then - XFIREDB_OK else - XFIREDB_ERR, d') \<and> dict_ok d' \<and>
     dmap d' = (if dmap d key = None then (dmap d)(key \<mapsto> (stored_value mem data t, len)) else dmap d) \<and>
     dict_get_size d' = dict_get_size d + (if dmap d key = None then 1 else 0)"
  using raw_dict_add_ok [OF assms, of g mem key data t len] by blast

theorem raw_dict_add_refines_witness:
  "\<exists>d'. raw_dict_add default_conf (\<lambda>_. 0) (sample_dict sample_ops) ''z'' 9 DICT_PTR 8 =
       Some (if dmap (sample_dict sample_ops) ''z'' = None then - XFIREDB_OK else - XFIREDB_ERR, d') \<and>
     dict_ok d' \<and>
     dmap d' = (if dmap (sample_dict sample_ops) ''z'' = None
       then (dmap (sample_dict sample_ops))(''z'' \<mapsto> (stored_value (\<lambda>_. 0) 9 DICT_PTR, 8))
       else dmap (sample_dict sample_ops)) \<and>
     dict_get_size d' = dict_get_size (sample_dict sample_ops) +
       (if dmap (sample_dict sample_ops) ''z'' = None then 1 else 0)"
  by (rule raw_dict_add_refines [OF sample_dict_facts(1,2)])

text \<open>
  \<^verbatim>\<open>raw_dict_update\<close> always succeeds and binds the key to the new value. The length given
  by the caller is stored only when the key was present: a new key gets the length of its
  type instead.
\<close>

theorem raw_dict_update_refines:
  assumes "dict_ok d" "has_room d"
  shows "\<exists>d'. raw_dict_update g mem d key data t len = Some (- XFIREDB_OK, d') \<and> dict_ok d' \<and>
     dmap d' = (dmap d)(key \<mapsto> (stored_value mem data t,
        if dmap d key = None then dict_get_entry_length t else len))"
  using raw_dict_update_ok [OF assms, of g mem key data t len] by blast

theorem raw_dict_update_refines_witness:
  "\<exists>d'. raw_dict_update default_conf (\<lambda>_. 0) (sample_dict sample_ops) ''b'' 9 DICT_PTR 33 =
       Some (- XFIREDB_OK, d') \<and> dict_ok d' \<and>
     dmap d' = (dmap (sample_dict sample_ops))(''b'' \<mapsto> (stored_value (\<lambda>_. 0) 9 DICT_PTR,
        if dmap (sample_dict sample_ops) ''b'' = None then dict_get_entry_length DICT_PTR else 33))"
  by (rule raw_dict_update_refines [OF sample_dict_facts(1,2)])

text \<open>
  \<^verbatim>\<open>dict_delete\<close> removes the key and hands out its value (unless the caller asked for it
  to be freed), or reports \<^verbatim>\<open>-XFIREDB_ERR\<close> when the key is absent; no other key changes.
\<close>

theorem dict_delete_refines:
  assumes "dict_ok d"
  shows "\<exists>d'. dict_delete d (Some key) fr =
       Some (case dmap d key of None \<Rightarrow> (- XFIREDB_ERR, None, d')
             | Some (v, _) \<Rightarrow> (- XFIREDB_OK, if fr then None else Some v, d')) \<and>
     dict_ok d' \<and> dmap d' = (dmap d)(key := None) \<and>
     dict_get_size d' = dict_get_size d - (if dmap d key = None then 0 else 1)"
  using dict_delete_ok [OF assms, of key fr] by blast

theorem dict_delete_refines_witness:
  "\<exists>d'. dict_delete (sample_dict sample_ops) (Some ''b'') False =
       Some (case dmap (sample_dict sample_ops) ''b'' of None \<Rightarrow> (- XFIREDB_ERR, None, d')
             | Some (v, _) \<Rightarrow> (- XFIREDB_OK, if False then None else Some v, d')) \<and>
     dict_ok d' \<and> dmap d' = (dmap (sample_dict sample_ops))(''b'' := None) \<and>
     dict_get_size d' = dict_get_size (sample_dict sample_ops) -
       (if dmap (sample_dict sample_ops) ''b'' = None then 0 else 1)"
  by (rule dict_delete_refines [OF sample_dict_facts(1)])

text \<open>
  \<^verbatim>\<open>dict_clear\<close> releases every entry of both tables exactly once and leaves a well-formed
  empty dictionary.
\<close>

theorem dict_clear_frees_all:
  assumes "dict_ok d"
  shows "\<exists>d'. dict_clear d = Some (- XFIREDB_OK, entries d, d') \<and> dict_ok d' \<and> entries d' = []"
  using dict_clear_ok [OF assms] by blast

theorem dict_clear_frees_all_witness:
  "\<exists>d'. dict_clear (sample_dict sample_ops) = Some (- XFIREDB_OK, entries (sample_dict sample_ops), d') \<and>
     dict_ok d' \<and> entries d' = []"
  by (rule dict_clear_frees_all [OF sample_dict_facts(1)])

section \<open>Progress of the rehash\<close>

text \<open>
  C24: while entries remain in the old table, a call of \<^verbatim>\<open>dict_rehash\<close> finishes the rehash or
  advances \<^verbatim>\<open>rehashidx\<close>, and a call with at least as many steps as the old table has buckets
  finishes it: every entry is then in the primary table.
\<close>

theorem dict_rehash_completes:
  assumes ok: "dict_ok d" "rehashing d" and len: "0 < m_length (primary d)" and num: "0 < num"
  shows "\<exists>rc d'. dict_rehash d num = Some (rc, d') \<and> dict_ok d' \<and> same_contents d d' \<and>
    (rc = 0 \<and> \<not> rehashing d' \<or> rc = 1 \<and> rehashing d' \<and> rehashidx d < rehashidx d') \<and>
    (m_size (primary d) \<le> int num \<longrightarrow> rc = 0)"
proof -
  obtain rc d' where r: "dict_rehash d num = Some (rc, d')" "dict_ok d'" "same_contents d d'"
      "rc \<in> {0, 1}" "rehashing d' \<longleftrightarrow> rc = 1"
    using dict_rehash_ok [OF ok(1)] by blast
  obtain n where n: "num = Suc n"
    using num by (cases num) auto
  have loop: "rehash_loop (Suc n) (num * 10) d = Some (rc, d')"
    using r(1) ok(2) n by (simp add: dict_rehash_def)
  have "rehashidx d < rehashidx d'" if "rc = 1"
    using rehash_loop_progress [OF ok len _ loop [unfolded that]] num by simp
  moreover have "rc = 0" if "m_size (primary d) \<le> int num"
  proof -
    have "0 \<le> rehashidx d"
      using ok by (auto simp: dict_ok_def)
    then have "\<exists>d'. rehash_loop num (num * 10) d = Some (0, d')"
      using that num by (intro rehash_loop_completes [OF ok len]) simp_all
    then show ?thesis
      using loop n by auto
  qed
  ultimately show ?thesis
    using r by auto
qed

theorem dict_rehash_completes_witness:
  "\<exists>d'. dict_rehash (sample_dict sample_ops) 4 = Some (0, d') \<and> dict_ok d' \<and> \<not> rehashing d' \<and>
     same_contents (sample_dict sample_ops) d'"
proof -
  have "m_size (primary (sample_dict sample_ops)) \<le> int 4"
    by code_simp
  then show ?thesis
    using dict_rehash_completes [OF sample_dict_facts(1,3), of 4] by (auto simp: sample_dict_facts(4))
qed

section \<open>A rehash that cannot end\<close>

text \<open>
  \<open>stalled d\<close>: a rehash is going on and its old table is empty. \<open>kept d d'\<close>: the rehash goes on, with the same old table and the
  same number of buckets in the new one.
\<close>

definition stalled :: "dict \<Rightarrow> bool" where
  "stalled d \<longleftrightarrow> rehashing d \<and> m_length (primary d) = 0 \<and> (\<forall>i ch. bucket (primary d) i = Some ch \<longrightarrow> ch = [])"

definition kept :: "dict \<Rightarrow> dict \<Rightarrow> bool" where
  "kept d d' \<longleftrightarrow> rehashing d' \<and> primary d' = primary d \<and> m_size (rehash d') = m_size (rehash d)"

lemma stalledI:
  assumes "dict_ok d" "rehashing d" "m_length (primary d) = 0"
  shows "stalled d"
proof -
  obtain bs where bs: "m_array (primary d) = Some bs" "concat bs = []"
    using assms by (auto simp: dict_ok_def map_ok_def split: option.splits)
  have "bs ! i = []" if "i < length bs" for i
    using bs(2) that by (metis concat_eq_Nil_conv nth_mem)
  then show ?thesis
    using assms(2,3) bs(1) by (auto simp: stalled_def bucket_def split: if_splits)
qed

lemma stalled_bucket: "stalled d \<Longrightarrow> bucket (primary d) i = Some ch \<Longrightarrow> ch = []"
  by (simp add: stalled_def)

lemma kept_refl: "stalled d \<Longrightarrow> kept d d"
  by (simp add: kept_def stalled_def)

lemma kept_trans: "kept d d1 \<Longrightarrow> kept d1 d2 \<Longrightarrow> kept d d2"
  by (simp add: kept_def)

lemma kept_stalled: "stalled d \<Longrightarrow> kept d d' \<Longrightarrow> stalled d'"
  by (simp add: kept_def stalled_def)

lemma stalled_steps:
  assumes "stalled d"
  shows "dict_rehash d num = Some (1, d)" "dict_rehash_step d = Some d" "dict_expand_if g d = (- XFIREDB_OK, d)"
proof -
  have "rehash_loop num v d = Some (1, d)" for num v
    using assms by (cases num) (simp_all add: stalled_def)
  then show "dict_rehash d num = Some (1, d)"  for num
    using assms by (simp add: dict_rehash_def stalled_def)
  then show "dict_rehash_step d = Some d"
    by (simp add: dict_rehash_step_def)
  show "dict_expand_if g d = (- XFIREDB_OK, d)"
    using assms by (simp add: dict_expand_if_def stalled_def)
qed

lemma kept_set_table:
  "stalled d \<Longrightarrow> t \<noteq> 0 \<Longrightarrow> m_size m = m_size (rehash d) \<Longrightarrow> kept d (set_table t m d)"
  by (simp add: kept_def stalled_def set_table_def)

lemma stalled_lookup_entry:
  assumes "stalled d" "dict_lookup_entry d key = Some (e, d')"
  shows "d' = d" "\<forall>t i pos. e = Some (t, i, pos) \<longrightarrow> t \<noteq> 0"
proof -
  have r: "rehashing d"
    using assms(1) by (simp add: stalled_def)
  have "lookup_in 0 key d = None \<or> lookup_in 0 key d = Some None"
    by (auto simp: lookup_in_def Let_def dict_table_def split: option.split dest: stalled_bucket [OF assms(1)])
  moreover have "t \<noteq> 0" if "lookup_in 1 key d = Some (Some (t, i, pos))" for t i pos
    using that by (auto simp: lookup_in_def Let_def split: option.splits)
  ultimately have "d' = d \<and> (\<forall>t i pos. e = Some (t, i, pos) \<longrightarrow> t \<noteq> 0)"
    using assms(2) r by (auto simp: dict_lookup_entry_def stalled_steps(2) [OF assms(1)] split: if_splits option.splits)
  then show "d' = d" "\<forall>t i pos. e = Some (t, i, pos) \<longrightarrow> t \<noteq> 0"
    by blast+
qed

lemma kept_upd_entry:
  assumes "stalled d" "t \<noteq> 0"
  shows "kept d (upd_entry (t, i, pos) f d)"
  using kept_refl [OF assms(1)] kept_set_table [OF assms]
  by (auto simp: upd_entry_def dict_table_def set_bucket_def assms(2) split: option.split)

lemma stalled_add_entry:
  assumes "stalled d" "dict_add_entry g d key = Some (e, d')"
  shows "kept d d'" "\<forall>t i pos. e = Some (t, i, pos) \<longrightarrow> t \<noteq> 0"
proof -
  have r: "rehashing d"
    using assms(1) by (simp add: stalled_def)
  have c: "d1 = d" if "dict_calc_index g d key = Some (index, d1)" for index d1
    using that by (auto simp: dict_calc_index_def stalled_steps(3) [OF assms(1)] Let_def split: if_splits option.splits)
  have "kept d d' \<and> (\<forall>t i pos. e = Some (t, i, pos) \<longrightarrow> t \<noteq> 0)"
    using assms(2) r kept_refl [OF assms(1)]
    by (auto simp: dict_add_entry_def stalled_steps(2) [OF assms(1)] dict_table_def set_bucket_def Let_def
        intro!: kept_set_table [OF assms(1)] dest!: c split: if_splits option.splits)
  then show "kept d d'" "\<forall>t i pos. e = Some (t, i, pos) \<longrightarrow> t \<noteq> 0"
    by blast+
qed

lemma stalled_add:
  assumes "stalled d" "raw_dict_add g mem d key data t len = Some (rc, d')"
  shows "kept d d'"
proof -
  obtain e d1 where e: "dict_add_entry g d key = Some (e, d1)"
    using assms(2) by (auto simp: raw_dict_add_def split: option.splits)
  note k = stalled_add_entry [OF assms(1) e]
  show ?thesis
    using assms(2) e k kept_trans [OF k(1) kept_upd_entry [OF kept_stalled [OF assms(1) k(1)]]]
    by (auto simp: raw_dict_add_def split: option.splits)
qed

lemma stalled_update:
  assumes "stalled d" "raw_dict_update g mem d key data t len = Some (rc, d')"
  shows "kept d d'"
proof -
  obtain e d1 where e: "dict_lookup_entry d key = Some (e, d1)"
    using assms(2) by (auto simp: raw_dict_update_def split: option.splits)
  note k = stalled_lookup_entry [OF assms(1) e]
  show ?thesis
    using assms(2) e k kept_upd_entry [OF assms(1)] stalled_add [OF assms(1)]
    by (auto simp: raw_dict_update_def dict_add_def split: option.splits)
qed

lemma stalled_lookup: "stalled d \<Longrightarrow> dict_lookup d (Some key) = Some (rc, v, d') \<Longrightarrow> d' = d"
  by (auto simp: dict_lookup_def split: option.splits dest: stalled_lookup_entry(1))

lemma stalled_delete:
  assumes "stalled d" "dict_delete d (Some key) fr = Some (rc, v, d')"
  shows "kept d d'"
proof -
  have r: "rehashing d"
    using assms(1) by (simp add: stalled_def)
  have d0: "delete_in 0 key d = None \<or> delete_in 0 key d = Some (None, d)"
    by (auto simp: delete_in_def Let_def dict_table_def split: option.split dest: stalled_bucket [OF assms(1)])
  have d1: "kept d d2" if "delete_in 1 key d = Some (e, d2)" for e d2
    using that kept_refl [OF assms(1)]
    by (auto simp: delete_in_def Let_def dict_table_def set_bucket_def intro!: kept_set_table [OF assms(1)] split: option.splits)
  obtain e where "dict_delete_entry d key = Some (e, d')"
    using assms(2) by (auto simp: dict_delete_def split: option.splits)
  then show ?thesis
    using d0 d1 r kept_refl [OF assms(1)]
    by (auto simp: dict_delete_entry_def stalled_steps(2) [OF assms(1)] split: if_splits)
qed

lemma stalled_worker: "stalled d \<Longrightarrow> dict_rehash_worker clock d = Some (x, d') \<Longrightarrow> d' = d"
proof -
  assume d: "stalled d" "dict_rehash_worker clock d = Some (x, d')"
  have "d' = d" if "rehash_ms_loop clock start ms num d = Some (n, d')" for clock start ms num n d'
    using that by (induction clock arbitrary: num)
      (auto simp: rehash_ms_loop.simps stalled_steps(1) [OF d(1)] split: if_splits)
  then show ?thesis
    using d(2) by (auto simp: dict_rehash_worker_def dict_rehash_ms_def split: if_splits list.splits)
qed

lemma stalled_op:
  assumes "stalled d" "exec_op g mem cmd d = Some (r, d')" "cmd \<noteq> OpClear"
  shows "kept d d'"
  using assms(2,3) kept_refl [OF assms(1)]
  by (cases cmd) (auto simp: exec_op_def dest!: stalled_lookup [OF assms(1)] stalled_worker [OF assms(1)]
    intro: stalled_add [OF assms(1)] stalled_update [OF assms(1)] stalled_delete [OF assms(1)])

lemma stalled_ops:
  assumes "stalled d" "exec_ops g mem cmds d = Some (rs, d')" "OpClear \<notin> set cmds"
  shows "kept d d'"
  using assms
proof (induction cmds arbitrary: d rs)
  case Nil
  then show ?case
    by (simp add: kept_refl)
next
  case (Cons cmd cmds)
  obtain r d1 rs1 where d1: "exec_op g mem cmd d = Some (r, d1)" "exec_ops g mem cmds d1 = Some (rs1, d')"
    using Cons.prems(2) by (auto split: option.splits)
  have "kept d d1"
    using stalled_op [OF Cons.prems(1) d1(1)] Cons.prems(3) by auto
  then show ?case
    using Cons.IH [OF kept_stalled [OF Cons.prems(1)] d1(2)] Cons.prems(3) kept_trans by auto
qed

text \<open>
  C38: when deletions empty the old table during a rehash, only \<^verbatim>\<open>dict_clear\<close> ends the rehash. After any sequence of lookups,
  insertions, updates, deletions, size queries and turns of the worker the dictionary is still rehashing, with the empty old
  table and the number of buckets of the new one unchanged, however many entries were added; the calls answer as before,
  and \<^verbatim>\<open>dict_rehash\<close> reports more work and does none. The witness reaches such a state with five insertions and one deletion.
\<close>

theorem dict_rehash_stalls:
  assumes "dict_ok d" "rehashing d" "m_length (primary d) = 0" "list_all op_ok cmds" "OpClear \<notin> set cmds"
    and "dict_get_size d + int (length cmds) \<le> 2 ^ 30"
  shows "\<exists>d'. exec_ops g mem cmds d = Some (fst (spec_ops mem cmds (dmap d)), d') \<and> dmap d' = snd (spec_ops mem cmds (dmap d)) \<and>
    rehashing d' \<and> primary d' = primary d \<and> m_size (rehash d') = m_size (rehash d) \<and> (\<forall>num. dict_rehash d' num = Some (1, d'))"
proof -
  have st: "stalled d"
    by (rule stalledI [OF assms(1-3)])
  obtain d' where d': "exec_ops g mem cmds d = Some (fst (spec_ops mem cmds (dmap d)), d')" "dmap d' = snd (spec_ops mem cmds (dmap d))"
    using exec_ops_refine [OF assms(1,6,4)] by blast
  have "kept d d'"
    using stalled_ops [OF st d'(1) assms(5)] .
  then show ?thesis
    using d' stalled_steps(1) [OF kept_stalled [OF st]] by (auto simp: kept_def)
qed

theorem dict_rehash_stalls_witness:
  "(let d = sample_dict (sample_ops @ [OpDelete ''b'' False]); cmds = map (\<lambda>k. OpAdd k 7 DICT_PTR 8) [''q'', ''r'', ''s'', ''t'', ''u'', ''v''] in
    \<exists>d'. exec_ops default_conf (\<lambda>_. 0) cmds d = Some (fst (spec_ops (\<lambda>_. 0) cmds (dmap d)), d') \<and>
      rehashing d' \<and> m_size (rehash d') = 8 \<and> dict_rehash d' 100 = Some (1, d'))"
proof -
  let ?d = "sample_dict (sample_ops @ [OpDelete ''b'' False])"
    and ?cmds = "map (\<lambda>k. OpAdd k 7 DICT_PTR 8) [''q'', ''r'', ''s'', ''t'', ''u'', ''v'']"
  have ok: "dict_ok ?d"
    by (rule sample_dict_ok) (simp_all add: sample_ops_def op_ok_def)
  have d: "rehashing ?d" "m_length (primary ?d) = 0" "m_size (rehash ?d) = 8" "dict_get_size ?d + int (length ?cmds) \<le> 2 ^ 30"
    by code_simp+
  have "list_all op_ok ?cmds" "OpClear \<notin> set ?cmds"
    by (simp_all add: op_ok_def)
  then show ?thesis
    unfolding Let_def using dict_rehash_stalls [OF ok d(1,2) _ _ d(4)] d(3) by fastforce
qed

end
