(* ===== verification/Database.thy ===== *)
theory Database
  imports DictRefine
begin

text \<open>
  The key-value database of \<^verbatim>\<open>storage/database.c\<close>: a named dictionary from keys to container
  pointers. The interface that the engine relies on is the locale \<open>kvstore\<close>; the database is an
  interpretation of it.
\<close>

section \<open>Interface\<close>

locale kvstore =
  fixes inv :: "'s \<Rightarrow> bool" and room :: "'s \<Rightarrow> bool" and abs :: "'s \<Rightarrow> 'k \<rightharpoonup> 'v"
    and look :: "'s \<Rightarrow> 'k \<Rightarrow> (int \<times> 'v option \<times> 's) option"
    and store :: "'s \<Rightarrow> 'k \<Rightarrow> 'v \<Rightarrow> (int \<times> 's) option"
    and update :: "'s \<Rightarrow> 'k \<Rightarrow> 'v \<Rightarrow> (int \<times> 's) option"
    and delete :: "'s \<Rightarrow> 'k \<Rightarrow> (int \<times> 'v option \<times> 's) option"
  assumes look_law: "inv s \<Longrightarrow>
      \<exists>s'. look s k = Some (if abs s k = None then -1 else 0, abs s k, s') \<and> inv s' \<and> abs s' = abs s"
    and store_law: "inv s \<Longrightarrow> room s \<Longrightarrow>
      \<exists>s'. store s k v = Some (if abs s k = None then 0 else -1, s') \<and> inv s' \<and>
        abs s' = (if abs s k = None then (abs s)(k \<mapsto> v) else abs s)"
    and update_law: "inv s \<Longrightarrow> room s \<Longrightarrow>
      \<exists>s'. update s k v = Some (0, s') \<and> inv s' \<and> abs s' = (abs s)(k \<mapsto> v)"
    and delete_law: "inv s \<Longrightarrow>
      \<exists>s'. delete s k = Some (if abs s k = None then -1 else 0, abs s k, s') \<and> inv s' \<and>
        abs s' = (abs s)(k := None)"
begin

text \<open>Running a call that also returns a value, and one that returns a code only.\<close>

lemma look_after_store:
  assumes "inv s" "room s" "abs s k = None"
  shows "\<exists>s1 s2. store s k v = Some (0, s1) \<and> look s1 k = Some (0, Some v, s2) \<and> inv s2"
proof -
  obtain s1 where s1: "store s k v = Some (0, s1)" "inv s1" "abs s1 = (abs s)(k \<mapsto> v)"
    using store_law [OF assms(1,2), of k v] assms(3) by auto
  then show ?thesis
    using look_law [OF s1(2), of k] by auto
qed

lemma look_after_update:
  assumes "inv s" "room s"
  shows "\<exists>s1 s2. update s k v = Some (0, s1) \<and> look s1 k = Some (0, Some v, s2) \<and> inv s2"
proof -
  obtain s1 where s1: "update s k v = Some (0, s1)" "inv s1" "abs s1 = (abs s)(k \<mapsto> v)"
    using update_law [OF assms, of k v] by auto
  then show ?thesis
    using look_law [OF s1(2), of k] by auto
qed

lemma look_after_delete:
  assumes "inv s"
  shows "\<exists>rc v s1 s2. delete s k = Some (rc, v, s1) \<and> look s1 k = Some (-1, None, s2) \<and> inv s2"
proof -
  obtain s1 where s1: "delete s k = Some (if abs s k = None then -1 else 0, abs s k, s1)" "inv s1"
      "abs s1 = (abs s)(k := None)"
    using delete_law [OF assms, of k] by auto
  then show ?thesis
    using look_law [OF s1(2), of k] by auto
qed

lemma store_delete:
  assumes "inv s" "room s" "abs s k = None"
  shows "\<exists>s1 s2. store s k v = Some (0, s1) \<and> delete s1 k = Some (0, Some v, s2) \<and> inv s2 \<and>
    abs s2 = abs s"
proof -
  obtain s1 where s1: "store s k v = Some (0, s1)" "inv s1" "abs s1 = (abs s)(k \<mapsto> v)"
    using store_law [OF assms(1,2), of k v] assms(3) by auto
  moreover obtain s2 where "delete s1 k = Some (0, Some v, s2)" "inv s2" "abs s2 = (abs s1)(k := None)"
    using delete_law [OF s1(2), of k] s1(3) by auto
  moreover have "(abs s1)(k := None) = abs s"
    using s1(3) assms(3) by (simp add: fun_upd_idem)
  ultimately show ?thesis
    by auto
qed

end

section \<open>The database\<close>

record database =
  db_name :: string
  container :: dict

definition db_alloc :: "string \<Rightarrow> database" where
  "db_alloc nm = \<lparr>db_name = nm, container = dict_alloc\<rparr>"

definition with_container :: "database \<Rightarrow> dict \<Rightarrow> database" where
  "with_container db d = db\<lparr>container := d\<rparr>"

definition db_update ::
  "dict_conf \<Rightarrow> (ptr \<Rightarrow> u64) \<Rightarrow> database \<Rightarrow> string \<Rightarrow> ptr \<Rightarrow> (int \<times> database) option" where
  "db_update g mem db key c =
     map_option (\<lambda>(rc, d). (rc, with_container db d)) (dict_update g mem (container db) key c DICT_PTR)"

definition db_store ::
  "dict_conf \<Rightarrow> (ptr \<Rightarrow> u64) \<Rightarrow> database \<Rightarrow> string \<Rightarrow> ptr \<Rightarrow> (int \<times> database) option" where
  "db_store g mem db key c =
     map_option (\<lambda>(rc, d). (rc, with_container db d)) (dict_add g mem (container db) key c DICT_PTR)"

text \<open>
  \<^verbatim>\<open>db_delete\<close> copies the uninitialised \<^verbatim>\<open>val\<close> when the key is absent; the output is then
  \<^const>\<open>None\<close> (an indeterminate value).
\<close>

definition db_delete :: "database \<Rightarrow> string \<Rightarrow> (int \<times> ptr option \<times> database) option" where
  "db_delete db key =
     map_option (\<lambda>(rc, v, d). (rc, v, with_container db d)) (dict_delete (container db) (Some key) False)"

definition db_lookup :: "database \<Rightarrow> string \<Rightarrow> (int \<times> ptr option \<times> database) option" where
  "db_lookup db key =
     (case dict_lookup (container db) (Some key) of
        None \<Rightarrow> None
      | Some (rv, val, d) \<Rightarrow>
          if rv \<noteq> - XFIREDB_OK then Some (rv, None, with_container db d)
          else Some (rv, map_option fst val, with_container db d))"

definition db_get_size :: "database \<Rightarrow> int" where
  "db_get_size db = dict_get_size (container db)"

text \<open>\<^verbatim>\<open>db_free\<close>: the released entries, the released arrays, and the dictionary the worker sees.\<close>

definition db_free :: "database \<Rightarrow> (dict_entry list \<times> chain list list \<times> dict) option" where
  "db_free db =
     (case dict_clear (container db) of
        None \<Rightarrow> None
      | Some (_, freed, d) \<Rightarrow> (case dict_free d of (arrays, d) \<Rightarrow> Some (freed, arrays, d)))"

definition db_ok :: "database \<Rightarrow> bool" where
  "db_ok db \<longleftrightarrow> dict_ok (container db)"

definition db_room :: "database \<Rightarrow> bool" where
  "db_room db \<longleftrightarrow> has_room (container db)"

definition dbmap :: "database \<Rightarrow> string \<rightharpoonup> ptr" where
  "dbmap db = map_option fst \<circ> dmap (container db)"

lemmas db_defs = db_ok_def db_room_def dbmap_def with_container_def

lemma db_lookup_ok:
  assumes "db_ok db"
  shows "\<exists>db'. db_lookup db k = Some (if dbmap db k = None then -1 else 0, dbmap db k, db') \<and>
    db_ok db' \<and> dbmap db' = dbmap db"
  using dict_lookup_ok [of "container db" k] assms
  by (cases "dmap (container db) k") (auto simp: db_lookup_def db_defs)

lemma db_store_ok:
  assumes "db_ok db" "db_room db"
  shows "\<exists>db'. db_store g mem db k v = Some (if dbmap db k = None then 0 else -1, db') \<and> db_ok db' \<and>
    dbmap db' = (if dbmap db k = None then (dbmap db)(k \<mapsto> v) else dbmap db)"
  using raw_dict_add_ok [of "container db" g mem k v DICT_PTR "dict_get_entry_length DICT_PTR"] assms
  by (cases "dmap (container db) k")
    (auto simp: db_store_def dict_add_def db_defs stored_value_def fun_eq_iff)

lemma db_update_ok:
  assumes "db_ok db" "db_room db"
  shows "\<exists>db'. db_update g mem db k v = Some (0, db') \<and> db_ok db' \<and> dbmap db' = (dbmap db)(k \<mapsto> v)"
  using raw_dict_update_ok [of "container db" g mem k v DICT_PTR "dict_get_entry_length DICT_PTR"] assms
  by (auto simp: db_update_def dict_update_def db_defs stored_value_def fun_eq_iff)

lemma db_delete_ok:
  assumes "db_ok db"
  shows "\<exists>db'. db_delete db k = Some (if dbmap db k = None then -1 else 0, dbmap db k, db') \<and>
    db_ok db' \<and> dbmap db' = (dbmap db)(k := None)"
  using dict_delete_ok [of "container db" k False] assms
  by (cases "dmap (container db) k") (auto simp: db_delete_def db_defs fun_eq_iff)

interpretation db: kvstore db_ok db_room dbmap db_lookup "db_store g mem" "db_update g mem" db_delete
  for g mem
  by unfold_locales (rule db_lookup_ok db_store_ok db_update_ok db_delete_ok; assumption)+

lemma db_alloc_ok: "db_ok (db_alloc nm)" "dbmap (db_alloc nm) = Map.empty" "db_room (db_alloc nm)"
  using dict_alloc_ok by (simp_all add: db_alloc_def db_defs dmap_empty has_room_def fun_eq_iff)

text \<open>
  C25: storing a container under a new key and looking the key up returns the container;
  deleting it returns the container again and restores the database.
\<close>

theorem db_store_lookup_delete:
  assumes "db_ok db" "db_room db" "dbmap db k = None"
  shows "(\<exists>db1 db2. db_store g mem db k c = Some (0, db1) \<and> db_lookup db1 k = Some (0, Some c, db2) \<and> db_ok db2) \<and>
    (\<exists>db1 db2. db_store g mem db k c = Some (0, db1) \<and> db_delete db1 k = Some (0, Some c, db2) \<and>
       db_ok db2 \<and> dbmap db2 = dbmap db)"
  using db.look_after_store [OF assms, of g mem c] db.store_delete [OF assms, of g mem c] by blast

theorem db_store_lookup_delete_witness:
  "(\<exists>db1 db2. db_store default_conf (\<lambda>_. 0) (db_alloc ''xfiredb'') ''k'' 64 = Some (0, db1) \<and>
      db_lookup db1 ''k'' = Some (0, Some 64, db2) \<and> db_ok db2) \<and>
    (\<exists>db1 db2. db_store default_conf (\<lambda>_. 0) (db_alloc ''xfiredb'') ''k'' 64 = Some (0, db1) \<and>
       db_delete db1 ''k'' = Some (0, Some 64, db2) \<and>
       db_ok db2 \<and> dbmap db2 = dbmap (db_alloc ''xfiredb''))"
  by (rule db_store_lookup_delete) (simp_all add: db_alloc_ok)

end
