(* ===== verification/Bitops.thy ===== *)
theory Bitops
  imports XPrelude
begin

text \<open>
  Bit operations: \<^verbatim>\<open>libxfiredbengine/bitops.c\<close> (on a raw address) and
  \<^verbatim>\<open>libxfiredbengine/bitops-atomic.c\<close> (on an \<^verbatim>\<open>atomic_flags_t\<close>, under its spinlock).

  A raw address is a function from word offsets to the \<^verbatim>\<open>unsigned long\<close> stored there.
  Bit numbers are non-negative \<^verbatim>\<open>int\<close>s. \<^verbatim>\<open>include/asm/bitsperlong.h\<close> defines
  \<^verbatim>\<open>__BITS_PER_LONG\<close> as \<^verbatim>\<open>sizeof(long)\<close>, which is 8 on LP64: bit \<open>nr\<close> lives in word
  \<open>nr div 7\<close> at position \<open>nr mod 8\<close>. The operations still satisfy the bit-field contract
  (locale \<open>bitfield\<close>), because \<open>nr \<mapsto> (nr div 7, nr mod 8)\<close> is injective; what breaks is
  that only the bits 0 to 6 lie in the first word.
\<close>

section \<open>Addressing\<close>

definition BITS_PER_LONG :: nat where
  [xdb_defs]: "BITS_PER_LONG = 8"

definition bit_word :: "nat \<Rightarrow> nat" where
  "bit_word nr = nr div (BITS_PER_LONG - 1)"

definition bit_pos :: "nat \<Rightarrow> nat" where
  "bit_pos nr = nr mod BITS_PER_LONG"

type_synonym words = "nat \<Rightarrow> u64"

section \<open>bitops.c\<close>

definition raw_test_bit :: "nat \<Rightarrow> u64 \<Rightarrow> int" where
  "raw_test_bit b w = uint (drop_bit b w AND 1)"

definition mem_test_bit :: "nat \<Rightarrow> words \<Rightarrow> int" where
  "mem_test_bit nr m = raw_test_bit (bit_pos nr) (m (bit_word nr))"

definition mem_set_bit :: "nat \<Rightarrow> words \<Rightarrow> words" where
  "mem_set_bit nr m = m(bit_word nr := m (bit_word nr) OR push_bit (bit_pos nr) 1)"

definition mem_clear_bit :: "nat \<Rightarrow> words \<Rightarrow> words" where
  "mem_clear_bit nr m = m(bit_word nr := m (bit_word nr) AND NOT (push_bit (bit_pos nr) 1))"

definition mem_test_and_clear_bit :: "nat \<Rightarrow> words \<Rightarrow> int \<times> words" where
  "mem_test_and_clear_bit nr m =
     (let old = raw_test_bit (bit_pos nr) (m (bit_word nr));
          m' = m(bit_word nr := m (bit_word nr) AND NOT (push_bit (bit_pos nr) 1))
      in ((if old \<noteq> 0 then 1 else 0), m'))"

definition mem_test_and_set_bit :: "nat \<Rightarrow> words \<Rightarrow> int \<times> words" where
  "mem_test_and_set_bit nr m =
     (let old = raw_test_bit (bit_pos nr) (m (bit_word nr));
          m' = m(bit_word nr := m (bit_word nr) OR push_bit (bit_pos nr) 1)
      in ((if old \<noteq> 0 then 1 else 0), m'))"

text \<open>
  \<^verbatim>\<open>__swap_bit\<close> takes two addresses of one memory, as word offsets; they may alias.
  The mask \<^verbatim>\<open>1 << (nr % BITS_PER_LONG)\<close> is a positive \<^verbatim>\<open>int\<close>.
\<close>

definition raw_swap_bit :: "u64 \<Rightarrow> nat \<Rightarrow> nat \<Rightarrow> words \<Rightarrow> words" where
  "raw_swap_bit b p1 p2 m =
     (let m1 = m(p1 := m p1 XOR (m p2 AND b));
          m2 = m1(p2 := m1 p2 XOR (m1 p1 AND b))
      in m2(p1 := m2 p1 XOR (m2 p2 AND b)))"

definition mem_swap_bit :: "nat \<Rightarrow> nat \<Rightarrow> nat \<Rightarrow> words \<Rightarrow> words" where
  "mem_swap_bit nr a1 a2 m =
     raw_swap_bit (push_bit (bit_pos nr) 1) (a1 + bit_word nr) (a2 + bit_word nr) m"

section \<open>bitops-atomic.c\<close>

text \<open>
  An \<^verbatim>\<open>atomic_flags_t\<close> is one \<^verbatim>\<open>unsigned long\<close> and its lock. The lock makes each
  operation one atomic step. Where the code addresses a word past \<^verbatim>\<open>flags\<close>
  (\<open>bit_word nr \<noteq> 0\<close>), or shifts by 64 or more, the model returns \<^const>\<open>None\<close>:
  the access is outside the object, or the shift is undefined.
\<close>

record atomic_flags =
  aflags :: u64

definition in_flags :: "nat \<Rightarrow> bool" where
  "in_flags nr \<longleftrightarrow> bit_word nr = 0"

definition atomic_flags_init :: atomic_flags where
  "atomic_flags_init = \<lparr>aflags = 0\<rparr>"

definition atomic_flags_copy :: "atomic_flags \<Rightarrow> atomic_flags \<Rightarrow> atomic_flags" where
  "atomic_flags_copy dst src = dst\<lparr>aflags := aflags src\<rparr>"

definition atomic_test_bit :: "nat \<Rightarrow> atomic_flags \<Rightarrow> int option" where
  "atomic_test_bit nr atom =
     (if in_flags nr then Some (raw_test_bit (bit_pos nr) (aflags atom)) else None)"

definition atomic_set_bit :: "nat \<Rightarrow> atomic_flags \<Rightarrow> atomic_flags option" where
  "atomic_set_bit nr atom =
     (if in_flags nr then Some (atom\<lparr>aflags := aflags atom OR push_bit (bit_pos nr) 1\<rparr>)
      else None)"

definition atomic_clear_bit :: "nat \<Rightarrow> atomic_flags \<Rightarrow> atomic_flags option" where
  "atomic_clear_bit nr atom =
     (if in_flags nr
      then Some (atom\<lparr>aflags := aflags atom AND NOT (push_bit (bit_pos nr) 1)\<rparr>) else None)"

definition atomic_test_and_clear_bit :: "nat \<Rightarrow> atomic_flags \<Rightarrow> (int \<times> atomic_flags) option"
  where
  "atomic_test_and_clear_bit nr atom =
     (if in_flags nr
      then let old = raw_test_bit (bit_pos nr) (aflags atom)
           in Some ((if old \<noteq> 0 then 1 else 0),
                    atom\<lparr>aflags := aflags atom AND NOT (push_bit (bit_pos nr) 1)\<rparr>)
      else None)"

definition atomic_test_and_set_bit :: "nat \<Rightarrow> atomic_flags \<Rightarrow> (int \<times> atomic_flags) option"
  where
  "atomic_test_and_set_bit nr atom =
     (if in_flags nr
      then let old = raw_test_bit (bit_pos nr) (aflags atom)
           in Some ((if old \<noteq> 0 then 1 else 0),
                    atom\<lparr>aflags := aflags atom OR push_bit (bit_pos nr) 1\<rparr>)
      else None)"

definition atomic_raw_swap_bit ::
  "u64 \<Rightarrow> atomic_flags \<Rightarrow> atomic_flags \<Rightarrow> atomic_flags \<times> atomic_flags" where
  "atomic_raw_swap_bit b atom1 atom2 =
     (let f1 = aflags atom1 XOR (aflags atom2 AND b);
          f2 = aflags atom2 XOR (f1 AND b);
          f1' = f1 XOR (f2 AND b)
      in (atom1\<lparr>aflags := f1'\<rparr>, atom2\<lparr>aflags := f2\<rparr>))"

definition atomic_swap_bit ::
  "nat \<Rightarrow> atomic_flags \<Rightarrow> atomic_flags \<Rightarrow> (atomic_flags \<times> atomic_flags) option" where
  "atomic_swap_bit nr atom1 atom2 =
     (if in_flags nr then Some (atomic_raw_swap_bit (push_bit (bit_pos nr) 1) atom1 atom2)
      else None)"

text \<open>
  \<^verbatim>\<open>test_and_swap_bit\<close> passes the mask \<^verbatim>\<open>1 << n\<close>, not the position \<open>n\<close>, to
  \<^verbatim>\<open>__raw_test_bit\<close>, which shifts by it.
\<close>

definition atomic_test_and_swap_bit ::
  "nat \<Rightarrow> atomic_flags \<Rightarrow> atomic_flags \<Rightarrow> (int \<times> atomic_flags \<times> atomic_flags) option" where
  "atomic_test_and_swap_bit nr atom1 atom2 =
     (let b = (2::nat) ^ bit_pos nr in
      if in_flags nr \<and> b < 64
      then let old = raw_test_bit b (aflags atom1);
               (r1, r2) = atomic_raw_swap_bit (of_nat b) atom1 atom2
           in Some ((if old \<noteq> 0 then 1 else 0), r1, r2)
      else None)"

section \<open>Lemmas\<close>

lemma bit_addr_inj:
  assumes "bit_word n = bit_word k" and "bit_pos n = bit_pos k"
  shows "n = k"
proof -
  have q: "n div 7 = k div 7" and r: "n mod 8 = k mod 8"
    using assms by (simp_all add: bit_word_def bit_pos_def xdb_defs)
  have le: "a = b" if "a \<le> b" "a div 7 = b div 7" "a mod 8 = b mod 8" for a b :: nat
  proof -
    have "b - a < 7"
      using that(1,2) div_mult_mod_eq [of a 7] div_mult_mod_eq [of b 7]
        mod_less_divisor [of 7 a] mod_less_divisor [of 7 b] by linarith
    moreover have "8 dvd b - a"
      using that(1,3) by (metis mod_eq_dvd_iff_nat)
    ultimately have "b - a = 0"
      using dvd_imp_le [of 8 "b - a"] by linarith
    with that(1) show ?thesis by simp
  qed
  show ?thesis
    using le [of n k] le [of k n] q r by linarith
qed

lemma bit_pos_less: "bit_pos n < 8"
  by (simp add: bit_pos_def xdb_defs)

lemma in_flags_iff: "in_flags nr \<longleftrightarrow> nr < 7"
  by (simp add: in_flags_def bit_word_def xdb_defs div_eq_0_iff)

lemma raw_test_bit_eq: "raw_test_bit b w = (if bit w b then 1 else 0)"
  by (simp add: raw_test_bit_def bit_iff_and_drop_bit_eq_1 [of w b] and_one_eq
      even_drop_bit_iff_not_bit)

lemma bit_mask_at [simp]: "bit (push_bit (bit_pos n) (1::u64)) j \<longleftrightarrow> j = bit_pos n"
  using bit_pos_less [of n] by (auto simp: bit_exp_iff)

lemma same_bit: "bit_word n = bit_word k \<Longrightarrow> bit_pos n = bit_pos k \<longleftrightarrow> n = k"
  using bit_addr_inj by blast

lemma bit_pos_in_word: "bit_pos n < 64"
  using bit_pos_less [of n] by simp

section \<open>The bit-field contract\<close>

text \<open>
  What the users of flags rely on: a bit reads as set after it was set, as clear after it
  was cleared, and no operation touches another bit. \<open>valid\<close> is the range of bit numbers
  the storage has room for.
\<close>

locale bitfield =
  fixes get :: "nat \<Rightarrow> 'm \<Rightarrow> bool"
    and put :: "nat \<Rightarrow> 'm \<Rightarrow> 'm"
    and del :: "nat \<Rightarrow> 'm \<Rightarrow> 'm"
    and valid :: "nat \<Rightarrow> bool"
  assumes get_put: "valid n \<Longrightarrow> valid k \<Longrightarrow> get n (put k m) \<longleftrightarrow> n = k \<or> get n m"
    and get_del: "valid n \<Longrightarrow> valid k \<Longrightarrow> get n (del k m) \<longleftrightarrow> n \<noteq> k \<and> get n m"
begin

lemma get_fold_put:
  "valid n \<Longrightarrow> list_all valid ks \<Longrightarrow> get n (fold put ks m) \<longleftrightarrow> n \<in> set ks \<or> get n m"
  by (induction ks arbitrary: m) (auto simp: get_put)

lemma get_fold_del:
  "valid n \<Longrightarrow> list_all valid ks \<Longrightarrow> get n (fold del ks m) \<longleftrightarrow> n \<notin> set ks \<and> get n m"
  by (induction ks arbitrary: m) (auto simp: get_del)

lemma put_then_del: "valid n \<Longrightarrow> valid k \<Longrightarrow> get n (del k (put k m)) \<longleftrightarrow> n \<noteq> k \<and> get n m"
  by (auto simp: get_put get_del)

end

definition mem_bit :: "nat \<Rightarrow> words \<Rightarrow> bool" where
  "mem_bit nr m \<longleftrightarrow> mem_test_bit nr m = 1"

lemma mem_bit_iff: "mem_bit nr m \<longleftrightarrow> bit (m (bit_word nr)) (bit_pos nr)"
  by (simp add: mem_bit_def mem_test_bit_def raw_test_bit_eq)

lemma mem_bit_set: "mem_bit n (mem_set_bit k m) \<longleftrightarrow> n = k \<or> mem_bit n m"
  by (auto simp: mem_bit_iff mem_set_bit_def bit_or_iff same_bit bit_addr_inj
      simp del: push_bit_of_1)

lemma mem_bit_clear: "mem_bit n (mem_clear_bit k m) \<longleftrightarrow> n \<noteq> k \<and> mem_bit n m"
  by (auto simp: mem_bit_iff mem_clear_bit_def bit_and_iff bit_not_iff same_bit
      bit_addr_inj bit_pos_in_word simp del: push_bit_of_1)

interpretation memf: bitfield mem_bit mem_set_bit mem_clear_bit "\<lambda>_. True"
  by unfold_locales (simp_all add: mem_bit_set mem_bit_clear)

text \<open>The flags object, on the bit numbers that fit its single word.\<close>

definition flag_bit :: "nat \<Rightarrow> atomic_flags \<Rightarrow> bool" where
  "flag_bit nr a \<longleftrightarrow> atomic_test_bit nr a = Some 1"

lemma flag_bit_iff: "in_flags nr \<Longrightarrow> flag_bit nr a \<longleftrightarrow> bit (aflags a) (bit_pos nr)"
  by (simp add: flag_bit_def atomic_test_bit_def raw_test_bit_eq)

lemma flag_pos: "in_flags n \<Longrightarrow> in_flags k \<Longrightarrow> bit_pos n = bit_pos k \<longleftrightarrow> n = k"
  by (auto simp: in_flags_def intro: bit_addr_inj)

interpretation flagf: bitfield flag_bit "\<lambda>n a. the (atomic_set_bit n a)"
  "\<lambda>n a. the (atomic_clear_bit n a)" in_flags
  by unfold_locales
    (auto simp: flag_bit_iff atomic_set_bit_def atomic_clear_bit_def bit_or_iff bit_and_iff
      bit_not_iff bit_pos_in_word flag_pos simp del: push_bit_of_1)

section \<open>Properties\<close>

lemma mem_test_bit_if: "mem_test_bit n m = (if mem_bit n m then 1 else 0)"
  by (simp add: mem_bit_def mem_test_bit_def raw_test_bit_eq)

text \<open>After setting the bits \<open>ks\<close> and clearing the bits \<open>cs\<close> of a flag area, testing any
  bit returns 0 for a cleared bit, 1 for a bit that was only set, and the old value for every
  other bit, although consecutive bit numbers overlap words in steps of seven.\<close>

theorem bits_set_clear_test:
  "mem_test_bit n (fold mem_clear_bit cs (fold mem_set_bit ks m)) =
     (if n \<in> set cs then 0 else if n \<in> set ks then 1 else mem_test_bit n m)"
  by (simp add: mem_test_bit_if memf.get_fold_put memf.get_fold_del list_all_iff)

lemma bit_xor_swap:
  fixes x y b :: u64
  shows "y XOR ((x XOR (y AND b)) AND b) = (y AND NOT b) OR (x AND b)"
    and "(x XOR (y AND b)) XOR (((y AND NOT b) OR (x AND b)) AND b) = (x AND NOT b) OR (y AND b)"
  by (rule bit_word_eqI, auto simp: bit_xor_iff bit_and_iff bit_or_iff bit_not_iff)+

text \<open>Swapping bit \<open>nr\<close> of two different flag areas exchanges exactly that bit and leaves
  every other word alone; swapping an area with itself clears the bit.\<close>

theorem swap_bit_exchanges:
  fixes m :: words and nr a1 a2 :: nat
  defines "b \<equiv> push_bit (bit_pos nr) (1::u64)"
  defines "p1 \<equiv> a1 + bit_word nr" and "p2 \<equiv> a2 + bit_word nr"
  shows "mem_swap_bit nr a1 a2 m =
    (if a1 = a2 then m(p1 := m p1 AND NOT b)
     else m(p1 := (m p1 AND NOT b) OR (m p2 AND b), p2 := (m p2 AND NOT b) OR (m p1 AND b)))"
proof (cases "a1 = a2")
  case True
  have "x XOR (x AND b) = x AND NOT b" "x AND NOT b AND b = 0" for x :: u64
    by (rule bit_word_eqI, auto simp: bit_xor_iff bit_and_iff bit_not_iff)+
  with True show ?thesis
    by (simp add: mem_swap_bit_def raw_swap_bit_def Let_def b_def p1_def p2_def and.assoc
        del: push_bit_of_1)
next
  case False
  then have "p1 \<noteq> p2"
    by (simp add: p1_def p2_def)
  with False show ?thesis
    unfolding mem_swap_bit_def raw_swap_bit_def Let_def b_def [symmetric] p1_def [symmetric]
      p2_def [symmetric]
    by (simp add: bit_xor_swap fun_eq_iff)
qed

text \<open>C37: A flags object holds the bits 0 to 6 and no others: testing, setting or clearing a
  bit accesses memory inside the object exactly for \<open>nr < 7\<close>, and there the bit-field
  contract holds.\<close>

theorem flags_hold_seven_bits:
  "(atomic_test_bit nr a \<noteq> None \<longleftrightarrow> nr < 7) \<and> (atomic_set_bit nr a \<noteq> None \<longleftrightarrow> nr < 7) \<and>
   (atomic_clear_bit nr a \<noteq> None \<longleftrightarrow> nr < 7) \<and>
   Option.bind (atomic_set_bit nr a) (atomic_test_bit k) =
     (if nr < 7 \<and> k = nr then Some 1 else if nr < 7 then atomic_test_bit k a else None) \<and>
   Option.bind (atomic_clear_bit nr a) (atomic_test_bit k) =
     (if nr < 7 \<and> k = nr then Some 0 else if nr < 7 then atomic_test_bit k a else None)"
proof -
  have t: "atomic_test_bit k a = (if k < 7 then Some (if flag_bit k a then 1 else 0) else None)"
    for k a
    by (simp add: atomic_test_bit_def flag_bit_def in_flags_iff raw_test_bit_eq)
  have s: "atomic_set_bit nr a = (if nr < 7 then Some (the (atomic_set_bit nr a)) else None)"
    by (simp add: atomic_set_bit_def in_flags_iff)
  have c: "atomic_clear_bit nr a = (if nr < 7 then Some (the (atomic_clear_bit nr a)) else None)"
    by (simp add: atomic_clear_bit_def in_flags_iff)
  show ?thesis
    using flagf.get_put [of k nr a] flagf.get_del [of k nr a]
    by (subst (2) s, subst (2) c)
       (auto simp: t in_flags_iff atomic_set_bit_def atomic_clear_bit_def)
qed

text \<open>\<^verbatim>\<open>test_and_swap_bit\<close> swaps bit \<open>nr\<close>, but its result is the bit at position
  \<open>2 ^ nr\<close> of the first object, not the bit \<open>nr\<close> that was swapped.\<close>

theorem test_and_swap_tests_mask:
  assumes "nr < 6"
  shows "atomic_test_and_swap_bit nr a1 a2 =
    Some ((if bit (aflags a1) (2 ^ nr) then 1 else 0), the (atomic_swap_bit nr a1 a2))"
proof -
  have "nr = 0 \<or> nr = 1 \<or> nr = 2 \<or> nr = 3 \<or> nr = 4 \<or> nr = 5"
    using assms by linarith
  then show ?thesis
    by (auto simp: atomic_test_and_swap_bit_def atomic_swap_bit_def in_flags_iff bit_pos_def
        xdb_defs raw_test_bit_eq Let_def split: prod.splits)
qed

theorem test_and_swap_tests_mask_witness:
  "(0::nat) < 6 \<and>
   atomic_test_and_swap_bit 0 \<lparr>aflags = 1\<rparr> \<lparr>aflags = 0\<rparr> =
     Some (0, \<lparr>aflags = 0\<rparr>, \<lparr>aflags = 1\<rparr>) \<and>
   atomic_test_bit 0 \<lparr>aflags = 1\<rparr> = Some 1"
proof -
  have "(0::nat) < 6" by simp
  from test_and_swap_tests_mask [OF this, of "\<lparr>aflags = 1\<rparr>" "\<lparr>aflags = 0\<rparr>"] show ?thesis
    by (simp add: bit_1_iff atomic_swap_bit_def atomic_raw_swap_bit_def in_flags_iff bit_pos_def
        xdb_defs atomic_test_bit_def raw_test_bit_def)
qed

end
