(* ===== verification/XList.thy ===== *)
theory XList
  imports XPrelude
begin

text \<open>
  The doubly linked list of \<^verbatim>\<open>storage/list.c\<close> and \<^verbatim>\<open>include/xfiredb/list.h\<close>, with the atomic
  counters of \<^verbatim>\<open>os/atomic.c\<close>. The nodes of one list live in one address space of natural numbers;
  address 0 is the node embedded in the list head, and the fields \<^verbatim>\<open>next\<close> and \<^verbatim>\<open>prev\<close> are two
  functions on addresses. Locks are atomic sections. The interface that users of a list rely on
  is the locale \<open>deque\<close>.
\<close>

section \<open>Atomic counters\<close>

type_synonym atomic_t = "32 word"
type_synonym atomic64_t = "64 word"

definition atomic_add :: "atomic_t \<Rightarrow> 32 word \<Rightarrow> atomic_t" where
  "atomic_add a v = a + v"

definition atomic_sub :: "atomic_t \<Rightarrow> 32 word \<Rightarrow> atomic_t" where
  "atomic_sub a v = a - v"

definition atomic_get :: "atomic_t \<Rightarrow> int" where
  "atomic_get a = sint a"

definition atomic64_add :: "atomic64_t \<Rightarrow> 64 word \<Rightarrow> atomic64_t" where
  "atomic64_add a v = a + v"

definition atomic64_sub :: "atomic64_t \<Rightarrow> 64 word \<Rightarrow> atomic64_t" where
  "atomic64_sub a v = a - v"

definition atomic64_get :: "atomic64_t \<Rightarrow> int" where
  "atomic64_get a = sint a"

lemmas atomic_defs = atomic_add_def atomic_sub_def atomic_get_def

lemma sint_of_nat_small: "n < 2 ^ 31 \<Longrightarrow> sint (of_nat n :: 32 word) = int n"
  by (simp add: sint_uint uint_nat unat_of_nat take_bit_nat_eq_self signed_take_bit_int_eq_self)

section \<open>The list\<close>

type_synonym node = nat

record list_head =
  nxt :: "node \<Rightarrow> node"
  prv :: "node \<Rightarrow> node"
  num :: atomic_t

definition list_node_init :: "node \<Rightarrow> list_head \<Rightarrow> list_head" where
  "list_node_init n l = l\<lparr>nxt := (nxt l)(n := n), prv := (prv l)(n := n)\<rparr>"

definition list_head_init :: "list_head \<Rightarrow> list_head" where
  "list_head_init l = (list_node_init 0 l)\<lparr>num := 0\<rparr>"

text \<open>\<^verbatim>\<open>__list_add\<close>: the four assignments in the order of the source.\<close>

definition list_add_between :: "node \<Rightarrow> node \<Rightarrow> node \<Rightarrow> list_head \<Rightarrow> list_head" where
  "list_add_between new p n l =
     (let l = l\<lparr>prv := (prv l)(n := new)\<rparr>;
          l = l\<lparr>nxt := (nxt l)(new := n)\<rparr>;
          l = l\<lparr>prv := (prv l)(new := p)\<rparr>
      in l\<lparr>nxt := (nxt l)(p := new)\<rparr>)"

definition list_rpush :: "list_head \<Rightarrow> node \<Rightarrow> list_head" where
  "list_rpush head node =
     (let it = prv head 0;
          l = list_add_between node it (nxt head it) head
      in l\<lparr>num := atomic_add (num l) 1\<rparr>)"

definition list_lpush :: "list_head \<Rightarrow> node \<Rightarrow> list_head" where
  "list_lpush head node =
     (let l = list_add_between node 0 (nxt head 0) head in l\<lparr>num := atomic_add (num l) 1\<rparr>)"

definition list_unlink :: "node \<Rightarrow> node \<Rightarrow> list_head \<Rightarrow> list_head" where
  "list_unlink p n l = (let l = l\<lparr>prv := (prv l)(n := p)\<rparr> in l\<lparr>nxt := (nxt l)(p := n)\<rparr>)"

definition list_del :: "list_head \<Rightarrow> node \<Rightarrow> list_head" where
  "list_del lh entry =
     (let l = list_unlink (prv lh entry) (nxt lh entry) lh;
          l = l\<lparr>nxt := (nxt l)(entry := entry)\<rparr>;
          l = l\<lparr>prv := (prv l)(entry := entry)\<rparr>
      in l\<lparr>num := atomic_sub (num l) 1\<rparr>)"

definition list_length :: "list_head \<Rightarrow> int" where
  "list_length l = atomic_get (num l)"

text \<open>\<^verbatim>\<open>list_for_each\<close>: the nodes the loop visits; no result when it does not end.\<close>

partial_function (option) list_walk :: "(node \<Rightarrow> node) \<Rightarrow> node \<Rightarrow> node list option" where
  [code]: "list_walk nx c = 
     (if c = 0 then Some [] else Option.bind (list_walk nx (nx c)) (\<lambda>cs. Some (c # cs)))"

definition list_for_each :: "list_head \<Rightarrow> node list option" where
  "list_for_each lh = list_walk (nxt lh) (nxt lh 0)"

definition list_for_each_rev :: "list_head \<Rightarrow> node list option" where
  "list_for_each_rev lh = list_walk (prv lh) (prv lh 0)"

section \<open>Invariant\<close>

definition linked :: "list_head \<Rightarrow> node list \<Rightarrow> bool" where
  "linked l ws \<longleftrightarrow> successively (\<lambda>a b. nxt l a = b \<and> prv l b = a) ws"

text \<open>\<open>is_list l xs\<close>: the list holds exactly the nodes \<open>xs\<close>, in this order.\<close>

definition is_list :: "list_head \<Rightarrow> node list \<Rightarrow> bool" where
  "is_list l xs \<longleftrightarrow> linked l (0 # xs @ [0]) \<and> distinct xs \<and> 0 \<notin> set xs \<and> num l = of_nat (length xs)"

lemma linked_append:
  "linked l (xs @ a # b # ys) \<longleftrightarrow>
   linked l (xs @ [a]) \<and> nxt l a = b \<and> prv l b = a \<and> linked l (b # ys)"
  by (auto simp: linked_def successively_append_iff successively_Cons)

lemma linked_Cons_Cons: "linked l (a # b # ys) \<longleftrightarrow> nxt l a = b \<and> prv l b = a \<and> linked l (b # ys)"
  by (simp add: linked_def)

text \<open>A change at other nodes does not break the links.\<close>

lemma linked_frame:
  assumes "linked l ws" "\<And>a. a \<in> set (butlast ws) \<Longrightarrow> nxt l' a = nxt l a"
    and "\<And>b. b \<in> set (tl ws) \<Longrightarrow> prv l' b = prv l b"
  shows "linked l' ws"
  using assms
proof (induction ws rule: induct_list012)
  case (3 a b ws)
  have "linked l' (b # ws)"
    by (rule "3.IH"(2)) (use 3 in \<open>auto simp: linked_Cons_Cons dest: list.set_sel(2)\<close>)
  then show ?case
    using 3 by (simp add: linked_Cons_Cons)
qed (simp_all add: linked_def)

lemma ring_distinct:
  assumes "us @ p # vs = 0 # xs @ [0]" "vs \<noteq> []" "distinct xs" "0 \<notin> set xs"
  shows "distinct (us @ p # butlast vs)" "distinct (tl (us @ [p]) @ vs)"
proof -
  have "us @ p # butlast vs = butlast (us @ p # vs)"
    using assms(2) by (simp add: butlast_append)
  then have "us @ p # butlast vs = butlast (0 # xs @ [0])"
    by (simp only: assms(1))
  then show "distinct (us @ p # butlast vs)"
    using assms(3,4) by (simp add: butlast_append)
  have "tl (us @ [p]) @ vs = tl (us @ p # vs)"
    by (cases us) simp_all
  then have "tl (us @ [p]) @ vs = tl (0 # xs @ [0])"
    by (simp only: assms(1))
  then show "distinct (tl (us @ [p]) @ vs)"
    using assms(3,4) by simp
qed

lemma list_add_between_sel:
  "nxt (list_add_between new p n l) = (nxt l)(new := n, p := new)"
  "prv (list_add_between new p n l) = (prv l)(n := new, new := p)"
  "num (list_add_between new p n l) = num l"
  by (simp_all add: list_add_between_def Let_def)

lemma list_add_linked:
  assumes l: "linked l (us @ p # n # vs)" and ws: "us @ p # n # vs = 0 # xs @ [0]"
    and xs: "distinct xs" "0 \<notin> set xs" and new: "new \<noteq> 0" "new \<notin> set xs"
  shows "linked (list_add_between new p n l) (us @ p # new # n # vs)"
proof -
  have fresh: "new \<notin> set (us @ p # n # vs)"
    using new by (simp add: ws)
  have d: "distinct (us @ p # butlast (n # vs))" "distinct (tl (us @ [p]) @ n # vs)"
    using ring_distinct [OF ws _ xs] by simp_all
  let ?l = "list_add_between new p n l"
  have "new \<notin> set (tl (us @ [p]))"
    using fresh by (cases us) auto
  then have "linked ?l (us @ [p])"
    by - (rule linked_frame [of l],
      use l d fresh in \<open>auto simp: linked_append list_add_between_sel dest: in_set_butlastD\<close>)
  moreover have "new \<notin> set (butlast (n # vs))"
    using fresh by (auto dest: in_set_butlastD split: if_splits)
  then have "linked ?l (n # vs)"
    by - (rule linked_frame [of l],
      use l d fresh in \<open>auto simp: linked_append list_add_between_sel\<close>)
  ultimately show ?thesis
    using fresh by (auto simp: linked_append [of _ us p new] linked_Cons_Cons list_add_between_sel)
qed

lemma list_unlink_linked:
  assumes l: "linked l (us @ p # e # n # vs)" and ws: "us @ p # e # n # vs = 0 # xs @ [0]"
    and xs: "distinct xs" "0 \<notin> set xs"
    and l': "nxt l' = (nxt l)(p := n, e := e)" "prv l' = (prv l)(n := p, e := e)"
  shows "linked l' (us @ p # n # vs)"
proof -
  have d: "distinct (us @ p # butlast (e # n # vs))" "distinct (tl (us @ [p]) @ e # n # vs)"
    using ring_distinct [OF ws _ xs] by simp_all
  have d2: "e \<noteq> p" "e \<noteq> n"
    using d by auto
  have ln: "linked l (us @ [p])" "linked l (n # vs)"
    using l by (simp_all add: linked_append linked_Cons_Cons)
  have "linked l' (us @ [p])"
    by (rule linked_frame [OF ln(1)]) (use d l' in \<open>auto dest: in_set_butlastD\<close>)
  moreover have "linked l' (n # vs)"
    by (rule linked_frame [OF ln(2)]) (use d l' in \<open>auto split: if_splits\<close>)
  ultimately show ?thesis
    using d2 by (simp add: linked_append l')
qed

section \<open>The operations keep the list\<close>

lemma list_head_init_ok: "is_list (list_head_init l) []"
  by (simp add: is_list_def linked_def list_head_init_def list_node_init_def)

lemma list_lpush_ok:
  assumes "is_list l xs" "n \<noteq> 0" "n \<notin> set xs"
  shows "is_list (list_lpush l n) (n # xs)"
proof -
  obtain y ys where y: "xs @ [0] = y # ys"
    by (cases "xs @ [0]") auto
  have ws: "[] @ 0 # y # ys = 0 # xs @ [0]"
    using y by simp
  have l: "linked l (0 # y # ys)"
    using assms y by (simp add: is_list_def)
  have "nxt l 0 = y"
    using l by (simp add: linked_Cons_Cons)
  moreover have "linked (list_add_between n 0 y l) (0 # n # y # ys)"
    using list_add_linked [of l "[]" 0 y ys xs n] l ws assms by (simp add: is_list_def)
  then have "linked ((list_add_between n 0 y l)\<lparr>num := k\<rparr>) (0 # n # y # ys)" for k
    by (simp add: linked_def)
  ultimately show ?thesis
    using assms y by (simp add: is_list_def list_lpush_def Let_def list_add_between_sel atomic_defs)
qed

lemma list_rpush_ok:
  assumes "is_list l xs" "n \<noteq> 0" "n \<notin> set xs"
  shows "is_list (list_rpush l n) (xs @ [n])"
proof -
  obtain us p where p: "0 # xs = us @ [p]"
    by (metis append_butlast_last_id list.distinct(1))
  have ws: "us @ p # 0 # [] = 0 # xs @ [0]"
    using arg_cong [OF p, of "\<lambda>z. z @ [0]"] by simp
  have l: "linked l (us @ [p, 0])"
    unfolding ws using assms by (simp add: is_list_def)
  have q: "prv l 0 = p" "nxt l p = 0"
    using l linked_append [of l us p 0 "[]"] by simp_all
  have "linked (list_add_between n p 0 l) (us @ [p, n, 0])"
    using list_add_linked [of l us p 0 "[]" xs n] l ws assms by (simp add: is_list_def)
  moreover have "us @ [p, n, 0] = 0 # (xs @ [n]) @ [0]"
    using arg_cong [OF p, of "\<lambda>z. z @ [n, 0]"] by simp
  ultimately have "linked (list_add_between n p 0 l) (0 # (xs @ [n]) @ [0])"
    by (simp only:)
  then have "linked ((list_add_between n p 0 l)\<lparr>num := k\<rparr>) (0 # (xs @ [n]) @ [0])" for k
    by (simp add: linked_def)
  then show ?thesis
    using assms q by (simp add: is_list_def list_rpush_def Let_def list_add_between_sel atomic_defs)
qed

lemma list_del_ok:
  assumes "is_list l (xs @ e # ys)"
  shows "is_list (list_del l e) (xs @ ys)"
proof -
  let ?xs = "xs @ e # ys"
  obtain us p where p: "0 # xs = us @ [p]"
    by (metis append_butlast_last_id list.distinct(1))
  obtain n vs where n: "ys @ [0] = n # vs"
    by (cases "ys @ [0]") auto
  have ws: "us @ p # e # n # vs = 0 # ?xs @ [0]"
    using arg_cong [OF p, of "\<lambda>z. z @ e # n # vs"] n by simp
  have l: "linked l (us @ p # e # n # vs)" and d: "distinct ?xs" "0 \<notin> set ?xs"
    using assms ws by (simp_all add: is_list_def)
  have links: "prv l e = p" "nxt l e = n"
    using l by (simp_all add: linked_append linked_Cons_Cons)
  have e0: "e \<noteq> p"
    using ring_distinct(1) [OF ws _ d] by auto
  let ?l = "list_del l e"
  have en: "e \<noteq> n"
    using ring_distinct(2) [OF ws _ d] by auto
  have "linked ?l (us @ p # n # vs)"
    by (rule list_unlink_linked [OF l ws d])
      (use links e0 en in \<open>simp_all add: list_del_def list_unlink_def Let_def fun_upd_twist\<close>)
  moreover have "us @ p # n # vs = 0 # (xs @ ys) @ [0]"
    using arg_cong [OF p, of "\<lambda>z. z @ n # vs"] n by simp
  moreover have "num ?l = of_nat (length (xs @ ys))"
    using assms by (simp add: is_list_def list_del_def list_unlink_def Let_def atomic_defs)
  ultimately show ?thesis
    using d by (simp add: is_list_def)
qed

lemma list_length_ok: "is_list l xs \<Longrightarrow> length xs < 2 ^ 31 \<Longrightarrow> list_length l = int (length xs)"
  by (simp add: is_list_def list_length_def atomic_defs sint_of_nat_small)

lemma list_walk_ok:
  assumes "successively (\<lambda>a b. nx a = b) (xs @ [0])" "0 \<notin> set xs"
  shows "list_walk nx (hd (xs @ [0])) = Some xs"
  using assms
proof (induction xs)
  case (Cons x xs)
  then have "nx x = hd (xs @ [0])" "successively (\<lambda>a b. nx a = b) (xs @ [0])"
    by (cases xs; simp)+
  then show ?case
    using Cons by (simp add: list_walk.simps [of nx x])
qed (simp add: list_walk.simps)

lemma list_for_each_ok:
  assumes "is_list l xs"
  shows "list_for_each l = Some xs" "list_for_each_rev l = Some (rev xs)"
proof -
  have s: "successively (\<lambda>a b. nxt l a = b \<and> prv l b = a) (0 # xs @ [0])" and z: "0 \<notin> set xs"
    using assms by (simp_all add: is_list_def linked_def)
  have "successively (\<lambda>a b. nxt l a = b) (xs @ [0])" "nxt l 0 = hd (xs @ [0])"
    using s by (cases xs; auto elim: successively_mono)+
  then show "list_for_each l = Some xs"
    using list_walk_ok [of "nxt l" xs] z by (simp add: list_for_each_def)
  have "successively (\<lambda>a b. nxt l b = a \<and> prv l a = b) (rev (0 # xs @ [0]))"
    using s by (simp only: successively_rev)
  then have r: "successively (\<lambda>a b. nxt l b = a \<and> prv l a = b) (0 # rev xs @ [0])"
    by simp
  then have "successively (\<lambda>a b. prv l a = b) (rev xs @ [0])" "prv l 0 = hd (rev xs @ [0])"
    by (cases "rev xs"; auto elim: successively_mono)+
  then show "list_for_each_rev l = Some (rev xs)"
    using list_walk_ok [of "prv l" "rev xs"] z by (simp add: list_for_each_rev_def)
qed

section \<open>Interface\<close>

text \<open>
  What the users of a list rely on: \<open>rep s xs\<close> says that the list \<open>s\<close> holds the nodes \<open>xs\<close>.
\<close>

locale deque =
  fixes rep :: "'s \<Rightarrow> 'a list \<Rightarrow> bool" and usable :: "'a \<Rightarrow> bool"
    and lpush :: "'s \<Rightarrow> 'a \<Rightarrow> 's" and rpush :: "'s \<Rightarrow> 'a \<Rightarrow> 's" and del :: "'s \<Rightarrow> 'a \<Rightarrow> 's"
  assumes lpush_law: "rep s xs \<Longrightarrow> usable x \<Longrightarrow> x \<notin> set xs \<Longrightarrow> rep (lpush s x) (x # xs)"
    and rpush_law: "rep s xs \<Longrightarrow> usable x \<Longrightarrow> x \<notin> set xs \<Longrightarrow> rep (rpush s x) (xs @ [x])"
    and del_law: "rep s (xs @ x # ys) \<Longrightarrow> rep (del s x) (xs @ ys)"
begin

lemma rpush_many:
  "rep s xs \<Longrightarrow> list_all usable ys \<Longrightarrow> distinct (xs @ ys) \<Longrightarrow> rep (foldl rpush s ys) (xs @ ys)"
  by (induction ys arbitrary: s xs) (use rpush_law in fastforce)+

lemma lpush_many:
  "rep s xs \<Longrightarrow> list_all usable ys \<Longrightarrow> distinct (ys @ xs) \<Longrightarrow> rep (foldl lpush s ys) (rev ys @ xs)"
  by (induction ys arbitrary: s xs) (use lpush_law in fastforce)+

lemma del_many: "rep s (xs @ ys) \<Longrightarrow> rep (foldl del s xs) ys"
  by (induction xs arbitrary: s) (use del_law [of _ "[]"] in auto)

lemma queue_order:
  assumes "rep s []" "list_all usable ys" "distinct ys"
  shows "rep (foldl del (foldl rpush s ys) (take n ys)) (drop n ys)"
proof -
  have "rep (foldl rpush s ys) (take n ys @ drop n ys)"
    using rpush_many [OF assms(1,2)] assms(3) by simp
  then show ?thesis
    by (rule del_many)
qed

end

interpretation ll: deque is_list "\<lambda>n. n \<noteq> 0" list_lpush list_rpush list_del
  by unfold_locales (simp_all add: list_lpush_ok list_rpush_ok list_del_ok)

section \<open>Properties\<close>

text \<open>
  C26: the list operations on any well-formed list, the empty one that \<^verbatim>\<open>list_head_init\<close> builds included: a push on either
  side puts the node there, a deletion removes exactly that node wherever it is, and all of them establish or keep the
  invariant: both directions of links, distinct nodes and the counter.
\<close>

theorem list_operations_keep_list:
  assumes "is_list l zs" "n \<noteq> 0" "n \<notin> set zs"
  shows "is_list (list_head_init l0) [] \<and> is_list (list_lpush l n) (n # zs) \<and> is_list (list_rpush l n) (zs @ [n]) \<and>
    (\<forall>xs e ys. zs = xs @ e # ys \<longrightarrow> is_list (list_del l e) (xs @ ys))"
  using list_head_init_ok ll.lpush_law [OF assms] ll.rpush_law [OF assms] ll.del_law assms(1) by blast

definition list_empty :: list_head where
  "list_empty = list_head_init \<lparr>nxt = \<lambda>n. n, prv = \<lambda>n. n, num = 0\<rparr>"

theorem list_operations_keep_list_witness:
  "let l = list_rpush (list_rpush list_empty 1) 2 in
   is_list (list_lpush list_empty 1) [1] \<and> is_list (list_lpush l 3) [3, 1, 2] \<and> is_list (list_rpush l 3) [1, 2, 3] \<and>
   is_list (list_del l 2) [1] \<and> is_list (list_del l 1) [2]"
proof -
  have e: "is_list list_empty []"
    using list_head_init_ok by (simp add: list_empty_def)
  have 1: "is_list (list_lpush list_empty 1) [1]" "is_list (list_rpush list_empty 1) [1]"
    using list_operations_keep_list [OF e, of 1] by simp_all
  have 2: "is_list (list_rpush (list_rpush list_empty 1) 2) [1, 2]"
    using list_operations_keep_list [OF 1(2), of 2] by simp
  have 3: "is_list (list_lpush (list_rpush (list_rpush list_empty 1) 2) 3) [3, 1, 2]"
      "is_list (list_rpush (list_rpush (list_rpush list_empty 1) 2) 3) [1, 2, 3]"
      "\<forall>xs e ys. [1, 2] = xs @ e # ys \<longrightarrow> is_list (list_del (list_rpush (list_rpush list_empty 1) 2) e) (xs @ ys)"
    using list_operations_keep_list [OF 2, of 3] by simp_all
  have "is_list (list_del (list_rpush (list_rpush list_empty 1) 2) 2) ([1] @ [])"
    "is_list (list_del (list_rpush (list_rpush list_empty 1) 2) 1) ([] @ [2])"
    by (rule 3(3) [rule_format], simp)+
  then show ?thesis
    using 1(1) 3(1,2) by (simp add: Let_def)
qed

text \<open>
  A walk over a well-formed list with \<^verbatim>\<open>list_for_each\<close> ends and visits the nodes in order,
  following \<^verbatim>\<open>prev\<close> visits them in reverse order, and \<^verbatim>\<open>list_length\<close> is their number.
\<close>

theorem list_walk_visits_all:
  assumes "is_list l xs" "length xs < 2 ^ 31"
  shows "list_for_each l = Some xs \<and> list_for_each_rev l = Some (rev xs) \<and> list_length l = int (length xs)"
  using list_for_each_ok [OF assms(1)] list_length_ok [OF assms] by blast

theorem list_walk_visits_all_witness:
  "let l = list_del (list_rpush (list_rpush (list_rpush list_empty 1) 2) 3) 2 in
   list_for_each l = Some [1, 3] \<and> list_for_each_rev l = Some [3, 1] \<and> list_length l = 2"
proof -
  have "is_list (list_del (list_rpush (list_rpush (list_rpush list_empty 1) 2) 3) 2) ([1] @ [3])"
    using ll.rpush_many [of list_empty "[]" "[1, 2, 3]"] list_head_init_ok
    by (intro ll.del_law) (simp add: list_empty_def)
  from list_walk_visits_all [OF this] show ?thesis
    by (simp add: Let_def)
qed

end
