(* ===== verification/XObject.thy ===== *)
theory XObject
  imports Bitops XList
begin

text \<open>
  Base objects with an expiry date (\<^verbatim>\<open>storage/object.c\<close>) and string containers
  (\<^verbatim>\<open>storage/string.c\<close>). Time stamps are 64-bit words of milliseconds; the current time is an
  argument. The flags word of an object is word 0 of the bit operations of \<open>Bitops\<close>. The
  characters of a string container are \<^const>\<open>None\<close> before the first assignment.
\<close>

section \<open>Objects\<close>

record object =
  crea :: u64
  o_exp :: u64
  o_flags :: words

definition OBJECT_INTREE_FLAG :: nat where [xdb_defs]: "OBJECT_INTREE_FLAG = 0"
definition OBJECT_EXPIRED_FLAG :: nat where [xdb_defs]: "OBJECT_EXPIRED_FLAG = 1"

definition time_after :: "u64 \<Rightarrow> u64 \<Rightarrow> bool" where
  "time_after a b \<longleftrightarrow> sint (b - a) < 0"

text \<open>\<^verbatim>\<open>xfiredb_time_stamp\<close> from the two fields of the system clock; \<open>ms\<close> is the rounded fraction.\<close>

definition xfiredb_time_stamp :: "u64 \<Rightarrow> u64 \<Rightarrow> u64" where
  "xfiredb_time_stamp s ms = s * 1000 + ms"

definition object_init :: "u64 \<Rightarrow> object" where
  "object_init now = \<lparr>crea = now, o_exp = 0, o_flags = (\<lambda>_. 0)\<rparr>"

definition object_alloc :: "u64 \<Rightarrow> object" where
  "object_alloc now = object_init now"

definition object_has_expired :: "u64 \<Rightarrow> object \<Rightarrow> bool \<times> object" where
  "object_has_expired now obj =
     (if mem_test_bit OBJECT_EXPIRED_FLAG (o_flags obj) \<noteq> 0 then (True, obj)
      else
        let rv = time_after now (o_exp obj) in
        (rv, if rv then obj\<lparr>o_flags := mem_set_bit OBJECT_EXPIRED_FLAG (o_flags obj)\<rparr> else obj))"

definition object_set_expiry :: "u64 \<Rightarrow> object \<Rightarrow> u64 \<Rightarrow> int \<times> object" where
  "object_set_expiry now obj ex =
     (if ex = 0 then (- XFIREDB_ERR, obj)
      else if time_after now ex then (- XFIREDB_ERR, obj)
      else (- XFIREDB_OK,
            obj\<lparr>o_flags := mem_clear_bit OBJECT_EXPIRED_FLAG (o_flags obj), o_exp := ex\<rparr>))"

lemma time_after_less:
  assumes "uint a < 2 ^ 62" "uint b < 2 ^ 62"
  shows "time_after a b \<longleftrightarrow> b < a"
proof -
  have lo: "0 \<le> uint a" "0 \<le> uint b"
    by simp_all
  have small: "signed_take_bit 63 x = x" if "- (2 ^ 62) \<le> x" "x < 2 ^ 62" for x :: int
    by (rule signed_take_bit_int_eq_self) (use that in simp_all)
  have lo': "- (2 ^ 62) \<le> uint a" "- (2 ^ 62) \<le> uint b"
    by (rule order_trans [OF _ lo(1)], simp) (rule order_trans [OF _ lo(2)], simp)
  have sa: "sint a = uint a" "sint b = uint b"
    using small [OF lo'(1) assms(1)] small [OF lo'(2) assms(2)] by (simp_all add: sint_uint)
  have "sint (b - a) = signed_take_bit 63 (sint b - sint a)"
    by (simp add: sint_word_ariths)
  also have "\<dots> = uint b - uint a"
    unfolding sa by (rule small) (use assms lo in linarith)+
  finally show ?thesis
    by (simp add: time_after_def word_less_def)
qed

text \<open>
  After \<^verbatim>\<open>object_set_expiry\<close> succeeds, the object reports expiry exactly when the current
  time is past the date, and once it has, it keeps reporting it; a date of zero or in the past
  is refused and changes nothing.
\<close>

theorem object_expiry:
  assumes "uint now < 2 ^ 62" "uint later < 2 ^ 62" "uint ex < 2 ^ 62"
  shows "object_set_expiry now obj ex =
      (if ex = 0 \<or> ex < now then (- XFIREDB_ERR, obj)
       else (- XFIREDB_OK, snd (object_set_expiry now obj ex))) \<and>
    (ex \<noteq> 0 \<and> now \<le> ex \<longrightarrow>
      fst (object_has_expired later (snd (object_set_expiry now obj ex))) = (ex < later) \<and>
      (ex < later \<longrightarrow>
        fst (object_has_expired t (snd (object_has_expired later (snd (object_set_expiry now obj ex)))))))"
proof -
  have c: "mem_test_bit OBJECT_EXPIRED_FLAG (mem_clear_bit OBJECT_EXPIRED_FLAG m) = 0"
    "mem_test_bit OBJECT_EXPIRED_FLAG (mem_set_bit OBJECT_EXPIRED_FLAG m) = 1" for m
    by (simp_all add: mem_test_bit_if mem_bit_clear mem_bit_set)
  show ?thesis
    using time_after_less [OF assms(1,3)] time_after_less [OF assms(2,3)] c
    by (auto simp: object_set_expiry_def object_has_expired_def Let_def not_less)
qed

theorem object_expiry_witness:
  "object_set_expiry 10 (object_init 5) 20 = (- XFIREDB_OK, snd (object_set_expiry 10 (object_init 5) 20)) \<and>
    fst (object_has_expired 30 (snd (object_set_expiry 10 (object_init 5) 20))) \<and>
    fst (object_has_expired 7 (snd (object_has_expired 30 (snd (object_set_expiry 10 (object_init 5) 20)))))"
  using object_expiry [of 10 30 20 "object_init 5" 7] by simp

text \<open>An object without a date is reported as expired as soon as the clock is past zero.\<close>

lemma object_without_expiry_expired:
  "0 < now \<Longrightarrow> uint now < 2 ^ 62 \<Longrightarrow> fst (object_has_expired now (object_init c))"
  using time_after_less [of now 0]
  by (simp add: object_has_expired_def object_init_def mem_test_bit_def raw_test_bit_def)

section \<open>Strings\<close>

record xstring =
  str :: "string option"
  str_len :: nat

definition string_init :: xstring where
  "string_init = \<lparr>str = None, str_len = 0\<rparr>"

definition string_alloc :: "string \<Rightarrow> xstring" where
  "string_alloc data =
     (let len = length data in string_init\<lparr>str := Some data, str_len := len\<rparr>)"

definition string_set :: "xstring \<Rightarrow> string \<Rightarrow> xstring" where
  "string_set s data = (let len = length data + 1 in s\<lparr>str := Some data, str_len := len\<rparr>)"

text \<open>\<^verbatim>\<open>string_get\<close>: printing the null pointer is not defined and gives \<^const>\<open>None\<close>.\<close>

definition string_get :: "xstring \<Rightarrow> string option" where
  "string_get s = str s"

definition string_length :: "xstring \<Rightarrow> nat" where
  "string_length s = str_len s"

definition string_destroy :: "xstring \<Rightarrow> xstring" where
  "string_destroy s = s\<lparr>str := None\<rparr>"

text \<open>
  A string container returns the characters that were last put into it. Its length is the
  number of characters when it comes from \<^verbatim>\<open>string_alloc\<close>, and one more after \<^verbatim>\<open>string_set\<close>.
\<close>

theorem string_roundtrip:
  "string_get (string_alloc data) = Some data \<and> string_length (string_alloc data) = length data \<and>
   string_get (string_set s data) = Some data \<and> string_length (string_set s data) = length data + 1"
  by (simp add: string_alloc_def string_set_def string_get_def string_length_def Let_def)

end
