(* ===== verification/SkiplistModel.thy ===== *)
theory SkiplistModel
  imports Hashkey XList
begin

text \<open>
  The skip list of \<^verbatim>\<open>storage/skiplist.c\<close> and \<^verbatim>\<open>include/xfiredb/skiplist.h\<close>: data structures and
  operations, on an explicit heap. Addresses are natural numbers, 0 is the null pointer and 1
  the header node. Reading through a null pointer, a read outside a \<^verbatim>\<open>forward\<close> array and
  \<^verbatim>\<open>strcmp\<close> on a null key give \<^const>\<open>None\<close>, as does a loop that does not end. The outcomes of
  \<^verbatim>\<open>skiplist_rand() < l->prob\<close> are the parameter \<open>coins\<close>. The mutex is an atomic section.
\<close>

section \<open>Data structures\<close>

type_synonym addr = nat

definition NULL :: addr where [xdb_defs]: "NULL = 0"
definition HEADER :: addr where [xdb_defs]: "HEADER = 1"

record skiplist_node =
  s_key :: "string option"
  s_hash :: u32
  s_forward :: "addr list"

type_synonym sheap = "addr \<rightharpoonup> skiplist_node"

record skiplist =
  s_heap :: sheap
  s_level :: nat
  s_size :: atomic_t

definition SKIPLIST_MAX_LEVELS :: nat where [xdb_defs]: "SKIPLIST_MAX_LEVELS = 6"
definition SKIPLIST_MAX_SIZE :: u32 where [xdb_defs]: "SKIPLIST_MAX_SIZE = 0xFFFFFFFF"

definition raw_skiplist_init :: "sheap \<Rightarrow> skiplist" where
  "raw_skiplist_init h =
     \<lparr>s_heap = h(HEADER \<mapsto> \<lparr>s_key = None, s_hash = SKIPLIST_MAX_SIZE,
                    s_forward = replicate (SKIPLIST_MAX_LEVELS + 1) HEADER\<rparr>),
      s_level = 1, s_size = 0\<rparr>"

definition skiplist_init :: "sheap \<Rightarrow> skiplist" where
  "skiplist_init h = raw_skiplist_init h"

definition skiplist_size :: "skiplist \<Rightarrow> int" where
  "skiplist_size l = atomic_get (s_size l)"

text \<open>\<^verbatim>\<open>a->forward[i]\<close> and the write to it.\<close>

definition fwd :: "sheap \<Rightarrow> addr \<Rightarrow> nat \<Rightarrow> addr option" where
  "fwd h a i =
     (case h a of
        None \<Rightarrow> None
      | Some n \<Rightarrow> if i < length (s_forward n) then Some (s_forward n ! i) else None)"

definition set_fwd :: "addr \<Rightarrow> nat \<Rightarrow> addr \<Rightarrow> sheap \<Rightarrow> sheap option" where
  "set_fwd a i v h =
     (case h a of
        None \<Rightarrow> None
      | Some n \<Rightarrow>
          if i < length (s_forward n)
          then Some (h(a \<mapsto> n\<lparr>s_forward := (s_forward n)[i := v]\<rparr>)) else None)"

section \<open>Levels\<close>

text \<open>\<^verbatim>\<open>skiplist_rand_level\<close>: the outcome of the comparison after reaching height \<open>h\<close> is \<open>coins h\<close>.\<close>

function rand_level_loop :: "(nat \<Rightarrow> bool) \<Rightarrow> nat \<Rightarrow> nat \<Rightarrow> nat" where
  "rand_level_loop coins mx height =
     (let height = height + 1 in
      if height < mx \<and> coins height then rand_level_loop coins mx height else height)"
  by pat_completeness auto
termination
  by (relation "measure (\<lambda>(coins, mx, height). mx - height)") auto

declare rand_level_loop.simps [simp del]

definition skiplist_rand_level :: "(nat \<Rightarrow> bool) \<Rightarrow> nat \<Rightarrow> nat" where
  "skiplist_rand_level coins mx = rand_level_loop coins mx 0"

section \<open>Search\<close>

text \<open>The inner loop \<^verbatim>\<open>while(node->forward[i]->hash < hash) node = node->forward[i]\<close>.\<close>

partial_function (option) advance :: "sheap \<Rightarrow> u32 \<Rightarrow> nat \<Rightarrow> addr \<Rightarrow> addr option" where
  [code]: "advance h hash i node =
     (case fwd h node i of
        None \<Rightarrow> None
      | Some f \<Rightarrow>
          (case h f of
             None \<Rightarrow> None
           | Some n \<Rightarrow> if s_hash n < hash then advance h hash i f else Some node))"

text \<open>The loop over the levels, downwards; the list holds \<^verbatim>\<open>update[1]\<close> to \<^verbatim>\<open>update[level]\<close>.\<close>

primrec descend ::
  "(nat \<Rightarrow> addr \<Rightarrow> addr option) \<Rightarrow> nat \<Rightarrow> addr \<Rightarrow> (addr \<times> addr list) option" where
  "descend adv 0 node = Some (node, [])"
| "descend adv (Suc i) node =
     (case adv (Suc i) node of
        None \<Rightarrow> None
      | Some node \<Rightarrow>
          (case descend adv i node of
             None \<Rightarrow> None
           | Some (x, update) \<Rightarrow> Some (x, update @ [node])))"

text \<open>The loop \<^verbatim>\<open>while(strcmp(node->forward[1]->key, key)) node = node->forward[1]\<close>.\<close>

partial_function (option) skip_keys :: "sheap \<Rightarrow> string \<Rightarrow> addr \<Rightarrow> addr option" where
  [code]: "skip_keys h key node =
     (case fwd h node 1 of
        None \<Rightarrow> None
      | Some f \<Rightarrow>
          (case h f of
             None \<Rightarrow> None
           | Some n \<Rightarrow>
               (case s_key n of
                  None \<Rightarrow> None
                | Some k \<Rightarrow> if k \<noteq> key then skip_keys h key f else Some node)))"

definition node_hash :: "sheap \<Rightarrow> addr \<Rightarrow> nat \<Rightarrow> u32 option" where
  "node_hash h a i = (case fwd h a i of None \<Rightarrow> None | Some f \<Rightarrow> map_option s_hash (h f))"

text \<open>The result is a node address, or \<^const>\<open>NULL\<close>.\<close>

definition skiplist_search :: "skiplist \<Rightarrow> string \<Rightarrow> addr option" where
  "skiplist_search l key =
     (let h = s_heap l; hash = skiplist_hash_key key SKIPLIST_SEED in
      case descend (advance h hash) (s_level l) HEADER of
        None \<Rightarrow> None
      | Some (node, _) \<Rightarrow>
          (case node_hash h node 1 of
             None \<Rightarrow> None
           | Some nh \<Rightarrow>
               if nh = hash then
                 (case skip_keys h key node of
                    None \<Rightarrow> None
                  | Some node \<Rightarrow>
                      (case node_hash h node 1 of
                         None \<Rightarrow> None
                       | Some nh \<Rightarrow> if nh = hash then fwd h node 1 else Some NULL))
               else Some NULL))"

section \<open>Insertion\<close>

text \<open>The loop that links the node on the levels \<open>i, i + 1, ...\<close>, with \<^verbatim>\<open>update[i]\<close> from the list.\<close>

primrec link_levels :: "addr \<Rightarrow> nat \<Rightarrow> addr list \<Rightarrow> sheap \<Rightarrow> sheap option" where
  "link_levels node i [] h = Some h"
| "link_levels node i (u # update) h =
     (case fwd h u i of
        None \<Rightarrow> None
      | Some f \<Rightarrow>
          (case set_fwd node i f h of
             None \<Rightarrow> None
           | Some h \<Rightarrow>
               (case set_fwd u i node h of
                  None \<Rightarrow> None
                | Some h \<Rightarrow> link_levels node (Suc i) update h)))"

definition skiplist_insert ::
  "(nat \<Rightarrow> bool) \<Rightarrow> skiplist \<Rightarrow> string \<Rightarrow> addr \<Rightarrow> (int \<times> skiplist) option" where
  "skiplist_insert coins l key node =
     (let h = s_heap l; hash = skiplist_hash_key key SKIPLIST_SEED in
      case descend (advance h hash) (s_level l) HEADER of
        None \<Rightarrow> None
      | Some (carriage, update) \<Rightarrow>
          (case fwd h carriage 1 of
             None \<Rightarrow> None
           | Some carriage \<Rightarrow>
               (case h carriage of
                  None \<Rightarrow> None
                | Some n \<Rightarrow>
                    if s_key n = Some key then Some (- XFIREDB_OK, l)
                    else
                      let level = skiplist_rand_level coins SKIPLIST_MAX_LEVELS;
                          update = update @ replicate (level - s_level l) HEADER;
                          slevel = (if level > s_level l then level else s_level l);
                          h = h(node \<mapsto> \<lparr>s_key = Some key, s_hash = hash,
                                        s_forward = replicate (level + 1) NULL\<rparr>)
                      in (case link_levels node 1 (take level update) h of
                            None \<Rightarrow> None
                          | Some h \<Rightarrow>
                              Some (- XFIREDB_OK,
                                \<lparr>s_heap = h, s_level = slevel, s_size = atomic_add (s_size l) 1\<rparr>)))))"

section \<open>Deletion\<close>

partial_function (option) advance_del :: "sheap \<Rightarrow> u32 \<Rightarrow> string \<Rightarrow> nat \<Rightarrow> addr \<Rightarrow> addr option" where
  [code]: "advance_del h hash key i x =
     (case fwd h x i of
        None \<Rightarrow> None
      | Some f \<Rightarrow>
          (case h f of
             None \<Rightarrow> None
           | Some n \<Rightarrow>
               if s_hash n \<le> hash then
                 if s_hash n = hash then
                   (case s_key n of
                      None \<Rightarrow> None
                    | Some k \<Rightarrow> if k = key then Some x else advance_del h hash key i f)
                 else advance_del h hash key i f
               else Some x))"

primrec unlink_levels :: "addr \<Rightarrow> nat \<Rightarrow> addr list \<Rightarrow> sheap \<Rightarrow> sheap option" where
  "unlink_levels x i [] h = Some h"
| "unlink_levels x i (u # update) h =
     (case fwd h u i of
        None \<Rightarrow> None
      | Some f \<Rightarrow>
          if f \<noteq> x then Some h
          else (case fwd h x i of
                  None \<Rightarrow> None
                | Some f' \<Rightarrow>
                    (case set_fwd u i f' h of
                       None \<Rightarrow> None
                     | Some h \<Rightarrow> unlink_levels x (Suc i) update h)))"

definition skiplist_node_destroy :: "addr \<Rightarrow> sheap \<Rightarrow> sheap" where
  "skiplist_node_destroy node h =
     (if node = NULL then h
      else case h node of
        None \<Rightarrow> h
      | Some n \<Rightarrow> h(node \<mapsto> n\<lparr>s_forward := [], s_key := None\<rparr>))"

text \<open>\<^verbatim>\<open>while(list->level > 1 && list->header->forward[list->level] == list->header) level--\<close>.\<close>

fun shrink_level :: "sheap \<Rightarrow> nat \<Rightarrow> nat option" where
  "shrink_level h level =
     (if level > 1 then
        (case fwd h HEADER level of
           None \<Rightarrow> None
         | Some f \<Rightarrow> if f = HEADER then shrink_level h (level - 1) else Some level)
      else Some level)"

declare shrink_level.simps [simp del]

definition skiplist_delete :: "skiplist \<Rightarrow> string \<Rightarrow> (int \<times> skiplist) option" where
  "skiplist_delete l key =
     (let h = s_heap l; hash = skiplist_hash_key key SKIPLIST_SEED in
      case descend (advance_del h hash key) (s_level l) HEADER of
        None \<Rightarrow> None
      | Some (x, update) \<Rightarrow>
          (case fwd h x 1 of
             None \<Rightarrow> None
           | Some f \<Rightarrow>
               (case h f of
                  None \<Rightarrow> None
                | Some n \<Rightarrow>
                    if s_hash n = hash then
                      if s_key n \<noteq> Some key then Some (- XFIREDB_ERR, l)
                      else
                        (case unlink_levels f 1 update h of
                           None \<Rightarrow> None
                         | Some h \<Rightarrow>
                             let h = skiplist_node_destroy f h in
                             (case shrink_level h (s_level l) of
                                None \<Rightarrow> None
                              | Some level \<Rightarrow>
                                  Some (- XFIREDB_OK,
                                    \<lparr>s_heap = h, s_level = level, s_size = atomic_sub (s_size l) 1\<rparr>)))
                    else Some (- XFIREDB_ERR, l))))"

section \<open>Iterators\<close>

record skiplist_iterator =
  it_prev :: addr
  it_current :: addr

definition skiplist_iterator_new :: "skiplist \<Rightarrow> skiplist_iterator" where
  "skiplist_iterator_new l = \<lparr>it_prev = HEADER, it_current = HEADER\<rparr>"

definition skiplist_iterator_next ::
  "skiplist \<Rightarrow> skiplist_iterator \<Rightarrow> (addr \<times> skiplist_iterator) option" where
  "skiplist_iterator_next l it =
     (case fwd (s_heap l) (it_current it) 1 of
        None \<Rightarrow> None
      | Some f \<Rightarrow>
          (let cur = (if f = HEADER then NULL else f)
           in Some (cur, \<lparr>it_prev = it_current it, it_current = cur\<rparr>)))"

definition skiplist_iterator_delete ::
  "skiplist \<Rightarrow> skiplist_iterator \<Rightarrow> (addr \<times> skiplist_iterator \<times> skiplist) option" where
  "skiplist_iterator_delete l it =
     (case s_heap l (it_current it) of
        None \<Rightarrow> None
      | Some n \<Rightarrow>
          (case s_key n of
             None \<Rightarrow> None
           | Some key \<Rightarrow>
               (case skiplist_delete l key of
                  None \<Rightarrow> None
                | Some (rc, l) \<Rightarrow>
                    if rc \<noteq> - XFIREDB_OK then Some (it_current it, it, l)
                    else Some (it_prev it, it\<lparr>it_current := it_prev it\<rparr>, l))))"

end
