(* ===== verification/SkiplistInv.thy ===== *)
theory SkiplistInv
  imports SkiplistModel
begin

text \<open>
  The invariant of the skip list and the lemmas about its loops. Every statement about the heap
  goes through two observations: \<open>shape\<close> (key, hash and length of the \<^verbatim>\<open>forward\<close> array of a
  node) and \<^const>\<open>fwd\<close> (the links).
\<close>

section \<open>Chains of links\<close>

definition chain :: "(addr \<Rightarrow> addr option) \<Rightarrow> addr list \<Rightarrow> bool" where
  "chain f ws \<longleftrightarrow> successively (\<lambda>a b. f a = Some b) ws"

lemma chain_append:
  "chain f (xs @ ys) \<longleftrightarrow>
   chain f xs \<and> chain f ys \<and> (xs \<noteq> [] \<and> ys \<noteq> [] \<longrightarrow> f (last xs) = Some (hd ys))"
  by (auto simp: chain_def successively_append_iff)

lemma chain_Cons: "chain f (a # ys) \<longleftrightarrow> (ys \<noteq> [] \<longrightarrow> f a = Some (hd ys)) \<and> chain f ys"
  by (cases ys) (auto simp: chain_def)

lemma chain_frame:
  "chain f ws \<Longrightarrow> (\<And>a. a \<in> set (butlast ws) \<Longrightarrow> g a = f a) \<Longrightarrow> chain g ws"
proof (induction ws)
  case (Cons a ws)
  have "chain g ws"
    using Cons.prems by (cases "ws = []") (auto simp: chain_Cons chain_def [of _ "[]"] intro: Cons.IH)
  then show ?case
    using Cons.prems by (auto simp: chain_Cons)
qed (simp add: chain_def)

lemma chain_insert:
  assumes "chain f (A @ B)" "A \<noteq> []" "B \<noteq> []" "g (last A) = Some n" "g n = Some (hd B)"
    and "\<And>a. a \<in> set (butlast A) \<union> set (butlast B) \<Longrightarrow> g a = f a"
  shows "chain g (A @ n # B)"
proof -
  have "chain g A" "chain g B"
    using assms by (auto simp: chain_append intro: chain_frame)
  then show ?thesis
    using assms by (simp add: chain_append chain_Cons)
qed

lemma chain_remove:
  assumes "chain f (A @ n # B)" "A \<noteq> []" "B \<noteq> []" "g (last A) = f n"
    and "\<And>a. a \<in> set (butlast A) \<union> set (butlast B) \<Longrightarrow> g a = f a"
  shows "chain g (A @ B)"
proof -
  have "chain g A" "chain g B"
    using assms by (auto simp: chain_append chain_Cons intro: chain_frame)
  then show ?thesis
    using assms by (simp add: chain_append chain_Cons)
qed

section \<open>Observations of the heap\<close>

definition shape :: "sheap \<Rightarrow> addr \<Rightarrow> (string option \<times> u32 \<times> nat) option" where
  "shape h a = map_option (\<lambda>n. (s_key n, s_hash n, length (s_forward n))) (h a)"

lemma shape_Some_iff:
  "shape h a = Some (k, hs, n) \<longleftrightarrow>
   (\<exists>x. h a = Some x \<and> s_key x = k \<and> s_hash x = hs \<and> length (s_forward x) = n)"
  by (auto simp: shape_def)

lemma fwd_defined: "fwd h a i \<noteq> None \<longleftrightarrow> (\<exists>k hs n. shape h a = Some (k, hs, n) \<and> i < n)"
  by (auto simp: fwd_def shape_def split: option.splits)

lemma set_fwd_ok:
  assumes "fwd h a i \<noteq> None"
  obtains h' where "set_fwd a i v h = Some h'" "shape h' = shape h"
    "\<And>b j. fwd h' b j = (if b = a \<and> j = i then Some v else fwd h b j)"
proof -
  obtain n where n: "h a = Some n" "i < length (s_forward n)"
    using assms by (auto simp: fwd_def split: option.splits if_splits)
  let ?h = "h(a \<mapsto> n\<lparr>s_forward := (s_forward n)[i := v]\<rparr>)"
  have "set_fwd a i v h = Some ?h"
    using n by (simp add: set_fwd_def)
  moreover have "shape ?h = shape h"
    using n by (auto simp: shape_def fun_eq_iff)
  moreover have "fwd ?h b j = (if b = a \<and> j = i then Some v else fwd h b j)" for b j
    using n by (auto simp: fwd_def nth_list_update)
  ultimately show thesis
    by (rule that)
qed

section \<open>The loops\<close>

lemma advance_chain:
  assumes "chain (\<lambda>a. fwd h a i) (a # us @ [b])"
    and "\<And>x. x \<in> set us \<Longrightarrow> \<exists>k hs n. shape h x = Some (k, hs, n) \<and> hs < hv"
    and "shape h b = Some (kb, hb, nb)" "\<not> hb < hv"
  shows "advance h hv i a = Some (last (a # us))"
  using assms
proof (induction us arbitrary: a)
  case Nil
  then show ?case
    by (subst advance.simps) (auto simp: chain_def shape_Some_iff)
next
  case (Cons x us)
  have "advance h hv i x = Some (last (x # us))"
    using Cons by (intro Cons.IH) (auto simp: chain_def)
  moreover have "fwd h a i = Some x"
    using Cons.prems(1) by (simp add: chain_def)
  moreover obtain n where "h x = Some n" "s_hash n < hv"
    using Cons.prems(2) [of x] by (auto simp: shape_Some_iff)
  ultimately show ?case
    by (subst advance.simps) simp
qed

lemma advance_del_chain:
  assumes "chain (\<lambda>a. fwd h a i) (a # us @ [b])"
    and "\<And>x. x \<in> set us \<Longrightarrow> \<exists>k hs n. shape h x = Some (k, hs, n) \<and> hs < hv"
    and "shape h b = Some (kb, hb, nb)" "hv < hb \<or> hb = hv \<and> kb = Some key"
  shows "advance_del h hv key i a = Some (last (a # us))"
  using assms
proof (induction us arbitrary: a)
  case Nil
  then show ?case
    by (subst advance_del.simps) (auto simp: chain_def shape_Some_iff)
next
  case (Cons x us)
  have "advance_del h hv key i x = Some (last (x # us))"
    using Cons by (intro Cons.IH) (auto simp: chain_def)
  moreover have "fwd h a i = Some x"
    using Cons.prems(1) by (simp add: chain_def)
  moreover obtain n where "h x = Some n" "s_hash n < hv"
    using Cons.prems(2) [of x] by (auto simp: shape_Some_iff)
  ultimately show ?case
    by (subst advance_del.simps) (auto simp: less_le)
qed

text \<open>\<open>preds\<close>: the node at which the search stops on each level.\<close>

lemma descend_ok:
  assumes "\<And>j a. 1 \<le> j \<Longrightarrow> j \<le> n \<Longrightarrow> a \<in> C j \<Longrightarrow> adv j a = Some (p j)"
    and "\<And>j. 1 \<le> j \<Longrightarrow> j \<le> n \<Longrightarrow> p j \<in> C (j - 1)" "a \<in> C n"
  shows "descend adv n a = Some (if n = 0 then a else p 1, map p [1..<Suc n])"
  using assms
proof (induction n arbitrary: a)
  case (Suc n)
  have adv: "adv (Suc n) a = Some (p (Suc n))"
    using Suc.prems(1) [of "Suc n" a] Suc.prems(3) by simp
  have "p (Suc n) \<in> C n"
    using Suc.prems(2) [of "Suc n"] by simp
  then have "descend adv n (p (Suc n)) = Some (if n = 0 then p (Suc n) else p 1, map p [1..<Suc n])"
    using Suc.prems(1,2) by (intro Suc.IH) auto
  then show ?case
    using adv by simp
qed simp

lemma link_levels_ok:
  assumes "node \<notin> set ups" "\<And>k. k < length ups \<Longrightarrow> fwd h (ups ! k) (i + k) \<noteq> None"
    and "\<And>k. k < length ups \<Longrightarrow> fwd h node (i + k) \<noteq> None"
  obtains h' where "link_levels node i ups h = Some h'" "shape h' = shape h"
    "\<And>a j. fwd h' a j =
      (if i \<le> j \<and> j < i + length ups \<and> a = node then fwd h (ups ! (j - i)) j
       else if i \<le> j \<and> j < i + length ups \<and> a = ups ! (j - i) then Some node else fwd h a j)"
proof -
  have "\<exists>h'. link_levels node i ups h = Some h' \<and> shape h' = shape h \<and>
    (\<forall>a j. fwd h' a j =
      (if i \<le> j \<and> j < i + length ups \<and> a = node then fwd h (ups ! (j - i)) j
       else if i \<le> j \<and> j < i + length ups \<and> a = ups ! (j - i) then Some node else fwd h a j))"
    using assms
  proof (induction ups arbitrary: i h)
    case (Cons u ups)
    obtain f where f: "fwd h u i = Some f"
      using Cons.prems(2) [of 0] by auto
    have "fwd h node i \<noteq> None"
      using Cons.prems(3) [of 0] by simp
    then obtain h1 where h1: "set_fwd node i f h = Some h1" "shape h1 = shape h"
        "\<And>b j. fwd h1 b j = (if b = node \<and> j = i then Some f else fwd h b j)"
      using set_fwd_ok [of h node i f] by blast
    have "fwd h1 u i \<noteq> None"
      using h1(3) f by simp
    then obtain h2 where h2: "set_fwd u i node h1 = Some h2" "shape h2 = shape h1"
        "\<And>b j. fwd h2 b j = (if b = u \<and> j = i then Some node else fwd h1 b j)"
      using set_fwd_ok [of h1 u i node] by blast
    have "\<exists>h'. link_levels node (Suc i) ups h2 = Some h' \<and> shape h' = shape h2 \<and>
      (\<forall>a j. fwd h' a j =
        (if Suc i \<le> j \<and> j < Suc i + length ups \<and> a = node then fwd h2 (ups ! (j - Suc i)) j
         else if Suc i \<le> j \<and> j < Suc i + length ups \<and> a = ups ! (j - Suc i) then Some node
         else fwd h2 a j))"
    proof (rule Cons.IH)
      show "fwd h2 (ups ! k) (Suc i + k) \<noteq> None" if "k < length ups" for k
        using Cons.prems(2) [of "Suc k"] that h1(3) h2(3) by simp
      show "fwd h2 node (Suc i + k) \<noteq> None" if "k < length ups" for k
        using Cons.prems(3) [of "Suc k"] that h1(3) h2(3) by simp
    qed (use Cons.prems(1) in simp)
    then obtain h' where h': "link_levels node (Suc i) ups h2 = Some h'" "shape h' = shape h2"
      "\<And>a j. fwd h' a j =
        (if Suc i \<le> j \<and> j < Suc i + length ups \<and> a = node then fwd h2 (ups ! (j - Suc i)) j
         else if Suc i \<le> j \<and> j < Suc i + length ups \<and> a = ups ! (j - Suc i) then Some node
         else fwd h2 a j)"
      by blast
    have "fwd h' a j =
      (if i \<le> j \<and> j < i + length (u # ups) \<and> a = node then fwd h ((u # ups) ! (j - i)) j
       else if i \<le> j \<and> j < i + length (u # ups) \<and> a = (u # ups) ! (j - i) then Some node else fwd h a j)"
      for a j
    proof (cases "j = i")
      case True
      then show ?thesis
        using h'(3) h2(3) h1(3) f Cons.prems(1) by auto
    next
      case False
      then show ?thesis
        using h'(3) h2(3) h1(3) by (auto simp: nth_Cons' Suc_le_eq)
    qed
    then show ?case
      using f h1(1,2) h2(1,2) h'(1,2) by auto
  qed auto
  then show thesis
    using that by blast
qed

lemma unlink_levels_ok:
  assumes "x \<notin> set (take m ups)" "m \<le> length ups"
    and "\<And>k. k < m \<Longrightarrow> fwd h (ups ! k) (i + k) = Some x"
    and "\<And>k. k < m \<Longrightarrow> fwd h x (i + k) \<noteq> None"
    and "m < length ups \<Longrightarrow> fwd h (ups ! m) (i + m) \<noteq> None \<and> fwd h (ups ! m) (i + m) \<noteq> Some x"
  obtains h' where "unlink_levels x i ups h = Some h'" "shape h' = shape h"
    "\<And>a j. fwd h' a j =
      (if i \<le> j \<and> j < i + m \<and> a = ups ! (j - i) then fwd h x j else fwd h a j)"
proof -
  have "\<exists>h'. unlink_levels x i ups h = Some h' \<and> shape h' = shape h \<and>
    (\<forall>a j. fwd h' a j =
      (if i \<le> j \<and> j < i + m \<and> a = ups ! (j - i) then fwd h x j else fwd h a j))"
    using assms
  proof (induction ups arbitrary: i h m)
    case Nil
    then show ?case
      by auto
  next
    case (Cons u ups)
    show ?case
    proof (cases m)
      case 0
      then show ?thesis
        using Cons.prems(5) by auto
    next
      case (Suc m')
      have u: "fwd h u i = Some x"
        using Cons.prems(3) [of 0] Suc by simp
      obtain f where f: "fwd h x i = Some f"
        using Cons.prems(4) [of 0] Suc by auto
      have ne: "x \<noteq> u"
        using Cons.prems(1) Suc by auto
      obtain h1 where h1: "set_fwd u i f h = Some h1" "shape h1 = shape h"
          "\<And>b j. fwd h1 b j = (if b = u \<and> j = i then Some f else fwd h b j)"
        using set_fwd_ok [of h u i f] u by auto
      have "\<exists>h'. unlink_levels x (Suc i) ups h1 = Some h' \<and> shape h' = shape h1 \<and>
        (\<forall>a j. fwd h' a j =
          (if Suc i \<le> j \<and> j < Suc i + m' \<and> a = ups ! (j - Suc i) then fwd h1 x j else fwd h1 a j))"
      proof (rule Cons.IH)
        show "fwd h1 (ups ! k) (Suc i + k) = Some x" if "k < m'" for k
          using Cons.prems(3) [of "Suc k"] that h1(3) Suc by simp
        show "fwd h1 x (Suc i + k) \<noteq> None" if "k < m'" for k
          using Cons.prems(4) [of "Suc k"] that h1(3) Suc by simp
        show "fwd h1 (ups ! m') (Suc i + m') \<noteq> None \<and> fwd h1 (ups ! m') (Suc i + m') \<noteq> Some x"
          if "m' < length ups"
          using Cons.prems(5) that h1(3) Suc by simp
      qed (use Cons.prems(1,2) Suc in auto)
      then obtain h' where h': "unlink_levels x (Suc i) ups h1 = Some h'" "shape h' = shape h1"
        "\<And>a j. fwd h' a j =
          (if Suc i \<le> j \<and> j < Suc i + m' \<and> a = ups ! (j - Suc i) then fwd h1 x j else fwd h1 a j)"
        by blast
      have "fwd h' a j =
          (if i \<le> j \<and> j < i + m \<and> a = (u # ups) ! (j - i) then fwd h x j else fwd h a j)" for a j
        using h'(3) h1(3) f ne Suc by (cases "j = i") (auto simp: nth_Cons' Suc_le_eq)
      then show ?thesis
        using u f h1(1,2) h'(1,2) by auto
    qed
  qed
  then show thesis
    using that by blast
qed

section \<open>The invariant\<close>

definition key_hash :: "string \<Rightarrow> u32" where
  "key_hash key = skiplist_hash_key key SKIPLIST_SEED"

definition nkey :: "sheap \<Rightarrow> addr \<Rightarrow> string option" where
  "nkey h a = Option.bind (shape h a) fst"

definition nhash :: "sheap \<Rightarrow> addr \<Rightarrow> u32" where
  "nhash h a = (case shape h a of None \<Rightarrow> 0 | Some (_, hs, _) \<Rightarrow> hs)"

definition nlen :: "sheap \<Rightarrow> addr \<Rightarrow> nat" where
  "nlen h a = (case shape h a of None \<Rightarrow> 0 | Some (_, _, n) \<Rightarrow> n)"

text \<open>The nodes of a list that are linked on level \<open>i\<close>.\<close>

definition lvl :: "sheap \<Rightarrow> nat \<Rightarrow> addr list \<Rightarrow> addr list" where
  "lvl h i xs = filter (\<lambda>a. i < nlen h a) xs"

definition node_ok :: "sheap \<Rightarrow> nat \<Rightarrow> addr \<Rightarrow> bool" where
  "node_ok h level a \<longleftrightarrow>
     (\<exists>key n. shape h a = Some (Some key, key_hash key, n) \<and> key_hash key < SKIPLIST_MAX_SIZE \<and>
        2 \<le> n \<and> n \<le> Suc level)"

text \<open>\<open>sl_ok l xs\<close>: the nodes of the list are \<open>xs\<close>, in strictly increasing order of their hashes.\<close>

definition sl_ok :: "skiplist \<Rightarrow> addr list \<Rightarrow> bool" where
  "sl_ok l xs \<longleftrightarrow>
     shape (s_heap l) HEADER = Some (None, SKIPLIST_MAX_SIZE, 7) \<and>
     (\<forall>a \<in> set xs. node_ok (s_heap l) (s_level l) a) \<and>
     sorted_wrt (<) (map (nhash (s_heap l)) xs) \<and> HEADER \<notin> set xs \<and> NULL \<notin> set xs \<and>
     1 \<le> s_level l \<and> s_level l \<le> 6 \<and>
     (\<forall>i \<in> {1..6}. chain (\<lambda>a. fwd (s_heap l) a i) (HEADER # lvl (s_heap l) i xs @ [HEADER])) \<and>
     s_size l = of_nat (length xs)"

text \<open>The finite map a skip list stands for: key to node address.\<close>

definition smap :: "skiplist \<Rightarrow> addr list \<Rightarrow> string \<rightharpoonup> addr" where
  "smap l xs = map_of (map (\<lambda>a. (the (nkey (s_heap l) a), a)) xs)"

text \<open>
  The condition under which the code is correct for a key: its hash is not the marker of the
  header, and no other stored key has it.
\<close>

definition good_key :: "skiplist \<Rightarrow> addr list \<Rightarrow> string \<Rightarrow> bool" where
  "good_key l xs key \<longleftrightarrow>
     key_hash key \<noteq> SKIPLIST_MAX_SIZE \<and>
     (\<forall>a \<in> set xs. nhash (s_heap l) a = key_hash key \<longrightarrow> nkey (s_heap l) a = Some key)"

lemma node_okD:
  assumes "node_ok h level a"
  obtains key n where "shape h a = Some (Some key, key_hash key, n)" "nkey h a = Some key"
    "nhash h a = key_hash key" "nlen h a = n" "2 \<le> n" "n \<le> Suc level" "nhash h a < SKIPLIST_MAX_SIZE"
  using assms by (auto simp: node_ok_def nkey_def nhash_def nlen_def)

lemma sl_ok_node: "sl_ok l xs \<Longrightarrow> a \<in> set xs \<Longrightarrow> node_ok (s_heap l) (s_level l) a"
  by (simp add: sl_ok_def)

lemma sl_ok_nlen:
  "sl_ok l xs \<Longrightarrow> a \<in> set xs \<Longrightarrow> 2 \<le> nlen (s_heap l) a \<and> nlen (s_heap l) a \<le> Suc (s_level l)"
  using sl_ok_node [of l xs a] by (auto elim!: node_okD)

lemma lvl_1: "sl_ok l xs \<Longrightarrow> set ys \<subseteq> set xs \<Longrightarrow> lvl (s_heap l) 1 ys = ys"
  using sl_ok_nlen [of l xs] by (fastforce simp: lvl_def filter_id_conv)

lemma sl_ok_distinct: "sl_ok l xs \<Longrightarrow> distinct xs"
  unfolding sl_ok_def by (metis distinct_map strict_sorted_iff)

lemma lvl_append [simp]: "lvl h i (xs @ ys) = lvl h i xs @ lvl h i ys"
  by (simp add: lvl_def)

lemma lvl_Cons: "lvl h i (a # xs) = (if i < nlen h a then a # lvl h i xs else lvl h i xs)"
  by (simp add: lvl_def)

lemma lvl_Nil [simp]: "lvl h i [] = []"
  by (simp add: lvl_def)

lemma set_lvl: "set (lvl h i xs) = {a \<in> set xs. i < nlen h a}"
  by (simp add: lvl_def)

lemma lvl_shape_cong:
  "(\<And>a. a \<in> set xs \<Longrightarrow> shape h' a = shape h a) \<Longrightarrow> lvl h' i xs = lvl h i xs"
  unfolding lvl_def by (rule filter_cong) (simp_all add: nlen_def)

section \<open>The split of the list at a hash\<close>

text \<open>\<open>us\<close>: the nodes with a smaller hash; \<open>pred\<close>: the last of them on a level, or the header.\<close>

definition pred_at :: "sheap \<Rightarrow> addr list \<Rightarrow> nat \<Rightarrow> addr" where
  "pred_at h us i = last (HEADER # lvl h i us)"

definition split_at :: "skiplist \<Rightarrow> addr list \<Rightarrow> u32 \<Rightarrow> addr list \<Rightarrow> addr list \<Rightarrow> bool" where
  "split_at l xs hv us vs \<longleftrightarrow>
     sl_ok l xs \<and> xs = us @ vs \<and> (\<forall>a \<in> set us. nhash (s_heap l) a < hv) \<and>
     (\<forall>a \<in> set vs. hv \<le> nhash (s_heap l) a)"

lemma sorted_split:
  assumes "sorted_wrt (<) (map f xs)"
  shows "\<exists>us vs. xs = us @ vs \<and> (\<forall>a \<in> set us. f a < (hv :: u32)) \<and> (\<forall>a \<in> set vs. hv \<le> f a)"
  using assms
proof (induction xs)
  case (Cons x xs)
  show ?case
  proof (cases "f x < hv")
    case True
    obtain us vs where "xs = us @ vs" "\<forall>a \<in> set us. f a < hv" "\<forall>a \<in> set vs. hv \<le> f a"
      using Cons by auto
    then show ?thesis
      using True by (intro exI [of _ "x # us"] exI [of _ vs]) auto
  next
    case False
    then have "\<forall>a \<in> set (x # xs). hv \<le> f a"
      using Cons.prems by (auto simp: not_less dest: order_trans less_imp_le)
    then show ?thesis
      by (intro exI [of _ "[]"] exI [of _ "x # xs"]) simp
  qed
qed auto

lemma split_exists: "sl_ok l xs \<Longrightarrow> \<exists>us vs. split_at l xs hv us vs"
  using sorted_split [of "nhash (s_heap l)" xs hv] by (auto simp: sl_ok_def split_at_def)

lemma pred_at_mem: "pred_at h us i \<in> set (HEADER # lvl h i us)"
  unfolding pred_at_def by (rule last_in_set) simp

lemma lvl_mono: "j \<le> i \<Longrightarrow> set (lvl h i us) \<subseteq> set (lvl h j us)"
  by (auto simp: set_lvl)

lemma split_chain:
  assumes "split_at l xs hv us vs" "1 \<le> i" "i \<le> 6"
  shows "chain (\<lambda>a. fwd (s_heap l) a i)
    ((HEADER # lvl (s_heap l) i us) @ lvl (s_heap l) i vs @ [HEADER])"
  using assms by (auto simp: split_at_def sl_ok_def)

lemma fwd_pred:
  assumes "split_at l xs hv us vs" "1 \<le> i" "i \<le> 6"
  shows "fwd (s_heap l) (pred_at (s_heap l) us i) i = Some (hd (lvl (s_heap l) i vs @ [HEADER]))"
  using split_chain [OF assms] unfolding pred_at_def chain_append by simp

text \<open>From any earlier node of the level, the chain leads to the predecessor.\<close>

lemma chain_from:
  assumes sp: "split_at l xs hv us vs" and i: "1 \<le> i" "i \<le> 6"
    and a: "a \<in> set (HEADER # lvl (s_heap l) i us)"
  obtains q where "set q \<subseteq> set us" "last (a # q) = pred_at (s_heap l) us i"
    "chain (\<lambda>a. fwd (s_heap l) a i) (a # q @ [hd (lvl (s_heap l) i vs @ [HEADER])])"
proof -
  let ?h = "s_heap l" let ?f = "\<lambda>a. fwd ?h a i" let ?b = "hd (lvl ?h i vs @ [HEADER])"
  obtain p q where pq: "HEADER # lvl ?h i us = p @ a # q"
    using a by (meson split_list)
  have "set q \<subseteq> set (lvl ?h i us)"
    using pq by (cases p) auto
  then have "set q \<subseteq> set us"
    by (auto simp: set_lvl)
  moreover have l: "last (a # q) = pred_at ?h us i"
    unfolding pred_at_def pq by simp
  moreover have "chain ?f (p @ a # q)"
    using split_chain [OF sp i] unfolding pq [symmetric] chain_append by blast
  then have "chain ?f (a # q)"
    by (simp add: chain_append)
  then have "chain ?f ((a # q) @ [?b])"
    using fwd_pred [OF sp i] l by (simp only: chain_append) (simp add: chain_def)
  ultimately show thesis
    using that by simp
qed

lemma shape_first:
  assumes sp: "split_at l xs hv us vs"
  shows "shape (s_heap l) (hd (lvl (s_heap l) i vs @ [HEADER])) =
    Some (nkey (s_heap l) (hd (lvl (s_heap l) i vs @ [HEADER])),
          nhash (s_heap l) (hd (lvl (s_heap l) i vs @ [HEADER])),
          nlen (s_heap l) (hd (lvl (s_heap l) i vs @ [HEADER])))"
proof (cases "lvl (s_heap l) i vs")
  case Nil
  then show ?thesis
    using sp by (simp add: split_at_def sl_ok_def nkey_def nhash_def nlen_def)
next
  case (Cons a as)
  then have "a \<in> set vs"
    using set_lvl [of "s_heap l" i vs] by auto
  then have "node_ok (s_heap l) (s_level l) a"
    using sp by (auto simp: split_at_def sl_ok_def)
  then show ?thesis
    using Cons by (auto simp: node_ok_def nkey_def nhash_def nlen_def)
qed

lemma hash_first:
  assumes sp: "split_at l xs hv us vs"
  shows "hv \<le> nhash (s_heap l) (hd (lvl (s_heap l) i vs @ [HEADER]))"
proof (cases "lvl (s_heap l) i vs")
  case Nil
  have "nhash (s_heap l) HEADER = - 1"
    using sp by (simp add: split_at_def sl_ok_def nhash_def xdb_defs)
  then show ?thesis
    using Nil by simp
next
  case (Cons a as)
  then have "a \<in> set vs"
    using set_lvl [of "s_heap l" i vs] by auto
  then show ?thesis
    using sp Cons by (simp add: split_at_def)
qed

lemma us_shape:
  assumes "split_at l xs hv us vs" "x \<in> set us"
  shows "\<exists>k hs n. shape (s_heap l) x = Some (k, hs, n) \<and> hs < hv"
proof -
  have "node_ok (s_heap l) (s_level l) x" "nhash (s_heap l) x < hv"
    using assms by (auto simp: split_at_def sl_ok_def)
  then show ?thesis
    by (auto simp: node_ok_def nhash_def)
qed

lemma descend_preds:
  assumes sp: "split_at l xs hv us vs"
    and adv: "\<And>j a. 1 \<le> j \<Longrightarrow> j \<le> s_level l \<Longrightarrow> a \<in> set (HEADER # lvl (s_heap l) j us) \<Longrightarrow>
      adv j a = Some (pred_at (s_heap l) us j)"
  shows "descend adv (s_level l) HEADER =
    Some (pred_at (s_heap l) us 1, map (pred_at (s_heap l) us) [1..<Suc (s_level l)])"
proof -
  let ?h = "s_heap l"
  have lev: "1 \<le> s_level l"
    using sp by (simp add: split_at_def sl_ok_def)
  have "descend adv (s_level l) HEADER =
    Some (if s_level l = 0 then HEADER else pred_at ?h us 1, map (pred_at ?h us) [1..<Suc (s_level l)])"
  proof (rule descend_ok [where C = "\<lambda>j. set (HEADER # lvl ?h j us)"])
    show "pred_at ?h us j \<in> set (HEADER # lvl ?h (j - 1) us)" for j
      using pred_at_mem [of ?h us j] lvl_mono [of "j - 1" j ?h us] by auto
  qed (use adv in auto)
  then show ?thesis
    using lev by simp
qed

lemma descend_advance:
  assumes sp: "split_at l xs hv us vs"
  shows "descend (advance (s_heap l) hv) (s_level l) HEADER =
    Some (pred_at (s_heap l) us 1, map (pred_at (s_heap l) us) [1..<Suc (s_level l)])"
proof (rule descend_preds [OF sp])
  fix j a assume j: "1 \<le> j" "j \<le> s_level l" and a: "a \<in> set (HEADER # lvl (s_heap l) j us)"
  have "j \<le> 6"
    using j sp by (simp add: split_at_def sl_ok_def)
  with j(1) obtain q where q: "set q \<subseteq> set us" "last (a # q) = pred_at (s_heap l) us j"
    "chain (\<lambda>a. fwd (s_heap l) a j) (a # q @ [hd (lvl (s_heap l) j vs @ [HEADER])])"
    using chain_from [OF sp _ _ a] by blast
  have "advance (s_heap l) hv j a = Some (last (a # q))"
    by (rule advance_chain [OF q(3) _ shape_first [OF sp]])
      (use us_shape [OF sp] q(1) hash_first [OF sp] in \<open>auto simp: not_less\<close>)
  then show "advance (s_heap l) hv j a = Some (pred_at (s_heap l) us j)"
    using q(2) by simp
qed

lemma less_max_size: "(x :: u32) < SKIPLIST_MAX_SIZE \<longleftrightarrow> x \<noteq> SKIPLIST_MAX_SIZE"
proof -
  have "SKIPLIST_MAX_SIZE = - 1"
    by (simp add: SKIPLIST_MAX_SIZE_def)
  then show ?thesis
    using word_order.not_eq_extremum [of x] by simp
qed

lemma descend_advance_del:
  assumes sp: "split_at l xs (key_hash key) us vs" and g: "good_key l xs key"
  shows "descend (advance_del (s_heap l) (key_hash key) key) (s_level l) HEADER =
    Some (pred_at (s_heap l) us 1, map (pred_at (s_heap l) us) [1..<Suc (s_level l)])"
proof (rule descend_preds [OF sp])
  let ?hv = "key_hash key"
  fix j a assume j: "1 \<le> j" "j \<le> s_level l" and a: "a \<in> set (HEADER # lvl (s_heap l) j us)"
  let ?b = "hd (lvl (s_heap l) j vs @ [HEADER])"
  have "j \<le> 6"
    using j sp by (simp add: split_at_def sl_ok_def)
  with j(1) obtain q where q: "set q \<subseteq> set us" "last (a # q) = pred_at (s_heap l) us j"
    "chain (\<lambda>a. fwd (s_heap l) a j) (a # q @ [?b])"
    using chain_from [OF sp _ _ a] by blast
  have "?hv < nhash (s_heap l) ?b \<or> nhash (s_heap l) ?b = ?hv \<and> nkey (s_heap l) ?b = Some key"
  proof (cases "lvl (s_heap l) j vs")
    case Nil
    have "nhash (s_heap l) HEADER = SKIPLIST_MAX_SIZE"
      using sp by (simp add: split_at_def sl_ok_def nhash_def)
    moreover have "?hv < SKIPLIST_MAX_SIZE"
      using g by (simp add: good_key_def less_max_size)
    ultimately show ?thesis
      using Nil by simp
  next
    case (Cons y ys)
    then have "y \<in> set xs"
      using sp set_lvl [of "s_heap l" j vs] by (auto simp: split_at_def)
    then show ?thesis
      using g hash_first [OF sp, of j] Cons by (auto simp: good_key_def le_less)
  qed
  then have "advance_del (s_heap l) ?hv key j a = Some (last (a # q))"
    by (rule advance_del_chain [OF q(3) _ shape_first [OF sp], rotated])
      (use us_shape [OF sp] q(1) in auto)
  then show "advance_del (s_heap l) ?hv key j a = Some (pred_at (s_heap l) us j)"
    using q(2) by simp
qed

text \<open>A good key is stored at the first node that is not smaller, or nowhere.\<close>

lemma good_key_cases:
  assumes sp: "split_at l xs (key_hash key) us vs" and g: "good_key l xs key"
  obtains (found) x vs' where "vs = x # vs'" "nkey (s_heap l) x = Some key"
      "nhash (s_heap l) x = key_hash key" "smap l xs key = Some x"
    | (absent) "\<And>a. a \<in> set xs \<Longrightarrow> nkey (s_heap l) a \<noteq> Some key \<and> nhash (s_heap l) a \<noteq> key_hash key"
      "smap l xs key = None"
      "vs \<noteq> [] \<Longrightarrow> nhash (s_heap l) (hd vs) \<noteq> key_hash key"
proof -
  let ?h = "s_heap l" let ?P = "\<lambda>a. (the (nkey ?h a), a)"
  have ok: "node_ok ?h (s_level l) a" if "a \<in> set xs" for a
    using that sp by (auto simp: split_at_def sl_ok_def)
  have kh: "nhash ?h a = key_hash key" if "a \<in> set xs" "nkey ?h a = Some key" for a
    using ok [OF that(1)] that(2) by (auto elim: node_okD)
  have sorted: "sorted_wrt (<) (map (nhash ?h) xs)"
    using sp unfolding split_at_def sl_ok_def by blast
  show thesis
  proof (cases "\<exists>a \<in> set xs. nhash ?h a = key_hash key")
    case True
    then obtain x where x: "x \<in> set xs" "nhash ?h x = key_hash key"
      by blast
    then have "x \<in> set vs"
      using sp by (auto simp: split_at_def)
    then obtain y vs' where vs: "vs = y # vs'"
      by (cases vs) auto
    have "x = y"
    proof (rule ccontr)
      assume "x \<noteq> y"
      then have "nhash ?h y < nhash ?h x"
        using sorted \<open>x \<in> set vs\<close> vs sp by (auto simp: split_at_def sorted_wrt_append)
      moreover have "key_hash key \<le> nhash ?h y"
        using sp vs by (simp add: split_at_def)
      ultimately show False
        using x(2) by simp
    qed
    have kx: "nkey ?h x = Some key"
      using g x by (simp add: good_key_def)
    have "smap l xs key = Some x"
    proof -
      have "the (nkey ?h a) \<noteq> key" if "a \<in> set us" for a
      proof -
        have a: "a \<in> set xs" "nhash ?h a \<noteq> key_hash key"
          using that sp by (auto simp: split_at_def)
        then show ?thesis
          using ok [OF a(1)] kh [OF a(1)] by (auto elim!: node_okD)
      qed
      then have "key \<notin> (\<lambda>a. the (nkey ?h a)) ` set us"
        by blast
      then have "map_of (map ?P us) key = None"
        by (simp add: map_of_eq_None_iff image_image)
      then show ?thesis
        using sp vs kx \<open>x = y\<close> by (simp add: smap_def split_at_def map_add_def)
    qed
    then show thesis
      using found [of y vs'] vs kx x \<open>x = y\<close> by simp
  next
    case False
    then have none: "nkey ?h a \<noteq> Some key \<and> nhash ?h a \<noteq> key_hash key" if "a \<in> set xs" for a
      using kh that by blast
    have "smap l xs key = None"
      using none ok by (fastforce simp: smap_def map_of_eq_None_iff elim: node_okD)
    moreover have "nhash ?h (hd vs) \<noteq> key_hash key" if "vs \<noteq> []"
      using none that sp by (simp add: split_at_def)
    ultimately show thesis
      using absent none by blast
  qed
qed

end
