(* ===== verification/Skiplist.thy ===== *)
theory Skiplist
  imports SkiplistInv
begin

text \<open>
  Correctness of the skip list of \<^verbatim>\<open>storage/skiplist.c\<close> for keys without hash collisions, and what
  happens with a collision. The interface that hash maps and sets rely on is the locale
  \<open>node_index\<close>.
\<close>

section \<open>Search\<close>

lemma skiplist_search_ok:
  assumes ok: "sl_ok l xs" and g: "good_key l xs key"
  shows "skiplist_search l key = Some (case smap l xs key of None \<Rightarrow> NULL | Some a \<Rightarrow> a)"
proof -
  let ?h = "s_heap l"
  obtain us vs where sp: "split_at l xs (key_hash key) us vs"
    using split_exists [OF ok] by blast
  let ?p = "pred_at ?h us 1" let ?b = "hd (lvl ?h 1 vs @ [HEADER])"
  have d: "descend (advance ?h (key_hash key)) (s_level l) HEADER =
      Some (?p, map (pred_at ?h us) [1..<Suc (s_level l)])"
    by (rule descend_advance [OF sp])
  have f: "fwd ?h ?p 1 = Some ?b"
    by (rule fwd_pred [OF sp]) simp_all
  have l1: "lvl ?h 1 vs = vs"
    using lvl_1 [OF ok] sp by (auto simp: split_at_def)
  obtain n where n: "?h ?b = Some n" "s_hash n = nhash ?h ?b" "s_key n = nkey ?h ?b"
    using shape_first [OF sp, of 1] by (auto simp: shape_Some_iff)
  have nh: "node_hash ?h ?p 1 = Some (nhash ?h ?b)"
    using f n by (simp add: node_hash_def)
  show ?thesis
  proof (rule good_key_cases [OF sp g])
    fix x vs' assume x: "vs = x # vs'" "nkey ?h x = Some key" "nhash ?h x = key_hash key"
      "smap l xs key = Some x"
    then have b: "?b = x"
      using l1 by simp
    have "skip_keys ?h key ?p = Some ?p"
      using f n b x by (subst skip_keys.simps) simp
    then show ?thesis
      using d nh f b x by (simp add: skiplist_search_def key_hash_def [symmetric] Let_def)
  next
    assume a: "smap l xs key = None" "vs \<noteq> [] \<Longrightarrow> nhash ?h (hd vs) \<noteq> key_hash key"
    have "nhash ?h HEADER = SKIPLIST_MAX_SIZE"
      using ok by (simp add: sl_ok_def nhash_def)
    then have "nhash ?h ?b \<noteq> key_hash key"
      using a(2) l1 g by (cases vs) (auto simp: good_key_def)
    then show ?thesis
      using d nh a(1) by (simp add: skiplist_search_def key_hash_def [symmetric] Let_def)
  qed
qed

section \<open>Insertion\<close>

lemma rand_level_bounds:
  assumes "height < mx"
  shows "height < rand_level_loop coins mx height \<and> rand_level_loop coins mx height \<le> mx"
  using assms
proof (induction coins mx height rule: rand_level_loop.induct)
  case (1 coins mx height)
  then show ?case
    by (subst (1 2) rand_level_loop.simps) (auto simp: Let_def)
qed

lemma skiplist_rand_level_bounds:
  "1 \<le> skiplist_rand_level coins SKIPLIST_MAX_LEVELS" "skiplist_rand_level coins SKIPLIST_MAX_LEVELS \<le> 6"
  using rand_level_bounds [of 0 6 coins] by (simp_all add: skiplist_rand_level_def xdb_defs)

lemma pred_at_above:
  assumes "sl_ok l (us @ vs)" "s_level l < i"
  shows "pred_at (s_heap l) us i = HEADER"
proof -
  have "lvl (s_heap l) i us = []"
    using assms(2) sl_ok_nlen [OF assms(1)] by (fastforce simp: lvl_def filter_empty_conv)
  then show ?thesis
    by (simp add: pred_at_def)
qed

text \<open>The list after the node is linked behind its predecessors on the levels 1 to \<open>level\<close>.\<close>

lemma insert_result_ok:
  assumes sp: "split_at l xs (key_hash key) us vs" and g: "good_key l xs key"
    and absent: "\<And>a. a \<in> set xs \<Longrightarrow> nhash (s_heap l) a \<noteq> key_hash key"
    and node: "node \<notin> set xs" "node \<noteq> HEADER" "node \<noteq> NULL"
    and lev: "1 \<le> level" "level \<le> 6"
    and shape': "\<And>a. shape h' a = (if a = node then Some (Some key, key_hash key, Suc level)
                                   else shape (s_heap l) a)"
    and fwd': "\<And>a j. 1 \<le> j \<Longrightarrow> fwd h' a j =
      (if j \<le> level \<and> a = node then fwd (s_heap l) (pred_at (s_heap l) us j) j
       else if j \<le> level \<and> a = pred_at (s_heap l) us j then Some node
       else if a = node then None else fwd (s_heap l) a j)"
  shows "sl_ok \<lparr>s_heap = h', s_level = max level (s_level l), s_size = s_size l + 1\<rparr> (us @ node # vs)"
proof -
  let ?h = "s_heap l"
  have ok: "sl_ok l xs" and xs: "xs = us @ vs"
    using sp unfolding split_at_def by blast+
  have dist: "distinct xs"
    using ok by (rule sl_ok_distinct)
  have nh: "nhash h' a = nhash ?h a" "nkey h' a = nkey ?h a" "nlen h' a = nlen ?h a" if "a \<in> set xs" for a
    using that node shape' by (auto simp: nhash_def nkey_def nlen_def)
  have nn: "nhash h' node = key_hash key" "nlen h' node = Suc level"
    using shape' by (simp_all add: nhash_def nlen_def)
  have "node_ok h' (max level (s_level l)) a" if "a \<in> set (us @ node # vs)" for a
  proof (cases "a = node")
    case True
    then show ?thesis
      using shape' g lev by (auto simp: node_ok_def good_key_def less_max_size)
  next
    case False
    then have "node_ok ?h (s_level l) a"
      using that ok xs by (auto simp: sl_ok_def)
    then show ?thesis
      using shape' False by (auto simp: node_ok_def)
  qed
  moreover have "sorted_wrt (<) (map (nhash h') (us @ node # vs))"
  proof -
    have eq: "map (nhash h') (us @ node # vs) = map (nhash ?h) us @ key_hash key # map (nhash ?h) vs"
      using nh nn xs by auto
    have "\<forall>a \<in> set vs. key_hash key < nhash ?h a"
    proof
      fix a assume "a \<in> set vs"
      then have "key_hash key \<le> nhash ?h a" "nhash ?h a \<noteq> key_hash key"
        using sp absent xs by (auto simp: split_at_def)
      then show "key_hash key < nhash ?h a"
        by (simp add: le_less)
    qed
    then show ?thesis
      unfolding eq using ok sp xs by (auto simp: sl_ok_def split_at_def sorted_wrt_append)
  qed
  moreover have "chain (\<lambda>a. fwd h' a i) (HEADER # lvl h' i (us @ node # vs) @ [HEADER])"
    if i: "1 \<le> i" "i \<le> 6" for i
  proof -
    have lv: "lvl h' i us = lvl ?h i us" "lvl h' i vs = lvl ?h i vs"
      by (rule lvl_shape_cong, use xs node shape' in auto)+
    let ?A = "HEADER # lvl ?h i us" let ?B = "lvl ?h i vs @ [HEADER]"
    have c: "chain (\<lambda>a. fwd ?h a i) (?A @ ?B)"
      using split_chain [OF sp i] by simp
    have mem: "a \<noteq> node" if "a \<in> set (?A @ ?B)" for a
      using that node xs by (auto simp: set_lvl)
    show ?thesis
    proof (cases "i \<le> level")
      case False
      then have "chain (\<lambda>a. fwd h' a i) (?A @ ?B)"
        by (intro chain_frame [OF c]) (use mem [OF in_set_butlastD] fwd' [OF i(1)] in auto)
      then show ?thesis
        using lv nn False by (simp add: lvl_Cons)
    next
      case True
      have "distinct ?A" "distinct (lvl ?h i us @ lvl ?h i vs)" "HEADER \<notin> set (lvl ?h i vs)"
        using dist ok xs by (auto simp: lvl_def sl_ok_def)
      then have np: "a \<noteq> pred_at ?h us i" if "a \<in> set (butlast ?A) \<union> set (lvl ?h i vs)" for a
        using that unfolding pred_at_def
        by (metis UnE append_butlast_last_id distinct_butlast disjoint_iff distinct_append
            last_in_set list.distinct(1) not_distinct_conv_prefix set_ConsD)
      have "chain (\<lambda>a. fwd h' a i) (?A @ node # ?B)"
      proof (rule chain_insert [OF c])
        show "fwd h' (last ?A) i = Some node"
          using fwd' [OF i(1)] True mem [of "last ?A"] by (simp add: pred_at_def)
        show "fwd h' node i = Some (hd ?B)"
          using fwd' [OF i(1)] True fwd_pred [OF sp i] by simp
        show "fwd h' a i = fwd ?h a i" if a: "a \<in> set (butlast ?A) \<union> set (butlast ?B)" for a
        proof -
          have "a \<noteq> node"
            using a in_set_butlastD [of a ?A] in_set_butlastD [of a ?B] mem [of a] by fastforce
          moreover have "a \<noteq> pred_at ?h us i"
            using a by (intro np) (simp only: butlast_snoc)
          ultimately show ?thesis
            using fwd' [OF i(1)] by simp
        qed
      qed simp_all
      then show ?thesis
        using lv nn True by (simp add: lvl_Cons)
    qed
  qed
  moreover have "shape h' HEADER = Some (None, SKIPLIST_MAX_SIZE, 7)"
    using shape' node ok by (simp add: sl_ok_def)
  ultimately show ?thesis
    using ok node lev xs by (auto simp: sl_ok_def)
qed

lemma smap_insert:
  assumes "split_at l xs (key_hash key) us vs" "\<And>a. a \<in> set xs \<Longrightarrow> nkey (s_heap l) a \<noteq> Some key"
    and "node \<notin> set xs" "\<And>a. shape h' a = (if a = node then Some (Some key, key_hash key, m)
                                   else shape (s_heap l) a)" "s_heap l' = h'"
  shows "smap l' (us @ node # vs) = (smap l xs)(key \<mapsto> node)"
proof -
  let ?P = "\<lambda>h a. (the (nkey h a), a)"
  have xs: "xs = us @ vs" and ok: "sl_ok l xs"
    using assms(1) unfolding split_at_def by blast+
  have eq: "map (?P h') (us @ node # vs) = map (?P (s_heap l)) us @ (key, node) # map (?P (s_heap l)) vs"
    using assms(3,4) xs by (auto simp: nkey_def)
  have "key \<noteq> the (nkey (s_heap l) a)" if "a \<in> set xs" for a
    using sl_ok_node [OF ok that] assms(2) [OF that] by (auto elim!: node_okD)
  then have "key \<notin> (\<lambda>a. the (nkey (s_heap l) a)) ` set us"
    using xs by auto
  then have "map_of (map (?P (s_heap l)) us) key = None"
    by (simp add: map_of_eq_None_iff image_image)
  moreover have "smap l' (us @ node # vs) =
      map_of (map (?P (s_heap l)) us @ (key, node) # map (?P (s_heap l)) vs)"
    by (simp only: smap_def assms(5) eq)
  moreover have "smap l xs = map_of (map (?P (s_heap l)) us @ map (?P (s_heap l)) vs)"
    by (simp add: smap_def xs)
  ultimately show ?thesis
    by (auto simp: map_add_def fun_eq_iff split: option.splits)
qed

lemma fwd_new_node:
  "fwd (h(node \<mapsto> \<lparr>s_key = k, s_hash = hs, s_forward = replicate n NULL\<rparr>)) a j =
   (if a = node then if j < n then Some NULL else None else fwd h a j)"
  by (auto simp: fwd_def)

lemma shape_new_node:
  "shape (h(node \<mapsto> \<lparr>s_key = k, s_hash = hs, s_forward = replicate n NULL\<rparr>)) a =
   (if a = node then Some (k, hs, n) else shape h a)"
  by (auto simp: shape_def)

lemma take_preds:
  assumes "sl_ok l (us @ vs)"
  shows "take level (map (pred_at (s_heap l) us) [1..<Suc (s_level l)] @ replicate (level - s_level l) HEADER) =
    map (pred_at (s_heap l) us) [1..<Suc level]"
proof (rule nth_equalityI)
  fix k assume "k < length (take level (map (pred_at (s_heap l) us) [1..<Suc (s_level l)] @
      replicate (level - s_level l) HEADER))"
  then have "k < level"
    by (simp del: upt_Suc)
  then show "take level (map (pred_at (s_heap l) us) [1..<Suc (s_level l)] @
      replicate (level - s_level l) HEADER) ! k = map (pred_at (s_heap l) us) [1..<Suc level] ! k"
    using pred_at_above [OF assms, of "Suc k"] by (auto simp: nth_append simp del: upt_Suc)
qed (simp del: upt_Suc)

lemma skiplist_insert_ok:
  assumes ok: "sl_ok l xs" and g: "good_key l xs key"
    and node: "node \<notin> set xs" "node \<noteq> HEADER" "node \<noteq> NULL"
  obtains (present) "smap l xs key \<noteq> None" "skiplist_insert coins l key node = Some (- XFIREDB_OK, l)"
    | (inserted) l' xs' where "smap l xs key = None"
      "skiplist_insert coins l key node = Some (- XFIREDB_OK, l')" "sl_ok l' xs'"
      "set xs' = insert node (set xs)" "smap l' xs' = (smap l xs)(key \<mapsto> node)"
      "length xs' = Suc (length xs)"
      "\<And>a. a \<noteq> node \<Longrightarrow> shape (s_heap l') a = shape (s_heap l) a"
proof -
  let ?h = "s_heap l" let ?hv = "key_hash key"
  obtain us vs where sp: "split_at l xs ?hv us vs"
    using split_exists [OF ok] by blast
  then have xs: "xs = us @ vs"
    unfolding split_at_def by blast
  let ?p = "pred_at ?h us" let ?b = "hd (lvl ?h 1 vs @ [HEADER])"
  have d: "descend (advance ?h ?hv) (s_level l) HEADER = Some (?p 1, map ?p [1..<Suc (s_level l)])"
    by (rule descend_advance [OF sp])
  have f: "fwd ?h (?p 1) 1 = Some ?b"
    by (rule fwd_pred [OF sp]) simp_all
  have l1: "lvl ?h 1 vs = vs"
    using lvl_1 [OF ok] xs by auto
  obtain n where n: "?h ?b = Some n" "s_key n = nkey ?h ?b"
    using shape_first [OF sp, of 1] by (auto simp: shape_Some_iff)
  show thesis
  proof (rule good_key_cases [OF sp g])
    fix x vs' assume "vs = x # vs'" "nkey ?h x = Some key" "smap l xs key = Some x"
    then show thesis
      using d f n l1 by (intro present) (simp_all add: skiplist_insert_def key_hash_def [symmetric] Let_def)
  next
    assume a: "\<And>a. a \<in> set xs \<Longrightarrow> nkey ?h a \<noteq> Some key \<and> nhash ?h a \<noteq> ?hv" "smap l xs key = None"
    have "nkey ?h HEADER = None"
      using ok by (simp add: sl_ok_def nkey_def)
    then have kb: "nkey ?h ?b \<noteq> Some key"
      using a(1) l1 xs by (cases vs) auto
    define level where "level = skiplist_rand_level coins SKIPLIST_MAX_LEVELS"
    have lev: "1 \<le> level" "level \<le> 6"
      unfolding level_def by (rule skiplist_rand_level_bounds)+
    define h1 where "h1 = ?h(node \<mapsto> \<lparr>s_key = Some key, s_hash = ?hv,
        s_forward = replicate (level + 1) NULL\<rparr>)"
    have fn: "fwd h1 a j = (if a = node then if j < level + 1 then Some NULL else None else fwd ?h a j)" for a j
      unfolding h1_def by (rule fwd_new_node)
    have h1': "?h(node \<mapsto> \<lparr>s_key = Some key, s_hash = ?hv, s_forward = NULL # replicate level NULL\<rparr>) = h1"
      by (simp add: h1_def)
    let ?ups = "map ?p [1..<Suc level]"
    have up: "?ups ! k = ?p (Suc k)" if "k < level" for k
      using that by (simp del: upt_Suc)
    have pn: "?p j \<noteq> node" for j
      using pred_at_mem [of ?h us j] node xs by (auto simp: set_lvl)
    obtain h' where h': "link_levels node 1 ?ups h1 = Some h'" "shape h' = shape h1"
      "\<And>a j. fwd h' a j =
        (if 1 \<le> j \<and> j < 1 + length ?ups \<and> a = node then fwd h1 (?ups ! (j - 1)) j
         else if 1 \<le> j \<and> j < 1 + length ?ups \<and> a = ?ups ! (j - 1) then Some node else fwd h1 a j)"
    proof (rule link_levels_ok [of node ?ups h1 1])
      show "node \<notin> set ?ups"
        using pn by (auto simp del: upt_Suc)
      show "fwd h1 (?ups ! k) (1 + k) \<noteq> None" if "k < length ?ups" for k
        using that up pn fwd_pred [OF sp, of "Suc k"] lev by (simp add: fn del: upt_Suc)
      show "fwd h1 node (1 + k) \<noteq> None" if "k < length ?ups" for k
        using that by (simp add: fn del: upt_Suc)
    qed blast
    let ?l = "\<lparr>s_heap = h', s_level = max level (s_level l), s_size = s_size l + 1\<rparr>"
    have sh: "shape h' a = (if a = node then Some (Some key, ?hv, Suc level) else shape ?h a)" for a
      unfolding h'(2) h1_def shape_new_node by simp
    have "sl_ok ?l (us @ node # vs)"
    proof (rule insert_result_ok [OF sp g _ node lev sh])
      show "fwd h' a j =
          (if j \<le> level \<and> a = node then fwd ?h (?p j) j
           else if j \<le> level \<and> a = ?p j then Some node
           else if a = node then None else fwd ?h a j)" if "1 \<le> j" for a j
      proof -
        have "length ?ups = level"
          by (simp del: upt_Suc)
        moreover have "?ups ! (j - 1) = ?p j" if "j \<le> level"
          using up [of "j - 1"] that \<open>1 \<le> j\<close> by (simp del: upt_Suc)
        ultimately show ?thesis
          unfolding h'(3) fn using that pn [of j] by (cases "j \<le> level") (simp_all del: upt_Suc)
      qed
    qed (use a in blast)
    moreover have "smap ?l (us @ node # vs) = (smap l xs)(key \<mapsto> node)"
      by (rule smap_insert [OF sp _ node(1) sh]) (use a in auto)
    moreover have "skiplist_insert coins l key node = Some (- XFIREDB_OK, ?l)"
      using d f n kb h'(1) take_preds [of l us vs level] ok xs
      by (simp add: skiplist_insert_def key_hash_def [symmetric] Let_def level_def [symmetric] h1' max_def
          atomic_defs del: upt_Suc)
    ultimately show thesis
      using a(2) sh xs by (intro inserted [of ?l "us @ node # vs"]) auto
  qed
qed

section \<open>Deletion\<close>

lemma shrink_level_ok:
  assumes "\<And>i. 1 \<le> i \<Longrightarrow> i \<le> lev \<Longrightarrow> fwd h HEADER i = Some (hd (lvl h i xs @ [HEADER]))"
    and "1 \<le> lev" "\<And>a. a \<in> set xs \<Longrightarrow> nlen h a \<le> Suc lev" "HEADER \<notin> set xs"
  shows "\<exists>lev'. shrink_level h lev = Some lev' \<and> 1 \<le> lev' \<and> lev' \<le> lev \<and>
    (\<forall>a \<in> set xs. nlen h a \<le> Suc lev')"
  using assms
proof (induction lev)
  case (Suc lev)
  show ?case
  proof (cases "lev = 0")
    case True
    then show ?thesis
      using Suc.prems by (subst shrink_level.simps) auto
  next
    case lev: False
    have f: "fwd h HEADER (Suc lev) = Some (hd (lvl h (Suc lev) xs @ [HEADER]))"
      using Suc.prems(1) by simp
    show ?thesis
    proof (cases "lvl h (Suc lev) xs")
      case Nil
      then have "nlen h a \<le> Suc lev" if "a \<in> set xs" for a
        using that by (auto simp: lvl_def filter_empty_conv not_less)
      then have "\<exists>lev'. shrink_level h lev = Some lev' \<and> 1 \<le> lev' \<and> lev' \<le> lev \<and>
          (\<forall>a \<in> set xs. nlen h a \<le> Suc lev')"
        using Suc.prems lev by (intro Suc.IH) auto
      then show ?thesis
        using f Nil lev by (subst shrink_level.simps) auto
    next
      case (Cons a as)
      then have "a \<in> set xs"
        using set_lvl [of h "Suc lev" xs] by auto
      then have "a \<noteq> HEADER"
        using Suc.prems(4) by auto
      then show ?thesis
        using f Cons lev Suc.prems by (subst shrink_level.simps) auto
    qed
  qed
qed simp

text \<open>The list after the node is unlinked on its levels and destroyed.\<close>

lemma delete_links_ok:
  assumes sp: "split_at l xs hv us (x # vs)" and i: "1 \<le> i" "i \<le> 6"
    and shape': "\<And>a. a \<noteq> x \<Longrightarrow> shape h' a = shape (s_heap l) a"
    and fwd': "\<And>a. a \<noteq> x \<Longrightarrow> fwd h' a i =
      (if i < nlen (s_heap l) x \<and> a = pred_at (s_heap l) us i then fwd (s_heap l) x i
       else fwd (s_heap l) a i)"
  shows "chain (\<lambda>a. fwd h' a i) (HEADER # lvl h' i (us @ vs) @ [HEADER])"
proof -
  let ?h = "s_heap l" let ?A = "HEADER # lvl ?h i us" let ?B = "lvl ?h i vs @ [HEADER]"
  have ok: "sl_ok l xs" and xs: "xs = us @ x # vs"
    using sp unfolding split_at_def by blast+
  have dist: "distinct xs" "HEADER \<notin> set xs"
    using sl_ok_distinct [OF ok] ok by (simp_all add: sl_ok_def)
  have sh: "shape h' a = shape ?h a" if "a \<in> set us \<union> set vs" for a
    using that dist xs by (intro shape') auto
  have lv: "lvl h' i us = lvl ?h i us" "lvl h' i vs = lvl ?h i vs"
    by (rule lvl_shape_cong, simp add: sh)+
  have mem: "a \<noteq> x" if "a \<in> set (?A @ ?B)" for a
    using that dist xs by (auto simp: set_lvl)
  have c: "chain (\<lambda>a. fwd ?h a i) (?A @ lvl ?h i (x # vs) @ [HEADER])"
    by (rule split_chain [OF sp i])
  have "chain (\<lambda>a. fwd h' a i) (?A @ ?B)"
  proof (cases "i < nlen ?h x")
    case False
    show ?thesis
      by (rule chain_frame [of "\<lambda>a. fwd ?h a i"])
        (use c False mem [OF in_set_butlastD] fwd' in \<open>auto simp: lvl_Cons\<close>)
  next
    case True
    have "distinct ?A" "distinct (lvl ?h i us @ lvl ?h i vs)" "HEADER \<notin> set (lvl ?h i vs)"
      using dist xs by (auto simp: lvl_def)
    then have np: "a \<noteq> pred_at ?h us i" if "a \<in> set (butlast ?A) \<union> set (lvl ?h i vs)" for a
      using that unfolding pred_at_def
      by (metis UnE append_butlast_last_id distinct_butlast disjoint_iff distinct_append
          last_in_set list.distinct(1) not_distinct_conv_prefix set_ConsD)
    show ?thesis
    proof (rule chain_remove [of "\<lambda>a. fwd ?h a i" ?A x])
      show "chain (\<lambda>a. fwd ?h a i) (?A @ x # ?B)"
        using c True by (simp add: lvl_Cons)
      have "last ?A \<noteq> x"
        using mem [of "last ?A"] last_in_set [of ?A] by fastforce
      then show "fwd h' (last ?A) i = fwd ?h x i"
        using fwd' True by (simp add: pred_at_def)
      show "fwd h' a i = fwd ?h a i" if a: "a \<in> set (butlast ?A) \<union> set (butlast ?B)" for a
      proof -
        have "a \<noteq> x"
          using a in_set_butlastD [of a ?A] in_set_butlastD [of a ?B] mem [of a] by fastforce
        moreover have "a \<noteq> pred_at ?h us i"
          using a by (intro np) (simp only: butlast_snoc)
        ultimately show ?thesis
          using fwd' by simp
      qed
    qed simp_all
  qed
  then show ?thesis
    using lv by simp
qed

lemma delete_result_ok:
  assumes sp: "split_at l xs hv us (x # vs)"
    and shape': "\<And>a. a \<noteq> x \<Longrightarrow> shape h' a = shape (s_heap l) a"
    and fwd': "\<And>a i. a \<noteq> x \<Longrightarrow> 1 \<le> i \<Longrightarrow> fwd h' a i =
      (if i < nlen (s_heap l) x \<and> a = pred_at (s_heap l) us i then fwd (s_heap l) x i
       else fwd (s_heap l) a i)"
  shows "\<exists>lev. shrink_level h' (s_level l) = Some lev \<and>
    sl_ok \<lparr>s_heap = h', s_level = lev, s_size = s_size l - 1\<rparr> (us @ vs)"
proof -
  let ?h = "s_heap l"
  have ok: "sl_ok l xs" and xs: "xs = us @ x # vs"
    using sp unfolding split_at_def by blast+
  have xne: "x \<noteq> HEADER" "HEADER \<notin> set (us @ vs)" "1 \<le> s_level l" "s_level l \<le> 6"
    using ok xs by (auto simp: sl_ok_def)
  have ch: "chain (\<lambda>a. fwd h' a i) (HEADER # lvl h' i (us @ vs) @ [HEADER])" if "1 \<le> i" "i \<le> 6" for i
    by (rule delete_links_ok [OF sp that shape' fwd']) (use that in simp_all)
  have sh: "shape h' a = shape ?h a" if "a \<in> set (us @ vs)" for a
    using that sl_ok_distinct [OF ok] xs by (intro shape') auto
  have nl: "nlen h' a = nlen ?h a" "nhash h' a = nhash ?h a" "node_ok h' k a = node_ok ?h k a"
    if "a \<in> set (us @ vs)" for a k
    using sh [OF that] by (simp_all add: nlen_def nhash_def node_ok_def)
  have mem: "a \<in> set xs" if "a \<in> set (us @ vs)" for a
    using that xs by auto
  obtain lev where lev: "shrink_level h' (s_level l) = Some lev" "1 \<le> lev" "lev \<le> s_level l"
      "\<forall>a \<in> set (us @ vs). nlen h' a \<le> Suc lev"
  proof -
    have "fwd h' HEADER i = Some (hd (lvl h' i (us @ vs) @ [HEADER]))" if "1 \<le> i" "i \<le> s_level l" for i
      using ch [of i] that xne by (simp add: chain_Cons)
    moreover have "nlen h' a \<le> Suc (s_level l)" if "a \<in> set (us @ vs)" for a
      using nl(1) [OF that] sl_ok_nlen [OF ok mem [OF that]] by simp
    ultimately show thesis
      using shrink_level_ok [of "s_level l" h' "us @ vs"] xne(2,3) that by blast
  qed
  have "node_ok h' lev a" if a: "a \<in> set (us @ vs)" for a
  proof -
    have "node_ok h' (s_level l) a"
      using nl(3) [OF a] sl_ok_node [OF ok mem [OF a]] by simp
    then show ?thesis
      using bspec [OF lev(4) a] by (auto simp: node_ok_def nlen_def)
  qed
  moreover have "sorted_wrt (<) (map (nhash h') (us @ vs))"
  proof -
    have eq: "map (nhash h') (us @ vs) = map (nhash ?h) (us @ vs)"
      using nl(2) by (intro map_cong) auto
    show ?thesis
      unfolding eq using ok xs by (simp add: sl_ok_def sorted_wrt_append)
  qed
  moreover have "shape h' HEADER = Some (None, SKIPLIST_MAX_SIZE, 7)"
    using shape' [of HEADER] xne ok by (simp add: sl_ok_def)
  ultimately have "sl_ok \<lparr>s_heap = h', s_level = lev, s_size = s_size l - 1\<rparr> (us @ vs)"
    using ch ok xs lev xne by (auto simp: sl_ok_def)
  then show ?thesis
    using lev(1) by blast
qed

lemma destroy_sel:
  assumes "h x = Some n" "x \<noteq> NULL"
  shows "shape (skiplist_node_destroy x h) a = (if a = x then Some (None, s_hash n, 0) else shape h a)"
    "fwd (skiplist_node_destroy x h) a j = (if a = x then None else fwd h a j)"
  using assms by (auto simp: skiplist_node_destroy_def shape_def fwd_def)

lemma smap_delete:
  assumes "sl_ok l (us @ x # vs)" "nkey (s_heap l) x = Some key"
    "\<And>a. a \<noteq> x \<Longrightarrow> shape (s_heap l') a = shape (s_heap l) a"
    "\<And>a. a \<in> set (us @ vs) \<Longrightarrow> nkey (s_heap l) a \<noteq> Some key"
  shows "smap l' (us @ vs) = (smap l (us @ x # vs))(key := None)"
proof -
  let ?P = "\<lambda>h a. (the (nkey h a), a)"
  have dist: "distinct (us @ x # vs)"
    using sl_ok_distinct [OF assms(1)] .
  have sh: "shape (s_heap l') a = shape (s_heap l) a" if "a \<in> set us \<union> set vs" for a
    using that dist by (intro assms(3)) auto
  have eq: "map (?P (s_heap l')) us = map (?P (s_heap l)) us"
    "map (?P (s_heap l')) vs = map (?P (s_heap l)) vs"
    using sh by (simp_all add: nkey_def)
  have "key \<noteq> the (nkey (s_heap l) a)" if "a \<in> set (us @ vs)" for a
    using sl_ok_node [OF assms(1), of a] assms(4) [OF that] that by (auto elim!: node_okD)
  then have "key \<notin> (\<lambda>a. the (nkey (s_heap l) a)) ` set us" "key \<notin> (\<lambda>a. the (nkey (s_heap l) a)) ` set vs"
    by auto
  then have "map_of (map (?P (s_heap l)) us) key = None" "map_of (map (?P (s_heap l)) vs) key = None"
    by (simp_all add: map_of_eq_None_iff image_image)
  moreover have "smap l' (us @ vs) = map_of (map (?P (s_heap l)) us @ map (?P (s_heap l)) vs)"
    by (simp only: smap_def map_append eq)
  moreover have "smap l (us @ x # vs) = map_of (map (?P (s_heap l)) us @ (key, x) # map (?P (s_heap l)) vs)"
    using assms(2) by (simp add: smap_def)
  ultimately show ?thesis
    by (auto simp: map_add_def fun_eq_iff split: option.splits)
qed

lemma skiplist_delete_ok:
  assumes ok: "sl_ok l xs" and g: "good_key l xs key"
  obtains (absent) "smap l xs key = None" "skiplist_delete l key = Some (- XFIREDB_ERR, l)"
    | (deleted) x l' xs' where "smap l xs key = Some x"
      "skiplist_delete l key = Some (- XFIREDB_OK, l')" "sl_ok l' xs'" "set xs' = set xs - {x}"
      "smap l' xs' = (smap l xs)(key := None)" "Suc (length xs') = length xs"
      "\<And>a. a \<noteq> x \<Longrightarrow> shape (s_heap l') a = shape (s_heap l) a"
proof -
  let ?h = "s_heap l" let ?hv = "key_hash key"
  obtain us vs where sp: "split_at l xs ?hv us vs"
    using split_exists [OF ok] by blast
  then have xs: "xs = us @ vs"
    unfolding split_at_def by blast
  let ?p = "pred_at ?h us" let ?b = "hd (lvl ?h 1 vs @ [HEADER])"
  let ?ups = "map ?p [1..<Suc (s_level l)]"
  have lev: "1 \<le> s_level l" "s_level l \<le> 6"
    using ok by (simp_all add: sl_ok_def)
  have d: "descend (advance_del ?h ?hv key) (s_level l) HEADER = Some (?p 1, ?ups)"
    by (rule descend_advance_del [OF sp g])
  have f: "fwd ?h (?p 1) 1 = Some ?b"
    by (rule fwd_pred [OF sp]) simp_all
  have l1: "lvl ?h 1 vs = vs"
    using lvl_1 [OF ok] xs by auto
  obtain n where n: "?h ?b = Some n" "s_key n = nkey ?h ?b" "s_hash n = nhash ?h ?b"
    using shape_first [OF sp, of 1] by (auto simp: shape_Some_iff)
  show thesis
  proof (rule good_key_cases [OF sp g])
    assume a: "smap l xs key = None" "vs \<noteq> [] \<Longrightarrow> nhash ?h (hd vs) \<noteq> ?hv"
    have "nhash ?h HEADER = SKIPLIST_MAX_SIZE"
      using ok by (simp add: sl_ok_def nhash_def)
    then have "nhash ?h ?b \<noteq> ?hv"
      using a(2) l1 g by (cases vs) (auto simp: good_key_def)
    then show thesis
      using a(1) d f n
      by (intro absent) (simp_all add: skiplist_delete_def key_hash_def [symmetric] Let_def del: upt_Suc)
  next
    fix x vs' assume x: "vs = x # vs'" "nkey ?h x = Some key" "nhash ?h x = ?hv" "smap l xs key = Some x"
    have b: "?b = x"
      using l1 x(1) by simp
    have xin: "x \<in> set xs"
      using xs x(1) by simp
    have xne: "x \<noteq> HEADER" "x \<noteq> NULL" "x \<notin> set us" "x \<notin> set vs'"
      using ok xs x(1) sl_ok_distinct [OF ok] by (auto simp: sl_ok_def)
    define m where "m = nlen ?h x - 1"
    have m: "1 \<le> m" "m \<le> s_level l" "nlen ?h x = Suc m"
      using sl_ok_nlen [OF ok xin] unfolding m_def by arith+
    have up: "?ups ! k = ?p (Suc k)" if "k < s_level l" for k
      using that by (simp del: upt_Suc)
    have pn: "?p j \<noteq> x" for j
      using pred_at_mem [of ?h us j] xne by (auto simp: set_lvl)
    have fp: "fwd ?h (?p j) j = Some (if j < nlen ?h x then x else hd (lvl ?h j vs' @ [HEADER]))"
      if "1 \<le> j" "j \<le> 6" for j
      using fwd_pred [OF sp that] x(1) by (simp add: lvl_Cons)
    have other: "hd (lvl ?h j vs' @ [HEADER]) \<noteq> x" for j
      using xne set_lvl [of ?h j vs'] by (cases "lvl ?h j vs'") auto
    have fx: "fwd ?h x j \<noteq> None" if "j \<le> m" for j
      unfolding fwd_defined using that m(3) sl_ok_node [OF ok xin] by (auto elim!: node_okD)
    obtain h1 where h1: "unlink_levels x 1 ?ups ?h = Some h1" "shape h1 = shape ?h"
      "\<And>a j. fwd h1 a j = (if 1 \<le> j \<and> j < 1 + m \<and> a = ?ups ! (j - 1) then fwd ?h x j else fwd ?h a j)"
    proof (rule unlink_levels_ok [of x m ?ups ?h 1])
      show "x \<notin> set (take m ?ups)"
      proof -
        have "x \<notin> ?p ` set [1..<Suc (s_level l)]"
          using pn by (metis imageE)
        then show ?thesis
          by (auto simp del: upt_Suc set_upt dest: in_set_takeD)
      qed
      show "m \<le> length ?ups"
        using m by (simp del: upt_Suc)
      show "fwd ?h (?ups ! k) (1 + k) = Some x" if "k < m" for k
        using that up [of k] fp [of "Suc k"] m lev by (simp del: upt_Suc)
      show "fwd ?h x (1 + k) \<noteq> None" if "k < m" for k
        using fx [of "Suc k"] that by simp
      show "fwd ?h (?ups ! m) (1 + m) \<noteq> None \<and> fwd ?h (?ups ! m) (1 + m) \<noteq> Some x" if "m < length ?ups"
        using that up [of m] fp [of "Suc m"] m lev other [of "Suc m"] by (simp del: upt_Suc)
    qed blast
    obtain n1 where n1: "h1 x = Some n1"
      using h1(2) n b by (metis shape_Some_iff shape_first [OF sp] not_None_eq)
    let ?h2 = "skiplist_node_destroy x h1"
    have sh: "shape ?h2 a = shape ?h a" if "a \<noteq> x" for a
      using destroy_sel(1) [where h = h1 and x = x, OF n1 xne(2)] that h1(2) by simp
    have fw: "fwd ?h2 a i = (if i < nlen ?h x \<and> a = ?p i then fwd ?h x i else fwd ?h a i)"
      if "a \<noteq> x" "1 \<le> i" for a i
      using destroy_sel(2) [where h = h1 and x = x, OF n1 xne(2)] that h1(3) [of a i] up [of "i - 1"] m
      by (cases "i \<le> m") (simp_all del: upt_Suc)
    obtain lev' where lev': "shrink_level ?h2 (s_level l) = Some lev'"
        "sl_ok \<lparr>s_heap = ?h2, s_level = lev', s_size = s_size l - 1\<rparr> (us @ vs')" (is "sl_ok ?l _")
      using delete_result_ok [OF sp [unfolded x(1)] sh fw] by blast
    note lev'(2)
    moreover have "smap ?l (us @ vs') = (smap l xs)(key := None)"
      unfolding xs x(1)
    proof (rule smap_delete)
      show "nkey ?h a \<noteq> Some key" if a: "a \<in> set (us @ vs')" for a
      proof
        assume "nkey ?h a = Some key"
        then have "nhash ?h a = nhash ?h x"
          using sl_ok_node [OF ok, of a] a xs x by (auto elim!: node_okD)
        then show False
          using a ok xs x(1) by (auto simp: sl_ok_def sorted_wrt_append)
      qed
    qed (use ok xs x sh in simp_all)
    moreover have "skiplist_delete l key = Some (- XFIREDB_OK, ?l)"
      using d f n b x h1(1) lev'(1)
      by (simp add: skiplist_delete_def key_hash_def [symmetric] Let_def atomic_defs del: upt_Suc)
    moreover have "set (us @ vs') = set xs - {x}" "Suc (length (us @ vs')) = length xs"
      using xs x(1) xne by auto
    ultimately show thesis
      using x(4) sh by (intro deleted [of x ?l "us @ vs'"]) simp_all
  qed
qed

section \<open>Creation and iteration\<close>

lemma skiplist_init_ok: "sl_ok (skiplist_init h) []" "smap (skiplist_init h) [] = Map.empty"
proof -
  let ?n = "\<lparr>s_key = None, s_hash = SKIPLIST_MAX_SIZE, s_forward = replicate 7 HEADER\<rparr>"
  have eq: "s_heap (skiplist_init h) = h(HEADER \<mapsto> ?n)"
    by (simp add: skiplist_init_def raw_skiplist_init_def SKIPLIST_MAX_LEVELS_def)
  have "fwd (h(HEADER \<mapsto> ?n)) HEADER i = Some HEADER" if "i \<le> 6" for i
    using that by (simp add: fwd_def)
  then show "sl_ok (skiplist_init h) []"
    unfolding sl_ok_def eq
    by (simp add: shape_def chain_def skiplist_init_def raw_skiplist_init_def)
  show "smap (skiplist_init h) [] = Map.empty"
    by (simp add: smap_def)
qed

text \<open>The nodes that a loop over an iterator sees, with a bound on the number of calls.\<close>

primrec sl_iterate :: "skiplist \<Rightarrow> nat \<Rightarrow> skiplist_iterator \<Rightarrow> addr list option" where
  "sl_iterate l 0 it = None"
| "sl_iterate l (Suc n) it =
     (case skiplist_iterator_next l it of
        None \<Rightarrow> None
      | Some (a, it) \<Rightarrow>
          if a = NULL then Some [] else map_option (\<lambda>as. a # as) (sl_iterate l n it))"

lemma sl_iterate_chain:
  assumes "chain (\<lambda>a. fwd (s_heap l) a 1) (it_current it # ys @ [HEADER])"
    and "HEADER \<notin> set ys" "NULL \<notin> set ys"
  shows "sl_iterate l (Suc (length ys)) it = Some ys"
  using assms
proof (induction ys arbitrary: it)
  case Nil
  then show ?case
    by (simp add: chain_def skiplist_iterator_next_def xdb_defs)
next
  case (Cons y ys)
  let ?it = "\<lparr>it_prev = it_current it, it_current = y\<rparr>"
  have "skiplist_iterator_next l it = Some (y, ?it)"
    using Cons.prems by (auto simp: chain_def skiplist_iterator_next_def)
  moreover have "sl_iterate l (Suc (length ys)) ?it = Some ys"
    using Cons.prems by (intro Cons.IH) (auto simp: chain_def)
  ultimately show ?case
    using Cons.prems by simp
qed

lemma sl_chain_1: "sl_ok l xs \<Longrightarrow> chain (\<lambda>a. fwd (s_heap l) a 1) (HEADER # xs @ [HEADER])"
  using lvl_1 [of l xs xs] by (auto simp: sl_ok_def dest: bspec [of _ _ 1])

section \<open>Interface\<close>

text \<open>
  What hash maps and sets rely on: an index from keys to nodes. \<open>rep s ns\<close> says that the nodes
  of the index are \<open>ns\<close>, \<open>mp\<close> is the map it stands for, \<open>good\<close> the condition on keys and
  \<open>free\<close> on nodes to be inserted.
\<close>

locale node_index =
  fixes rep :: "'s \<Rightarrow> 'n list \<Rightarrow> bool" and mp :: "'s \<Rightarrow> 'n list \<Rightarrow> 'k \<rightharpoonup> 'n"
    and good :: "'s \<Rightarrow> 'n list \<Rightarrow> 'k \<Rightarrow> bool" and usable :: "'n \<Rightarrow> bool" and nul :: 'n
    and search :: "'s \<Rightarrow> 'k \<Rightarrow> 'n option"
    and ins :: "'s \<Rightarrow> 'k \<Rightarrow> 'n \<Rightarrow> (int \<times> 's) option"
    and del :: "'s \<Rightarrow> 'k \<Rightarrow> (int \<times> 's) option"
  assumes search_law: "rep s ns \<Longrightarrow> good s ns k \<Longrightarrow>
      search s k = Some (case mp s ns k of None \<Rightarrow> nul | Some n \<Rightarrow> n)"
    and ins_new: "rep s ns \<Longrightarrow> good s ns k \<Longrightarrow> usable n \<Longrightarrow> n \<notin> set ns \<Longrightarrow> mp s ns k = None \<Longrightarrow>
      \<exists>s' ns'. ins s k n = Some (0, s') \<and> rep s' ns' \<and> set ns' = insert n (set ns) \<and>
        mp s' ns' = (mp s ns)(k \<mapsto> n) \<and> length ns' = Suc (length ns)"
    and ins_old: "rep s ns \<Longrightarrow> good s ns k \<Longrightarrow> usable n \<Longrightarrow> n \<notin> set ns \<Longrightarrow> mp s ns k \<noteq> None \<Longrightarrow>
      ins s k n = Some (0, s)"
    and del_hit: "rep s ns \<Longrightarrow> good s ns k \<Longrightarrow> mp s ns k = Some n \<Longrightarrow>
      \<exists>s' ns'. del s k = Some (0, s') \<and> rep s' ns' \<and> set ns' = set ns - {n} \<and>
        mp s' ns' = (mp s ns)(k := None) \<and> Suc (length ns') = length ns"
    and del_miss: "rep s ns \<Longrightarrow> good s ns k \<Longrightarrow> mp s ns k = None \<Longrightarrow> del s k = Some (-1, s)"
    and mp_ran: "rep s ns \<Longrightarrow> mp s ns k = Some n \<Longrightarrow> n \<in> set ns \<and> n \<noteq> nul"
    and mp_good: "rep s ns \<Longrightarrow> mp s ns k = Some n \<Longrightarrow> good s ns k"
begin

lemma search_present: "rep s ns \<Longrightarrow> good s ns k \<Longrightarrow> (search s k = Some nul) = (mp s ns k = None)"
  using search_law mp_ran by (fastforce split: option.splits)

lemma ins_del:
  assumes "rep s ns" "good s ns k" "usable n" "n \<notin> set ns" "mp s ns k = None"
  shows "\<exists>s1 s2 ns2. ins s k n = Some (0, s1) \<and> search s1 k = Some n \<and> del s1 k = Some (0, s2) \<and>
    rep s2 ns2 \<and> mp s2 ns2 = mp s ns"
proof -
  obtain s1 ns1 where 1: "ins s k n = Some (0, s1)" "rep s1 ns1" "mp s1 ns1 = (mp s ns)(k \<mapsto> n)"
    using ins_new [OF assms(1-5)] by blast
  have g: "good s1 ns1 k"
    using mp_good [OF 1(2), of k n] 1(3) by simp
  obtain s2 ns2 where 2: "del s1 k = Some (0, s2)" "rep s2 ns2" "mp s2 ns2 = (mp s1 ns1)(k := None)"
    using del_hit [OF 1(2) g, of n] 1(3) by auto
  have "mp s2 ns2 = mp s ns"
    using 2(3) 1(3) assms(5) by (simp add: fun_upd_idem)
  then show ?thesis
    using 1 2 search_law [OF 1(2) g] by auto
qed

end

lemma smap_ran: "sl_ok l xs \<Longrightarrow> smap l xs k = Some n \<Longrightarrow> n \<in> set xs \<and> n \<noteq> NULL"
  by (auto simp: smap_def sl_ok_def dest!: map_of_SomeD)

lemma smap_good:
  assumes "sl_ok l xs" "smap l xs k = Some n"
  shows "good_key l xs k"
proof -
  let ?h = "s_heap l"
  have n: "n \<in> set xs" "the (nkey ?h n) = k"
    using assms(2) by (auto simp: smap_def dest!: map_of_SomeD)
  then have k: "nkey ?h n = Some k" "nhash ?h n = key_hash k" "nhash ?h n < SKIPLIST_MAX_SIZE"
    using sl_ok_node [OF assms(1) n(1)] by (auto elim!: node_okD)
  have "distinct (map (nhash ?h) xs)"
    using assms(1) unfolding sl_ok_def by (metis strict_sorted_iff)
  then have "a = n" if "a \<in> set xs" "nhash ?h a = nhash ?h n" for a
    using that n(1) by (auto simp: distinct_map dest: inj_onD)
  then show ?thesis
    using k by (auto simp: good_key_def)
qed

lemma skiplist_insert_new:
  assumes "sl_ok l xs" "good_key l xs k" "n \<noteq> HEADER \<and> n \<noteq> NULL" "n \<notin> set xs" "smap l xs k = None"
  shows "\<exists>l' xs'. skiplist_insert coins l k n = Some (0, l') \<and> sl_ok l' xs' \<and>
    set xs' = insert n (set xs) \<and> smap l' xs' = (smap l xs)(k \<mapsto> n) \<and> length xs' = Suc (length xs)"
  by (rule skiplist_insert_ok [OF assms(1,2,4), of coins]) (use assms(3,5) in auto)

lemma skiplist_insert_old:
  assumes "sl_ok l xs" "good_key l xs k" "n \<noteq> HEADER \<and> n \<noteq> NULL" "n \<notin> set xs" "smap l xs k \<noteq> None"
  shows "skiplist_insert coins l k n = Some (0, l)"
  by (rule skiplist_insert_ok [OF assms(1,2,4), of coins]) (use assms(3,5) in auto)

lemma skiplist_delete_hit:
  assumes "sl_ok l xs" "good_key l xs k" "smap l xs k = Some n"
  shows "\<exists>l' xs'. skiplist_delete l k = Some (0, l') \<and> sl_ok l' xs' \<and> set xs' = set xs - {n} \<and>
    smap l' xs' = (smap l xs)(k := None) \<and> Suc (length xs') = length xs"
  by (rule skiplist_delete_ok [OF assms(1,2)]) (use assms(3) in auto)

lemma skiplist_delete_miss:
  assumes "sl_ok l xs" "good_key l xs k" "smap l xs k = None"
  shows "skiplist_delete l k = Some (-1, l)"
  by (rule skiplist_delete_ok [OF assms(1,2)]) (use assms(3) in auto)

interpretation sk: node_index sl_ok smap good_key "\<lambda>n. n \<noteq> HEADER \<and> n \<noteq> NULL" NULL skiplist_search
    "skiplist_insert coins" skiplist_delete for coins
  by unfold_locales
    (rule skiplist_search_ok skiplist_insert_new skiplist_insert_old skiplist_delete_hit
       skiplist_delete_miss smap_ran smap_good; assumption)+

section \<open>Collisions\<close>

text \<open>The loop over colliding nodes ends in \<^verbatim>\<open>strcmp\<close> on the null key of the header.\<close>

lemma skip_keys_crash:
  assumes "chain (\<lambda>a. fwd h a 1) (a # ys @ [HEADER])" "nkey h HEADER = None"
    and "\<And>y. y \<in> set ys \<Longrightarrow> \<exists>k. nkey h y = Some k \<and> k \<noteq> key"
  shows "skip_keys h key a = None"
  using assms
proof (induction ys arbitrary: a)
  case Nil
  then show ?case
    by (subst skip_keys.simps)
      (auto simp: chain_def nkey_def shape_def split: option.splits)
next
  case (Cons y ys)
  have "skip_keys h key y = None"
    using Cons.prems by (intro Cons.IH) (auto simp: chain_def)
  moreover have "fwd h a 1 = Some y"
    using Cons.prems(1) by (simp add: chain_def)
  moreover obtain n where "h y = Some n" "s_key n \<noteq> None" "s_key n \<noteq> Some key"
    using Cons.prems(3) [of y] by (auto simp: nkey_def shape_def Option.bind_eq_Some_conv)
  ultimately show ?case
    by (subst skip_keys.simps) auto
qed

text \<open>The hash compared after the descent belongs to the first node that is not smaller.\<close>

lemma first_hash_hit:
  assumes sp: "split_at l xs hv us vs"
    and hit: "(\<exists>x \<in> set xs. nhash (s_heap l) x = hv) \<or> hv = SKIPLIST_MAX_SIZE"
  shows "nhash (s_heap l) (hd (vs @ [HEADER])) = hv"
proof -
  have ok: "sl_ok l xs" and xs: "xs = us @ vs"
    using sp unfolding split_at_def by blast+
  have hd: "nhash (s_heap l) HEADER = SKIPLIST_MAX_SIZE"
    using ok by (simp add: sl_ok_def nhash_def)
  have lt: "nhash (s_heap l) a < SKIPLIST_MAX_SIZE" if "a \<in> set xs" for a
    using sl_ok_node [OF ok that] by (auto elim!: node_okD)
  show ?thesis
  proof (cases vs)
    case Nil
    then show ?thesis
      using hit hd sp by (auto simp: split_at_def)
  next
    case (Cons y ys)
    have "hv \<le> nhash (s_heap l) y"
      using sp Cons by (simp add: split_at_def)
    moreover have "nhash (s_heap l) y < SKIPLIST_MAX_SIZE"
      using lt xs Cons by simp
    ultimately obtain x where x: "x \<in> set xs" "nhash (s_heap l) x = hv"
      using hit by (auto simp: not_less)
    then have "x \<in> set (y # ys)"
      using sp xs Cons by (auto simp: split_at_def)
    then have "nhash (s_heap l) y \<le> hv"
      using x(2) ok xs Cons by (auto simp: sl_ok_def sorted_wrt_append)
    then show ?thesis
      using \<open>hv \<le> nhash (s_heap l) y\<close> Cons by simp
  qed
qed

lemma search_collision:
  assumes ok: "sl_ok l xs" and absent: "smap l xs key = None"
    and hit: "(\<exists>x \<in> set xs. nhash (s_heap l) x = key_hash key) \<or> key_hash key = SKIPLIST_MAX_SIZE"
  shows "skiplist_search l key = None"
proof -
  let ?h = "s_heap l"
  obtain us vs where sp: "split_at l xs (key_hash key) us vs"
    using split_exists [OF ok] by blast
  then have xs: "xs = us @ vs"
    unfolding split_at_def by blast
  have l1: "lvl ?h 1 vs = vs"
    using lvl_1 [OF ok] xs by auto
  let ?p = "pred_at ?h us 1" let ?b = "hd (vs @ [HEADER])"
  have f: "fwd ?h ?p 1 = Some ?b"
    using fwd_pred [OF sp, of 1] l1 by simp
  have "nhash ?h ?b = key_hash key"
    by (rule first_hash_hit [OF sp hit])
  then have nh: "node_hash ?h ?p 1 = Some (key_hash key)"
    using f shape_first [OF sp, of 1] l1 by (auto simp: node_hash_def shape_Some_iff)
  have "chain (\<lambda>a. fwd ?h a 1) ((HEADER # lvl ?h 1 us) @ vs @ [HEADER])"
    using split_chain [OF sp, of 1] l1 by simp
  then have "chain (\<lambda>a. fwd ?h a 1) (vs @ [HEADER])"
    unfolding chain_append [of _ "HEADER # lvl ?h 1 us"] by blast
  then have c: "chain (\<lambda>a. fwd ?h a 1) (?p # vs @ [HEADER])"
    using f by (simp add: chain_Cons)
  have "skip_keys ?h key ?p = None"
  proof (rule skip_keys_crash [OF c])
    show "nkey ?h HEADER = None"
      using ok by (simp add: sl_ok_def nkey_def)
    show "\<exists>k. nkey ?h y = Some k \<and> k \<noteq> key" if "y \<in> set vs" for y
    proof -
      have y: "y \<in> set xs"
        using that xs by simp
      have "the (nkey ?h y) \<noteq> key"
        using absent y by (force simp: smap_def map_of_eq_None_iff image_image)
      then show ?thesis
        using sl_ok_node [OF ok y] by (auto elim!: node_okD)
    qed
  qed
  then show ?thesis
    using descend_advance [OF sp] nh
    by (simp add: skiplist_search_def key_hash_def [symmetric] Let_def del: upt_Suc)
qed

section \<open>Properties\<close>

text \<open>A list with one entry of height 3, for the witnesses.\<close>

definition sample_sl :: skiplist where
  "sample_sl =
     (case skiplist_insert (\<lambda>n. n < 3) (skiplist_init Map.empty) ''one'' 10 of
        None \<Rightarrow> skiplist_init Map.empty
      | Some (_, l) \<Rightarrow> l)"

lemma sample_sl_facts:
  "sl_ok sample_sl [10]" "smap sample_sl [10] = [''one'' \<mapsto> 10]" "good_key sample_sl [10] ''one''"
  "good_key sample_sl [10] ''two''"
proof -
  have g: "good_key (skiplist_init Map.empty) [] ''one''"
    by code_simp
  have u: "(10 :: addr) \<noteq> HEADER \<and> (10 :: addr) \<noteq> NULL" "(10 :: addr) \<notin> set []"
    by (simp_all add: xdb_defs)
  have e: "smap (skiplist_init Map.empty) [] ''one'' = None"
    by (simp add: skiplist_init_ok(2))
  obtain l xs where l: "skiplist_insert (\<lambda>n. n < 3) (skiplist_init Map.empty) ''one'' 10 = Some (0, l)"
      "sl_ok l xs" "set xs = insert 10 (set [])" "smap l xs = (smap (skiplist_init Map.empty) [])(''one'' \<mapsto> 10)"
      "length xs = Suc (length ([] :: addr list))"
    using sk.ins_new [where coins = "\<lambda>n. n < 3", OF skiplist_init_ok(1) g u e] by blast
  obtain y where "xs = [y]"
    using l(5) by (cases xs) simp_all
  then have "xs = [10]"
    using l(3) by simp
  moreover have "sample_sl = l"
    using l(1) by (simp add: sample_sl_def)
  ultimately show "sl_ok sample_sl [10]" "smap sample_sl [10] = [''one'' \<mapsto> 10]"
    using l skiplist_init_ok(2) by simp_all
  show "good_key sample_sl [10] ''one''" "good_key sample_sl [10] ''two''"
    by code_simp+
qed

text \<open>
  C10: a search for a key without collision returns the node of the key, or the null pointer
  exactly when the key is not in the list.
\<close>

theorem skiplist_search_refines:
  assumes "sl_ok l xs" "good_key l xs key"
  shows "skiplist_search l key = Some (case smap l xs key of None \<Rightarrow> NULL | Some a \<Rightarrow> a) \<and>
    (skiplist_search l key = Some NULL \<longleftrightarrow> smap l xs key = None)"
  using sk.search_law [OF assms] sk.search_present [OF assms] by blast

theorem skiplist_search_refines_witness:
  "skiplist_search sample_sl ''one'' = Some (case smap sample_sl [10] ''one'' of None \<Rightarrow> NULL | Some a \<Rightarrow> a) \<and>
    (skiplist_search sample_sl ''one'' = Some NULL \<longleftrightarrow> smap sample_sl [10] ''one'' = None)"
  by (rule skiplist_search_refines) (rule sample_sl_facts)+

text \<open>
  C8: inserting a node under a new key without collision adds exactly that binding and keeps
  the list well formed on every level, for every outcome of the random level; an insertion
  under a present key changes nothing (and also reports success).
\<close>

theorem skiplist_insert_refines:
  assumes "sl_ok l xs" "good_key l xs key" "node \<noteq> HEADER \<and> node \<noteq> NULL" "node \<notin> set xs"
  shows "\<exists>l' xs'. skiplist_insert coins l key node = Some (- XFIREDB_OK, l') \<and> sl_ok l' xs' \<and>
    smap l' xs' = (if smap l xs key = None then (smap l xs)(key \<mapsto> node) else smap l xs) \<and>
    set xs' = (if smap l xs key = None then insert node (set xs) else set xs)"
  using sk.ins_new [OF assms, of coins] sk.ins_old [OF assms, of coins] assms(1)
  by (cases "smap l xs key") auto

theorem skiplist_insert_refines_witness:
  "\<exists>l' xs'. skiplist_insert (\<lambda>_. True) sample_sl ''two'' 11 = Some (- XFIREDB_OK, l') \<and> sl_ok l' xs' \<and>
    smap l' xs' = (if smap sample_sl [10] ''two'' = None then (smap sample_sl [10])(''two'' \<mapsto> 11)
      else smap sample_sl [10]) \<and>
    set xs' = (if smap sample_sl [10] ''two'' = None then insert 11 (set [10]) else set [10])"
  by (rule skiplist_insert_refines [OF sample_sl_facts(1,4)]) (simp_all add: xdb_defs)

text \<open>
  C9: deleting a key without collision removes exactly its binding and keeps the list well
  formed, including the current level; deleting an absent key reports an error and changes
  nothing.
\<close>

theorem skiplist_delete_refines:
  assumes "sl_ok l xs" "good_key l xs key"
  shows "\<exists>l' xs'. skiplist_delete l key =
      Some (if smap l xs key = None then - XFIREDB_ERR else - XFIREDB_OK, l') \<and> sl_ok l' xs' \<and>
    smap l' xs' = (smap l xs)(key := None)"
proof (cases "smap l xs key")
  case None
  then show ?thesis
    using sk.del_miss [OF assms None] assms(1) by (auto simp: fun_upd_idem)
next
  case (Some n)
  then show ?thesis
    using sk.del_hit [OF assms Some] by auto
qed

theorem skiplist_delete_refines_witness:
  "\<exists>l' xs'. skiplist_delete sample_sl ''one'' =
      Some (if smap sample_sl [10] ''one'' = None then - XFIREDB_ERR else - XFIREDB_OK, l') \<and> sl_ok l' xs' \<and>
    smap l' xs' = (smap sample_sl [10])(''one'' := None)"
  by (rule skiplist_delete_refines [OF sample_sl_facts(1,3)])

text \<open>
  C39: a search for an absent key whose hash collides with a stored one, or equals the value
  that marks the header, ends in a comparison with the null key of the header: the program
  crashes.
\<close>

theorem skiplist_search_collision_crashes:
  assumes "sl_ok l xs" "smap l xs key = None"
    and "(\<exists>x \<in> set xs. nhash (s_heap l) x = key_hash key) \<or> key_hash key = SKIPLIST_MAX_SIZE"
  shows "skiplist_search l key = None"
  using assms by (rule search_collision)

theorem skiplist_search_collision_crashes_witness:
  "skiplist_search sample_sl ''aad5dfxz'' = None"
proof (rule skiplist_search_collision_crashes [OF sample_sl_facts(1)])
  show "smap sample_sl [10] ''aad5dfxz'' = None"
    by (simp add: sample_sl_facts(2))
  have "key_hash ''aad5dfxz'' = SKIPLIST_MAX_SIZE"
    by code_simp
  then show "(\<exists>x \<in> set [10]. nhash (s_heap sample_sl) x = key_hash ''aad5dfxz'') \<or>
      key_hash ''aad5dfxz'' = SKIPLIST_MAX_SIZE"
    by simp
qed

text \<open>
  A loop over a new iterator of an unchanged list ends and visits every node exactly once,
  in the order of the hashes.
\<close>

theorem skiplist_iterator_visits_all:
  assumes "sl_ok l xs"
  shows "sl_iterate l (Suc (length xs)) (skiplist_iterator_new l) = Some xs \<and> distinct xs"
  using sl_iterate_chain [of l "skiplist_iterator_new l" xs] sl_chain_1 [OF assms] sl_ok_distinct [OF assms] assms
  by (simp add: skiplist_iterator_new_def sl_ok_def)

theorem skiplist_iterator_visits_all_witness:
  "sl_iterate sample_sl (Suc (length [10 :: addr])) (skiplist_iterator_new sample_sl) = Some [10] \<and>
   distinct [10 :: addr]"
  by (rule skiplist_iterator_visits_all [OF sample_sl_facts(1)])

end
