(* ===== verification/SkiplistIter.thy ===== *)
theory SkiplistIter
  imports Skiplist
begin

text \<open>
  What hash maps and sets need beyond the interface of the skip list: the number of nodes is the
  number of keys, a released node that is not linked does not matter, and a loop that deletes
  the node it has just reached always stands at the header.
\<close>

section \<open>Nodes and keys\<close>

lemma sl_inj_hash: "sl_ok l xs \<Longrightarrow> inj_on (nhash (s_heap l)) (set xs)"
  unfolding sl_ok_def by (metis distinct_map strict_sorted_iff)

lemma sl_node_key:
  assumes "sl_ok l xs" "a \<in> set xs"
  obtains k where "nkey (s_heap l) a = Some k" "nhash (s_heap l) a = key_hash k"
  using sl_ok_node [OF assms] by (auto elim!: node_okD)

lemma sl_inj_key:
  assumes "sl_ok l xs"
  shows "inj_on (\<lambda>a. the (nkey (s_heap l) a)) (set xs)"
proof (rule inj_onI)
  fix a b assume ab: "a \<in> set xs" "b \<in> set xs" "the (nkey (s_heap l) a) = the (nkey (s_heap l) b)"
  then have "nhash (s_heap l) a = nhash (s_heap l) b"
    using sl_node_key [OF assms ab(1)] sl_node_key [OF assms ab(2)] by (metis option.sel)
  then show "a = b"
    using sl_inj_hash [OF assms] ab by (auto dest: inj_onD)
qed

lemma smap_node:
  assumes "sl_ok l xs" "x \<in> set xs" "nkey (s_heap l) x = Some k"
  shows "smap l xs k = Some x"
  unfolding smap_def using assms sl_inj_key [OF assms(1)] sl_ok_distinct [OF assms(1)]
  by (intro map_of_is_SomeI) (auto simp: distinct_map comp_def intro!: image_eqI [of _ _ x])

lemma smap_key:
  assumes "sl_ok l xs" "smap l xs k = Some n"
  shows "nkey (s_heap l) n = Some k"
proof -
  have n: "n \<in> set xs" "the (nkey (s_heap l) n) = k"
    using assms(2) by (auto simp: smap_def dest!: map_of_SomeD)
  then show ?thesis
    using sl_node_key [OF assms(1) n(1)] by (metis option.sel)
qed

lemma smap_dom: "sl_ok l xs \<Longrightarrow> dom (smap l xs) = (\<lambda>a. the (nkey (s_heap l) a)) ` set xs"
  by (simp add: smap_def dom_map_of_conv_image_fst image_image)

lemma smap_card: "sl_ok l xs \<Longrightarrow> card (dom (smap l xs)) = length xs"
  using card_image [OF sl_inj_key [of l xs]] distinct_card [OF sl_ok_distinct [of l xs]] by (simp add: smap_dom)

lemma smap_ran_eq: "sl_ok l xs \<Longrightarrow> ran (smap l xs) = set xs"
proof
  show "ran (smap l xs) \<subseteq> set xs" if "sl_ok l xs"
    using smap_ran [OF that] by (auto simp: ran_def)
  show "set xs \<subseteq> ran (smap l xs)" if ok: "sl_ok l xs"
  proof
    fix a assume a: "a \<in> set xs"
    then show "a \<in> ran (smap l xs)"
      using sl_node_key [OF ok a] smap_node [OF ok a] by (metis ranI)
  qed
qed

text \<open>A key that collides with no other key of the map is good.\<close>

lemma good_key_dom:
  assumes ok: "sl_ok l xs" and k: "key_hash k \<noteq> SKIPLIST_MAX_SIZE"
    "\<And>k'. k' \<in> dom (smap l xs) \<Longrightarrow> key_hash k' = key_hash k \<Longrightarrow> k' = k"
  shows "good_key l xs k"
proof -
  have "nkey (s_heap l) a = Some k" if a: "a \<in> set xs" "nhash (s_heap l) a = key_hash k" for a
  proof -
    obtain k' where k': "nkey (s_heap l) a = Some k'" "nhash (s_heap l) a = key_hash k'"
      using sl_node_key [OF ok a(1)] .
    then show ?thesis
      using k(2) [of k'] smap_node [OF ok a(1) k'(1)] a(2) by auto
  qed
  then show ?thesis
    using k(1) by (auto simp: good_key_def)
qed

section \<open>Key fields\<close>

text \<open>
  \<open>keyed l xs keys\<close>: the field \<^verbatim>\<open>key\<close> of every node is the key under which the skip list holds it.
\<close>

definition keyed :: "skiplist \<Rightarrow> addr list \<Rightarrow> (addr \<rightharpoonup> string) \<Rightarrow> bool" where
  "keyed l xs keys \<longleftrightarrow> (\<forall>k n. smap l xs k = Some n \<longrightarrow> keys n = Some k)"

lemma keyed_insert:
  "keyed l xs keys \<Longrightarrow> sl_ok l xs \<Longrightarrow> n \<notin> set xs \<Longrightarrow> smap l' xs' = (smap l xs)(k \<mapsto> n) \<Longrightarrow> keyed l' xs' (keys(n \<mapsto> k))"
  using smap_ran by (auto simp: keyed_def)

lemma keyed_remove: "keyed l xs keys \<Longrightarrow> smap l' xs' = (smap l xs)(k := None) \<Longrightarrow> keyed l' xs' keys"
  by (auto simp: keyed_def)

lemma keyed_node:
  assumes "sl_ok l xs" "keyed l xs keys" "y \<in> set xs"
  shows "keys y = Some (the (nkey (s_heap l) y))"
proof -
  obtain k where "nkey (s_heap l) y = Some k"
    using sl_node_key [OF assms(1,3)] .
  then show ?thesis
    using smap_node [OF assms(1,3)] assms(2) by (simp add: keyed_def)
qed

section \<open>Released nodes\<close>

lemma destroy_other:
  assumes "a \<noteq> n"
  shows "shape (skiplist_node_destroy n h) a = shape h a" "fwd (skiplist_node_destroy n h) a j = fwd h a j"
  using assms by (auto simp: skiplist_node_destroy_def shape_def fwd_def split: option.splits)

lemma sl_ok_destroy:
  assumes "sl_ok l xs" "n \<notin> set xs" "n \<noteq> HEADER"
  shows "sl_ok (l\<lparr>s_heap := skiplist_node_destroy n (s_heap l)\<rparr>) xs"
    "smap (l\<lparr>s_heap := skiplist_node_destroy n (s_heap l)\<rparr>) xs = smap l xs"
proof -
  let ?h = "skiplist_node_destroy n (s_heap l)"
  have ne: "a \<noteq> n" if "a \<in> set xs \<or> a = HEADER" for a
    using that assms(2,3) by auto
  have sh: "shape ?h a = shape (s_heap l) a" if "a \<in> set xs \<or> a = HEADER" for a
    using destroy_other(1) [OF ne [OF that]] .
  have obs: "nkey ?h a = nkey (s_heap l) a" "nhash ?h a = nhash (s_heap l) a"
      "node_ok ?h lev a = node_ok (s_heap l) lev a" if "a \<in> set xs" for a lev
    using sh [of a] that by (simp_all add: nkey_def nhash_def node_ok_def)
  have lv: "lvl ?h i xs = lvl (s_heap l) i xs" for i
    by (rule lvl_shape_cong) (use sh in blast)
  have "chain (\<lambda>a. fwd ?h a i) (HEADER # lvl ?h i xs @ [HEADER])" if "i \<in> {1..6}" for i
    unfolding lv
  proof (rule chain_frame)
    show "chain (\<lambda>a. fwd (s_heap l) a i) (HEADER # lvl (s_heap l) i xs @ [HEADER])"
      using assms(1) that by (simp add: sl_ok_def)
    show "fwd ?h a i = fwd (s_heap l) a i" if "a \<in> set (butlast (HEADER # lvl (s_heap l) i xs @ [HEADER]))" for a
      using destroy_other(2) ne that set_lvl [of "s_heap l" i xs] by (auto dest!: in_set_butlastD)
  qed
  moreover have "map (nhash ?h) xs = map (nhash (s_heap l)) xs"
    using obs(2) by (rule map_cong [OF refl])
  then have "sorted_wrt (<) (map (nhash ?h) xs)"
    using assms(1) by (simp only: sl_ok_def)
  ultimately show "sl_ok (l\<lparr>s_heap := ?h\<rparr>) xs"
    using assms(1) obs(3) sh [of HEADER] by (simp add: sl_ok_def)
  show "smap (l\<lparr>s_heap := ?h\<rparr>) xs = smap l xs"
    using obs(1) by (simp add: smap_def cong: map_cong)
qed

section \<open>Deleting while iterating\<close>

lemma iterator_at_end:
  "sl_ok l [] \<Longrightarrow> it_current it = HEADER \<Longrightarrow>
   skiplist_iterator_next l it = Some (NULL, \<lparr>it_prev = HEADER, it_current = NULL\<rparr>)"
  using sl_chain_1 [of l "[]"] by (simp add: skiplist_iterator_next_def chain_def)

lemma iterator_drop_first:
  assumes ok: "sl_ok l (x # ys)" and it: "it_current it = HEADER"
  obtains k l' xs' where "skiplist_iterator_next l it = Some (x, \<lparr>it_prev = HEADER, it_current = x\<rparr>)"
    "x \<noteq> HEADER" "x \<noteq> NULL" "smap l (x # ys) k = Some x"
    "skiplist_iterator_delete l \<lparr>it_prev = HEADER, it_current = x\<rparr> =
       Some (HEADER, \<lparr>it_prev = HEADER, it_current = HEADER\<rparr>, l')"
    "sl_ok l' xs'" "set xs' = set ys" "x \<notin> set ys" "smap l' xs' = (smap l (x # ys))(k := None)"
    "length xs' = length ys"
proof -
  have x: "x \<noteq> HEADER" "x \<noteq> NULL" "x \<notin> set ys"
    using ok sl_ok_distinct [OF ok] by (auto simp: sl_ok_def)
  have nx: "skiplist_iterator_next l it = Some (x, \<lparr>it_prev = HEADER, it_current = x\<rparr>)"
    using sl_chain_1 [OF ok] it x by (simp add: skiplist_iterator_next_def chain_def)
  obtain k where k: "nkey (s_heap l) x = Some k"
    using sl_node_key [OF ok, of x] by auto
  have sm: "smap l (x # ys) k = Some x"
    using smap_node [OF ok _ k] by simp
  obtain l' xs' where d: "skiplist_delete l k = Some (0, l')" "sl_ok l' xs'" "set xs' = set (x # ys) - {x}"
      "smap l' xs' = (smap l (x # ys))(k := None)" "Suc (length xs') = length (x # ys)"
    using sk.del_hit [OF ok sk.mp_good [OF ok sm] sm] by blast
  have "skiplist_iterator_delete l \<lparr>it_prev = HEADER, it_current = x\<rparr> =
      Some (HEADER, \<lparr>it_prev = HEADER, it_current = HEADER\<rparr>, l')"
    using k d(1) by (auto simp: skiplist_iterator_delete_def nkey_def shape_def Option.bind_eq_Some_conv)
  moreover have "set xs' = set ys"
    using d(3) x(3) by simp
  ultimately show thesis
    using that [OF nx x(1,2) sm] d x(3) by simp
qed

end
