(* ===== verification/Hashmap.thy ===== *)
theory Hashmap
  imports SkiplistIter
begin

text \<open>
  The hash map of \<^verbatim>\<open>storage/hashmap.c\<close>: a skip list, a counter, and the field \<^verbatim>\<open>key\<close> of every
  \<^verbatim>\<open>struct hashmap_node\<close>. The skip list node is the first field of a map node, so both have the
  same address. The proofs use the interface \<open>node_index\<close> of the skip list.
\<close>

section \<open>Model\<close>

record hashmap =
  h_list :: skiplist
  h_num :: atomic_t
  h_key :: "addr \<rightharpoonup> string"

definition hashmap_init :: "sheap \<Rightarrow> hashmap" where
  "hashmap_init h = \<lparr>h_list = skiplist_init h, h_num = 0, h_key = Map.empty\<rparr>"

definition hashmap_size :: "hashmap \<Rightarrow> int" where
  "hashmap_size hm = atomic_get (h_num hm)"

text \<open>\<^verbatim>\<open>xfiredb_free(n->key)\<close> and the destruction of the skip list node.\<close>

definition hashmap_node_destroy :: "addr \<Rightarrow> hashmap \<Rightarrow> hashmap" where
  "hashmap_node_destroy n hm =
     hm\<lparr>h_key := (h_key hm)(n := None),
        h_list := (h_list hm)\<lparr>s_heap := skiplist_node_destroy n (s_heap (h_list hm))\<rparr>\<rparr>"

definition hashmap_add ::
  "(nat \<Rightarrow> bool) \<Rightarrow> hashmap \<Rightarrow> string \<Rightarrow> addr \<Rightarrow> (int \<times> hashmap) option" where
  "hashmap_add coins hm key n =
     (let hm = hm\<lparr>h_key := (h_key hm)(n \<mapsto> key)\<rparr> in
      case skiplist_insert coins (h_list hm) key n of
        None \<Rightarrow> None
      | Some (rc, l) \<Rightarrow>
          if rc = - XFIREDB_OK
          then Some (- XFIREDB_OK, hm\<lparr>h_list := l, h_num := atomic_add (h_num hm) 1\<rparr>)
          else Some (- XFIREDB_ERR, hm\<lparr>h_list := l\<rparr>))"

definition hashmap_remove :: "hashmap \<Rightarrow> string \<Rightarrow> (addr \<times> hashmap) option" where
  "hashmap_remove hm key =
     (case skiplist_search (h_list hm) key of
        None \<Rightarrow> None
      | Some node \<Rightarrow>
          (case skiplist_delete (h_list hm) key of
             None \<Rightarrow> None
           | Some (rc, l) \<Rightarrow>
               if rc = - XFIREDB_OK
               then Some (node, hm\<lparr>h_list := l, h_num := atomic_sub (h_num hm) 1\<rparr>)
               else Some (NULL, hm\<lparr>h_list := l\<rparr>)))"

definition hashmap_find :: "hashmap \<Rightarrow> string \<Rightarrow> addr option" where
  "hashmap_find hm key =
     (case skiplist_search (h_list hm) key of
        None \<Rightarrow> None
      | Some node \<Rightarrow> if node = NULL then Some NULL else Some node)"

definition hashmap_new_iterator :: "hashmap \<Rightarrow> skiplist_iterator" where
  "hashmap_new_iterator hm = skiplist_iterator_new (h_list hm)"

definition hashmap_iterator_next ::
  "hashmap \<Rightarrow> skiplist_iterator \<Rightarrow> (addr \<times> skiplist_iterator) option" where
  "hashmap_iterator_next hm it =
     (case skiplist_iterator_next (h_list hm) it of
        None \<Rightarrow> None
      | Some (node, it) \<Rightarrow> Some (if node = NULL then NULL else node, it))"

definition hashmap_iterator_delete ::
  "hashmap \<Rightarrow> skiplist_iterator \<Rightarrow> (addr \<times> skiplist_iterator \<times> hashmap) option" where
  "hashmap_iterator_delete hm it =
     (case skiplist_iterator_delete (h_list hm) it of
        None \<Rightarrow> None
      | Some (node, it, l) \<Rightarrow> Some (node, it, hm\<lparr>h_list := l\<rparr>))"

section \<open>Correctness\<close>

definition hm_ok :: "hashmap \<Rightarrow> addr list \<Rightarrow> bool" where
  "hm_ok hm xs \<longleftrightarrow> sl_ok (h_list hm) xs \<and> h_num hm = of_nat (length xs) \<and> keyed (h_list hm) xs (h_key hm)"

definition hmap :: "hashmap \<Rightarrow> addr list \<Rightarrow> string \<rightharpoonup> addr" where
  "hmap hm xs = smap (h_list hm) xs"

definition hm_good :: "hashmap \<Rightarrow> addr list \<Rightarrow> string \<Rightarrow> bool" where
  "hm_good hm xs key \<longleftrightarrow> good_key (h_list hm) xs key"

lemmas hm_defs = hm_ok_def hmap_def hm_good_def atomic_defs

lemma hashmap_init_ok: "hm_ok (hashmap_init h) []" "hmap (hashmap_init h) [] = Map.empty"
  by (simp_all add: hm_defs hashmap_init_def skiplist_init_ok keyed_def)

lemma hashmap_find_ok:
  assumes "hm_ok hm xs" "hm_good hm xs key"
  shows "hashmap_find hm key = Some (case hmap hm xs key of None \<Rightarrow> NULL | Some n \<Rightarrow> n)"
  using sk.search_law [of "h_list hm" xs key] assms by (auto simp: hashmap_find_def hm_defs)

lemma hashmap_remove_ok:
  assumes "hm_ok hm xs" "hm_good hm xs key"
  shows "\<exists>hm' xs'. hashmap_remove hm key = Some (case hmap hm xs key of None \<Rightarrow> NULL | Some n \<Rightarrow> n, hm') \<and>
    hm_ok hm' xs' \<and> hmap hm' xs' = (hmap hm xs)(key := None) \<and>
    set xs' = set xs - set_option (hmap hm xs key)"
proof -
  have l: "sl_ok (h_list hm) xs" "good_key (h_list hm) xs key"
    using assms by (simp_all add: hm_defs)
  have s: "skiplist_search (h_list hm) key = Some (case hmap hm xs key of None \<Rightarrow> NULL | Some n \<Rightarrow> n)"
    using sk.search_law [OF l] by (simp add: hmap_def)
  show ?thesis
  proof (cases "hmap hm xs key")
    case None
    then show ?thesis
      using sk.del_miss [OF l] s assms(1)
      by (auto simp: hashmap_remove_def hm_defs fun_upd_idem)
  next
    case (Some n)
    then obtain l' xs' where d: "skiplist_delete (h_list hm) key = Some (0, l')" "sl_ok l' xs'"
        "set xs' = set xs - {n}" "smap l' xs' = (smap (h_list hm) xs)(key := None)" "Suc (length xs') = length xs"
      using sk.del_hit [OF l, of n] by (auto simp: hmap_def)
    moreover from d(5) have "of_nat (length xs) - 1 = (of_nat (length xs') :: 32 word)"
      by (metis add_diff_cancel_left' of_nat_Suc)
    moreover have "keyed l' xs' (h_key hm)"
      using keyed_remove [OF _ d(4)] assms(1) by (simp add: hm_ok_def)
    ultimately show ?thesis
      using s Some assms(1)
      by (auto simp: hashmap_remove_def hm_defs intro!: exI [of _ xs'])
  qed
qed

lemma hashmap_add_ok:
  assumes "hm_ok hm xs" "hm_good hm xs key" "n \<noteq> HEADER \<and> n \<noteq> NULL" "n \<notin> set xs" "hmap hm xs key = None"
  shows "\<exists>hm' xs'. hashmap_add coins hm key n = Some (- XFIREDB_OK, hm') \<and> hm_ok hm' xs' \<and>
    hmap hm' xs' = (hmap hm xs)(key \<mapsto> n) \<and> length xs' = Suc (length xs) \<and> set xs' = insert n (set xs)"
proof -
  have l: "sl_ok (h_list hm) xs" "good_key (h_list hm) xs key" "smap (h_list hm) xs key = None"
    using assms by (simp_all add: hm_defs)
  obtain l' xs' where i: "skiplist_insert coins (h_list hm) key n = Some (0, l')" "sl_ok l' xs'"
      "smap l' xs' = (smap (h_list hm) xs)(key \<mapsto> n)" "length xs' = Suc (length xs)" "set xs' = insert n (set xs)"
    using sk.ins_new [where coins = coins, OF l(1,2) assms(3,4) l(3)] by blast
  have "keyed l' xs' ((h_key hm)(n \<mapsto> key))"
    using keyed_insert [OF _ l(1) assms(4) i(3)] assms(1) by (simp add: hm_ok_def)
  then show ?thesis
    using i assms(1) by (auto simp: hashmap_add_def hm_defs intro!: exI [of _ xs'])
qed

text \<open>Releasing a node that is not in the map.\<close>

lemma hashmap_node_destroy_ok:
  assumes "hm_ok hm xs" "n \<notin> set xs" "n \<noteq> HEADER"
  shows "hm_ok (hashmap_node_destroy n hm) xs" "hmap (hashmap_node_destroy n hm) xs = hmap hm xs"
proof -
  have l: "sl_ok (h_list hm) xs"
    using assms(1) by (simp add: hm_ok_def)
  have "h_key hm a = ((h_key hm)(n := None)) a" if "smap (h_list hm) xs k = Some a" for k a
    using smap_ran [OF l that] assms(2) by auto
  then show "hm_ok (hashmap_node_destroy n hm) xs" "hmap (hashmap_node_destroy n hm) xs = hmap hm xs"
    using sl_ok_destroy [OF l assms(2,3)] assms(1) by (auto simp: hashmap_node_destroy_def hm_defs keyed_def)
qed

lemma hashmap_size_ok:
  "hm_ok hm xs \<Longrightarrow> length xs < 2 ^ 31 \<Longrightarrow> hashmap_size hm = int (card (dom (hmap hm xs)))"
  using sint_of_nat_small [of "length xs"] smap_card [of "h_list hm" xs]
  by (simp add: hm_defs hashmap_size_def)

text \<open>
  Adding a node under a new key to a well-formed hash map binds the key to the node and
  counts it; finding the key then returns the node, and removing it returns the node and
  restores the map.
\<close>

theorem hashmap_add_find_remove:
  assumes "hm_ok hm xs" "hm_good hm xs key" "n \<noteq> HEADER \<and> n \<noteq> NULL" "n \<notin> set xs" "hmap hm xs key = None"
  shows "\<exists>hm' xs'. hashmap_add coins hm key n = Some (- XFIREDB_OK, hm') \<and> hm_ok hm' xs' \<and>
    hmap hm' xs' = (hmap hm xs)(key \<mapsto> n) \<and> length xs' = Suc (length xs) \<and>
    hashmap_find hm' key = Some n \<and>
    (\<exists>hm2 xs2. hashmap_remove hm' key = Some (n, hm2) \<and> hm_ok hm2 xs2 \<and> hmap hm2 xs2 = hmap hm xs)"
proof -
  obtain hm' xs' where i: "hashmap_add coins hm key n = Some (- XFIREDB_OK, hm')" "hm_ok hm' xs'"
      "hmap hm' xs' = (hmap hm xs)(key \<mapsto> n)" "length xs' = Suc (length xs)"
    using hashmap_add_ok [OF assms] by blast
  have "hm_good hm' xs' key"
    using sk.mp_good [of "h_list hm'" xs' key n] i(2,3) by (simp add: hm_defs)
  then have "hashmap_find hm' key = Some n \<and>
      (\<exists>hm2 xs2. hashmap_remove hm' key = Some (n, hm2) \<and> hm_ok hm2 xs2 \<and> hmap hm2 xs2 = hmap hm xs)"
    using hashmap_find_ok [OF i(2)] hashmap_remove_ok [OF i(2)] i(3) assms(5)
    by (fastforce simp: fun_upd_idem)
  then show ?thesis
    using i by blast
qed

theorem hashmap_add_find_remove_witness:
  "\<exists>hm' xs'. hashmap_add (\<lambda>_. True) (hashmap_init Map.empty) ''one'' 10 = Some (- XFIREDB_OK, hm') \<and> hm_ok hm' xs' \<and>
    hmap hm' xs' = (hmap (hashmap_init Map.empty) [])(''one'' \<mapsto> 10) \<and> length xs' = Suc (length ([] :: addr list)) \<and>
    hashmap_find hm' ''one'' = Some 10 \<and>
    (\<exists>hm2 xs2. hashmap_remove hm' ''one'' = Some (10, hm2) \<and> hm_ok hm2 xs2 \<and>
       hmap hm2 xs2 = hmap (hashmap_init Map.empty) [])"
proof (rule hashmap_add_find_remove [OF hashmap_init_ok(1)])
  show "hm_good (hashmap_init Map.empty) [] ''one''"
    by code_simp
qed (simp_all add: hashmap_init_ok xdb_defs)

text \<open>
  Adding a node under a key that is present reports success and leaves the bindings as
  they are, but counts a node: \<^verbatim>\<open>hashmap_size\<close> no longer is the number of entries.
\<close>

theorem hashmap_add_duplicate_miscounts:
  assumes "hm_ok hm xs" "hm_good hm xs key" "n \<noteq> HEADER \<and> n \<noteq> NULL" "n \<notin> set xs"
    and "hmap hm xs key \<noteq> None" "length xs + 1 < 2 ^ 31"
  shows "\<exists>hm'. hashmap_add coins hm key n = Some (- XFIREDB_OK, hm') \<and> hmap hm' xs = hmap hm xs \<and>
    hashmap_size hm' = int (length xs) + 1"
proof -
  have l: "sl_ok (h_list hm) xs" "good_key (h_list hm) xs key" "smap (h_list hm) xs key \<noteq> None"
    using assms by (simp_all add: hm_defs)
  have "skiplist_insert coins (h_list hm) key n = Some (0, h_list hm)"
    using sk.ins_old [where coins = coins, OF l(1,2) assms(3,4) l(3)] .
  moreover have "h_num hm + 1 = of_nat (length xs + 1)"
    using assms(1) by (simp add: hm_defs)
  ultimately show ?thesis
    using sint_of_nat_small [OF assms(6)]
    by (simp add: hashmap_add_def hmap_def hashmap_size_def atomic_defs add.commute)
qed

definition sample_hm :: hashmap where
  "sample_hm = \<lparr>h_list = sample_sl, h_num = 1, h_key = [10 \<mapsto> ''one'']\<rparr>"

lemma sample_hm_ok: "hm_ok sample_hm [10]" "hmap sample_hm [10] = [''one'' \<mapsto> 10]" "hm_good sample_hm [10] ''one''"
  by (simp_all add: sample_hm_def hm_defs sample_sl_facts keyed_def)

theorem hashmap_add_duplicate_miscounts_witness:
  "\<exists>hm'. hashmap_add (\<lambda>_. True) sample_hm ''one'' 11 = Some (- XFIREDB_OK, hm') \<and>
    hmap hm' [10] = hmap sample_hm [10] \<and> hashmap_size hm' = int (length [10 :: addr]) + 1"
  by (rule hashmap_add_duplicate_miscounts [OF sample_hm_ok(1,3)])
    (simp_all add: sample_hm_ok xdb_defs)

end
