(* ===== verification/Sql.thy ===== *)
theory Sql
  imports XPrelude "HOL-Library.Multiset" "HOL-Library.Monad_Syntax"
begin

text \<open>
  What the persistence code relies on in SQLite. SQLite is a third-party library: it is a parameter \<open>sql\<close>, a function
  from the text of a statement and the state of the database file to the result code, the rows passed to the callback and
  the new state. The hypothesis \<open>sqlite_sem\<close> fixes its answers for a fragment of the SQL it documents: a text is
  split into words, literals and symbols, parsed to a statement, and the statement has the effect that the manual gives to
  it. Nothing is assumed of a text outside of the fragment. Failures of the file and of the memory
  (busy, full, read only, text too long) are excluded: a statement of the fragment is executed.
  A table is a multiset of rows, as SQL promises no order.
\<close>

section \<open>Rows\<close>

type_synonym 'db sqlite = "string \<Rightarrow> 'db \<Rightarrow> int \<times> string list list \<times> 'db"

definition SQLITE_OK :: int where [xdb_defs]: "SQLITE_OK = 0"

text \<open>A row of the table \<^verbatim>\<open>xfiredb_data\<close>; all its values are texts.\<close>

record row =
  r_key :: string
  r_skey :: string
  r_type :: string
  r_value :: string

definition mk_row :: "string \<Rightarrow> string \<Rightarrow> string \<Rightarrow> string \<Rightarrow> row" where
  "mk_row k s t v = \<lparr>r_key = k, r_skey = s, r_type = t, r_value = v\<rparr>"

definition cells :: "row \<Rightarrow> string list" where
  "cells r = [r_key r, r_skey r, r_type r, r_value r]"

text \<open>A statement with \<^verbatim>\<open>LIMIT 1\<close> replaces some row that satisfies the condition, if there is one.\<close>

definition one_where :: "(row \<Rightarrow> bool) \<Rightarrow> (row \<Rightarrow> row multiset) \<Rightarrow> row multiset \<Rightarrow> row multiset \<Rightarrow> bool" where
  "one_where P f T T' \<longleftrightarrow>
     (if \<exists>r\<in>#T. P r then \<exists>r\<in>#T. P r \<and> T' = T - {#r#} + f r else T' = T)"

section \<open>Tokens\<close>

text \<open>A word (a keyword, a name or a number, in upper case, as SQL ignores the case), a literal between single quotes, another character.\<close>

datatype sql_tok = Word string | Text string | Sym char

datatype lex_mode = Gap | InWord string | InText string

definition sq :: char where "sq = CHR 0x27"

definition word_char :: "char \<Rightarrow> bool" where
  "word_char c \<longleftrightarrow> (let n = of_char c :: nat in (48 \<le> n \<and> n \<le> 57) \<or> (65 \<le> n \<and> n \<le> 90) \<or> (97 \<le> n \<and> n \<le> 122) \<or> n = 95)"

definition upper :: "char \<Rightarrow> char" where
  "upper c = (let n = of_char c :: nat in if 97 \<le> n \<and> n \<le> 122 then char_of (n - 32) else c)"

primrec lex :: "string \<Rightarrow> lex_mode \<Rightarrow> sql_tok list option" where
  "lex [] m = (case m of Gap \<Rightarrow> Some [] | InWord w \<Rightarrow> Some [Word w] | InText t \<Rightarrow> None)"
| "lex (c # s) m =
     (case m of
        InText t \<Rightarrow>
          (if c = sq then map_option ((#) (Text t)) (lex s Gap) else if c = CHR 0x00 then None else lex s (InText (t @ [c])))
      | InWord w \<Rightarrow>
          (if word_char c then lex s (InWord (w @ [upper c]))
           else map_option ((#) (Word w))
             (if c = sq then lex s (InText []) else if c = CHR '' '' then lex s Gap else map_option ((#) (Sym c)) (lex s Gap)))
      | Gap \<Rightarrow>
          (if word_char c then lex s (InWord [upper c])
           else if c = sq then lex s (InText []) else if c = CHR '' '' then lex s Gap else map_option ((#) (Sym c)) (lex s Gap)))"

section \<open>Statements\<close>

text \<open>The names of the columns, in the order of the table.\<close>

definition columns :: "string list" where
  "columns = [''DB_KEY'', ''DB_SECONDARY_KEY'', ''DB_TYPE'', ''DB_VALUE'']"

text \<open>
  A condition is a conjunction of equations between a column and a literal, or it selects one row among those that
  satisfy such a conjunction: \<^verbatim>\<open>ROWID IN (SELECT ROWID ... LIMIT 1)\<close>.
\<close>

type_synonym sql_eqs = "(string \<times> string) list"

datatype sql_cond = Where sql_eqs | OneOf sql_eqs

datatype sql_stmt =
    Insert "string list" "string list"
  | Update string string sql_cond
  | Delete sql_cond
  | Select sql_eqs
  | CheckTable
  | CreateTable "string list"
  | SyntaxError

primrec expect :: "sql_tok list \<Rightarrow> sql_tok list \<Rightarrow> sql_tok list option" where
  "expect [] ts = Some ts"
| "expect (p # ps) ts = (case ts of [] \<Rightarrow> None | t # ts \<Rightarrow> if t = p then expect ps ts else None)"

text \<open>\<^verbatim>\<open>column = 'text' AND ...\<close>\<close>

fun parse_eqs :: "sql_tok list \<Rightarrow> (sql_eqs \<times> sql_tok list) option" where
  "parse_eqs (Word c # Sym e # Text v # Word a # ts) =
     (if e \<noteq> CHR ''='' \<or> c \<notin> set columns then None
      else if a = ''AND'' then map_option (\<lambda>(es, ts). ((c, v) # es, ts)) (parse_eqs ts)
      else Some ([(c, v)], Word a # ts))"
| "parse_eqs (Word c # Sym e # Text v # ts) = (if e \<noteq> CHR ''='' \<or> c \<notin> set columns then None else Some ([(c, v)], ts))"
| "parse_eqs _ = None"

definition table :: sql_tok where "table = Word ''XFIREDB_DATA''"

definition parse_cond :: "sql_tok list \<Rightarrow> (sql_cond \<times> sql_tok list) option" where
  "parse_cond ts =
     (case expect [Word ''WHERE'', Word ''ROWID'', Word ''IN'', Sym CHR ''('', Word ''SELECT'', Word ''ROWID'', Word ''FROM'',
         table, Word ''WHERE''] ts of
        Some ts \<Rightarrow> do {
          (es, ts) \<leftarrow> parse_eqs ts;
          ts \<leftarrow> expect [Word ''LIMIT'', Word ''1'', Sym CHR '')''] ts;
          Some (OneOf es, ts)
        }
      | None \<Rightarrow> do {
          ts \<leftarrow> expect [Word ''WHERE''] ts;
          (es, ts) \<leftarrow> parse_eqs ts;
          Some (Where es, ts)
        })"

text \<open>\<^verbatim>\<open>(column, ...)\<close> and \<^verbatim>\<open>('text', ...)\<close>, after the opening parenthesis.\<close>

fun parse_names :: "sql_tok list \<Rightarrow> (string list \<times> sql_tok list) option" where
  "parse_names (Word c # Sym s # ts) =
     (if s = CHR '','' then map_option (\<lambda>(cs, ts). (c # cs, ts)) (parse_names ts)
      else if s = CHR '')'' then Some ([c], ts) else None)"
| "parse_names _ = None"

fun parse_texts :: "sql_tok list \<Rightarrow> (string list \<times> sql_tok list) option" where
  "parse_texts (Text v # Sym s # ts) =
     (if s = CHR '','' then map_option (\<lambda>(vs, ts). (v # vs, ts)) (parse_texts ts)
      else if s = CHR '')'' then Some ([v], ts) else None)"
| "parse_texts _ = None"

text \<open>
  The definitions of at most \<open>n\<close> columns of a new table: a name, a type \<^verbatim>\<open>CHAR(64)\<close>, \<^verbatim>\<open>BLOB\<close> or none,
  and perhaps \<^verbatim>\<open>NOT NULL\<close>. Types and constraint do not matter for texts.
\<close>

definition skip :: "sql_tok list \<Rightarrow> sql_tok list \<Rightarrow> sql_tok list" where
  "skip ps ts = (case expect ps ts of None \<Rightarrow> ts | Some ts \<Rightarrow> ts)"

definition skip_type :: "sql_tok list \<Rightarrow> sql_tok list" where
  "skip_type ts =
     (case expect [Word ''CHAR'', Sym CHR ''('', Word ''64'', Sym CHR '')''] ts of
        Some ts \<Rightarrow> ts
      | None \<Rightarrow> skip [Word ''BLOB''] ts)"

primrec parse_coldefs :: "nat \<Rightarrow> sql_tok list \<Rightarrow> (string list \<times> sql_tok list) option" where
  "parse_coldefs 0 ts = None"
| "parse_coldefs (Suc n) ts =
     (case ts of
        Word c # ts \<Rightarrow>
          (case skip [Word ''NOT'', Word ''NULL''] (skip_type ts) of
             Sym s # ts \<Rightarrow>
               (if s = CHR '','' then map_option (\<lambda>(cs, ts). (c # cs, ts)) (parse_coldefs n ts)
                else if s = CHR '')'' then Some ([c], ts) else None)
           | _ \<Rightarrow> None)
      | _ \<Rightarrow> None)"

text \<open>The statement of a list of tokens, with what follows it; \<^verbatim>\<open>DELETE\<close> without \<^verbatim>\<open>FROM\<close> is not SQL.\<close>

definition parse_insert :: "sql_tok list \<Rightarrow> (sql_stmt \<times> sql_tok list) option" where
  "parse_insert ts = do {
     ts \<leftarrow> expect [Word ''INTO'', table, Sym CHR ''(''] ts;
     (cs, ts) \<leftarrow> parse_names ts;
     ts \<leftarrow> expect [Word ''VALUES'', Sym CHR ''(''] ts;
     (vs, ts) \<leftarrow> parse_texts ts;
     if distinct cs \<and> set cs = set columns \<and> length vs = length cs then Some (Insert cs vs, ts) else None
   }"

definition parse_update :: "sql_tok list \<Rightarrow> (sql_stmt \<times> sql_tok list) option" where
  "parse_update ts = do {
     ts \<leftarrow> expect [table, Word ''SET''] ts;
     (es, ts) \<leftarrow> (case ts of
         Word c # Sym e # Text v # ts \<Rightarrow> if e = CHR ''='' \<and> c \<in> set columns then Some ((c, v), ts) else None
       | _ \<Rightarrow> None);
     (p, ts) \<leftarrow> parse_cond ts;
     Some (Update (fst es) (snd es) p, ts)
   }"

definition parse_delete :: "sql_tok list \<Rightarrow> (sql_stmt \<times> sql_tok list) option" where
  "parse_delete ts =
     (case expect [Word ''FROM''] ts of
        None \<Rightarrow> Some (SyntaxError, [])
      | Some ts \<Rightarrow> do {
          ts \<leftarrow> expect [table] ts;
          (p, ts) \<leftarrow> parse_cond ts;
          Some (Delete p, ts)
        })"

definition parse_select :: "sql_tok list \<Rightarrow> (sql_stmt \<times> sql_tok list) option" where
  "parse_select ts =
     (case expect [Word ''NAME'', Word ''FROM'', Word ''SQLITE_MASTER'', Word ''WHERE'', Word ''TYPE'', Sym CHR ''='',
         Text ''table'', Word ''AND'', Word ''NAME'', Sym CHR ''='', Text ''xfiredb_data''] ts of
        Some ts \<Rightarrow> Some (CheckTable, ts)
      | None \<Rightarrow> do {
          ts \<leftarrow> expect [Sym CHR ''*'', Word ''FROM'', table] ts;
          (case expect [Word ''WHERE''] ts of
             None \<Rightarrow> Some (Select [], ts)
           | Some ts \<Rightarrow> map_option (\<lambda>(es, ts). (Select es, ts)) (parse_eqs ts))
        })"

definition parse_create :: "sql_tok list \<Rightarrow> (sql_stmt \<times> sql_tok list) option" where
  "parse_create ts = do {
     ts \<leftarrow> expect [Word ''TABLE'', table, Sym CHR ''(''] ts;
     (cs, ts) \<leftarrow> parse_coldefs (length columns) ts;
     Some (CreateTable cs, ts)
   }"

definition sql_parse :: "sql_tok list \<Rightarrow> sql_stmt option" where
  "sql_parse ts = do {
     (st, ts) \<leftarrow> (case ts of
         [] \<Rightarrow> None
       | t # ts \<Rightarrow>
           if t = Word ''INSERT'' then parse_insert ts
           else if t = Word ''UPDATE'' then parse_update ts
           else if t = Word ''DELETE'' then parse_delete ts
           else if t = Word ''SELECT'' then parse_select ts
           else if t = Word ''CREATE'' then parse_create ts
           else None);
     if ts = [] \<or> ts = [Sym CHR '';''] then Some st else None
   }"

text \<open>The statement of a text.\<close>

definition sql_text :: "string \<Rightarrow> sql_stmt option" where
  "sql_text q = Option.bind (lex q Gap) sql_parse"

section \<open>The effect of a statement\<close>

text \<open>The field of a column.\<close>

definition col :: "string \<Rightarrow> row \<Rightarrow> string" where
  "col c r = (if c = ''DB_KEY'' then r_key r else if c = ''DB_SECONDARY_KEY'' then r_skey r
     else if c = ''DB_TYPE'' then r_type r else r_value r)"

definition set_col :: "string \<Rightarrow> string \<Rightarrow> row \<Rightarrow> row" where
  "set_col c v r = (if c = ''DB_KEY'' then r\<lparr>r_key := v\<rparr> else if c = ''DB_SECONDARY_KEY'' then r\<lparr>r_skey := v\<rparr>
     else if c = ''DB_TYPE'' then r\<lparr>r_type := v\<rparr> else r\<lparr>r_value := v\<rparr>)"

definition satisfies :: "sql_eqs \<Rightarrow> row \<Rightarrow> bool" where
  "satisfies es r \<longleftrightarrow> (\<forall>(c, v)\<in>set es. col c r = v)"

definition new_row :: "string list \<Rightarrow> string list \<Rightarrow> row" where
  "new_row cs vs = fold (\<lambda>(c, v). set_col c v) (zip cs vs) (mk_row [] [] [] [])"

text \<open>The rows that a condition selects are replaced by \<open>f\<close> of the row: all of them, or one.\<close>

fun change :: "sql_cond \<Rightarrow> (row \<Rightarrow> row multiset) \<Rightarrow> row multiset \<Rightarrow> row multiset \<Rightarrow> bool" where
  "change (Where es) f T T' \<longleftrightarrow> T' = \<Sum>\<^sub># (image_mset (\<lambda>r. if satisfies es r then f r else {#r#}) T)"
| "change (OneOf es) f T T' \<longleftrightarrow> one_where (satisfies es) f T T'"

text \<open>
  \<open>effect tbl st db rc out db'\<close>: what the statement \<open>st\<close> does to a file \<open>db\<close>. \<open>tbl db\<close> is the content of the
  table \<^verbatim>\<open>xfiredb_data\<close> with the four columns, \<^const>\<open>None\<close> when there is no such table.
\<close>

fun effect :: "('db \<Rightarrow> row multiset option) \<Rightarrow> sql_stmt \<Rightarrow> 'db \<Rightarrow> int \<Rightarrow> string list list \<Rightarrow> 'db \<Rightarrow> bool" where
  "effect tbl (Insert cs vs) db rc out db' \<longleftrightarrow>
     (\<forall>T. tbl db = Some T \<longrightarrow> rc = SQLITE_OK \<and> tbl db' = Some (add_mset (new_row cs vs) T))"
| "effect tbl (Update c v p) db rc out db' \<longleftrightarrow>
     (\<forall>T. tbl db = Some T \<longrightarrow> rc = SQLITE_OK \<and> (\<exists>T'. tbl db' = Some T' \<and> change p (\<lambda>r. {#set_col c v r#}) T T'))"
| "effect tbl (Delete p) db rc out db' \<longleftrightarrow>
     (\<forall>T. tbl db = Some T \<longrightarrow> rc = SQLITE_OK \<and> (\<exists>T'. tbl db' = Some T' \<and> change p (\<lambda>_. {#}) T T'))"
| "effect tbl (Select es) db rc out db' \<longleftrightarrow>
     (\<forall>T. tbl db = Some T \<longrightarrow> rc = SQLITE_OK \<and> db' = db \<and> (\<exists>rows. out = map cells rows \<and> mset rows = filter_mset (satisfies es) T))"
| "effect tbl CheckTable db rc out db' \<longleftrightarrow> rc = SQLITE_OK \<and> db' = db \<and> (out = [] \<longleftrightarrow> tbl db = None)"
| "effect tbl (CreateTable cs) db rc out db' \<longleftrightarrow>
     (tbl db = None \<and> cs = columns \<longrightarrow> rc = SQLITE_OK \<and> out = [] \<and> tbl db' = Some {#})"
| "effect tbl SyntaxError db rc out db' \<longleftrightarrow> rc \<noteq> SQLITE_OK \<and> out = [] \<and> db' = db"

definition sqlite_sem :: "'db sqlite \<Rightarrow> ('db \<Rightarrow> row multiset option) \<Rightarrow> bool" where
  "sqlite_sem sql tbl \<longleftrightarrow>
     (\<forall>q st db. sql_text q = Some st \<longrightarrow> (case sql q db of (rc, out, db') \<Rightarrow> effect tbl st db rc out db'))"

lemma sqlite_semE:
  assumes "sqlite_sem sql tbl" "sql_text q = Some st"
  obtains rc out db' where "sql q db = (rc, out, db')" "effect tbl st db rc out db'"
proof -
  obtain rc out db' where r: "sql q db = (rc, out, db')"
    by (cases "sql q db")
  moreover have "effect tbl st db rc out db'"
    using assms(1) [unfolded sqlite_sem_def, rule_format, OF assms(2), of db] r by simp
  ultimately show thesis
    using that by blast
qed

section \<open>Texts with literals\<close>

text \<open>A text is split at a quote outside of a literal: what stands before it can be read on its own.\<close>

lemma sq_no_word: "\<not> word_char sq"
  by code_simp

lemma lex_quote:
  assumes "sq \<notin> set p" "m = Gap \<or> m = InWord w"
  shows "lex (p @ sq # s) m = Option.bind (lex p m) (\<lambda>ts. map_option ((@) ts) (lex s (InText [])))"
  using assms
proof (induction p arbitrary: m w)
  case Nil
  then show ?case
    by (cases "lex s (InText [])") (auto simp: sq_no_word)
next
  case (Cons c p)
  have c: "c \<noteq> sq" "sq \<notin> set p"
    using Cons.prems(1) by auto
  have "lex (p @ sq # s) Gap = Option.bind (lex p Gap) (\<lambda>ts. map_option ((@) ts) (lex s (InText [])))"
    "lex (p @ sq # s) (InWord v) = Option.bind (lex p (InWord v)) (\<lambda>ts. map_option ((@) ts) (lex s (InText [])))" for v
    using Cons.IH [OF c(2)] by blast+
  then show ?case
    using Cons.prems(2) c(1) by (cases "lex p Gap"; cases "lex s (InText [])") auto
qed

lemma lex_literal: "sq \<notin> set a \<Longrightarrow> CHR 0x00 \<notin> set a \<Longrightarrow> lex (a @ sq # s) (InText t) = map_option ((#) (Text (t @ a))) (lex s Gap)"
  by (induction a arbitrary: t) auto

lemma lex_text:
  assumes "sq \<notin> set p" "lex p Gap = Some ps" "sq \<notin> set a" "CHR 0x00 \<notin> set a"
  shows "lex (p @ sq # a @ sq # s) Gap = map_option (\<lambda>ts. ps @ Text a # ts) (lex s Gap)"
  using assms lex_quote [OF assms(1), of Gap "[]"] lex_literal [OF assms(3,4), of s "[]"]
  by (cases "lex s Gap") simp_all

section \<open>A small table engine\<close>

text \<open>An instance of the hypothesis: the file is a list of rows, and every statement of the fragment is executed on it.\<close>

fun set_first :: "('a \<Rightarrow> bool) \<Rightarrow> ('a \<Rightarrow> 'a list) \<Rightarrow> 'a list \<Rightarrow> 'a list" where
  "set_first P f [] = []"
| "set_first P f (r # rs) = (if P r then f r @ rs else r # set_first P f rs)"

fun mini_change :: "sql_cond \<Rightarrow> (row \<Rightarrow> row list) \<Rightarrow> row list \<Rightarrow> row list" where
  "mini_change (Where es) f rs = concat (map (\<lambda>r. if satisfies es r then f r else [r]) rs)"
| "mini_change (OneOf es) f rs = set_first (satisfies es) f rs"

fun mini_run :: "sql_stmt \<Rightarrow> row list option \<Rightarrow> int \<times> string list list \<times> row list option" where
  "mini_run CheckTable db = (0, if db = None then [] else [[''xfiredb_data'']], db)"
| "mini_run (CreateTable cs) None = (if cs = columns then (0, [], Some []) else (1, [], None))"
| "mini_run (Insert cs vs) (Some rs) = (0, [], Some (rs @ [new_row cs vs]))"
| "mini_run (Update c v p) (Some rs) = (0, [], Some (mini_change p (\<lambda>r. [set_col c v r]) rs))"
| "mini_run (Delete p) (Some rs) = (0, [], Some (mini_change p (\<lambda>_. []) rs))"
| "mini_run (Select es) (Some rs) = (0, map cells (filter (satisfies es) rs), Some rs)"
| "mini_run st db = (1, [], db)"

definition mini_sql :: "row list option sqlite" where
  "mini_sql q db = (case sql_text q of None \<Rightarrow> (1, [], db) | Some st \<Rightarrow> mini_run st db)"

definition mini_tbl :: "row list option \<Rightarrow> row multiset option" where
  "mini_tbl db = map_option mset db"

lemma set_first_one: "one_where P (\<lambda>r. mset (f r)) (mset rs) (mset (set_first P f rs))"
proof (induction rs)
  case (Cons r rs)
  then show ?case
    by (cases "P r"; cases "\<exists>x\<in>#mset rs. P x") (auto simp: one_where_def split: if_splits)
qed (simp add: one_where_def)

lemma mini_change_ok: "change p (\<lambda>r. mset (f r)) (mset rs) (mset (mini_change p f rs))"
proof (cases p)
  case (Where es)
  then show ?thesis
    by (induction rs) auto
qed (simp add: set_first_one)

lemma mini_sem: "sqlite_sem mini_sql mini_tbl"
proof -
  have "case mini_run st db of (rc, out, db') \<Rightarrow> effect mini_tbl st db rc out db'" for st db
    using mini_change_ok [of _ "\<lambda>r. [set_col _ _ r]"] mini_change_ok [of _ "\<lambda>_. []"]
    by (cases st; cases db) (auto simp: mini_tbl_def xdb_defs mset_filter)
  then show ?thesis
    by (simp add: sqlite_sem_def mini_sql_def)
qed

end
