(* ===== verification/Disk.thy ===== *)
theory Disk
  imports XObject Hashmap Sql
begin

text \<open>
  Persistence (\<^verbatim>\<open>storage/disk.c\<close>): every operation formats an SQL text with \<^verbatim>\<open>xfiredb_sprintf\<close> and
  hands it to \<^verbatim>\<open>sqlite3_exec\<close>. SQLite is the parameter \<open>sql\<close>, with the hypothesis \<open>sqlite_sem\<close> of the theory \<open>Sql\<close>
  about the statements of a fragment of SQL. Which statements the texts of the code are, for values without a quote, is proved
  here, and with it the effect of every operation on the rows of the table.
\<close>

section \<open>Formatting\<close>

text \<open>
  \<^verbatim>\<open>xfiredb_sprintf\<close> with the conversion \<^verbatim>\<open>%s\<close>, the only one its callers use; a missing argument
  is undefined.
\<close>

fun xfiredb_sprintf :: "string \<Rightarrow> string list \<Rightarrow> string option" where
  "xfiredb_sprintf (c # d # fmt) args =
     (if c = CHR ''%'' \<and> d = CHR ''s''
      then (case args of [] \<Rightarrow> None | a # as \<Rightarrow> map_option ((@) a) (xfiredb_sprintf fmt as))
      else map_option ((#) c) (xfiredb_sprintf (d # fmt) args))"
| "xfiredb_sprintf [c] args = Some [c]"
| "xfiredb_sprintf [] args = Some []"

definition quoted :: "string \<Rightarrow> string" where
  "quoted s = sq # s @ [sq]"

definition DISK_CHECK_TABLE :: string where
  "DISK_CHECK_TABLE = ''SELECT name FROM sqlite_master WHERE type='' @ quoted ''table'' @
     '' AND name='' @ quoted ''xfiredb_data'' @ '';''"

definition DISK_CREATE_TABLE :: string where
  "DISK_CREATE_TABLE = ''CREATE TABLE xfiredb_data('' @ ''db_key CHAR(64) NOT NULL, '' @
     ''db_secondary_key, '' @ ''db_type CHAR(64), '' @ ''db_value BLOB);''"

definition DISK_STORE_QUERY :: string where
  "DISK_STORE_QUERY = ''INSERT INTO xfiredb_data (db_key, db_secondary_key, db_type, db_value) '' @
     ''VALUES ('' @ quoted ''%s'' @ '', '' @ quoted ''%s'' @ '', '' @ quoted ''%s'' @ '', '' @ quoted ''%s'' @ '');''"

definition DISK_CLEAR_QUERY :: string where
  "DISK_CLEAR_QUERY = ''DELETE * FROM xfiredb_data;''"

definition DISK_UPDATE_HM_QUERY :: string where
  "DISK_UPDATE_HM_QUERY = ''UPDATE xfiredb_data '' @ ''SET db_value = '' @ quoted ''%s'' @
     '' '' @ ''WHERE db_key = '' @ quoted ''%s'' @ '' AND db_secondary_key = '' @ quoted ''%s'' @ '';''"

definition DISK_UPDATE_LIST_QUERY :: string where
  "DISK_UPDATE_LIST_QUERY = ''UPDATE xfiredb_data SET db_value = '' @ quoted ''%s'' @ '' '' @
     ''WHERE ROWID IN (SELECT ROWID FROM xfiredb_data WHERE '' @ ''db_key = '' @ quoted ''%s'' @
     '' AND db_value = '' @ quoted ''%s'' @ '' AND db_type = '' @ quoted ''list'' @ '' LIMIT 1);''"

definition DISK_UPDATE_STRING_QUERY :: string where
  "DISK_UPDATE_STRING_QUERY = ''UPDATE xfiredb_data SET db_value = '' @ quoted ''%s'' @ '' '' @
     ''WHERE db_key = '' @ quoted ''%s'' @ '' AND db_type = '' @ quoted ''string'' @ '';''"

definition DISK_DELETE_STRING_QUERY :: string where
  "DISK_DELETE_STRING_QUERY = ''DELETE FROM xfiredb_data '' @ ''WHERE db_type = '' @ quoted ''string'' @
     '' AND db_key = '' @ quoted ''%s'' @ '';''"

definition DISK_DELETE_LIST_QUERY :: string where
  "DISK_DELETE_LIST_QUERY = ''DELETE FROM xfiredb_data WHERE ROWID in ('' @
     ''SELECT ROWID FROM xfiredb_data WHERE db_key = '' @ quoted ''%s'' @ '' AND '' @
     ''db_value = '' @ quoted ''%s'' @ '' AND db_type = '' @ quoted ''list'' @ '' LIMIT 1);''"

definition DISK_DELETE_HM_QUERY :: string where
  "DISK_DELETE_HM_QUERY = ''DELETE FROM xfiredb_data '' @ ''WHERE db_type = '' @ quoted ''hashmap'' @
     '' AND db_key = '' @ quoted ''%s'' @ '' AND db_secondary_key = '' @ quoted ''%s'' @ '';''"

definition DISK_DELETE_SET_QUERY :: string where
  "DISK_DELETE_SET_QUERY = ''DELETE FROM xfiredb_data '' @ ''WHERE db_type = '' @ quoted ''set'' @
     '' AND db_key = '' @ quoted ''%s'' @ '' AND db_secondary_key = '' @ quoted ''%s'' @ '';''"

definition DISK_SELECT_ALL :: string where
  "DISK_SELECT_ALL = ''SELECT * FROM xfiredb_data''"

definition DISK_LOAD_QUERY :: string where
  "DISK_LOAD_QUERY = ''SELECT * FROM xfiredb_data WHERE db_key='' @ quoted ''%s''"

section \<open>Operations\<close>

record 'db disk =
  dbpath :: string
  handle :: 'db
  records :: u64
  initialised :: bool

text \<open>\<^verbatim>\<open>sqlite3_exec\<close> on the handle of a disk with a hook that ignores the rows.\<close>

definition sqlite3_exec :: "'db sqlite \<Rightarrow> 'db disk \<Rightarrow> string \<Rightarrow> int \<times> string list list \<times> 'db disk" where
  "sqlite3_exec sql d q = (case sql q (handle d) of (rc, rows, db) \<Rightarrow> (rc, rows, d\<lparr>handle := db\<rparr>))"

definition disk_create_main_table :: "'db sqlite \<Rightarrow> 'db disk \<Rightarrow> int \<times> 'db disk" where
  "disk_create_main_table sql disk =
     (case sqlite3_exec sql disk DISK_CHECK_TABLE of
        (rc, rows, disk) \<Rightarrow>
          (let disk = (if rows \<noteq> [] then disk\<lparr>initialised := True\<rparr> else disk) in
           if \<not> initialised disk
           then (case sqlite3_exec sql disk DISK_CREATE_TABLE of
                   (rc, rows, disk) \<Rightarrow>
                     (- XFIREDB_OK, if rows \<noteq> [] then disk\<lparr>initialised := True\<rparr> else disk))
           else (- XFIREDB_OK, disk)))"

text \<open>\<^verbatim>\<open>disk_create\<close>: \<open>opn\<close> is \<^verbatim>\<open>sqlite3_open\<close>; the process exits when it fails.\<close>

definition disk_create :: "(string \<Rightarrow> int \<times> 'db) \<Rightarrow> 'db sqlite \<Rightarrow> string \<Rightarrow> 'db disk option" where
  "disk_create opn sql path =
     (case opn path of
        (rc, db) \<Rightarrow>
          if rc \<noteq> 0 then None
          else Some (snd (disk_create_main_table sql
                 \<lparr>dbpath = path, handle = db, records = 0, initialised = False\<rparr>)))"

text \<open>Format a query, execute it, translate the result code.\<close>

definition exec_code :: "'db sqlite \<Rightarrow> 'db disk \<Rightarrow> string \<Rightarrow> string list \<Rightarrow> (int \<times> 'db disk) option" where
  "exec_code sql d fmt args =
     (case xfiredb_sprintf fmt args of
        None \<Rightarrow> None
      | Some query \<Rightarrow>
          (case sqlite3_exec sql d query of
             (rc, _, d) \<Rightarrow> Some (if rc = SQLITE_OK then - XFIREDB_OK else - XFIREDB_ERR, d)))"

definition disk_clear :: "'db sqlite \<Rightarrow> 'db disk \<Rightarrow> 'db disk option" where
  "disk_clear sql d = map_option snd (exec_code sql d DISK_CLEAR_QUERY [])"

definition disk_store_hm_node ::
  "'db sqlite \<Rightarrow> 'db disk \<Rightarrow> string \<Rightarrow> string \<Rightarrow> string \<Rightarrow> (int \<times> 'db disk) option" where
  "disk_store_hm_node sql d key nodekey data =
     exec_code sql d DISK_STORE_QUERY [key, nodekey, ''hashmap'', data]"

text \<open>
  \<^verbatim>\<open>disk_store_hm\<close>: \<open>strs\<close> is the heap of \<^verbatim>\<open>struct string\<close>; a node of the map and the string that
  contains it have the same address (\<^verbatim>\<open>container_of\<close>). The result code of the query is only printed.
\<close>

partial_function (option) store_hm_loop ::
  "'db sqlite \<Rightarrow> (addr \<rightharpoonup> xstring) \<Rightarrow> string \<Rightarrow> hashmap \<Rightarrow> skiplist_iterator \<Rightarrow> 'db disk \<Rightarrow> 'db disk option" where
  [code]: "store_hm_loop sql strs key hm it d =
     Option.bind (hashmap_iterator_next hm it) (\<lambda>(node, it).
       if node = NULL then Some d
       else Option.bind (strs node) (\<lambda>s.
            Option.bind (string_get s) (\<lambda>data.
            Option.bind (h_key hm node) (\<lambda>nkey.
            Option.bind (exec_code sql d DISK_STORE_QUERY [key, nkey, ''hashmap'', data]) (\<lambda>(_, d).
              store_hm_loop sql strs key hm it d)))))"

definition disk_store_hm ::
  "'db sqlite \<Rightarrow> (addr \<rightharpoonup> xstring) \<Rightarrow> 'db disk \<Rightarrow> string \<Rightarrow> hashmap \<Rightarrow> (int \<times> 'db disk) option" where
  "disk_store_hm sql strs d key hm =
     map_option (\<lambda>d. (- XFIREDB_OK, d)) (store_hm_loop sql strs key hm (hashmap_new_iterator hm) d)"

definition disk_store_set_key :: "'db sqlite \<Rightarrow> 'db disk \<Rightarrow> string \<Rightarrow> string \<Rightarrow> (int \<times> 'db disk) option" where
  "disk_store_set_key sql d key skey = exec_code sql d DISK_STORE_QUERY [key, skey, ''set'', ''null'']"

definition disk_store_list_entry :: "'db sqlite \<Rightarrow> 'db disk \<Rightarrow> string \<Rightarrow> string \<Rightarrow> (int \<times> 'db disk) option" where
  "disk_store_list_entry sql d key data = exec_code sql d DISK_STORE_QUERY [key, ''null'', ''list'', data]"

primrec store_list_loop ::
  "'db sqlite \<Rightarrow> (node \<rightharpoonup> xstring) \<Rightarrow> string \<Rightarrow> node list \<Rightarrow> 'db disk \<Rightarrow> (int \<times> 'db disk) option" where
  "store_list_loop sql strs key [] d = Some (- XFIREDB_OK, d)"
| "store_list_loop sql strs key (c # cs) d =
     Option.bind (strs c) (\<lambda>s.
     Option.bind (string_get s) (\<lambda>data.
     Option.bind (disk_store_list_entry sql d key data) (\<lambda>(rc, d).
       if rc \<noteq> 0 then Some (- XFIREDB_ERR, d) else store_list_loop sql strs key cs d)))"

definition disk_store_list ::
  "'db sqlite \<Rightarrow> (node \<rightharpoonup> xstring) \<Rightarrow> 'db disk \<Rightarrow> string \<Rightarrow> list_head \<Rightarrow> (int \<times> 'db disk) option" where
  "disk_store_list sql strs d key lh =
     Option.bind (list_for_each lh) (\<lambda>cs. store_list_loop sql strs key cs d)"

definition disk_store_string :: "'db sqlite \<Rightarrow> 'db disk \<Rightarrow> string \<Rightarrow> string \<Rightarrow> (int \<times> 'db disk) option" where
  "disk_store_string sql d key data =
     Option.bind (xfiredb_sprintf DISK_STORE_QUERY [key, ''null'', ''string'', data]) (\<lambda>query.
       case sqlite3_exec sql d query of
         (rc, _, d) \<Rightarrow> if rc \<noteq> SQLITE_OK then Some (- XFIREDB_ERR, d) else Some (rc, d))"

definition disk_update_hm ::
  "'db sqlite \<Rightarrow> 'db disk \<Rightarrow> string \<Rightarrow> string \<Rightarrow> string \<Rightarrow> (int \<times> 'db disk) option" where
  "disk_update_hm sql d key nodekey data = exec_code sql d DISK_UPDATE_HM_QUERY [data, key, nodekey]"

definition disk_update_list ::
  "'db sqlite \<Rightarrow> 'db disk \<Rightarrow> string \<Rightarrow> string \<Rightarrow> string \<Rightarrow> (int \<times> 'db disk) option" where
  "disk_update_list sql d key data newdata = exec_code sql d DISK_UPDATE_LIST_QUERY [newdata, key, data]"

definition disk_update_string :: "'db sqlite \<Rightarrow> 'db disk \<Rightarrow> string \<Rightarrow> string \<Rightarrow> (int \<times> 'db disk) option" where
  "disk_update_string sql d key data = exec_code sql d DISK_UPDATE_STRING_QUERY [data, key]"

definition disk_delete_hashmapnode :: "'db sqlite \<Rightarrow> 'db disk \<Rightarrow> string \<Rightarrow> string \<Rightarrow> (int \<times> 'db disk) option" where
  "disk_delete_hashmapnode sql d key nodekey = exec_code sql d DISK_DELETE_HM_QUERY [key, nodekey]"

definition disk_delete_set_key :: "'db sqlite \<Rightarrow> 'db disk \<Rightarrow> string \<Rightarrow> string \<Rightarrow> (int \<times> 'db disk) option" where
  "disk_delete_set_key sql d key skey = exec_code sql d DISK_DELETE_SET_QUERY [key, skey]"

definition disk_delete_list :: "'db sqlite \<Rightarrow> 'db disk \<Rightarrow> string \<Rightarrow> string \<Rightarrow> (int \<times> 'db disk) option" where
  "disk_delete_list sql d key data = exec_code sql d DISK_DELETE_LIST_QUERY [key, data]"

definition disk_delete_string :: "'db sqlite \<Rightarrow> 'db disk \<Rightarrow> string \<Rightarrow> (int \<times> 'db disk) option" where
  "disk_delete_string sql d key = exec_code sql d DISK_DELETE_STRING_QUERY [key]"

text \<open>
  \<^verbatim>\<open>disk_size\<close>: the hook stores the number of columns of each row; without a row the result is
  the uninitialised variable, \<^const>\<open>None\<close>.
\<close>

definition disk_size :: "'db sqlite \<Rightarrow> 'db disk \<Rightarrow> (int option \<times> 'db disk)" where
  "disk_size sql d =
     (case sqlite3_exec sql d DISK_SELECT_ALL of
        (rc, rows, d) \<Rightarrow>
          if rc \<noteq> SQLITE_OK then (Some (- XFIREDB_ERR), d)
          else (if rows = [] then None else Some (int (length (last rows))), d))"

text \<open>
  \<^verbatim>\<open>disk_load\<close> and \<^verbatim>\<open>disk_load_key\<close>: the hook runs on a state \<open>'e\<close> and may fail. Both return
  \<^verbatim>\<open>-XFIREDB_ERR\<close> whether the query fails or not.
\<close>

definition run_hook :: "(string list \<Rightarrow> 'e \<Rightarrow> 'e option) \<Rightarrow> string list list \<Rightarrow> 'e \<Rightarrow> 'e option" where
  "run_hook hook rows e = fold (\<lambda>row st. Option.bind st (hook row)) rows (Some e)"

definition disk_load_key ::
  "'db sqlite \<Rightarrow> 'db disk \<Rightarrow> string \<Rightarrow> (string list \<Rightarrow> 'e \<Rightarrow> 'e option) \<Rightarrow> 'e \<Rightarrow> (int \<times> 'db disk \<times> 'e) option" where
  "disk_load_key sql d key hook e =
     Option.bind (xfiredb_sprintf DISK_LOAD_QUERY [key]) (\<lambda>query.
       case sqlite3_exec sql d query of
         (rc, rows, d) \<Rightarrow> map_option (\<lambda>e. (- XFIREDB_ERR, d, e)) (run_hook hook rows e))"

definition disk_load ::
  "'db sqlite \<Rightarrow> 'db disk \<Rightarrow> (string list \<Rightarrow> 'e \<Rightarrow> 'e option) \<Rightarrow> 'e \<Rightarrow> (int \<times> 'db disk \<times> 'e) option" where
  "disk_load sql d hook e =
     (case sqlite3_exec sql d DISK_SELECT_ALL of
        (rc, rows, d) \<Rightarrow> map_option (\<lambda>e. (- XFIREDB_ERR, d, e)) (run_hook hook rows e))"

section \<open>Changes of the rows\<close>

text \<open>Text that can stand between two quotes of a query.\<close>

definition plain :: "string \<Rightarrow> bool" where
  "plain s \<longleftrightarrow> sq \<notin> set s \<and> cstr s"

definition set_where :: "(row \<Rightarrow> bool) \<Rightarrow> string \<Rightarrow> row multiset \<Rightarrow> row multiset" where
  "set_where P v T = image_mset (\<lambda>r. if P r then r\<lparr>r_value := v\<rparr> else r) T"

definition del_where :: "(row \<Rightarrow> bool) \<Rightarrow> row multiset \<Rightarrow> row multiset" where
  "del_where P T = filter_mset (\<lambda>r. \<not> P r) T"

definition list_row :: "string \<Rightarrow> string \<Rightarrow> row \<Rightarrow> bool" where
  "list_row k v r \<longleftrightarrow> r_key r = k \<and> r_value r = v \<and> r_type r = ''list''"

definition typed_row :: "string \<Rightarrow> string \<Rightarrow> string \<Rightarrow> row \<Rightarrow> bool" where
  "typed_row t k s r \<longleftrightarrow> r_type r = t \<and> r_key r = k \<and> r_skey r = s"

definition string_row :: "string \<Rightarrow> row \<Rightarrow> bool" where
  "string_row k r \<longleftrightarrow> r_type r = ''string'' \<and> r_key r = k"

section \<open>The operations on the rows\<close>

definition disk_rows :: "('db \<Rightarrow> row multiset option) \<Rightarrow> 'db disk \<Rightarrow> row multiset option" where
  "disk_rows tbl d = tbl (handle d)"

text \<open>The rows that the code writes: a list row has no secondary key.\<close>

definition rows_ok :: "row multiset \<Rightarrow> bool" where
  "rows_ok T \<longleftrightarrow> (\<forall>r\<in>#T. r_type r = ''list'' \<longrightarrow> r_skey r = ''null'')"

text \<open>\<open>runs tbl f T'\<close>: the operation returns success and leaves the rows \<open>T'\<close>.\<close>

definition runs :: "('db \<Rightarrow> row multiset option) \<Rightarrow> (int \<times> 'db disk) option \<Rightarrow> row multiset \<Rightarrow> bool" where
  "runs tbl res T' \<longleftrightarrow> (\<exists>d'. res = Some (- XFIREDB_OK, d') \<and> disk_rows tbl d' = Some T')"

lemma store_string_exec: "disk_store_string sql d key data = exec_code sql d DISK_STORE_QUERY [key, ''null'', ''string'', data]"
  by (auto simp: disk_store_string_def exec_code_def xdb_defs split: option.splits prod.splits)

lemma one_list_row:
  assumes "rows_ok T" "one_where (list_row k v) f T T'" "mk_row k ''null'' ''list'' v = r"
  shows "T' = (if r \<in># T then T - {#r#} + f r else T)"
proof -
  have "x = r \<longleftrightarrow> list_row k v x" if "x \<in># T" for x
    using that assms(1,3) by (auto simp: rows_ok_def list_row_def mk_row_def)
  then show ?thesis
    using assms(2) unfolding one_where_def by (auto split: if_splits)
qed

lemma plain_literals: "plain ''null''" "plain ''string''" "plain ''list''" "plain ''hashmap''" "plain ''set''"
  by (simp_all add: plain_def cstr_def sq_def)

lemmas disk_op_defs = disk_store_hm_node_def disk_store_set_key_def disk_store_list_entry_def store_string_exec
  disk_update_hm_def disk_update_list_def disk_update_string_def disk_delete_hashmapnode_def
  disk_delete_set_key_def disk_delete_list_def disk_delete_string_def

section \<open>What the queries say\<close>

text \<open>The tokens and the statement of a formatted query.\<close>

definition lexes :: "string \<Rightarrow> string list \<Rightarrow> sql_tok list \<Rightarrow> bool" where
  "lexes fmt args ts \<longleftrightarrow> (\<exists>q. xfiredb_sprintf fmt args = Some q \<and> lex q Gap = Some ts)"

definition says :: "string \<Rightarrow> string list \<Rightarrow> sql_stmt \<Rightarrow> bool" where
  "says fmt args st \<longleftrightarrow> (\<exists>q. xfiredb_sprintf fmt args = Some q \<and> sql_text q = Some st)"

definition noconv :: "string \<Rightarrow> bool" where
  "noconv s \<longleftrightarrow> CHR ''%'' \<notin> set s"

lemma sprintf_literal:
  "noconv p \<Longrightarrow> xfiredb_sprintf (p @ fmt) args = map_option ((@) p) (xfiredb_sprintf fmt args)"
proof (induction p)
  case (Cons c p)
  then show ?case
    by (cases "p @ fmt") (auto simp: noconv_def option.map_comp comp_def)
qed (cases "xfiredb_sprintf fmt args"; simp)

lemma lexes_arg:
  assumes "noconv p" "sq \<notin> set p" "lex p Gap = Some ps" "plain a" "lexes fmt args ts"
  shows "lexes (p @ quoted ''%s'' @ fmt) (a # args) (ps @ Text a # ts)"
proof -
  obtain q where q: "xfiredb_sprintf fmt args = Some q" "lex q Gap = Some ts"
    using assms(5) by (auto simp: lexes_def)
  have "noconv (p @ [sq])" "noconv [sq]"
    using assms(1) by (simp_all add: noconv_def sq_def)
  then have "xfiredb_sprintf ((p @ [sq]) @ ''%s'' @ [sq] @ fmt) (a # args) = Some (p @ sq # a @ sq # q)"
    using q(1) by (simp only: sprintf_literal) (simp add: sprintf_literal [of "[sq]", simplified])
  then show ?thesis
    using lex_text [OF assms(2,3), of a q] assms(4) q(2) by (simp add: lexes_def quoted_def plain_def cstr_def)
qed

lemma lexes_fix:
  assumes "noconv p" "sq \<notin> set p" "lex p Gap = Some ps" "noconv f" "plain f" "lexes fmt args ts"
  shows "lexes (p @ quoted f @ fmt) args (ps @ Text f # ts)"
proof -
  obtain q where q: "xfiredb_sprintf fmt args = Some q" "lex q Gap = Some ts"
    using assms(6) by (auto simp: lexes_def)
  have "noconv (p @ quoted f)"
    using assms(1,4) by (simp add: noconv_def quoted_def sq_def)
  then have "xfiredb_sprintf ((p @ quoted f) @ fmt) args = Some ((p @ quoted f) @ q)"
    using q(1) by (simp only: sprintf_literal) simp
  then show ?thesis
    using lex_text [OF assms(2,3), of f q] assms(5) q(2) by (simp add: lexes_def quoted_def plain_def cstr_def)
qed

lemma lexes_end: "noconv p \<Longrightarrow> lex p Gap = Some ps \<Longrightarrow> lexes p args ps"
  using sprintf_literal [of p "[]" args] by (simp add: lexes_def)

lemma lexes_says: "lexes fmt args ts \<Longrightarrow> sql_parse ts = Some st \<Longrightarrow> says fmt args st"
  by (auto simp: lexes_def says_def sql_text_def)

text \<open>The tokens of the literal parts of the queries.\<close>

lemma lex_parts:
  "lex ''INSERT INTO xfiredb_data (db_key, db_secondary_key, db_type, db_value) VALUES ('' Gap =
     Some [Word ''INSERT'', Word ''INTO'', table, Sym CHR ''('', Word ''DB_KEY'', Sym CHR '','', Word ''DB_SECONDARY_KEY'',
       Sym CHR '','', Word ''DB_TYPE'', Sym CHR '','', Word ''DB_VALUE'', Sym CHR '')'', Word ''VALUES'', Sym CHR ''('']"
  "lex '', '' Gap = Some [Sym CHR '','']"
  "lex '');'' Gap = Some [Sym CHR '')'', Sym CHR '';'']"
  "lex '';'' Gap = Some [Sym CHR '';'']"
  "lex [] Gap = Some []"
  "lex ''SELECT * FROM xfiredb_data WHERE db_key='' Gap =
     Some [Word ''SELECT'', Sym CHR ''*'', Word ''FROM'', table, Word ''WHERE'', Word ''DB_KEY'', Sym CHR ''='']"
  "lex ''UPDATE xfiredb_data SET db_value = '' Gap =
     Some [Word ''UPDATE'', table, Word ''SET'', Word ''DB_VALUE'', Sym CHR ''='']"
  "lex '' WHERE db_key = '' Gap = Some [Word ''WHERE'', Word ''DB_KEY'', Sym CHR ''='']"
  "lex '' AND db_secondary_key = '' Gap = Some [Word ''AND'', Word ''DB_SECONDARY_KEY'', Sym CHR ''='']"
  "lex '' AND db_type = '' Gap = Some [Word ''AND'', Word ''DB_TYPE'', Sym CHR ''='']"
  "lex '' AND db_value = '' Gap = Some [Word ''AND'', Word ''DB_VALUE'', Sym CHR ''='']"
  "lex '' AND db_key = '' Gap = Some [Word ''AND'', Word ''DB_KEY'', Sym CHR ''='']"
  "lex '' LIMIT 1);'' Gap = Some [Word ''LIMIT'', Word ''1'', Sym CHR '')'', Sym CHR '';'']"
  "lex '' WHERE ROWID IN (SELECT ROWID FROM xfiredb_data WHERE db_key = '' Gap =
     Some [Word ''WHERE'', Word ''ROWID'', Word ''IN'', Sym CHR ''('', Word ''SELECT'', Word ''ROWID'', Word ''FROM'', table,
       Word ''WHERE'', Word ''DB_KEY'', Sym CHR ''='']"
  "lex ''DELETE FROM xfiredb_data WHERE db_type = '' Gap =
     Some [Word ''DELETE'', Word ''FROM'', table, Word ''WHERE'', Word ''DB_TYPE'', Sym CHR ''='']"
  "lex ''DELETE FROM xfiredb_data WHERE ROWID in (SELECT ROWID FROM xfiredb_data WHERE db_key = '' Gap =
     Some [Word ''DELETE'', Word ''FROM'', table, Word ''WHERE'', Word ''ROWID'', Word ''IN'', Sym CHR ''('', Word ''SELECT'',
       Word ''ROWID'', Word ''FROM'', table, Word ''WHERE'', Word ''DB_KEY'', Sym CHR ''='']"
  by code_simp+

text \<open>The formats with their literals joined.\<close>

lemma query_shapes:
  "DISK_STORE_QUERY = ''INSERT INTO xfiredb_data (db_key, db_secondary_key, db_type, db_value) VALUES ('' @
     quoted ''%s'' @ '', '' @ quoted ''%s'' @ '', '' @ quoted ''%s'' @ '', '' @ quoted ''%s'' @ '');''"
  "DISK_LOAD_QUERY = ''SELECT * FROM xfiredb_data WHERE db_key='' @ quoted ''%s'' @ []"
  "DISK_UPDATE_HM_QUERY = ''UPDATE xfiredb_data SET db_value = '' @ quoted ''%s'' @ '' WHERE db_key = '' @ quoted ''%s'' @
     '' AND db_secondary_key = '' @ quoted ''%s'' @ '';''"
  "DISK_UPDATE_STRING_QUERY = ''UPDATE xfiredb_data SET db_value = '' @ quoted ''%s'' @ '' WHERE db_key = '' @
     quoted ''%s'' @ '' AND db_type = '' @ quoted ''string'' @ '';''"
  "DISK_UPDATE_LIST_QUERY = ''UPDATE xfiredb_data SET db_value = '' @ quoted ''%s'' @
     '' WHERE ROWID IN (SELECT ROWID FROM xfiredb_data WHERE db_key = '' @ quoted ''%s'' @
     '' AND db_value = '' @ quoted ''%s'' @ '' AND db_type = '' @ quoted ''list'' @ '' LIMIT 1);''"
  "DISK_DELETE_STRING_QUERY = ''DELETE FROM xfiredb_data WHERE db_type = '' @ quoted ''string'' @ '' AND db_key = '' @
     quoted ''%s'' @ '';''"
  "DISK_DELETE_HM_QUERY = ''DELETE FROM xfiredb_data WHERE db_type = '' @ quoted ''hashmap'' @ '' AND db_key = '' @
     quoted ''%s'' @ '' AND db_secondary_key = '' @ quoted ''%s'' @ '';''"
  "DISK_DELETE_SET_QUERY = ''DELETE FROM xfiredb_data WHERE db_type = '' @ quoted ''set'' @ '' AND db_key = '' @
     quoted ''%s'' @ '' AND db_secondary_key = '' @ quoted ''%s'' @ '';''"
  "DISK_DELETE_LIST_QUERY = ''DELETE FROM xfiredb_data WHERE ROWID in (SELECT ROWID FROM xfiredb_data WHERE db_key = '' @
     quoted ''%s'' @ '' AND db_value = '' @ quoted ''%s'' @ '' AND db_type = '' @ quoted ''list'' @ '' LIMIT 1);''"
  by (simp_all add: DISK_STORE_QUERY_def DISK_UPDATE_HM_QUERY_def DISK_UPDATE_LIST_QUERY_def
    DISK_UPDATE_STRING_QUERY_def DISK_DELETE_STRING_QUERY_def DISK_DELETE_LIST_QUERY_def
    DISK_DELETE_HM_QUERY_def DISK_DELETE_SET_QUERY_def DISK_LOAD_QUERY_def)

text \<open>The statements of the queries.\<close>

lemma query_says:
  assumes "plain k" "plain s" "plain t" "plain v" "plain w"
  shows "says DISK_STORE_QUERY [k, s, t, v] (Insert columns [k, s, t, v])"
    and "says DISK_LOAD_QUERY [k] (Select [(''DB_KEY'', k)])"
    and "says DISK_UPDATE_HM_QUERY [v, k, s] (Update ''DB_VALUE'' v (Where [(''DB_KEY'', k), (''DB_SECONDARY_KEY'', s)]))"
    and "says DISK_UPDATE_STRING_QUERY [v, k] (Update ''DB_VALUE'' v (Where [(''DB_KEY'', k), (''DB_TYPE'', ''string'')]))"
    and "says DISK_UPDATE_LIST_QUERY [w, k, v]
      (Update ''DB_VALUE'' w (OneOf [(''DB_KEY'', k), (''DB_VALUE'', v), (''DB_TYPE'', ''list'')]))"
    and "says DISK_DELETE_STRING_QUERY [k] (Delete (Where [(''DB_TYPE'', ''string''), (''DB_KEY'', k)]))"
    and "says DISK_DELETE_HM_QUERY [k, s]
      (Delete (Where [(''DB_TYPE'', ''hashmap''), (''DB_KEY'', k), (''DB_SECONDARY_KEY'', s)]))"
    and "says DISK_DELETE_SET_QUERY [k, s]
      (Delete (Where [(''DB_TYPE'', ''set''), (''DB_KEY'', k), (''DB_SECONDARY_KEY'', s)]))"
    and "says DISK_DELETE_LIST_QUERY [k, v] (Delete (OneOf [(''DB_KEY'', k), (''DB_VALUE'', v), (''DB_TYPE'', ''list'')]))"
  unfolding query_shapes
  by (rule lexes_says,
    ((rule lexes_arg lexes_fix, simp add: noconv_def, simp add: sq_def, rule lex_parts,
       (rule assms | (simp add: noconv_def, rule plain_literals)))+,
     rule lexes_end, simp add: noconv_def, rule lex_parts)[1],
    code_simp)+

lemma fixed_says:
  "sql_text DISK_SELECT_ALL = Some (Select [])" "sql_text DISK_CHECK_TABLE = Some CheckTable"
  "sql_text DISK_CREATE_TABLE = Some (CreateTable columns)" "sql_text DISK_CLEAR_QUERY = Some SyntaxError"
  by code_simp+

section \<open>The effect of the queries\<close>

lemma change_where:
  "change (Where es) (\<lambda>r. {#set_col ''DB_VALUE'' v r#}) T T' \<longleftrightarrow> T' = set_where (satisfies es) v T"
  "change (Where es) (\<lambda>_. {#}) T T' \<longleftrightarrow> T' = del_where (satisfies es) T"
proof -
  have "\<Sum>\<^sub># (image_mset (\<lambda>r. if satisfies es r then {#set_col ''DB_VALUE'' v r#} else {#r#}) T) = set_where (satisfies es) v T"
    "\<Sum>\<^sub># (image_mset (\<lambda>r. if satisfies es r then {#} else {#r#}) T) = del_where (satisfies es) T"
    by (induction T) (auto simp: set_where_def del_where_def set_col_def)
  then show "change (Where es) (\<lambda>r. {#set_col ''DB_VALUE'' v r#}) T T' \<longleftrightarrow> T' = set_where (satisfies es) v T"
    "change (Where es) (\<lambda>_. {#}) T T' \<longleftrightarrow> T' = del_where (satisfies es) T"
    by simp_all
qed

lemma fits_rows:
  "satisfies [(''DB_KEY'', k), (''DB_SECONDARY_KEY'', s)] = (\<lambda>r. r_key r = k \<and> r_skey r = s)"
  "satisfies [(''DB_KEY'', k), (''DB_TYPE'', ''string'')] = string_row k"
  "satisfies [(''DB_TYPE'', ''string''), (''DB_KEY'', k)] = string_row k"
  "satisfies [(''DB_TYPE'', t), (''DB_KEY'', k), (''DB_SECONDARY_KEY'', s)] = typed_row t k s"
  "satisfies [(''DB_KEY'', k), (''DB_VALUE'', v), (''DB_TYPE'', ''list'')] = list_row k v"
  "satisfies [(''DB_KEY'', k)] = (\<lambda>r. r_key r = k)" "satisfies [] = (\<lambda>r. True)"
  by (auto simp: satisfies_def col_def string_row_def typed_row_def list_row_def)

lemma says_runs:
  assumes "says fmt args st" "sqlite_sem sql tbl" "disk_rows tbl d = Some T"
    and "\<And>rc out db'. effect tbl st (handle d) rc out db' \<Longrightarrow> rc = SQLITE_OK \<and> (\<exists>T'. tbl db' = Some T' \<and> R T')"
  shows "\<exists>T'. R T' \<and> runs tbl (exec_code sql d fmt args) T'"
proof -
  obtain q where q: "xfiredb_sprintf fmt args = Some q" "sql_text q = Some st"
    using assms(1) by (auto simp: says_def)
  obtain rc out db' where r: "sql q (handle d) = (rc, out, db')" "effect tbl st (handle d) rc out db'"
    using sqlite_semE [OF assms(2) q(2)] .
  obtain T' where "rc = SQLITE_OK" "tbl db' = Some T'" "R T'"
    using assms(4) [OF r(2)] by blast
  then show ?thesis
    using r(1) q(1) by (auto simp: runs_def exec_code_def sqlite3_exec_def disk_rows_def)
qed

lemma sqlite_writes:
  assumes "sqlite_sem sql tbl" "disk_rows tbl d = Some T" "plain k" "plain s" "plain t" "plain v"
  shows "runs tbl (exec_code sql d DISK_STORE_QUERY [k, s, t, v]) (add_mset (mk_row k s t v) T)"
    and "runs tbl (exec_code sql d DISK_UPDATE_HM_QUERY [v, k, s]) (set_where (\<lambda>r. r_key r = k \<and> r_skey r = s) v T)"
    and "runs tbl (exec_code sql d DISK_UPDATE_STRING_QUERY [v, k]) (set_where (string_row k) v T)"
    and "runs tbl (exec_code sql d DISK_DELETE_STRING_QUERY [k]) (del_where (string_row k) T)"
    and "runs tbl (exec_code sql d DISK_DELETE_HM_QUERY [k, s]) (del_where (typed_row ''hashmap'' k s) T)"
    and "runs tbl (exec_code sql d DISK_DELETE_SET_QUERY [k, s]) (del_where (typed_row ''set'' k s) T)"
proof -
  note q = query_says [OF assms(3-6,6)]
  have "new_row columns [k, s, t, v] = mk_row k s t v"
    by (simp add: new_row_def columns_def set_col_def mk_row_def)
  then show "runs tbl (exec_code sql d DISK_STORE_QUERY [k, s, t, v]) (add_mset (mk_row k s t v) T)"
    and "runs tbl (exec_code sql d DISK_UPDATE_HM_QUERY [v, k, s]) (set_where (\<lambda>r. r_key r = k \<and> r_skey r = s) v T)"
    and "runs tbl (exec_code sql d DISK_UPDATE_STRING_QUERY [v, k]) (set_where (string_row k) v T)"
    and "runs tbl (exec_code sql d DISK_DELETE_STRING_QUERY [k]) (del_where (string_row k) T)"
    and "runs tbl (exec_code sql d DISK_DELETE_HM_QUERY [k, s]) (del_where (typed_row ''hashmap'' k s) T)"
    and "runs tbl (exec_code sql d DISK_DELETE_SET_QUERY [k, s]) (del_where (typed_row ''set'' k s) T)"
    using says_runs [OF q(1) assms(1,2), of "\<lambda>T'. T' = add_mset (mk_row k s t v) T"]
      says_runs [OF q(3) assms(1,2), of "\<lambda>T'. T' = set_where (\<lambda>r. r_key r = k \<and> r_skey r = s) v T"]
      says_runs [OF q(4) assms(1,2), of "\<lambda>T'. T' = set_where (string_row k) v T"]
      says_runs [OF q(6) assms(1,2), of "\<lambda>T'. T' = del_where (string_row k) T"]
      says_runs [OF q(7) assms(1,2), of "\<lambda>T'. T' = del_where (typed_row ''hashmap'' k s) T"]
      says_runs [OF q(8) assms(1,2), of "\<lambda>T'. T' = del_where (typed_row ''set'' k s) T"] assms(2)
    by (simp_all del: change.simps add: change_where fits_rows disk_rows_def)
qed

text \<open>The rows that the queries for loading return.\<close>

lemma sqlite_reads:
  assumes "sqlite_sem sql tbl" "disk_rows tbl d = Some T"
  shows "\<exists>rows. sql DISK_SELECT_ALL (handle d) = (SQLITE_OK, map cells rows, handle d) \<and> mset rows = T" (is ?all)
    and "plain k \<Longrightarrow> \<exists>q rows. xfiredb_sprintf DISK_LOAD_QUERY [k] = Some q \<and>
      sql q (handle d) = (SQLITE_OK, map cells rows, handle d) \<and> mset rows = filter_mset (\<lambda>r. r_key r = k) T"
proof -
  have sel: "\<exists>rows. sql q (handle d) = (SQLITE_OK, map cells rows, handle d) \<and> mset rows = filter_mset (satisfies es) T"
    if st: "sql_text q = Some (Select es)" for q es
  proof -
    obtain rc out db' where "sql q (handle d) = (rc, out, db')" "effect tbl (Select es) (handle d) rc out db'"
      using sqlite_semE [OF assms(1) st] .
    then show ?thesis
      using assms(2) by (auto simp: disk_rows_def)
  qed
  show ?all
    using sel [OF fixed_says(1)] by (simp add: fits_rows)
  show "\<exists>q rows. xfiredb_sprintf DISK_LOAD_QUERY [k] = Some q \<and>
      sql q (handle d) = (SQLITE_OK, map cells rows, handle d) \<and> mset rows = filter_mset (\<lambda>r. r_key r = k) T" if "plain k"
    using query_says(2) [OF that plain_literals(1,1,1,1)] sel unfolding says_def by (force simp: fits_rows)
qed

lemma disk_stores:
  assumes "sqlite_sem sql tbl" "disk_rows tbl d = Some T" "plain k" "plain v"
  shows "runs tbl (disk_store_string sql d k v) (add_mset (mk_row k ''null'' ''string'' v) T)"
    and "runs tbl (disk_store_list_entry sql d k v) (add_mset (mk_row k ''null'' ''list'' v) T)"
    and "runs tbl (disk_store_set_key sql d k v) (add_mset (mk_row k v ''set'' ''null'') T)"
    and "plain s \<Longrightarrow> runs tbl (disk_store_hm_node sql d k s v) (add_mset (mk_row k s ''hashmap'' v) T)"
  unfolding disk_op_defs by (rule sqlite_writes(1); use assms plain_literals in simp)+

lemma disk_updates:
  assumes "sqlite_sem sql tbl" "disk_rows tbl d = Some T" "plain k" "plain v"
  shows "runs tbl (disk_update_string sql d k v) (set_where (string_row k) v T)"
    and "plain s \<Longrightarrow> runs tbl (disk_update_hm sql d k s v) (set_where (\<lambda>r. r_key r = k \<and> r_skey r = s) v T)"
  unfolding disk_op_defs
  using sqlite_writes(2,3) [OF assms(1-3) _ plain_literals(1) assms(4)] plain_literals(1) by blast+

lemma disk_deletes:
  assumes "sqlite_sem sql tbl" "disk_rows tbl d = Some T" "plain k"
  shows "runs tbl (disk_delete_string sql d k) (del_where (string_row k) T)"
    and "plain s \<Longrightarrow> runs tbl (disk_delete_hashmapnode sql d k s) (del_where (typed_row ''hashmap'' k s) T)"
    and "plain s \<Longrightarrow> runs tbl (disk_delete_set_key sql d k s) (del_where (typed_row ''set'' k s) T)"
  unfolding disk_op_defs
  using sqlite_writes(4-6) [OF assms(1-3) _ plain_literals(1) plain_literals(1)] plain_literals(1) by blast+

lemma disk_list_changes:
  assumes "sqlite_sem sql tbl" "disk_rows tbl d = Some T" "rows_ok T" "plain k" "plain v" "plain w"
  shows "runs tbl (disk_delete_list sql d k v) (T - {#mk_row k ''null'' ''list'' v#})" (is ?del)
    and "runs tbl (disk_update_list sql d k v w)
      (if mk_row k ''null'' ''list'' v \<in># T
       then add_mset (mk_row k ''null'' ''list'' w) (T - {#mk_row k ''null'' ''list'' v#}) else T)" (is ?upd)
proof -
  note q = query_says [OF assms(4) plain_literals(1,1) assms(5,6)]
  obtain T' where T': "one_where (list_row k v) (\<lambda>_. {#}) T T'" "runs tbl (exec_code sql d DISK_DELETE_LIST_QUERY [k, v]) T'"
    using says_runs [OF q(9) assms(1,2), of "one_where (list_row k v) (\<lambda>_. {#}) T"] assms(2)
    by (auto simp: fits_rows disk_rows_def)
  have "T' = T - {#mk_row k ''null'' ''list'' v#}"
    using one_list_row [OF assms(3) T'(1) refl] by (simp add: diff_single_trivial split: if_splits)
  then show ?del
    using T'(2) by (simp add: disk_delete_list_def)
  obtain U where U: "one_where (list_row k v) (\<lambda>r. {#set_col ''DB_VALUE'' w r#}) T U"
      "runs tbl (exec_code sql d DISK_UPDATE_LIST_QUERY [w, k, v]) U"
    using says_runs [OF q(5) assms(1,2), of "one_where (list_row k v) (\<lambda>r. {#set_col ''DB_VALUE'' w r#}) T"] assms(2)
    by (auto simp: fits_rows disk_rows_def)
  have "U = (if mk_row k ''null'' ''list'' v \<in># T
      then add_mset (mk_row k ''null'' ''list'' w) (T - {#mk_row k ''null'' ''list'' v#}) else T)"
    using one_list_row [OF assms(3) U(1) refl] by (simp add: mk_row_def set_col_def)
  then show ?upd
    using U(2) by (simp add: disk_update_list_def)
qed

section \<open>Correctness\<close>

text \<open>
  C18: for keys and values without a quote, every operation of the disk on an open file reports
  success and changes the rows of the table as its name says: the four stores add one row, the
  updates of a string and of a hash map node rewrite the value of the matching rows, the update
  of a list entry one matching row, and the deletions remove the matching rows, of a list
  entry one.
\<close>

theorem disk_operations_refine_rows:
  assumes "sqlite_sem sql tbl" "disk_rows tbl d = Some T" "rows_ok T" "plain k" "plain s" "plain v" "plain w"
  shows "runs tbl (disk_store_string sql d k v) (add_mset (mk_row k ''null'' ''string'' v) T) \<and>
    runs tbl (disk_store_list_entry sql d k v) (add_mset (mk_row k ''null'' ''list'' v) T) \<and>
    runs tbl (disk_store_hm_node sql d k s v) (add_mset (mk_row k s ''hashmap'' v) T) \<and>
    runs tbl (disk_store_set_key sql d k s) (add_mset (mk_row k s ''set'' ''null'') T) \<and>
    runs tbl (disk_update_string sql d k v) (set_where (string_row k) v T) \<and>
    runs tbl (disk_update_hm sql d k s v) (set_where (\<lambda>r. r_key r = k \<and> r_skey r = s) v T) \<and>
    runs tbl (disk_update_list sql d k v w)
      (if mk_row k ''null'' ''list'' v \<in># T
       then add_mset (mk_row k ''null'' ''list'' w) (T - {#mk_row k ''null'' ''list'' v#}) else T) \<and>
    runs tbl (disk_delete_string sql d k) (del_where (string_row k) T) \<and>
    runs tbl (disk_delete_hashmapnode sql d k s) (del_where (typed_row ''hashmap'' k s) T) \<and>
    runs tbl (disk_delete_set_key sql d k s) (del_where (typed_row ''set'' k s) T) \<and>
    runs tbl (disk_delete_list sql d k v) (T - {#mk_row k ''null'' ''list'' v#})"
  using disk_stores [OF assms(1,2,4,6)] disk_stores(3) [OF assms(1,2,4,5)] disk_updates [OF assms(1,2,4,6)]
    disk_deletes [OF assms(1,2,4)] disk_list_changes [OF assms(1-4,6,7)] assms(5)
  by blast

definition sample_disk :: "row list \<Rightarrow> row list option disk" where
  "sample_disk rs = \<lparr>dbpath = ''test.db'', handle = Some rs, records = 0, initialised = True\<rparr>"

theorem disk_operations_refine_rows_witness:
  "let T = {#mk_row ''k'' ''null'' ''list'' ''a''#}; d = sample_disk [mk_row ''k'' ''null'' ''list'' ''a''] in
    runs mini_tbl (disk_store_string mini_sql d ''k'' ''a'') (add_mset (mk_row ''k'' ''null'' ''string'' ''a'') T) \<and>
    runs mini_tbl (disk_update_list mini_sql d ''k'' ''a'' ''b'') {#mk_row ''k'' ''null'' ''list'' ''b''#} \<and>
    runs mini_tbl (disk_delete_list mini_sql d ''k'' ''a'') {#}"
proof -
  let ?d = "sample_disk [mk_row ''k'' ''null'' ''list'' ''a'']"
  have "disk_rows mini_tbl ?d = Some {#mk_row ''k'' ''null'' ''list'' ''a''#}"
    by (simp add: disk_rows_def sample_disk_def mini_tbl_def)
  moreover have "rows_ok {#mk_row ''k'' ''null'' ''list'' ''a''#}"
    by (simp add: rows_ok_def mk_row_def)
  moreover have "plain ''k''" "plain ''s''" "plain ''a''" "plain ''b''"
    by (simp_all add: plain_def cstr_def sq_def)
  ultimately show ?thesis
    using disk_operations_refine_rows [OF mini_sem, of ?d _ "''k''" "''s''" "''a''" "''b''"]
    by (simp add: Let_def)
qed

text \<open>
  Clearing the disk has no effect. The statement it sends, \<^verbatim>\<open>DELETE * FROM xfiredb_data;\<close>, is not
  SQL, and the failure is only logged.
\<close>

lemma disk_clear_keeps_rows:
  assumes "sqlite_sem sql tbl"
  shows "disk_clear sql d = Some d"
proof -
  obtain rc where "sql DISK_CLEAR_QUERY (handle d) = (rc, [], handle d)" "rc \<noteq> SQLITE_OK"
    using sqlite_semE [OF assms fixed_says(4), of "handle d"] by auto
  moreover have "noconv DISK_CLEAR_QUERY"
    by (simp add: noconv_def DISK_CLEAR_QUERY_def)
  then have "xfiredb_sprintf DISK_CLEAR_QUERY [] = Some DISK_CLEAR_QUERY"
    using sprintf_literal [of DISK_CLEAR_QUERY "[]" "[]"] by simp
  ultimately show ?thesis
    by (simp add: disk_clear_def exec_code_def sqlite3_exec_def)
qed

text \<open>A disk that has just been created has its table: a new one is empty, an old one keeps its rows.\<close>

lemma disk_create_ok:
  assumes "sqlite_sem sql tbl" "opn path = (0, db)"
  shows "\<exists>d. disk_create opn sql path = Some d \<and> disk_rows tbl d = Some (case tbl db of None \<Rightarrow> {#} | Some T \<Rightarrow> T)"
proof -
  obtain rows where r: "sql DISK_CHECK_TABLE db = (SQLITE_OK, rows, db)" "rows = [] \<longleftrightarrow> tbl db = None"
    using sqlite_semE [OF assms(1) fixed_says(2), of db] by auto
  show ?thesis
  proof (cases "tbl db")
    case None
    then obtain db' where "sql DISK_CREATE_TABLE db = (SQLITE_OK, [], db')" "tbl db' = Some {#}"
      using sqlite_semE [OF assms(1) fixed_says(3), of db] by auto
    then show ?thesis
      using r None assms(2) by (simp add: disk_create_def disk_create_main_table_def sqlite3_exec_def disk_rows_def)
  next
    case (Some T)
    then show ?thesis
      using r assms(2) by (simp add: disk_create_def disk_create_main_table_def sqlite3_exec_def disk_rows_def)
  qed
qed

text \<open>A value that contains a quote ends the statement early: what follows is executed as SQL.\<close>

lemma store_query_injection:
  "xfiredb_sprintf DISK_STORE_QUERY [k, ''null'', ''string'', v @ sq # '');'' @ attack] =
   map_option (\<lambda>q. q @ attack @ sq # '');'') (xfiredb_sprintf DISK_STORE_QUERY [k, ''null'', ''string'', v])"
  unfolding query_shapes quoted_def
  by (simp add: sq_def)

end
