(* ===== verification/Bio.thy ===== *)
theory Bio
  imports Disk
begin

text \<open>
  The background I/O queue of \<^verbatim>\<open>storage/bio.c\<close> and its worker. The queue is a doubly linked list in a
  heap of \<^verbatim>\<open>struct bio_q\<close> (address 0 is \<^verbatim>\<open>NULL\<close>); entries are added at the head and popped at the
  tail. The block of a key is a resource of its own: it is released with the entry that points to it, so two
  entries must not share one. The interface the engine relies on is the locale \<open>fifo\<close>. The worker runs as a job of
  \<^verbatim>\<open>os/bg.c\<close> concurrently with the threads that add entries: the relation \<open>bio_step\<close> has one step per
  critical section. A step that adds an entry covers the locked section of \<^verbatim>\<open>bio_queue_add\<close>, the update of the wake counter
  behind it, which no lock protects, and the signal.
\<close>

section \<open>The queue\<close>

datatype bio_operation =
  STRING_ADD | STRING_DEL | STRING_UPDATE | LIST_ADD | LIST_DEL | LIST_UPDATE
| HM_ADD | HM_DEL | HM_UPDATE | SET_ADD | SET_DEL

text \<open>What one entry asks for: key, argument, new data, operation.\<close>

type_synonym bio_item = "string option \<times> string option \<times> string option \<times> bio_operation"

text \<open>
  An entry; \<open>q_blk\<close> is the block that its field \<^verbatim>\<open>key\<close> points to. The blocks of \<^verbatim>\<open>arg\<close> and \<^verbatim>\<open>newdata\<close> belong to the entry:
  every caller hands over new copies.
\<close>

record bio_q =
  q_next :: nat
  q_prev :: nat
  q_item :: bio_item
  q_blk :: nat

text \<open>
  The queue head, with the heap of its entries, the blocks of keys that are allocated and the next address of the
  allocator; then the static counter of \<^verbatim>\<open>bio_try_wakeup_worker\<close> and the number of signals sent so far.
\<close>

record bio_q_head =
  b_next :: nat
  b_tail :: nat
  b_size :: u64
  b_heap :: "nat \<rightharpoonup> bio_q"
  b_blk :: "nat set"
  b_fresh :: nat
  b_wake :: int
  b_signals :: nat

definition bio_init :: bio_q_head where
  "bio_init = \<lparr>b_next = 0, b_tail = 0, b_size = 0, b_heap = Map.empty, b_blk = {}, b_fresh = 1, b_wake = 0, b_signals = 0\<rparr>"

definition bio_size :: "bio_q_head \<Rightarrow> int" where
  "bio_size b = sint (b_size b)"

definition bio_queue_pop :: "bio_q_head \<Rightarrow> (nat \<times> bio_q_head) option" where
  "bio_queue_pop b =
     (let tail = b_tail b in
      if tail = 0 then Some (tail, b)
      else
        (case b_heap b tail of
           None \<Rightarrow> None
         | Some t \<Rightarrow>
             (let b = b\<lparr>b_tail := q_prev t\<rparr> in
              case (if q_prev t \<noteq> 0
                    then (case b_heap b (q_prev t) of
                            None \<Rightarrow> None
                          | Some p \<Rightarrow> Some (b\<lparr>b_heap := (b_heap b)(q_prev t \<mapsto> p\<lparr>q_next := 0\<rparr>)\<rparr>))
                    else Some (b\<lparr>b_next := 0\<rparr>)) of
                None \<Rightarrow> None
              | Some b \<Rightarrow>
                  Some (tail, b\<lparr>b_heap := (b_heap b)(tail \<mapsto> t\<lparr>q_next := 0, q_prev := 0\<rparr>),
                                b_size := b_size b - 1\<rparr>))))"

text \<open>\<^verbatim>\<open>bio_try_wakeup_worker\<close>; a level of -1 divides by zero.\<close>

definition bio_try_wakeup_worker :: "int \<Rightarrow> bio_q_head \<Rightarrow> (int \<times> bio_q_head) option" where
  "bio_try_wakeup_worker persist_level b =
     (let c = b_wake b + 1 in
      if persist_level + 1 = 0 then None
      else if c mod (persist_level + 1) = 0
      then Some (0, b\<lparr>b_wake := 0, b_signals := b_signals b + 1\<rparr>)
      else Some (1, b\<lparr>b_wake := c\<rparr>))"

text \<open>The copy of a key that a caller makes with \<^verbatim>\<open>xfiredb_sprintf\<close> before it adds an entry.\<close>

definition bio_key_copy :: "bio_q_head \<Rightarrow> nat \<times> bio_q_head" where
  "bio_key_copy b = (b_fresh b, b\<lparr>b_fresh := b_fresh b + 1, b_blk := insert (b_fresh b) (b_blk b)\<rparr>)"

text \<open>The part of \<^verbatim>\<open>bio_queue_add\<close> that allocates an entry for the key in the block \<open>k\<close> and links it.\<close>

definition bio_link :: "nat \<Rightarrow> bio_item \<Rightarrow> bio_q_head \<Rightarrow> bio_q_head option" where
  "bio_link k item b =
     (let q = b_fresh b;
          b = b\<lparr>b_fresh := q + 1, b_heap := (b_heap b)(q \<mapsto> \<lparr>q_next = 0, q_prev = 0, q_item = item, q_blk = k\<rparr>)\<rparr>;
          b = b\<lparr>b_size := b_size b + 1\<rparr> in
      if b_next b \<noteq> 0
      then
        (let b = b\<lparr>b_heap := (b_heap b)(q \<mapsto> \<lparr>q_next = b_next b, q_prev = 0, q_item = item, q_blk = k\<rparr>)\<rparr> in
         case b_heap b (b_next b) of
           None \<Rightarrow> None
         | Some n \<Rightarrow> Some (b\<lparr>b_heap := (b_heap b)(b_next b \<mapsto> n\<lparr>q_prev := q\<rparr>), b_next := q\<rparr>))
      else Some (b\<lparr>b_next := q, b_tail := q\<rparr>))"

text \<open>
  \<^verbatim>\<open>bio_queue_add\<close> with the block of the key. From level 3 on it releases the block at once, which is undefined
  when that has happened before.
\<close>

definition bio_queue_put :: "int \<Rightarrow> nat \<Rightarrow> bio_item \<Rightarrow> bio_q_head \<Rightarrow> bio_q_head option" where
  "bio_queue_put persist_level k item b =
     (if persist_level \<ge> 3 then (if k \<in> b_blk b then Some (b\<lparr>b_blk := b_blk b - {k}\<rparr>) else None)
      else Option.bind (bio_link k item b) (\<lambda>b.
           map_option snd (bio_try_wakeup_worker persist_level b)))"

text \<open>Adding an entry with a new copy of its key, as all callers do but one loop of \<^verbatim>\<open>xfiredb_key_delete\<close>.\<close>

definition bio_enqueue :: "bio_item \<Rightarrow> bio_q_head \<Rightarrow> bio_q_head option" where
  "bio_enqueue item b = (case bio_key_copy b of (k, b) \<Rightarrow> bio_link k item b)"

definition bio_queue_add :: "int \<Rightarrow> bio_item \<Rightarrow> bio_q_head \<Rightarrow> bio_q_head option" where
  "bio_queue_add persist_level item b = (case bio_key_copy b of (k, b) \<Rightarrow> bio_queue_put persist_level k item b)"

text \<open>The \<^verbatim>\<open>switch\<close> of the worker; formatting a null pointer is undefined.\<close>

definition bio_dispatch :: "'db sqlite \<Rightarrow> bio_item \<Rightarrow> 'db disk \<Rightarrow> 'db disk option" where
  "bio_dispatch sql item d =
     (case item of (key, arg, newdata, op) \<Rightarrow>
       Option.bind key (\<lambda>key.
       map_option snd
        (case op of
          STRING_ADD \<Rightarrow> Option.bind newdata (\<lambda>newdata. disk_store_string sql d key newdata)
        | STRING_UPDATE \<Rightarrow> Option.bind newdata (\<lambda>newdata. disk_update_string sql d key newdata)
        | STRING_DEL \<Rightarrow> disk_delete_string sql d key
        | LIST_ADD \<Rightarrow> Option.bind newdata (\<lambda>newdata. disk_store_list_entry sql d key newdata)
        | LIST_DEL \<Rightarrow> Option.bind arg (\<lambda>arg. disk_delete_list sql d key arg)
        | LIST_UPDATE \<Rightarrow> Option.bind arg (\<lambda>arg. Option.bind newdata (\<lambda>newdata. disk_update_list sql d key arg newdata))
        | HM_ADD \<Rightarrow> Option.bind arg (\<lambda>arg. Option.bind newdata (\<lambda>newdata. disk_store_hm_node sql d key arg newdata))
        | HM_DEL \<Rightarrow> Option.bind arg (\<lambda>arg. disk_delete_hashmapnode sql d key arg)
        | HM_UPDATE \<Rightarrow> Option.bind arg (\<lambda>arg. Option.bind newdata (\<lambda>newdata. disk_update_hm sql d key arg newdata))
        | SET_ADD \<Rightarrow> Option.bind arg (\<lambda>arg. disk_store_set_key sql d key arg)
        | SET_DEL \<Rightarrow> Option.bind arg (\<lambda>arg. disk_delete_set_key sql d key arg))))"

text \<open>Releasing an entry with its strings: the frees of \<^verbatim>\<open>q->key\<close>, \<^verbatim>\<open>q->arg\<close>, \<^verbatim>\<open>q->newdata\<close> and \<^verbatim>\<open>q\<close>.\<close>

definition bio_free :: "nat \<Rightarrow> bio_q \<Rightarrow> bio_q_head \<Rightarrow> bio_q_head" where
  "bio_free q n b = b\<lparr>b_heap := (b_heap b)(q := None), b_blk := b_blk b - {q_blk n}\<rparr>"

text \<open>
  Popping an entry, reading it and releasing it; a key whose block has been released is undefined. The code releases the entry
  after its operation; nothing else reaches a popped entry in between.
\<close>

definition bio_take :: "bio_q_head \<Rightarrow> (bio_item option \<times> bio_q_head) option" where
  "bio_take b =
     Option.bind (bio_queue_pop b) (\<lambda>(q, b).
       if q = 0 then Some (None, b)
       else Option.bind (b_heap b q) (\<lambda>n.
         if q_blk n \<in> b_blk b then Some (Some (q_item n), bio_free q n b) else None))"

partial_function (option) bio_worker ::
  "'db sqlite \<Rightarrow> bio_q_head \<Rightarrow> 'db disk \<Rightarrow> (bio_q_head \<times> 'db disk) option" where
  [code]: "bio_worker sql b d =
     Option.bind (bio_take b) (\<lambda>(item, b).
       case item of
         None \<Rightarrow> Some (b, d)
       | Some item \<Rightarrow> Option.bind (bio_dispatch sql item d) (\<lambda>d. bio_worker sql b d))"

section \<open>The queue is a FIFO\<close>

locale fifo =
  fixes repr :: "'s \<Rightarrow> 'i list \<Rightarrow> bool"
    and enq :: "'i \<Rightarrow> 's \<Rightarrow> 's option"
    and deq :: "'s \<Rightarrow> ('i option \<times> 's) option"
  assumes enq_law: "repr s xs \<Longrightarrow> \<exists>s'. enq x s = Some s' \<and> repr s' (xs @ [x])"
    and deq_nil: "repr s [] \<Longrightarrow> deq s = Some (None, s)"
    and deq_cons: "repr s (x # xs) \<Longrightarrow> \<exists>s'. deq s = Some (Some x, s') \<and> repr s' xs"
begin

lemma enq_many: "repr s ys \<Longrightarrow> \<exists>s'. fold (\<lambda>x st. Option.bind st (enq x)) xs (Some s) = Some s' \<and> repr s' (ys @ xs)"
proof (induction xs arbitrary: s ys)
  case (Cons x xs)
  then obtain s1 where s1: "enq x s = Some s1" "repr s1 (ys @ [x])"
    using enq_law by blast
  then show ?case
    using Cons.IH [OF s1(2)] by simp
qed simp

lemma deq_oldest: "repr s xs \<Longrightarrow> \<exists>s'. deq s = Some (if xs = [] then None else Some (hd xs), s') \<and> repr s' (tl xs)"
  using deq_nil deq_cons by (cases xs) fastforce+

end

primrec dll :: "(nat \<rightharpoonup> bio_q) \<Rightarrow> nat \<Rightarrow> nat list \<Rightarrow> nat \<Rightarrow> bool" where
  "dll h p [] e \<longleftrightarrow> True"
| "dll h p (a # as) e \<longleftrightarrow> (\<exists>n. h a = Some n \<and> q_prev n = p \<and> q_next n = hd (as @ [e])) \<and> dll h a as e"

definition queue_at :: "bio_q_head \<Rightarrow> nat list \<Rightarrow> bool" where
  "queue_at b as \<longleftrightarrow> dll (b_heap b) 0 as 0 \<and> distinct as \<and> 0 \<notin> set as \<and> (\<forall>a\<in>set as. a < b_fresh b) \<and>
     0 < b_fresh b \<and> b_next b = hd (as @ [0]) \<and> b_tail b = last (0 # as) \<and> b_size b = of_nat (length as)"

definition q_entry_at :: "bio_q_head \<Rightarrow> nat \<Rightarrow> (bio_item \<times> nat) option" where
  "q_entry_at b a = map_option (\<lambda>n. (q_item n, q_blk n)) (b_heap b a)"

text \<open>
  \<open>queued b es\<close>: the queue holds the entries \<open>es\<close> with the blocks of their keys, the oldest first. \<open>holds b items\<close>: it
  holds \<open>items\<close>, and every entry has a block of its own.
\<close>

definition queued :: "bio_q_head \<Rightarrow> (bio_item \<times> nat) list \<Rightarrow> bool" where
  "queued b es \<longleftrightarrow> (\<exists>as. queue_at b as \<and> map (q_entry_at b) (rev as) = map Some es)"

definition unshared :: "bio_q_head \<Rightarrow> (bio_item \<times> nat) list \<Rightarrow> bool" where
  "unshared b es \<longleftrightarrow> distinct (map snd es) \<and> snd ` set es \<subseteq> b_blk b \<and> (\<forall>k\<in>b_blk b. k < b_fresh b)"

definition holds :: "bio_q_head \<Rightarrow> bio_item list \<Rightarrow> bool" where
  "holds b items \<longleftrightarrow> (\<exists>es. queued b es \<and> unshared b es \<and> map fst es = items)"

lemma dll_append: "dll h p (xs @ ys) e \<longleftrightarrow> dll h p xs (hd (ys @ [e])) \<and> dll h (last (p # xs)) ys e"
  by (induction xs arbitrary: p) (auto simp: hd_append)

lemma dll_frame: "a \<notin> set xs \<Longrightarrow> dll (h(a := x)) p xs e \<longleftrightarrow> dll h p xs e"
  by (induction xs arbitrary: p) auto

lemma bio_init_holds: "holds bio_init []"
  by (simp add: holds_def queued_def unshared_def queue_at_def bio_init_def)

lemma queued_cong:
  assumes "queued b es" "b_heap b' = b_heap b" "b_next b' = b_next b" "b_tail b' = b_tail b" "b_size b' = b_size b"
    "b_fresh b \<le> b_fresh b'"
  shows "queued b' es"
proof -
  obtain as where q: "queue_at b as" "map (q_entry_at b) (rev as) = map Some es"
    using assms(1) by (auto simp: queued_def)
  have "queue_at b' as"
    using q(1) assms(2-) by (fastforce simp: queue_at_def)
  moreover have "q_entry_at b' = q_entry_at b"
    using assms(2) by (simp add: q_entry_at_def fun_eq_iff)
  ultimately show ?thesis
    using q(2) unfolding queued_def by metis
qed

lemma bio_key_copy_queued: "queued b es \<Longrightarrow> queued (b\<lparr>b_fresh := b_fresh b + 1, b_blk := B\<rparr>) es"
  by (erule queued_cong) simp_all

lemma bio_link_ok:
  assumes "queued b es"
  shows "\<exists>b'. bio_link k item b = Some b' \<and> queued b' (es @ [(item, k)]) \<and> b_blk b' = b_blk b \<and> b_fresh b' = b_fresh b + 1 \<and>
    b_wake b' = b_wake b \<and> b_signals b' = b_signals b"
proof -
  obtain as where q: "queue_at b as" "map (q_entry_at b) (rev as) = map Some es"
    using assms by (auto simp: queued_def)
  let ?q = "b_fresh b" and ?n = "\<lambda>n. \<lparr>q_next = n, q_prev = 0, q_item = item, q_blk = k\<rparr>"
  have new: "?q \<notin> set as" "?q \<noteq> 0"
    using q(1) by (auto simp: queue_at_def)
  show ?thesis
  proof (cases as)
    case Nil
    let ?b = "b\<lparr>b_fresh := ?q + 1, b_size := b_size b + 1, b_heap := (b_heap b)(?q \<mapsto> ?n 0), b_next := ?q, b_tail := ?q\<rparr>"
    have "bio_link k item b = Some ?b" "queue_at ?b [?q]" "q_entry_at ?b ?q = Some (item, k)"
      using q(1) Nil by (simp_all add: bio_link_def queue_at_def Let_def q_entry_at_def)
    then show ?thesis
      using q(2) Nil unfolding queued_def by (intro exI [of _ ?b]) auto
  next
    case (Cons a as')
    then obtain n where n: "b_heap b a = Some n" "q_next n = hd (as' @ [0])" "q_prev n = 0"
      using q(1) by (auto simp: queue_at_def)
    let ?h = "(b_heap b)(?q \<mapsto> ?n a, a \<mapsto> n\<lparr>q_prev := ?q\<rparr>)"
    let ?b = "b\<lparr>b_fresh := ?q + 1, b_size := b_size b + 1, b_heap := ?h, b_next := ?q\<rparr>"
    have e: "bio_link k item b = Some ?b"
      using q(1) Cons n new by (simp add: bio_link_def queue_at_def Let_def fun_upd_twist)
    have "a \<notin> set as'" "?q \<notin> set as'" "?q \<noteq> a"
      using q(1) new Cons by (auto simp: queue_at_def)
    then have "dll ?h 0 (?q # as) 0"
      using q(1) n Cons by (simp add: queue_at_def dll_frame)
    then have "queue_at ?b (?q # as)"
      using q(1) Cons new by (auto simp: queue_at_def less_Suc_eq)
    moreover have "map (q_entry_at ?b) (rev as) = map (q_entry_at b) (rev as)"
      by (rule map_cong) (use new n in \<open>auto simp: q_entry_at_def\<close>)
    moreover have "q_entry_at ?b ?q = Some (item, k)"
      using \<open>?q \<noteq> a\<close> by (simp add: q_entry_at_def)
    ultimately have "queue_at ?b (?q # as) \<and> map (q_entry_at ?b) (rev (?q # as)) = map Some (es @ [(item, k)])"
      using q(2) by simp
    then have "queued ?b (es @ [(item, k)])"
      unfolding queued_def by blast
    then show ?thesis
      using e by simp
  qed
qed

lemma bio_enqueue_ok:
  assumes "holds b items"
  shows "\<exists>b'. bio_enqueue item b = Some b' \<and> holds b' (items @ [item]) \<and> b_wake b' = b_wake b \<and> b_signals b' = b_signals b"
proof -
  obtain es where es: "queued b es" "unshared b es" "map fst es = items"
    using assms by (auto simp: holds_def)
  let ?k = "b_fresh b" and ?b = "b\<lparr>b_fresh := b_fresh b + 1, b_blk := insert (b_fresh b) (b_blk b)\<rparr>"
  obtain b' where b': "bio_link ?k item ?b = Some b'" "queued b' (es @ [(item, ?k)])" "b_blk b' = insert ?k (b_blk b)"
      "b_fresh b' = b_fresh b + 2" "b_wake b' = b_wake b" "b_signals b' = b_signals b"
    using bio_link_ok [of ?b es ?k item] bio_key_copy_queued [OF es(1)] by auto
  have "unshared b' (es @ [(item, ?k)])"
    using es(2) b'(3,4) by (fastforce simp: unshared_def)
  then show ?thesis
    using b' es(3) by (auto simp: bio_enqueue_def bio_key_copy_def holds_def intro!: exI [of _ "es @ [(item, ?k)]"])
qed

lemma bio_take_nil: "holds b [] \<Longrightarrow> bio_take b = Some (None, b)"
  by (auto simp: holds_def queued_def queue_at_def bio_take_def bio_queue_pop_def)

lemma bio_take_entry:
  assumes "queued b ((item, k) # es)"
  shows "if k \<in> b_blk b
    then \<exists>b'. bio_take b = Some (Some item, b') \<and> queued b' es \<and> b_blk b' = b_blk b - {k} \<and> b_fresh b' = b_fresh b
    else bio_take b = None"
proof -
  obtain as where q: "queue_at b as" "map (q_entry_at b) (rev as) = Some (item, k) # map Some es"
    using assms by (auto simp: queued_def)
  then obtain bs a where as: "as = bs @ [a]"
    by (cases as rule: rev_cases) auto
  have it: "q_entry_at b a = Some (item, k)" "map (q_entry_at b) (rev bs) = map Some es"
    using q(2) as by simp_all
  obtain t where t: "b_heap b a = Some t" "q_prev t = last (0 # bs)" "q_item t = item" "q_blk t = k"
    using q(1) as it(1) by (auto simp: queue_at_def dll_append q_entry_at_def)
  have d: "distinct bs" "a \<notin> set bs" "a \<noteq> 0" "0 \<notin> set bs" "b_tail b = a"
    using q(1) as by (auto simp: queue_at_def)
  show ?thesis
  proof (cases bs rule: rev_cases)
    case Nil
    let ?b = "b\<lparr>b_tail := 0, b_next := 0, b_heap := (b_heap b)(a := None), b_blk := b_blk b - {k}, b_size := b_size b - 1\<rparr>"
    have "bio_take b = (if k \<in> b_blk b then Some (Some item, ?b) else None)"
      using t d Nil by (simp add: bio_take_def bio_queue_pop_def bio_free_def Let_def)
    moreover have "queue_at ?b []"
      using q(1) as Nil by (simp add: queue_at_def)
    ultimately show ?thesis
      using it(2) Nil by (auto simp: queued_def)
  next
    case (snoc cs c)
    then obtain m where m: "b_heap b c = Some m" "q_prev m = last (0 # cs)" "q_next m = a"
      using q(1) as by (auto simp: queue_at_def dll_append)
    have c: "c \<noteq> 0" "c \<noteq> a" "c \<notin> set cs" "q_prev t = c"
      using d snoc t by auto
    let ?h = "(b_heap b)(c \<mapsto> m\<lparr>q_next := 0\<rparr>, a := None)"
    let ?b = "b\<lparr>b_tail := c, b_heap := ?h, b_blk := b_blk b - {k}, b_size := b_size b - 1\<rparr>"
    have e: "bio_take b = (if k \<in> b_blk b then Some (Some item, ?b) else None)"
      using t m d c by (simp add: bio_take_def bio_queue_pop_def bio_free_def Let_def fun_upd_twist)
    have "dll (b_heap b) 0 cs c"
      using q(1) as snoc by (simp add: queue_at_def dll_append)
    then have "dll ?h 0 bs 0"
      using m c d snoc by (simp add: dll_append dll_frame)
    then have "queue_at ?b bs"
      using q(1) as snoc d by (auto simp: queue_at_def hd_append)
    moreover have "map (q_entry_at ?b) (rev bs) = map (q_entry_at b) (rev bs)"
      by (rule map_cong) (use d m in \<open>auto simp: q_entry_at_def\<close>)
    ultimately have "queued ?b es"
      using it(2) unfolding queued_def by (metis (mono_tags))
    then show ?thesis
      using e by simp
  qed
qed

lemma bio_take_cons:
  assumes "holds b (item # items)"
  shows "\<exists>b'. bio_take b = Some (Some item, b') \<and> holds b' items"
proof -
  obtain k es where es: "queued b ((item, k) # es)" "unshared b ((item, k) # es)" "map fst es = items"
    using assms by (auto simp: holds_def)
  then obtain b' where b': "bio_take b = Some (Some item, b')" "queued b' es" "b_blk b' = b_blk b - {k}" "b_fresh b' = b_fresh b"
    using bio_take_entry [OF es(1)] by (auto simp: unshared_def)
  have "unshared b' es"
    using es(2) b'(3,4) by (auto simp: unshared_def)
  then show ?thesis
    using b'(1,2) es(3) by (auto simp: holds_def)
qed

interpretation bq: fifo holds bio_enqueue bio_take
proof
  show "\<exists>s'. bio_enqueue x s = Some s' \<and> holds s' (xs @ [x])" if "holds s xs" for s xs x
    using bio_enqueue_ok [OF that] by blast
qed (rule bio_take_nil bio_take_cons, assumption)+

section \<open>What the worker does to the rows\<close>

text \<open>
  An entry is complete when the fields its operation uses are present; they hold no quote.
\<close>

definition given :: "string option \<Rightarrow> bool" where
  "given x \<longleftrightarrow> (case x of None \<Rightarrow> False | Some s \<Rightarrow> plain s)"

definition text_of :: "string option \<Rightarrow> string" where
  "text_of x = (case x of None \<Rightarrow> [] | Some s \<Rightarrow> s)"

definition item_ok :: "bio_item \<Rightarrow> bool" where
  "item_ok item \<longleftrightarrow>
     (case item of (key, arg, newdata, op) \<Rightarrow> given key \<and>
       (case op of
          STRING_DEL \<Rightarrow> True
        | STRING_ADD \<Rightarrow> given newdata | STRING_UPDATE \<Rightarrow> given newdata | LIST_ADD \<Rightarrow> given newdata
        | LIST_DEL \<Rightarrow> given arg | HM_DEL \<Rightarrow> given arg | SET_ADD \<Rightarrow> given arg | SET_DEL \<Rightarrow> given arg
        | LIST_UPDATE \<Rightarrow> given arg \<and> given newdata | HM_ADD \<Rightarrow> given arg \<and> given newdata
        | HM_UPDATE \<Rightarrow> given arg \<and> given newdata))"

text \<open>The effect of a complete entry on the rows of the table.\<close>

definition row_apply :: "bio_item \<Rightarrow> row multiset \<Rightarrow> row multiset" where
  "row_apply item T =
     (case item of (key, arg, newdata, op) \<Rightarrow>
       (let k = text_of key; a = text_of arg; n = text_of newdata in
        case op of
          STRING_ADD \<Rightarrow> add_mset (mk_row k ''null'' ''string'' n) T
        | STRING_UPDATE \<Rightarrow> set_where (string_row k) n T
        | STRING_DEL \<Rightarrow> del_where (string_row k) T
        | LIST_ADD \<Rightarrow> add_mset (mk_row k ''null'' ''list'' n) T
        | LIST_DEL \<Rightarrow> T - {#mk_row k ''null'' ''list'' a#}
        | LIST_UPDATE \<Rightarrow>
            (if mk_row k ''null'' ''list'' a \<in># T
             then add_mset (mk_row k ''null'' ''list'' n) (T - {#mk_row k ''null'' ''list'' a#}) else T)
        | HM_ADD \<Rightarrow> add_mset (mk_row k a ''hashmap'' n) T
        | HM_DEL \<Rightarrow> del_where (typed_row ''hashmap'' k a) T
        | HM_UPDATE \<Rightarrow> set_where (\<lambda>r. r_key r = k \<and> r_skey r = a) n T
        | SET_ADD \<Rightarrow> add_mset (mk_row k a ''set'' ''null'') T
        | SET_DEL \<Rightarrow> del_where (typed_row ''set'' k a) T))"

lemma given_iff: "given x \<longleftrightarrow> (\<exists>s. x = Some s \<and> plain s)"
  by (simp add: given_def split: option.split)

lemma rows_ok_changes:
  assumes "rows_ok T"
  shows "rows_ok (set_where P v T)" "rows_ok (del_where P T)" "rows_ok (T - U)"
    "rows_ok (add_mset (mk_row k ''null'' ty v) T)"
    "ty \<noteq> ''list'' \<Longrightarrow> rows_ok (add_mset (mk_row k s ty v) T)"
  using assms by (auto simp: rows_ok_def set_where_def del_where_def mk_row_def dest: in_diffD)

lemma rows_ok_apply: "rows_ok T \<Longrightarrow> rows_ok (row_apply item T)"
  by (cases item; cases "snd (snd (snd item))")
    (simp_all add: row_apply_def Let_def rows_ok_changes)

lemma runs_dispatch: "runs tbl res T' \<Longrightarrow> \<exists>d'. map_option snd res = Some d' \<and> disk_rows tbl d' = Some T'"
  by (auto simp: runs_def)

lemma bio_dispatch_ok:
  assumes "sqlite_sem sql tbl" "disk_rows tbl d = Some T" "rows_ok T" "item_ok item"
  shows "\<exists>d'. bio_dispatch sql item d = Some d' \<and> disk_rows tbl d' = Some (row_apply item T)"
proof -
  note st = disk_stores [OF assms(1,2), THEN runs_dispatch] and up = disk_updates [OF assms(1,2), THEN runs_dispatch]
    and de = disk_deletes [OF assms(1,2), THEN runs_dispatch]
    and li = disk_list_changes [OF assms(1-3), THEN runs_dispatch]
  have eq: "bio_dispatch sql (Some k, a, n, op) d = map_option snd
        (case op of
          STRING_ADD \<Rightarrow> Option.bind n (disk_store_string sql d k)
        | STRING_UPDATE \<Rightarrow> Option.bind n (disk_update_string sql d k)
        | STRING_DEL \<Rightarrow> disk_delete_string sql d k
        | LIST_ADD \<Rightarrow> Option.bind n (disk_store_list_entry sql d k)
        | LIST_DEL \<Rightarrow> Option.bind a (disk_delete_list sql d k)
        | LIST_UPDATE \<Rightarrow> Option.bind a (\<lambda>a. Option.bind n (disk_update_list sql d k a))
        | HM_ADD \<Rightarrow> Option.bind a (\<lambda>a. Option.bind n (disk_store_hm_node sql d k a))
        | HM_DEL \<Rightarrow> Option.bind a (disk_delete_hashmapnode sql d k)
        | HM_UPDATE \<Rightarrow> Option.bind a (\<lambda>a. Option.bind n (disk_update_hm sql d k a))
        | SET_ADD \<Rightarrow> Option.bind a (disk_store_set_key sql d k)
        | SET_DEL \<Rightarrow> Option.bind a (disk_delete_set_key sql d k))" for k a n op
    by (simp add: bio_dispatch_def)
  obtain k a n op where item: "item = (Some k, a, n, op)" "plain k"
    using assms(4) by (cases item) (auto simp: item_ok_def given_iff)
  show ?thesis
    using assms(4) st [OF item(2)] up [OF item(2)] de [OF item(2)] li [OF item(2)]
    by (cases op) (auto simp only: item eq item_ok_def row_apply_def given_iff text_of_def Let_def
      bio_operation.case option.case prod.case Option.bind.simps)
qed

lemma bio_worker_ok:
  assumes "sqlite_sem sql tbl" "holds b items" "\<forall>i\<in>set items. item_ok i" "disk_rows tbl d = Some T" "rows_ok T"
  shows "\<exists>b' d'. bio_worker sql b d = Some (b', d') \<and> holds b' [] \<and> disk_rows tbl d' = Some (fold row_apply items T)"
  using assms(2-)
proof (induction items arbitrary: b d T)
  case Nil
  then show ?case
    using bio_take_nil [of b] by (subst bio_worker.simps) simp
next
  case (Cons i items)
  obtain b1 where b1: "bio_take b = Some (Some i, b1)" "holds b1 items"
    using bio_take_cons [OF Cons.prems(1)] by blast
  obtain d1 where d1: "bio_dispatch sql i d = Some d1" "disk_rows tbl d1 = Some (row_apply i T)"
    using bio_dispatch_ok [OF assms(1) Cons.prems(3,4), of i] Cons.prems(2) by auto
  have "\<exists>b' d'. bio_worker sql b1 d1 = Some (b', d') \<and> holds b' [] \<and>
      disk_rows tbl d' = Some (fold row_apply items (row_apply i T))"
    using Cons.IH [OF b1(2) _ d1(2) rows_ok_apply [OF Cons.prems(4)]] Cons.prems(2) by simp
  then show ?case
    using b1(1) d1(1) by (subst bio_worker.simps) simp
qed

text \<open>Entries that share the block of a key, or whose block is gone, end the worker in a use after free.\<close>

lemma bio_worker_shared:
  assumes "queued b es" "\<not> (distinct (map snd es) \<and> snd ` set es \<subseteq> b_blk b)"
  shows "bio_worker sql b d = None"
  using assms
proof (induction es arbitrary: b d)
  case (Cons e es)
  obtain item k where e: "e = (item, k)"
    by (cases e) auto
  show ?case
  proof (cases "k \<in> b_blk b")
    case True
    then obtain b1 where b1: "bio_take b = Some (Some item, b1)" "queued b1 es" "b_blk b1 = b_blk b - {k}"
      using bio_take_entry [of b item k es] Cons.prems(1) e by auto
    have "\<not> (distinct (map snd es) \<and> snd ` set es \<subseteq> b_blk b1)"
      using Cons.prems(2) e b1(3) True by auto
    then have "bio_worker sql b1 d' = None" for d'
      using Cons.IH [OF b1(2)] by blast
    then show ?thesis
      using b1(1) by (subst bio_worker.simps) (simp add: Option.bind_eq_None_conv)
  next
    case False
    then show ?thesis
      using bio_take_entry [of b item k es] Cons.prems(1) e by (subst bio_worker.simps) simp
  qed
qed simp

text \<open>
  C11: for queued entries without quotes, the worker ends, leaves the queue empty, and has applied
  the entries to the table in the order in which they were added.
\<close>

theorem bio_worker_persists:
  assumes "sqlite_sem sql tbl" "holds b items" "\<forall>i\<in>set items. item_ok i" "disk_rows tbl d = Some T" "rows_ok T"
  shows "\<exists>b' d'. bio_worker sql b d = Some (b', d') \<and> holds b' [] \<and> disk_rows tbl d' = Some (fold row_apply items T)"
  using bio_worker_ok [OF assms] .

definition sample_items :: "bio_item list" where
  "sample_items = [(Some ''k'', None, Some ''a'', STRING_ADD), (Some ''k'', None, Some ''b'', STRING_UPDATE)]"

lemma sample_items_ok: "\<forall>i\<in>set sample_items. item_ok i"
  by (simp add: sample_items_def item_ok_def given_def plain_def cstr_def sq_def)

lemma sample_rows: "disk_rows mini_tbl (sample_disk []) = Some {#}" "rows_ok {#}"
  by (simp_all add: disk_rows_def sample_disk_def mini_tbl_def rows_ok_def)

theorem bio_worker_persists_witness:
  "\<exists>b b' d'. fold (\<lambda>x st. Option.bind st (bio_enqueue x)) sample_items (Some bio_init) = Some b \<and>
    bio_worker mini_sql b (sample_disk []) = Some (b', d') \<and> holds b' [] \<and>
    disk_rows mini_tbl d' = Some {#mk_row ''k'' ''null'' ''string'' ''b''#}"
proof -
  obtain b where b: "fold (\<lambda>x st. Option.bind st (bio_enqueue x)) sample_items (Some bio_init) = Some b"
      "holds b sample_items"
    using bq.enq_many [OF bio_init_holds, of sample_items] by auto
  have "fold row_apply sample_items {#} = {#mk_row ''k'' ''null'' ''string'' ''b''#}"
    by (simp add: sample_items_def row_apply_def text_of_def set_where_def string_row_def mk_row_def)
  then show ?thesis
    using bio_worker_persists [OF mini_sem b(2) sample_items_ok sample_rows] b(1) by auto
qed

section \<open>Waking the worker\<close>

lemma queued_counters [simp]:
  "queued (b\<lparr>b_wake := w\<rparr>) = queued b" "queued (b\<lparr>b_signals := n\<rparr>) = queued b"
  by (auto simp: fun_eq_iff elim!: queued_cong)

lemma holds_counters [simp]:
  "holds (b\<lparr>b_wake := w\<rparr>) = holds b" "holds (b\<lparr>b_signals := n\<rparr>) = holds b"
  by (simp_all add: fun_eq_iff holds_def unshared_def)

text \<open>\<open>waking plvl b b'\<close>: what \<^verbatim>\<open>bio_try_wakeup_worker\<close> does to the counter and the signals.\<close>

definition waking :: "int \<Rightarrow> bio_q_head \<Rightarrow> bio_q_head \<Rightarrow> bool" where
  "waking plvl b b' \<longleftrightarrow>
     (if b_wake b = plvl then b_wake b' = 0 \<and> b_signals b' = b_signals b + 1
      else b_wake b' = b_wake b + 1 \<and> b_signals b' = b_signals b)"

lemma bio_try_wakeup_worker_ok:
  assumes "0 \<le> plvl" "plvl < 3" "0 \<le> b_wake b" "b_wake b \<le> plvl"
  shows "\<exists>rc w n. bio_try_wakeup_worker plvl b = Some (rc, b\<lparr>b_wake := w, b_signals := n\<rparr>) \<and>
    waking plvl b (b\<lparr>b_wake := w, b_signals := n\<rparr>) \<and> 0 \<le> w \<and> w \<le> plvl"
proof -
  have "(b_wake b + 1) mod (plvl + 1) = 0 \<longleftrightarrow> b_wake b = plvl"
    using assms by (auto simp: mod_pos_pos_trivial dvd_imp_le_int dest!: zdvd_imp_le)
  moreover have "b\<lparr>b_wake := w\<rparr> = b\<lparr>b_wake := w, b_signals := b_signals b\<rparr>" for w
    by simp
  ultimately show ?thesis
    using assms by (auto simp: bio_try_wakeup_worker_def waking_def Let_def)
qed

lemma bio_queue_put_ok:
  assumes "queued b es" "0 \<le> plvl" "plvl < 3" "0 \<le> b_wake b" "b_wake b \<le> plvl"
  shows "\<exists>b'. bio_queue_put plvl k item b = Some b' \<and> queued b' (es @ [(item, k)]) \<and> b_blk b' = b_blk b \<and>
    b_fresh b' = b_fresh b + 1 \<and> waking plvl b b' \<and> 0 \<le> b_wake b' \<and> b_wake b' \<le> plvl"
proof -
  obtain b1 where b1: "bio_link k item b = Some b1" "queued b1 (es @ [(item, k)])" "b_blk b1 = b_blk b"
      "b_fresh b1 = b_fresh b + 1" "b_wake b1 = b_wake b" "b_signals b1 = b_signals b"
    using bio_link_ok [OF assms(1)] by blast
  then obtain rc w n where "bio_try_wakeup_worker plvl b1 = Some (rc, b1\<lparr>b_wake := w, b_signals := n\<rparr>)"
      "waking plvl b1 (b1\<lparr>b_wake := w, b_signals := n\<rparr>)" "0 \<le> w" "w \<le> plvl"
    using bio_try_wakeup_worker_ok [OF assms(2,3), of b1] assms(4,5) by auto
  then show ?thesis
    using b1 assms(3) by (auto simp: bio_queue_put_def waking_def)
qed

lemma bio_queue_add_ok:
  assumes "holds b items" "0 \<le> plvl" "plvl < 3" "0 \<le> b_wake b" "b_wake b \<le> plvl"
  shows "\<exists>b'. bio_queue_add plvl item b = Some b' \<and> holds b' (items @ [item]) \<and>
    (if b_wake b = plvl then b_wake b' = 0 \<and> b_signals b' = b_signals b + 1
     else b_wake b' = b_wake b + 1 \<and> b_signals b' = b_signals b)"
proof -
  obtain es where es: "queued b es" "unshared b es" "map fst es = items"
    using assms(1) by (auto simp: holds_def)
  let ?k = "b_fresh b" and ?b = "b\<lparr>b_fresh := b_fresh b + 1, b_blk := insert (b_fresh b) (b_blk b)\<rparr>"
  have "queued ?b es" "0 \<le> b_wake ?b" "b_wake ?b \<le> plvl"
    using bio_key_copy_queued [OF es(1)] assms(4,5) by simp_all
  then obtain b' where b': "bio_queue_put plvl ?k item ?b = Some b'" "queued b' (es @ [(item, ?k)])" "b_blk b' = insert ?k (b_blk b)"
      "b_fresh b' = b_fresh b + 2" "waking plvl ?b b'"
    using bio_queue_put_ok [OF _ assms(2,3), of ?b es ?k item] by auto
  have "unshared b' (es @ [(item, ?k)])"
    using es(2) b'(3,4) by (fastforce simp: unshared_def)
  then have "holds b' (items @ [item])"
    using b'(2) es(3) unfolding holds_def by (intro exI [of _ "es @ [(item, ?k)]"]) simp
  then show ?thesis
    using b'(1,5) by (simp add: bio_queue_add_def bio_key_copy_def waking_def)
qed

definition bio_add_all :: "int \<Rightarrow> bio_item list \<Rightarrow> bio_q_head \<Rightarrow> bio_q_head option" where
  "bio_add_all plvl items b = fold (\<lambda>i st. Option.bind st (bio_queue_add plvl i)) items (Some b)"

lemma bio_add_all_ok:
  assumes "0 \<le> plvl" "plvl < 3"
  shows "\<exists>b. bio_add_all plvl items bio_init = Some b \<and> holds b items \<and>
    b_wake b = int (length items) mod (plvl + 1) \<and> int (b_signals b) = int (length items) div (plvl + 1)"
proof (induction items rule: rev_induct)
  case Nil
  show ?case
    using bio_init_holds by (simp add: bio_add_all_def bio_init_def)
next
  case (snoc i items)
  then obtain b where b: "bio_add_all plvl items bio_init = Some b" "holds b items"
      "b_wake b = int (length items) mod (plvl + 1)" "int (b_signals b) = int (length items) div (plvl + 1)"
    by blast
  have "0 \<le> b_wake b" "b_wake b \<le> plvl"
    using b(3) assms pos_mod_bound [of "plvl + 1" "int (length items)"] by simp_all
  from bio_queue_add_ok [OF b(2) assms this, of i] obtain b' where
    b': "bio_queue_add plvl i b = Some b'" "holds b' (items @ [i])"
      "if b_wake b = plvl then b_wake b' = 0 \<and> b_signals b' = b_signals b + 1
       else b_wake b' = b_wake b + 1 \<and> b_signals b' = b_signals b"
    by blast
  have "b_wake b' = (int (length items) + 1) mod (plvl + 1) \<and>
      int (b_signals b') = (int (length items) + 1) div (plvl + 1)"
  proof -
    consider "plvl = 0" | "plvl = 1" | "plvl = 2"
      using assms by linarith
    then show ?thesis
      using b(3,4) b'(3) by cases (auto split: if_splits; presburger)+
  qed
  then show ?case
    using b(1) b'(1,2) by (simp add: bio_add_all_def add.commute)
qed

text \<open>
  With persistence level 0, 1 or 2, adding \<open>n\<close> entries to a new queue keeps all of them in
  order and signals the worker \<open>n div (level + 1)\<close> times, so at most \<open>level\<close> entries are not yet
  followed by a signal; with level 3 or more every entry is dropped.
\<close>

theorem bio_add_wakes_worker:
  assumes "0 \<le> plvl"
  shows "(plvl < 3 \<longrightarrow> (\<exists>b. bio_add_all plvl items bio_init = Some b \<and> holds b items \<and>
      int (b_signals b) = int (length items) div (plvl + 1) \<and> 0 \<le> b_wake b \<and> b_wake b \<le> plvl)) \<and>
    (3 \<le> plvl \<longrightarrow> (\<exists>n. bio_add_all plvl items bio_init = Some (bio_init\<lparr>b_fresh := n\<rparr>)))"
proof -
  have "\<exists>n>0. bio_add_all plvl items bio_init = Some (bio_init\<lparr>b_fresh := n\<rparr>)" if "3 \<le> plvl"
    unfolding bio_add_all_def
    by (induction items rule: rev_induct)
      (use that in \<open>auto simp: bio_queue_add_def bio_key_copy_def bio_queue_put_def bio_init_def\<close>)
  then show ?thesis
    using bio_add_all_ok [OF assms, of items] assms pos_mod_bound [of "plvl + 1" "int (length items)"] by auto
qed

theorem bio_add_wakes_worker_witness:
  "\<exists>b. bio_add_all 1 (sample_items @ sample_items @ [hd sample_items]) bio_init = Some b \<and>
    holds b (sample_items @ sample_items @ [hd sample_items]) \<and> b_signals b = 2"
  using bio_add_wakes_worker [of 1 "sample_items @ sample_items @ [hd sample_items]"]
  by (auto simp: sample_items_def)

section \<open>The worker beside the threads that add entries\<close>

text \<open>
  The job that runs the worker (\<^verbatim>\<open>job_processor\<close> of \<^verbatim>\<open>os/bg.c\<close>): before the test of \<^verbatim>\<open>done\<close>, waiting on
  the condition variable, in the handler, in the handler with a popped entry, and left.
\<close>

datatype job_pc = JLoop | JWait | JHandle | JBusy bio_item | JExit

text \<open>The state of the system; \<open>y_hist\<close> records the entries added so far.\<close>

record 'db bio_sys =
  y_bio :: bio_q_head
  y_disk :: "'db disk"
  y_pc :: job_pc
  y_done :: bool
  y_hist :: "bio_item list"

text \<open>\<^verbatim>\<open>xfiredb_cond_signal\<close> wakes the job if it waits, and has no effect otherwise.\<close>

definition cond_signal :: "job_pc \<Rightarrow> job_pc" where
  "cond_signal pc = (if pc = JWait then JHandle else pc)"

inductive bio_step :: "'db sqlite \<Rightarrow> int \<Rightarrow> 'db bio_sys \<Rightarrow> 'db bio_sys \<Rightarrow> bool" for sql plvl where
  add: "bio_queue_add plvl item (y_bio s) = Some b \<Longrightarrow>
    bio_step sql plvl s (s\<lparr>y_bio := b, y_hist := y_hist s @ [item],
      y_pc := if b_signals b = b_signals (y_bio s) then y_pc s else cond_signal (y_pc s)\<rparr>)"
| sync: "bio_step sql plvl s (s\<lparr>y_pc := cond_signal (y_pc s)\<rparr>)"
| stop: "bio_step sql plvl s (s\<lparr>y_done := True, y_pc := cond_signal (y_pc s)\<rparr>)"
| wait: "y_pc s = JLoop \<Longrightarrow> \<not> y_done s \<Longrightarrow> bio_step sql plvl s (s\<lparr>y_pc := JWait\<rparr>)"
| nowait: "y_pc s = JLoop \<Longrightarrow> y_done s \<Longrightarrow> bio_step sql plvl s (s\<lparr>y_pc := JHandle\<rparr>)"
| spurious: "y_pc s = JWait \<Longrightarrow> bio_step sql plvl s (s\<lparr>y_pc := JHandle\<rparr>)"
| pop: "y_pc s = JHandle \<Longrightarrow> bio_take (y_bio s) = Some (Some item, b) \<Longrightarrow>
    bio_step sql plvl s (s\<lparr>y_bio := b, y_pc := JBusy item\<rparr>)"
| idle: "y_pc s = JHandle \<Longrightarrow> bio_take (y_bio s) = Some (None, b) \<Longrightarrow>
    bio_step sql plvl s (s\<lparr>y_bio := b, y_pc := if y_done s then JExit else JLoop\<rparr>)"
| exec: "y_pc s = JBusy item \<Longrightarrow> bio_dispatch sql item (y_disk s) = Some d \<Longrightarrow>
    bio_step sql plvl s (s\<lparr>y_disk := d, y_pc := JHandle\<rparr>)"

definition in_flight :: "job_pc \<Rightarrow> bio_item list" where
  "in_flight pc = (case pc of JBusy item \<Rightarrow> [item] | _ \<Rightarrow> [])"

lemma in_flight_simps [simp]:
  "in_flight JLoop = []" "in_flight JWait = []" "in_flight JHandle = []" "in_flight (JBusy i) = [i]"
  "in_flight JExit = []" "in_flight (cond_signal pc) = in_flight pc"
  by (simp_all add: in_flight_def cond_signal_def)

text \<open>\<open>persisted T0 s\<close>: a prefix of the added entries is applied to the table, the rest is pending.\<close>

definition persisted :: "('db \<Rightarrow> row multiset option) \<Rightarrow> int \<Rightarrow> row multiset \<Rightarrow> 'db bio_sys \<Rightarrow> bool" where
  "persisted tbl plvl T0 s \<longleftrightarrow>
     (\<exists>ds queue. y_hist s = ds @ in_flight (y_pc s) @ queue \<and> holds (y_bio s) queue \<and>
       disk_rows tbl (y_disk s) = Some (fold row_apply ds T0)) \<and>
     0 \<le> b_wake (y_bio s) \<and> b_wake (y_bio s) \<le> plvl"

lemma persistedI:
  "y_hist s = ds @ in_flight (y_pc s) @ queue \<Longrightarrow> holds (y_bio s) queue \<Longrightarrow>
   disk_rows tbl (y_disk s) = Some (fold row_apply ds T0) \<Longrightarrow>
   0 \<le> b_wake (y_bio s) \<Longrightarrow> b_wake (y_bio s) \<le> plvl \<Longrightarrow> persisted tbl plvl T0 s"
  unfolding persisted_def by blast

lemma rows_ok_fold: "rows_ok T \<Longrightarrow> rows_ok (fold row_apply items T)"
  by (induction items arbitrary: T) (simp_all add: rows_ok_apply)

lemma bio_take_wake: "bio_take b = Some (i, b') \<Longrightarrow> b_wake b' = b_wake b"
  by (auto simp: bio_take_def bio_queue_pop_def bio_free_def Let_def bind_eq_Some_conv split: if_splits option.splits)

lemma persisted_take:
  assumes "persisted tbl plvl T0 s" "y_pc s = JHandle" "bio_take (y_bio s) = Some (i, b)"
    and "in_flight pc = (case i of None \<Rightarrow> [] | Some item \<Rightarrow> [item])"
  shows "persisted tbl plvl T0 (s\<lparr>y_bio := b, y_pc := pc\<rparr>)"
proof -
  obtain ds queue where q: "y_hist s = ds @ queue" "holds (y_bio s) queue"
      "disk_rows tbl (y_disk s) = Some (fold row_apply ds T0)"
    using assms(1,2) by (auto simp: persisted_def)
  have "holds b (tl queue)" "i = (if queue = [] then None else Some (hd queue))"
    using bq.deq_oldest [OF q(2)] assms(3) by auto
  then show ?thesis
    using q assms(1,4) bio_take_wake [OF assms(3)]
    unfolding persisted_def by (cases queue) auto
qed

lemma persisted_step:
  assumes "bio_step sql plvl s s'" "sqlite_sem sql tbl" "0 \<le> plvl" "plvl < 3" "rows_ok T0"
    and "persisted tbl plvl T0 s" "\<forall>i\<in>set (y_hist s). item_ok i"
  shows "persisted tbl plvl T0 s'"
  using assms(1)
proof cases
  case (add item b)
  obtain ds queue where q: "y_hist s = ds @ in_flight (y_pc s) @ queue" "holds (y_bio s) queue"
      "disk_rows tbl (y_disk s) = Some (fold row_apply ds T0)" "0 \<le> b_wake (y_bio s)" "b_wake (y_bio s) \<le> plvl"
    using assms(6) unfolding persisted_def by blast
  have "holds b (queue @ [item])" "0 \<le> b_wake b" "b_wake b \<le> plvl"
    using bio_queue_add_ok [OF q(2) assms(3,4) q(4,5), of item] add(2) q(4,5) assms(3) by (auto split: if_splits)
  then show ?thesis
    unfolding add(1) by - (rule persistedI [where ds = ds and queue = "queue @ [item]"], use q in simp_all)
next
  case (exec item d)
  obtain ds queue where q: "y_hist s = ds @ item # queue" "holds (y_bio s) queue"
      "disk_rows tbl (y_disk s) = Some (fold row_apply ds T0)"
    using assms(6) exec(2) by (auto simp: persisted_def)
  have "disk_rows tbl d = Some (fold row_apply (ds @ [item]) T0)"
    using bio_dispatch_ok [OF assms(2) q(3) rows_ok_fold [OF assms(5)], of item] assms(7) q(1) exec(3) by auto
  then show ?thesis
    unfolding exec(1)
    by - (rule persistedI [where ds = "ds @ [item]" and queue = queue], use q assms(6) in \<open>simp_all add: persisted_def\<close>)
next
  case (pop item b)
  then show ?thesis
    using persisted_take [OF assms(6) pop(2,3), of "JBusy item"] by simp
next
  case (idle b)
  then show ?thesis
    using persisted_take [OF assms(6) idle(2,3)] by simp
qed (use assms(6) in \<open>simp_all add: persisted_def\<close>)

lemma bio_step_hist: "bio_step sql plvl s s' \<Longrightarrow> set (y_hist s) \<subseteq> set (y_hist s')"
  by (induction rule: bio_step.induct) auto

definition bio_start :: "'db disk \<Rightarrow> 'db bio_sys" where
  "bio_start d = \<lparr>y_bio = bio_init, y_disk = d, y_pc = JLoop, y_done = False, y_hist = []\<rparr>"

lemma persisted_reachable:
  assumes "(bio_step sql plvl)\<^sup>*\<^sup>* (bio_start d) s" "sqlite_sem sql tbl" "0 \<le> plvl" "plvl < 3" "rows_ok T0"
    and "disk_rows tbl d = Some T0" "\<forall>i\<in>set (y_hist s). item_ok i"
  shows "persisted tbl plvl T0 s"
  using assms(1,7)
proof (induction rule: rtranclp_induct)
  case base
  then show ?case
    using assms(3,6) bio_init_holds by (simp add: persisted_def bio_start_def) (simp add: bio_init_def)
next
  case (step s s')
  have ok: "\<forall>i\<in>set (y_hist s). item_ok i"
    using bio_step_hist [OF step(2)] step.prems by blast
  show ?case
    by (rule persisted_step [OF step(2) assms(2-5) step.IH [OF ok] ok])
qed

text \<open>
  C4: in every interleaving of threads that add entries, of \<^verbatim>\<open>bio_sync\<close> and \<^verbatim>\<open>bg_process_stop\<close>, and of the
  worker, the table holds the effect of a prefix of the added entries, in the order of their
  addition; the entry the worker is busy with and the entries of the queue are the rest. The
  worker never fails: popping is defined, and so is the operation on the entry it holds.
\<close>

theorem bio_interleaving_keeps_order:
  assumes "(bio_step sql plvl)\<^sup>*\<^sup>* (bio_start d) s" "sqlite_sem sql tbl" "0 \<le> plvl" "plvl < 3" "rows_ok T0"
    and "disk_rows tbl d = Some T0" "\<forall>i\<in>set (y_hist s). item_ok i"
  shows "(\<exists>ds queue. y_hist s = ds @ in_flight (y_pc s) @ queue \<and> holds (y_bio s) queue \<and>
      disk_rows tbl (y_disk s) = Some (fold row_apply ds T0)) \<and>
    bio_take (y_bio s) \<noteq> None \<and> (\<forall>item. y_pc s = JBusy item \<longrightarrow> bio_dispatch sql item (y_disk s) \<noteq> None)"
proof -
  obtain ds queue where q: "y_hist s = ds @ in_flight (y_pc s) @ queue" "holds (y_bio s) queue"
      "disk_rows tbl (y_disk s) = Some (fold row_apply ds T0)"
    using persisted_reachable [OF assms] unfolding persisted_def by blast
  moreover have "bio_take (y_bio s) \<noteq> None"
    using bq.deq_oldest [OF q(2)] by auto
  moreover have "bio_dispatch sql item (y_disk s) \<noteq> None" if "y_pc s = JBusy item" for item
    using bio_dispatch_ok [OF assms(2) q(3) rows_ok_fold [OF assms(5)], of item] assms(7) q(1) that by auto
  ultimately show ?thesis
    by blast
qed

text \<open>
  A run: an entry is added while the job has not reached \<^verbatim>\<open>cond_wait\<close> yet. Its signal and the one
  of \<^verbatim>\<open>bio_sync\<close> are lost, the job waits although the queue is not empty.
\<close>

lemma lost_wakeup:
  "\<exists>s. (bio_step sql 0)\<^sup>*\<^sup>* (bio_start d) s \<and> y_hist s = [item] \<and> y_pc s = JWait \<and> holds (y_bio s) [item] \<and>
    b_signals (y_bio s) = 1 \<and> y_disk s = d"
proof -
  let ?s = "bio_start d"
  have pc: "y_pc ?s = JLoop" "cond_signal JLoop = JLoop" "y_hist ?s = []" "y_bio ?s = bio_init"
    by (simp_all add: bio_start_def cond_signal_def)
  have same: "?s\<lparr>y_bio := b, y_hist := h, y_pc := JLoop\<rparr> = ?s\<lparr>y_bio := b, y_hist := h\<rparr>" for b h
    by (simp add: bio_start_def)
  obtain b where b: "bio_queue_add 0 item bio_init = Some b" "holds b [item]" "b_signals b = 1"
    using bio_queue_add_ok [OF bio_init_holds, of 0 item] by (auto simp: bio_init_def)
  have "bio_step sql 0 ?s (?s\<lparr>y_bio := b, y_hist := [item]\<rparr>)"
    using bio_step.add [of 0 item ?s b sql] b(1) by (simp add: pc same cong: if_cong)
  moreover have "bio_step sql 0 (?s\<lparr>y_bio := b, y_hist := [item]\<rparr>) (?s\<lparr>y_bio := b, y_hist := [item]\<rparr>)"
    using bio_step.sync [of sql 0 "?s\<lparr>y_bio := b, y_hist := [item]\<rparr>"] by (simp add: bio_start_def cond_signal_def)
  moreover have "bio_step sql 0 (?s\<lparr>y_bio := b, y_hist := [item]\<rparr>) (?s\<lparr>y_bio := b, y_hist := [item], y_pc := JWait\<rparr>)"
    using bio_step.wait [of "?s\<lparr>y_bio := b, y_hist := [item]\<rparr>" sql 0] by (simp add: bio_start_def)
  ultimately have "(bio_step sql 0)\<^sup>*\<^sup>* ?s (?s\<lparr>y_bio := b, y_hist := [item], y_pc := JWait\<rparr>)"
    by (meson converse_rtranclp_into_rtranclp rtranclp.rtrancl_refl)
  then show ?thesis
    using b(2,3) by (fastforce simp: bio_start_def)
qed

theorem bio_interleaving_keeps_order_witness:
  "\<exists>s. (bio_step mini_sql 0)\<^sup>*\<^sup>* (bio_start (sample_disk [])) s \<and> y_hist s = [hd sample_items] \<and>
    (\<exists>ds queue. y_hist s = ds @ in_flight (y_pc s) @ queue \<and> holds (y_bio s) queue \<and>
      disk_rows mini_tbl (y_disk s) = Some (fold row_apply ds {#})) \<and> bio_take (y_bio s) \<noteq> None"
proof -
  obtain s where s: "(bio_step mini_sql 0)\<^sup>*\<^sup>* (bio_start (sample_disk [])) s" "y_hist s = [hd sample_items]"
    using lost_wakeup by blast
  moreover have "\<forall>i\<in>set (y_hist s). item_ok i"
    using s(2) sample_items_ok by (simp add: sample_items_def)
  ultimately have "(\<exists>ds queue. y_hist s = ds @ in_flight (y_pc s) @ queue \<and> holds (y_bio s) queue \<and>
      disk_rows mini_tbl (y_disk s) = Some (fold row_apply ds {#})) \<and> bio_take (y_bio s) \<noteq> None"
    using bio_interleaving_keeps_order [OF s(1) mini_sem _ _ sample_rows(2,1)] by simp
  then show ?thesis
    using s by blast
qed

end
