(* ===== verification/XSet.thy ===== *)
theory XSet
  imports SkiplistIter
begin

text \<open>
  The set of \<^verbatim>\<open>storage/set.c\<close>: a skip list of keys with a counter. As for hash maps, a set key
  is represented by the address of its skip list node.
\<close>

section \<open>Model\<close>

record sset =
  set_list :: skiplist
  set_num :: atomic_t
  set_key :: "addr \<rightharpoonup> string"

definition set_init :: "sheap \<Rightarrow> sset" where
  "set_init h = \<lparr>set_list = skiplist_init h, set_num = 0, set_key = Map.empty\<rparr>"

definition set_size :: "sset \<Rightarrow> int" where
  "set_size s = atomic_get (set_num s)"

definition set_key_init :: "addr \<Rightarrow> string \<Rightarrow> sset \<Rightarrow> sset" where
  "set_key_init k str s = s\<lparr>set_key := (set_key s)(k \<mapsto> str)\<rparr>"

definition set_key_destroy :: "addr \<Rightarrow> sset \<Rightarrow> sset" where
  "set_key_destroy k s =
     s\<lparr>set_key := (set_key s)(k := None),
       set_list := (set_list s)\<lparr>s_heap := skiplist_node_destroy k (s_heap (set_list s))\<rparr>\<rparr>"

definition set_contains :: "sset \<Rightarrow> string \<Rightarrow> bool option" where
  "set_contains s key = map_option (\<lambda>n. n \<noteq> NULL) (skiplist_search (set_list s) key)"

definition set_add :: "(nat \<Rightarrow> bool) \<Rightarrow> sset \<Rightarrow> string \<Rightarrow> addr \<Rightarrow> (int \<times> sset) option" where
  "set_add coins s key k =
     (case set_contains s key of
        None \<Rightarrow> None
      | Some True \<Rightarrow> Some (- XFIREDB_ERR, s)
      | Some False \<Rightarrow>
          (let s = s\<lparr>set_key := (set_key s)(k \<mapsto> key)\<rparr> in
           case skiplist_insert coins (set_list s) key k of
             None \<Rightarrow> None
           | Some (rc, l) \<Rightarrow>
               if rc = - XFIREDB_OK
               then Some (- XFIREDB_OK, s\<lparr>set_list := l, set_num := atomic_add (set_num s) 1\<rparr>)
               else Some (- XFIREDB_ERR, s\<lparr>set_list := l\<rparr>)))"

definition set_remove :: "sset \<Rightarrow> string \<Rightarrow> (addr \<times> sset) option" where
  "set_remove s key =
     (case skiplist_search (set_list s) key of
        None \<Rightarrow> None
      | Some node \<Rightarrow>
          (case skiplist_delete (set_list s) key of
             None \<Rightarrow> None
           | Some (rc, l) \<Rightarrow>
               if rc = - XFIREDB_OK
               then Some (node, s\<lparr>set_list := l, set_num := atomic_sub (set_num s) 1\<rparr>)
               else Some (NULL, s\<lparr>set_list := l\<rparr>)))"

definition set_iterator_new :: "sset \<Rightarrow> skiplist_iterator" where
  "set_iterator_new s = skiplist_iterator_new (set_list s)"

definition set_iterator_next :: "sset \<Rightarrow> skiplist_iterator \<Rightarrow> (addr \<times> skiplist_iterator) option" where
  "set_iterator_next s it =
     (case skiplist_iterator_next (set_list s) it of
        None \<Rightarrow> None
      | Some (node, it) \<Rightarrow> Some (if node = NULL then NULL else node, it))"

text \<open>The loop of \<^verbatim>\<open>set_clear\<close>, with the list of the released set keys.\<close>

partial_function (option) set_clear_loop ::
  "skiplist \<Rightarrow> skiplist_iterator \<Rightarrow> (skiplist \<times> addr list) option" where
  [code]: "set_clear_loop l it =
     (case skiplist_iterator_next l it of
        None \<Rightarrow> None
      | Some (node, it) \<Rightarrow>
          if node = NULL then Some (l, [])
          else (case skiplist_iterator_delete l it of
                  None \<Rightarrow> None
                | Some (_, it, l) \<Rightarrow>
                    Option.bind (set_clear_loop l it) (\<lambda>(l, freed). Some (l, node # freed))))"

definition set_clear :: "sset \<Rightarrow> (int \<times> addr list \<times> sset) option" where
  "set_clear s =
     (case set_clear_loop (set_list s) (skiplist_iterator_new (set_list s)) of
        None \<Rightarrow> None
      | Some (l, freed) \<Rightarrow>
          Some (- XFIREDB_OK, freed, s\<lparr>set_list := l, set_key := (set_key s) |` (- set freed)\<rparr>))"

section \<open>Correctness\<close>

definition set_ok :: "sset \<Rightarrow> addr list \<Rightarrow> bool" where
  "set_ok s xs \<longleftrightarrow> sl_ok (set_list s) xs \<and> set_num s = of_nat (length xs) \<and> keyed (set_list s) xs (set_key s)"

text \<open>The keys of a set.\<close>

definition members :: "sset \<Rightarrow> addr list \<Rightarrow> string set" where
  "members s xs = dom (smap (set_list s) xs)"

definition set_good :: "sset \<Rightarrow> addr list \<Rightarrow> string \<Rightarrow> bool" where
  "set_good s xs key \<longleftrightarrow> good_key (set_list s) xs key"

lemmas set_defs = set_ok_def members_def set_good_def atomic_defs

lemma set_init_ok: "set_ok (set_init h) []" "members (set_init h) [] = {}"
  by (simp_all add: set_defs set_init_def skiplist_init_ok keyed_def)

lemma set_contains_ok:
  "set_ok s xs \<Longrightarrow> set_good s xs key \<Longrightarrow> set_contains s key = Some (key \<in> members s xs)"
  using sk.search_law [of "set_list s" xs key] sk.mp_ran [of "set_list s" xs key]
  by (auto simp: set_contains_def set_defs split: option.splits)

lemma set_add_present:
  assumes "set_ok s xs" "set_good s xs key" "key \<in> members s xs"
  shows "set_add coins s key k = Some (- XFIREDB_ERR, s)"
  using set_contains_ok [OF assms(1,2)] assms(3) by (simp add: set_add_def)

lemma set_add_new:
  assumes ok: "set_ok s xs" and g: "set_good s xs key" and k: "k \<noteq> HEADER \<and> k \<noteq> NULL" "k \<notin> set xs"
    and new: "key \<notin> members s xs"
  obtains s' xs' where "set_add coins s key k = Some (- XFIREDB_OK, s')" "set_ok s' xs'"
    "members s' xs' = insert key (members s xs)" "set xs' = insert k (set xs)" "set_key s' k = Some key"
proof -
  have l: "sl_ok (set_list s) xs" "good_key (set_list s) xs key" "smap (set_list s) xs key = None"
    using ok g new by (auto simp: set_defs)
  obtain l' xs' where i: "skiplist_insert coins (set_list s) key k = Some (0, l')" "sl_ok l' xs'"
      "smap l' xs' = (smap (set_list s) xs)(key \<mapsto> k)" "length xs' = Suc (length xs)" "set xs' = insert k (set xs)"
    using sk.ins_new [where coins = coins, OF l(1,2) k l(3)] by blast
  have kd: "keyed l' xs' ((set_key s)(k \<mapsto> key))"
    using keyed_insert [OF _ l(1) k(2) i(3)] ok by (simp add: set_ok_def)
  let ?s = "s\<lparr>set_key := (set_key s)(k \<mapsto> key), set_list := l', set_num := atomic_add (set_num s) 1\<rparr>"
  show thesis
  proof (rule that)
    show "set_add coins s key k = Some (- XFIREDB_OK, ?s)"
      using set_contains_ok [OF ok g] new i(1) by (simp add: set_add_def)
    show "set_ok ?s xs'" "members ?s xs' = insert key (members s xs)"
      using i kd ok by (auto simp: set_defs)
  qed (use i in simp_all)
qed

lemma set_add_ok:
  assumes ok: "set_ok s xs" and g: "set_good s xs key" and k: "k \<noteq> HEADER \<and> k \<noteq> NULL" "k \<notin> set xs"
  shows "\<exists>s' xs'. set_add coins s key k =
      Some (if key \<in> members s xs then - XFIREDB_ERR else - XFIREDB_OK, s') \<and> set_ok s' xs' \<and>
    members s' xs' = insert key (members s xs) \<and> set xs' \<subseteq> insert k (set xs)"
proof (cases "key \<in> members s xs")
  case True
  then show ?thesis
    using set_add_present [OF ok g True] ok by (auto intro!: exI [of _ xs])
next
  case False
  then show ?thesis
    by (rule set_add_new [OF ok g k]) (use False in auto)
qed

lemma set_remove_absent:
  assumes "set_ok s xs" "set_good s xs key" "key \<notin> members s xs"
  shows "set_remove s key = Some (NULL, s)"
proof -
  have l: "sl_ok (set_list s) xs" "good_key (set_list s) xs key" "smap (set_list s) xs key = None"
    using assms by (auto simp: set_defs)
  then show ?thesis
    using sk.search_law [OF l(1,2)] sk.del_miss [OF l] by (simp add: set_remove_def)
qed

lemma set_remove_present:
  assumes ok: "set_ok s xs" and g: "set_good s xs key" and key: "key \<in> members s xs"
  obtains n s' xs' where "set_remove s key = Some (n, s')" "n \<noteq> NULL" "n \<in> set xs" "n \<notin> set xs'"
    "set_key s' n = Some key" "set_ok s' xs'" "members s' xs' = members s xs - {key}" "set xs' \<subseteq> set xs"
proof -
  have l: "sl_ok (set_list s) xs" "good_key (set_list s) xs key"
    using ok g by (auto simp: set_defs)
  obtain n where n: "smap (set_list s) xs key = Some n"
    using key by (auto simp: members_def)
  obtain l' xs' where i: "skiplist_delete (set_list s) key = Some (0, l')" "sl_ok l' xs'"
      "smap l' xs' = (smap (set_list s) xs)(key := None)" "Suc (length xs') = length xs" "set xs' = set xs - {n}"
    using sk.del_hit [OF l n] by blast
  have num: "of_nat (length xs) - 1 = (of_nat (length xs') :: 32 word)"
    using i(4) by (metis add_diff_cancel_left' of_nat_Suc)
  have kd: "keyed l' xs' (set_key s)"
    using keyed_remove [OF _ i(3)] ok by (simp add: set_ok_def)
  let ?s = "s\<lparr>set_list := l', set_num := atomic_sub (set_num s) 1\<rparr>"
  show thesis
  proof (rule that)
    show "set_remove s key = Some (n, ?s)"
      using sk.search_law [OF l] n i(1) by (simp add: set_remove_def)
    show "n \<noteq> NULL" "n \<in> set xs"
      using smap_ran [OF l(1) n] by simp_all
    show "set_key ?s n = Some key"
      using ok n by (simp add: set_ok_def keyed_def)
    show "set_ok ?s xs'" "members ?s xs' = members s xs - {key}"
      using i kd num ok by (auto simp: set_defs)
  qed (use i(5) in auto)
qed

lemma set_remove_ok:
  assumes ok: "set_ok s xs" and g: "set_good s xs key"
  shows "\<exists>s' xs' n. set_remove s key = Some (n, s') \<and> (n = NULL \<longleftrightarrow> key \<notin> members s xs) \<and>
    set_ok s' xs' \<and> members s' xs' = members s xs - {key}"
proof (cases "key \<in> members s xs")
  case True
  then show ?thesis
    by (rule set_remove_present [OF ok g]) (use True in auto)
next
  case False
  then show ?thesis
    using set_remove_absent [OF ok g False] ok by (auto intro!: exI [of _ xs])
qed

text \<open>Releasing a key that is not in the set.\<close>

lemma set_key_destroy_ok:
  assumes "set_ok s xs" "n \<notin> set xs" "n \<noteq> HEADER"
  shows "set_ok (set_key_destroy n s) xs" "members (set_key_destroy n s) xs = members s xs"
proof -
  have l: "sl_ok (set_list s) xs"
    using assms(1) by (simp add: set_ok_def)
  have "((set_key s)(n := None)) a = set_key s a" if "smap (set_list s) xs k = Some a" for k a
    using smap_ran [OF l that] assms(2) by auto
  then show "set_ok (set_key_destroy n s) xs" "members (set_key_destroy n s) xs = members s xs"
    using sl_ok_destroy [OF l assms(2,3)] assms(1) by (auto simp: set_key_destroy_def set_defs keyed_def)
qed

lemma set_size_ok: "set_ok s xs \<Longrightarrow> length xs < 2 ^ 31 \<Longrightarrow> set_size s = int (card (members s xs))"
  using sint_of_nat_small [of "length xs"] smap_card [of "set_list s" xs] by (simp add: set_defs set_size_def)

section \<open>Clearing\<close>

lemma set_clear_loop_ok:
  assumes "sl_ok l xs" "it_current it = HEADER"
  shows "\<exists>l' freed. set_clear_loop l it = Some (l', freed) \<and> sl_ok l' [] \<and> set freed = set xs \<and> distinct freed"
  using assms
proof (induction "length xs" arbitrary: l xs it)
  case 0
  then show ?case
    using iterator_at_end [of l it] by (subst set_clear_loop.simps) simp
next
  case (Suc n)
  then obtain x ys where xs: "xs = x # ys"
    by (cases xs) auto
  let ?it = "\<lparr>it_prev = HEADER, it_current = HEADER\<rparr>"
  obtain l' xs' where d: "skiplist_iterator_next l it = Some (x, \<lparr>it_prev = HEADER, it_current = x\<rparr>)" "x \<noteq> NULL"
      "skiplist_iterator_delete l \<lparr>it_prev = HEADER, it_current = x\<rparr> = Some (HEADER, ?it, l')"
      "sl_ok l' xs'" "set xs' = set ys" "x \<notin> set ys" "length xs' = length ys"
    using iterator_drop_first [OF Suc.prems(1) [unfolded xs] Suc.prems(2)] by metis
  obtain l2 freed where "set_clear_loop l' ?it = Some (l2, freed)" "sl_ok l2 []" "set freed = set xs'" "distinct freed"
    using Suc.hyps(1) [OF _ d(4), of ?it] Suc.hyps(2) d(7) xs by auto
  then show ?case
    using d xs by (subst set_clear_loop.simps) auto
qed

section \<open>Properties\<close>

text \<open>
  C27: the set operations implement a finite set for keys without hash collision: \<^verbatim>\<open>set_add\<close>
  inserts a new key and reports an error for a present one, \<^verbatim>\<open>set_remove\<close> removes the key,
  \<^verbatim>\<open>set_contains\<close> decides membership, and all keep the counter exact.
\<close>

theorem set_operations_refine:
  assumes "set_ok s xs" "set_good s xs key" "k \<noteq> HEADER \<and> k \<noteq> NULL" "k \<notin> set xs"
  shows "set_contains s key = Some (key \<in> members s xs) \<and>
    (\<exists>s' xs'. set_add coins s key k =
        Some (if key \<in> members s xs then - XFIREDB_ERR else - XFIREDB_OK, s') \<and> set_ok s' xs' \<and>
      members s' xs' = insert key (members s xs)) \<and>
    (\<exists>s' xs' n. set_remove s key = Some (n, s') \<and> (n = NULL \<longleftrightarrow> key \<notin> members s xs) \<and>
      set_ok s' xs' \<and> members s' xs' = members s xs - {key})"
  using set_contains_ok [OF assms(1,2)] set_add_ok [OF assms, of coins] set_remove_ok [OF assms(1,2)] by (elim exE conjE) auto

definition sample_set :: sset where
  "sample_set = \<lparr>set_list = sample_sl, set_num = 1, set_key = [10 \<mapsto> ''one'']\<rparr>"

lemma sample_set_ok: "set_ok sample_set [10]" "set_good sample_set [10] ''two''"
  by (simp_all add: sample_set_def set_defs sample_sl_facts keyed_def)

theorem set_operations_refine_witness:
  "set_contains sample_set ''two'' = Some (''two'' \<in> members sample_set [10]) \<and>
    (\<exists>s' xs'. set_add (\<lambda>_. True) sample_set ''two'' 11 =
        Some (if ''two'' \<in> members sample_set [10] then - XFIREDB_ERR else - XFIREDB_OK, s') \<and> set_ok s' xs' \<and>
      members s' xs' = insert ''two'' (members sample_set [10])) \<and>
    (\<exists>s' xs' n. set_remove sample_set ''two'' = Some (n, s') \<and>
      (n = NULL \<longleftrightarrow> ''two'' \<notin> members sample_set [10]) \<and>
      set_ok s' xs' \<and> members s' xs' = members sample_set [10] - {''two''})"
  by (rule set_operations_refine [OF sample_set_ok]) (simp_all add: xdb_defs)

text \<open>
  \<^verbatim>\<open>set_clear\<close> ends, releases every set key exactly once and leaves an empty skip list; the
  counter of the set keeps its old value, so \<^verbatim>\<open>set_size\<close> of the cleared set is wrong unless the
  set was empty.
\<close>

theorem set_clear_empties:
  assumes "set_ok s xs" "length xs < 2 ^ 31"
  shows "\<exists>freed s'. set_clear s = Some (- XFIREDB_OK, freed, s') \<and> set freed = set xs \<and> distinct freed \<and>
    sl_ok (set_list s') [] \<and> set_size s' = int (length xs)"
  using set_clear_loop_ok [of "set_list s" xs "skiplist_iterator_new (set_list s)"] assms
    sint_of_nat_small [OF assms(2)]
  by (auto simp: set_clear_def set_ok_def set_size_def atomic_defs skiplist_iterator_new_def)

theorem set_clear_empties_witness:
  "\<exists>freed s'. set_clear sample_set = Some (- XFIREDB_OK, freed, s') \<and> set freed = set [10] \<and> distinct freed \<and>
    sl_ok (set_list s') [] \<and> set_size s' = int (length [10 :: addr])"
  by (rule set_clear_empties [OF sample_set_ok(1)]) simp

end
