(* ===== verification/Container.thy ===== *)
theory Container
  imports Database Bio XSet "HOL-Library.Monad_Syntax"
begin

text \<open>
  Containers (\<^verbatim>\<open>storage/container.c\<close>, \<^verbatim>\<open>include/xfiredb/container.h\<close>): the tagged union of the four data
  types that a key of the database can hold, and what a container stands for. The strings of
  lists and hash maps live in one heap; a list node or map node and the \<^verbatim>\<open>struct string\<close> that
  contains it have the same address.
\<close>

section \<open>Model\<close>

datatype container_type = CONTAINER_STRING | CONTAINER_LIST | CONTAINER_HASHMAP | CONTAINER_SET

datatype cdata = DString xstring | DList list_head | DMap hashmap | DSet sset

record container =
  c_type :: container_type
  c_data :: cdata

definition container_check_type :: "container \<Rightarrow> container_type \<Rightarrow> bool" where
  "container_check_type c type = (c_type c = type)"

text \<open>
  \<^verbatim>\<open>container_init\<close> on zeroed memory: list pointers are null and the heap of a new skip list is
  empty.
\<close>

definition zero_list :: list_head where
  "zero_list = \<lparr>nxt = (\<lambda>_. 0), prv = (\<lambda>_. 0), num = 0\<rparr>"

definition container_init :: "container_type \<Rightarrow> container" where
  "container_init type =
     \<lparr>c_type = type,
      c_data = (case type of
         CONTAINER_STRING \<Rightarrow> DString string_init
       | CONTAINER_LIST \<Rightarrow> DList (list_head_init zero_list)
       | CONTAINER_HASHMAP \<Rightarrow> DMap (hashmap_init Map.empty)
       | CONTAINER_SET \<Rightarrow> DSet (set_init Map.empty))\<rparr>"

definition container_alloc :: "container_type \<Rightarrow> container" where
  "container_alloc type = container_init type"

text \<open>\<^verbatim>\<open>container_get_data\<close>: the member of the union that the tag selects; reading another member is
  not defined.\<close>

definition container_get_data :: "container \<Rightarrow> cdata option" where
  "container_get_data c =
     (case (c_type c, c_data c) of
        (CONTAINER_STRING, DString s) \<Rightarrow> Some (DString s)
      | (CONTAINER_LIST, DList l) \<Rightarrow> Some (DList l)
      | (CONTAINER_HASHMAP, DMap m) \<Rightarrow> Some (DMap m)
      | (CONTAINER_SET, DSet s) \<Rightarrow> Some (DSet s)
      | _ \<Rightarrow> None)"

definition get_string :: "container \<Rightarrow> xstring option" where
  "get_string c = (case container_get_data c of Some (DString s) \<Rightarrow> Some s | _ \<Rightarrow> None)"

definition get_list :: "container \<Rightarrow> list_head option" where
  "get_list c = (case container_get_data c of Some (DList l) \<Rightarrow> Some l | _ \<Rightarrow> None)"

definition get_map :: "container \<Rightarrow> hashmap option" where
  "get_map c = (case container_get_data c of Some (DMap m) \<Rightarrow> Some m | _ \<Rightarrow> None)"

definition get_set :: "container \<Rightarrow> sset option" where
  "get_set c = (case container_get_data c of Some (DSet s) \<Rightarrow> Some s | _ \<Rightarrow> None)"

section \<open>What a container stands for\<close>

datatype val = VString string | VList "string list" | VMap "string \<rightharpoonup> string" | VSet "string set"

fun type_of :: "val \<Rightarrow> container_type" where
  "type_of (VString _) = CONTAINER_STRING"
| "type_of (VList _) = CONTAINER_LIST"
| "type_of (VMap _) = CONTAINER_HASHMAP"
| "type_of (VSet _) = CONTAINER_SET"

type_synonym strings = "nat \<rightharpoonup> xstring"

definition str_at :: "strings \<Rightarrow> nat \<Rightarrow> string option" where
  "str_at strs n = Option.bind (strs n) string_get"

text \<open>\<open>holds_val strs x ns v\<close>: the union member \<open>x\<close> holds \<open>v\<close>, in the nodes \<open>ns\<close>.\<close>

fun holds_val :: "strings \<Rightarrow> cdata \<Rightarrow> nat list \<Rightarrow> val \<Rightarrow> bool" where
  "holds_val strs (DString s) ns (VString x) \<longleftrightarrow> ns = [] \<and> string_get s = Some x"
| "holds_val strs (DList l) ns (VList xs) \<longleftrightarrow> is_list l ns \<and> map (str_at strs) ns = map Some xs"
| "holds_val strs (DMap m) ns (VMap f) \<longleftrightarrow> hm_ok m ns \<and> set ns \<subseteq> dom (str_at strs) \<and>
     f = (\<lambda>k. Option.bind (hmap m ns k) (str_at strs))"
| "holds_val strs (DSet s) ns (VSet X) \<longleftrightarrow> set_ok s ns \<and> X = members s ns"
| "holds_val strs _ ns _ \<longleftrightarrow> False"

definition is_val :: "strings \<Rightarrow> container \<Rightarrow> nat list \<Rightarrow> val \<Rightarrow> bool" where
  "is_val strs c ns v \<longleftrightarrow> c_type c = type_of v \<and> holds_val strs (c_data c) ns v"

lemma map_str_frame: "(\<And>n. n \<in> set ns \<Longrightarrow> strs' n = strs n) \<Longrightarrow> map (str_at strs') ns = map (str_at strs) ns"
  by (simp add: str_at_def)

lemma smap_in_nodes: "smap l ns k = Some n \<Longrightarrow> n \<in> set ns"
  by (auto simp: smap_def dest!: map_of_SomeD)

text \<open>The value of a container depends on the strings at its own nodes only.\<close>

lemma is_val_frame:
  assumes "is_val strs c ns v" "\<And>n. n \<in> set ns \<Longrightarrow> strs' n = strs n"
  shows "is_val strs' c ns v"
proof -
  have eq: "str_at strs' n = str_at strs n" if "n \<in> set ns" for n
    using that assms(2) by (simp add: str_at_def)
  moreover have "map (str_at strs') ns = map (str_at strs) ns"
    using assms(2) by (rule map_str_frame)
  moreover have "Option.bind (hmap m ns k) (str_at strs') = Option.bind (hmap m ns k) (str_at strs)" for m k
    using eq smap_in_nodes by (cases "hmap m ns k") (auto simp: hmap_def)
  ultimately show ?thesis
    using assms(1) eq by (cases "c_data c"; cases v) (auto simp: is_val_def dom_def)
qed

lemma container_alloc_string: "string_get s = Some x \<Longrightarrow> is_val strs \<lparr>c_type = CONTAINER_STRING, c_data = DString s\<rparr> [] (VString x)"
  by (simp add: is_val_def)

lemma container_alloc_is:
  "is_val strs (container_alloc CONTAINER_LIST) [] (VList [])"
  "is_val strs (container_alloc CONTAINER_HASHMAP) [] (VMap Map.empty)"
  "is_val strs (container_alloc CONTAINER_SET) [] (VSet {})"
  by (simp_all add: is_val_def container_alloc_def container_init_def list_head_init_ok hashmap_init_ok set_init_ok)

lemma get_data_typed:
  assumes "is_val strs c ns v"
  shows "c_type c = type_of v" "container_check_type c t \<longleftrightarrow> t = type_of v"
    "v = VString x \<Longrightarrow> \<exists>s. get_string c = Some s \<and> c_data c = DString s"
    "v = VList xs \<Longrightarrow> \<exists>l. get_list c = Some l \<and> c_data c = DList l"
    "v = VMap f \<Longrightarrow> \<exists>m. get_map c = Some m \<and> c_data c = DMap m"
    "v = VSet X \<Longrightarrow> \<exists>s. get_set c = Some s \<and> c_data c = DSet s"
  using assms
  by (cases "c_data c"; cases v;
    auto simp: is_val_def container_check_type_def get_string_def get_list_def get_map_def get_set_def container_get_data_def)+

end
