(* ===== verification/Engine.thy ===== *)
theory Engine
  imports Container
begin

text \<open>
  The engine interface of \<^verbatim>\<open>libxfiredbengine/xfiredb.c\<close>: operations on keys of the database, their
  containers and the background I/O queue. Parameters: \<open>g\<close> and \<open>mem\<close> of the dictionary, the coin
  flips \<open>coins\<close> of the skip lists, and the persistence level \<open>plvl\<close>. Entries of the I/O queue hold
  the characters of their strings.
\<close>

section \<open>State\<close>

text \<open>
  The database, the heap of containers with the next address of the allocator, the heap of list
  and map strings with its allocator (addresses 0 and 1 are the list head and the skip list
  header), the I/O queue, and the load state.
\<close>

record engine =
  e_db :: database
  e_cont :: "ptr \<rightharpoonup> container"
  e_next :: nat
  e_strs :: strings
  e_fresh :: nat
  e_bio :: bio_q_head
  e_load :: bool

record econf =
  x_dict :: dict_conf
  x_mem :: "ptr \<Rightarrow> u64"
  x_coins :: "nat \<Rightarrow> bool"
  x_plvl :: int

text \<open>The state behind \<^verbatim>\<open>xfiredb_se_init_silent\<close> and the allocation of the database that a build with \<^verbatim>\<open>HAVE_DEBUG\<close> does.\<close>

definition engine_init :: engine where
  "engine_init = \<lparr>e_db = db_alloc ''xfiredb'', e_cont = Map.empty, e_next = 1, e_strs = Map.empty, e_fresh = 2,
     e_bio = bio_init, e_load = False\<rparr>"

definition xfiredb_set_loadstate :: "bool \<Rightarrow> engine \<Rightarrow> engine" where
  "xfiredb_set_loadstate state e = e\<lparr>e_load := state\<rparr>"

definition xfiredb_loadstate :: "engine \<Rightarrow> bool" where
  "xfiredb_loadstate e = e_load e"

text \<open>Calls into the components.\<close>

definition e_lookup :: "string \<Rightarrow> engine \<Rightarrow> (int \<times> ptr option \<times> engine) option" where
  "e_lookup key e = map_option (\<lambda>(rc, p, db). (rc, p, e\<lparr>e_db := db\<rparr>)) (db_lookup (e_db e) key)"

definition e_store :: "econf \<Rightarrow> string \<Rightarrow> ptr \<Rightarrow> engine \<Rightarrow> (int \<times> engine) option" where
  "e_store x key p e =
     map_option (\<lambda>(rc, db). (rc, e\<lparr>e_db := db\<rparr>)) (db_store (x_dict x) (x_mem x) (e_db e) key p)"

definition e_delete :: "string \<Rightarrow> engine \<Rightarrow> (int \<times> ptr option \<times> engine) option" where
  "e_delete key e = map_option (\<lambda>(rc, p, db). (rc, p, e\<lparr>e_db := db\<rparr>)) (db_delete (e_db e) key)"

definition e_queue :: "econf \<Rightarrow> bio_item \<Rightarrow> engine \<Rightarrow> engine option" where
  "e_queue x item e = map_option (\<lambda>b. e\<lparr>e_bio := b\<rparr>) (bio_queue_add (x_plvl x) item (e_bio e))"

definition e_alloc :: "container \<Rightarrow> engine \<Rightarrow> ptr \<times> engine" where
  "e_alloc c e = (of_nat (e_next e), e\<lparr>e_cont := (e_cont e)(of_nat (e_next e) \<mapsto> c), e_next := e_next e + 1\<rparr>)"

definition e_put :: "ptr \<Rightarrow> cdata \<Rightarrow> engine \<Rightarrow> engine option" where
  "e_put p d e = map_option (\<lambda>c. e\<lparr>e_cont := (e_cont e)(p \<mapsto> c\<lparr>c_data := d\<rparr>)\<rparr>) (e_cont e p)"

definition e_free :: "ptr \<Rightarrow> engine \<Rightarrow> engine" where
  "e_free p e = e\<lparr>e_cont := (e_cont e)(p := None)\<rparr>"

definition e_string_alloc :: "string \<Rightarrow> engine \<Rightarrow> nat \<times> engine" where
  "e_string_alloc data e =
     (e_fresh e, e\<lparr>e_strs := (e_strs e)(e_fresh e \<mapsto> string_alloc data), e_fresh := e_fresh e + 1\<rparr>)"

definition e_string_free :: "nat \<Rightarrow> engine \<Rightarrow> engine" where
  "e_string_free n e = e\<lparr>e_strs := (e_strs e)(n := None)\<rparr>"

section \<open>Strings\<close>

text \<open>\<^verbatim>\<open>xfiredb_string_get\<close>: \<open>data\<close> is the cell of the caller, left as it is when the key has another type.\<close>

definition xfiredb_string_get ::
  "string \<Rightarrow> string option \<Rightarrow> engine \<Rightarrow> (int \<times> string option \<times> engine) option" where
  "xfiredb_string_get key data e = do {
     (rc, dbdata, e) \<leftarrow> e_lookup key e;
     if rc \<noteq> - XFIREDB_OK then Some (- XFIREDB_ERR, None, e)
     else do {
       p \<leftarrow> dbdata;
       c \<leftarrow> e_cont e p;
       if \<not> container_check_type c CONTAINER_STRING then Some (- XFIREDB_ERR, data, e)
       else do {
         s \<leftarrow> get_string c;
         data \<leftarrow> string_get s;
         Some (- XFIREDB_OK, Some data, e)
       }
     }
   }"

definition xfiredb_string_set :: "econf \<Rightarrow> string \<Rightarrow> string \<Rightarrow> engine \<Rightarrow> (int \<times> engine) option" where
  "xfiredb_string_set x key data e = do {
     (rc, dbdata, e) \<leftarrow> e_lookup key e;
     if rc = 0
     then do {
       p \<leftarrow> dbdata;
       c \<leftarrow> e_cont e p;
       if \<not> container_check_type c CONTAINER_STRING then Some (- XFIREDB_ERR, e)
       else do {
         s \<leftarrow> get_string c;
         e \<leftarrow> e_put p (DString (string_set s data)) e;
         e \<leftarrow> e_queue x (Some key, None, Some data, STRING_UPDATE) e;
         Some (- XFIREDB_OK, e)
       }
     }
     else do {
       let c = container_alloc CONTAINER_STRING;
       s \<leftarrow> get_string c;
       let (p, e) = e_alloc (c\<lparr>c_data := DString (string_set s data)\<rparr>) e;
       (rv, e) \<leftarrow> e_store x key p e;
       if rv \<noteq> 0 then Some (rv, e)
       else do {
         e \<leftarrow> e_queue x (Some key, None, Some data, STRING_ADD) e;
         Some (rv, e)
       }
     }
   }"

section \<open>Lists\<close>

definition xfiredb_list_length :: "string \<Rightarrow> engine \<Rightarrow> (int \<times> engine) option" where
  "xfiredb_list_length key e = do {
     (rc, dbdata, e) \<leftarrow> e_lookup key e;
     if rc \<noteq> - XFIREDB_OK then Some (- XFIREDB_ERR, e)
     else do {
       p \<leftarrow> dbdata;
       c \<leftarrow> e_cont e p;
       if \<not> container_check_type c CONTAINER_LIST then Some (- XFIREDB_ERR, e)
       else do { h \<leftarrow> get_list c; Some (list_length h, e) }
     }
   }"

definition xfiredb_list_push :: "econf \<Rightarrow> string \<Rightarrow> string \<Rightarrow> bool \<Rightarrow> engine \<Rightarrow> (int \<times> engine) option" where
  "xfiredb_list_push x key data left e = do {
     (rc, dbdata, e) \<leftarrow> e_lookup key e;
     (p, new, e) \<leftarrow>
       (if rc \<noteq> - XFIREDB_OK
        then (let (p, e) = e_alloc (container_alloc CONTAINER_LIST) e in Some (p, True, e))
        else do { p \<leftarrow> dbdata; Some (p, False, e) });
     c \<leftarrow> e_cont e p;
     if \<not> new \<and> \<not> container_check_type c CONTAINER_LIST then Some (- XFIREDB_ERR, e)
     else do {
       h \<leftarrow> get_list c;
       let (s, e) = e_string_alloc data e;
       e \<leftarrow> e_queue x (Some key, None, Some data, LIST_ADD) e;
       e \<leftarrow> e_put p (DList (if left then list_lpush h s else list_rpush h s)) e;
       if new then map_option (\<lambda>(_, e). (- XFIREDB_OK, e)) (e_store x key p e)
       else Some (- XFIREDB_OK, e)
     }
   }"

text \<open>
  The loop of \<^verbatim>\<open>xfiredb_list_get\<close>: \<open>idx\<close> is the array of the caller, updated in place; reading past
  its end is not defined.
\<close>

definition read_idx :: "int list \<Rightarrow> nat \<Rightarrow> int \<Rightarrow> (int \<times> int list) option" where
  "read_idx idx counter len =
     (if counter < length idx
      then (let v = (if idx ! counter < 0 then idx ! counter + len else idx ! counter) in Some (v, idx[counter := v]))
      else None)"

fun list_get_loop ::
  "strings \<Rightarrow> int \<Rightarrow> nat \<Rightarrow> nat list \<Rightarrow> int \<Rightarrow> nat \<Rightarrow> int list \<Rightarrow> string list \<Rightarrow> (int list \<times> string list) option" where
  "list_get_loop strs len n [] i counter idx data = Some (idx, data)"
| "list_get_loop strs len n (c # cs) i counter idx data = do {
     (v, idx) \<leftarrow> read_idx idx counter len;
     (counter, data) \<leftarrow>
       (if v = i then do { tmp \<leftarrow> str_at strs c; Some (counter + 1, data @ [tmp]) } else Some (counter, data));
     if counter \<ge> n then Some (idx, data) else list_get_loop strs len n cs (i + 1) counter idx data
   }"

definition xfiredb_list_get ::
  "string \<Rightarrow> int list \<Rightarrow> nat \<Rightarrow> engine \<Rightarrow> (int \<times> int list \<times> string list \<times> engine) option" where
  "xfiredb_list_get key idx n e = do {
     (rc, dbdata, e) \<leftarrow> e_lookup key e;
     if rc \<noteq> - XFIREDB_OK then Some (- XFIREDB_ERR, idx, [], e)
     else do {
       p \<leftarrow> dbdata;
       c \<leftarrow> e_cont e p;
       if \<not> container_check_type c CONTAINER_LIST then Some (- XFIREDB_ERR, idx, [], e)
       else do {
         lh \<leftarrow> get_list c;
         cs \<leftarrow> list_for_each lh;
         (idx, data) \<leftarrow> list_get_loop (e_strs e) (list_length lh) n cs 0 0 idx [];
         Some (- XFIREDB_OK, idx, data, e)
       }
     }
   }"

text \<open>
  The loop of \<^verbatim>\<open>xfiredb_list_set\<close> over the nodes of the list. The new entry of the last branch is
  not handed to the I/O queue.
\<close>

fun list_set_loop ::
  "econf \<Rightarrow> ptr \<Rightarrow> list_head \<Rightarrow> string \<Rightarrow> string \<Rightarrow> int \<Rightarrow> nat list \<Rightarrow> int \<Rightarrow> engine \<Rightarrow> (int \<times> engine) option" where
  "list_set_loop x p h key data idx [] i e = Some (- XFIREDB_ERR, e)"
| "list_set_loop x p h key data idx (c # cs) i e =
     (if i = idx
      then do {
        s \<leftarrow> e_strs e c;
        bio_data \<leftarrow> string_get s;
        e \<leftarrow> e_queue x (Some key, Some bio_data, Some data, LIST_UPDATE) e;
        Some (- XFIREDB_OK, e\<lparr>e_strs := (e_strs e)(c \<mapsto> string_set s data)\<rparr>)
      }
      else if i + 1 \<ge> list_length h
      then do {
        let (s, e) = e_string_alloc data e;
        e \<leftarrow> e_put p (DList (list_rpush h s)) e;
        Some (- XFIREDB_OK, e)
      }
      else list_set_loop x p h key data idx cs (i + 1) e)"

definition xfiredb_list_set :: "econf \<Rightarrow> string \<Rightarrow> int \<Rightarrow> string \<Rightarrow> engine \<Rightarrow> (int \<times> engine) option" where
  "xfiredb_list_set x key idx data e = do {
     (rc, dbdata, e) \<leftarrow> e_lookup key e;
     if rc \<noteq> - XFIREDB_OK then xfiredb_list_push x key data False e
     else do {
       p \<leftarrow> dbdata;
       c \<leftarrow> e_cont e p;
       if \<not> container_check_type c CONTAINER_LIST then Some (- XFIREDB_ERR, e)
       else do {
         h \<leftarrow> get_list c;
         if list_length h = 0
         then do {
           let (s, e) = e_string_alloc data e;
           e \<leftarrow> e_put p (DList (list_rpush h s)) e;
           e \<leftarrow> e_queue x (Some key, None, Some data, LIST_ADD) e;
           Some (- XFIREDB_OK, e)
         }
         else do {
           cs \<leftarrow> list_for_each h;
           list_set_loop x p h key data idx cs 0 e
         }
       }
     }
   }"

text \<open>
  The loop of \<^verbatim>\<open>xfiredb_list_pop\<close> with \<^verbatim>\<open>list_for_each_safe\<close>: \<open>c\<close> is the current node, \<open>s\<close> the saved
  next one; 0 is the list head. The length is read again after every deletion.
\<close>

partial_function (option) list_pop_loop ::
  "econf \<Rightarrow> string \<Rightarrow> nat \<Rightarrow> list_head \<Rightarrow> nat \<Rightarrow> nat \<Rightarrow> int \<Rightarrow> nat \<Rightarrow> int list \<Rightarrow> engine \<Rightarrow>
   (list_head \<times> nat \<times> int list \<times> engine) option" where
  [code]: "list_pop_loop x key n lh c s i counter idx e =
     (if c = 0 then Some (lh, counter, idx, e)
      else do {
        (v, idx) \<leftarrow> read_idx idx counter (list_length lh);
        (lh, counter, e) \<leftarrow>
          (if v = i
           then do {
             let lh = list_del lh c;
             bio_data \<leftarrow> str_at (e_strs e) c;
             e \<leftarrow> e_queue x (Some key, Some bio_data, None, LIST_DEL) e;
             Some (lh, counter + 1, e_string_free c e)
           }
           else Some (lh, counter, e));
        if counter \<ge> n then Some (lh, counter, idx, e)
        else list_pop_loop x key n lh s (nxt lh s) (i + 1) counter idx e
      })"

definition xfiredb_list_pop ::
  "econf \<Rightarrow> string \<Rightarrow> int list \<Rightarrow> nat \<Rightarrow> engine \<Rightarrow> (int \<times> int list \<times> engine) option" where
  "xfiredb_list_pop x key idx n e = do {
     (rc, dbdata, e) \<leftarrow> e_lookup key e;
     if rc \<noteq> - XFIREDB_OK then Some (0, idx, e)
     else do {
       p \<leftarrow> dbdata;
       c \<leftarrow> e_cont e p;
       if \<not> container_check_type c CONTAINER_LIST then Some (- XFIREDB_ERR, idx, e)
       else do {
         lh \<leftarrow> get_list c;
         (lh, counter, idx, e) \<leftarrow> list_pop_loop x key n lh (nxt lh 0) (nxt lh (nxt lh 0)) 0 0 idx e;
         e \<leftarrow> e_put p (DList lh) e;
         if list_length lh \<le> 0
         then do {
           (rc, _, e) \<leftarrow> e_delete key e;
           if rc \<noteq> 0 then Some (int counter, idx, e) else Some (int counter, idx, e_free p e)
         }
         else Some (int counter, idx, e)
       }
     }
   }"

section \<open>Hash maps\<close>

fun hashmap_get_loop :: "strings \<Rightarrow> hashmap \<Rightarrow> string list \<Rightarrow> string option list \<Rightarrow> string option list option" where
  "hashmap_get_loop strs hm [] data = Some data"
| "hashmap_get_loop strs hm (k # ks) data = do {
     node \<leftarrow> hashmap_find hm k;
     if node = NULL then hashmap_get_loop strs hm ks (data @ [None])
     else do { tmp \<leftarrow> str_at strs node; hashmap_get_loop strs hm ks (data @ [Some tmp]) }
   }"

text \<open>\<^verbatim>\<open>xfiredb_hashmap_get\<close>: the cell of \<^verbatim>\<open>data\<close> of a missing key is left as it is, \<^const>\<open>None\<close> here.\<close>

definition xfiredb_hashmap_get ::
  "string \<Rightarrow> string list \<Rightarrow> engine \<Rightarrow> (int \<times> string option list \<times> engine) option" where
  "xfiredb_hashmap_get key skey e = do {
     (rc, dbdata, e) \<leftarrow> e_lookup key e;
     if rc \<noteq> - XFIREDB_OK then Some (- XFIREDB_ERR, [], e)
     else do {
       p \<leftarrow> dbdata;
       c \<leftarrow> e_cont e p;
       if \<not> container_check_type c CONTAINER_HASHMAP then Some (- XFIREDB_ERR, [], e)
       else do {
         hm \<leftarrow> get_map c;
         data \<leftarrow> hashmap_get_loop (e_strs e) hm skey [];
         Some (- XFIREDB_OK, data, e)
       }
     }
   }"

definition xfiredb_hashmap_set ::
  "econf \<Rightarrow> string \<Rightarrow> string \<Rightarrow> string \<Rightarrow> engine \<Rightarrow> (int \<times> engine) option" where
  "xfiredb_hashmap_set x key skey data e = do {
     (rc, dbdata, e) \<leftarrow> e_lookup key e;
     (p, new, e) \<leftarrow>
       (if rc \<noteq> - XFIREDB_OK
        then (let (p, e) = e_alloc (container_alloc CONTAINER_HASHMAP) e in Some (p, True, e))
        else do { p \<leftarrow> dbdata; Some (p, False, e) });
     c \<leftarrow> e_cont e p;
     if \<not> new \<and> \<not> container_check_type c CONTAINER_HASHMAP then Some (- XFIREDB_ERR, e)
     else do {
       hm \<leftarrow> get_map c;
       node \<leftarrow> hashmap_find hm skey;
       e \<leftarrow>
         (if node = NULL
          then do {
            let (s, e) = e_string_alloc data e;
            (_, hm) \<leftarrow> hashmap_add (x_coins x) hm skey s;
            e \<leftarrow> e_put p (DMap hm) e;
            e_queue x (Some key, Some skey, Some data, HM_ADD) e
          }
          else do {
            s \<leftarrow> e_strs e node;
            e_queue x (Some key, Some skey, Some data, HM_UPDATE) (e\<lparr>e_strs := (e_strs e)(node \<mapsto> string_set s data)\<rparr>)
          });
       if new then map_option (\<lambda>(_, e). (- XFIREDB_OK, e)) (e_store x key p e)
       else Some (- XFIREDB_OK, e)
     }
   }"

fun hashmap_remove_loop ::
  "econf \<Rightarrow> string \<Rightarrow> string list \<Rightarrow> hashmap \<Rightarrow> nat \<Rightarrow> engine \<Rightarrow> (hashmap \<times> nat \<times> engine) option" where
  "hashmap_remove_loop x key [] hm rmnum e = Some (hm, rmnum, e)"
| "hashmap_remove_loop x key (k # ks) hm rmnum e = do {
     (node, hm) \<leftarrow> hashmap_remove hm k;
     if node = NULL then hashmap_remove_loop x key ks hm rmnum e
     else do {
       e \<leftarrow> e_queue x (Some key, Some k, None, HM_DEL) e;
       hashmap_remove_loop x key ks (hashmap_node_destroy node hm) (rmnum + 1) (e_string_free node e)
     }
   }"

definition xfiredb_hashmap_remove ::
  "econf \<Rightarrow> string \<Rightarrow> string list \<Rightarrow> engine \<Rightarrow> (int \<times> engine) option" where
  "xfiredb_hashmap_remove x key skeys e = do {
     (rc, dbdata, e) \<leftarrow> e_lookup key e;
     if rc \<noteq> - XFIREDB_OK then Some (0, e)
     else do {
       p \<leftarrow> dbdata;
       c \<leftarrow> e_cont e p;
       if \<not> container_check_type c CONTAINER_HASHMAP then Some (0, e)
       else do {
         hm \<leftarrow> get_map c;
         (hm, rmnum, e) \<leftarrow> hashmap_remove_loop x key skeys hm 0 e;
         e \<leftarrow> e_put p (DMap hm) e;
         if hashmap_size hm = 0
         then do {
           (rc, _, e) \<leftarrow> e_delete key e;
           if rc \<noteq> 0 then Some (int rmnum, e) else Some (int rmnum, e_free p e)
         }
         else Some (int rmnum, e)
       }
     }
   }"

section \<open>Deleting and clearing\<close>

text \<open>\<^verbatim>\<open>bio_queue_add\<close> for a key whose copy is the block \<open>bio_key\<close>.\<close>

definition e_queue_put :: "econf \<Rightarrow> nat \<Rightarrow> bio_item \<Rightarrow> engine \<Rightarrow> engine option" where
  "e_queue_put x bio_key item e = map_option (\<lambda>b. e\<lparr>e_bio := b\<rparr>) (bio_queue_put (x_plvl x) bio_key item (e_bio e))"

text \<open>
  The loop of \<^verbatim>\<open>xfiredb_key_delete\<close> over the entries of a list. The key was copied once, before the loop: all entries of
  the I/O queue get the same block \<open>bio_key\<close>.
\<close>

partial_function (option) list_drop_loop ::
  "econf \<Rightarrow> string \<Rightarrow> nat \<Rightarrow> list_head \<Rightarrow> nat \<Rightarrow> nat \<Rightarrow> nat \<Rightarrow> engine \<Rightarrow> (list_head \<times> nat \<times> engine) option" where
  [code]: "list_drop_loop x key bio_key lh c s rv e =
     (if c = 0 then Some (lh, rv, e)
      else do {
        bio_data \<leftarrow> str_at (e_strs e) c;
        e \<leftarrow> e_queue_put x bio_key (Some key, Some bio_data, None, LIST_DEL) e;
        let lh = list_del lh c;
        list_drop_loop x key bio_key lh s (nxt lh s) (rv + 1) (e_string_free c e)
      })"

text \<open>The loop of \<^verbatim>\<open>xfiredb_key_delete\<close> over the nodes of a hash map.\<close>

partial_function (option) map_drop_loop ::
  "econf \<Rightarrow> string \<Rightarrow> hashmap \<Rightarrow> skiplist_iterator \<Rightarrow> engine \<Rightarrow> (hashmap \<times> engine) option" where
  [code]: "map_drop_loop x key hm hit e = do {
     (hnode, hit) \<leftarrow> hashmap_iterator_next hm hit;
     if hnode = NULL then Some (hm, e)
     else do {
       skey \<leftarrow> h_key hm hnode;
       e \<leftarrow> e_queue x (Some key, Some skey, None, HM_DEL) e;
       (_, hit, hm) \<leftarrow> hashmap_iterator_delete hm hit;
       map_drop_loop x key (hashmap_node_destroy hnode hm) hit (e_string_free hnode e)
     }
   }"

text \<open>
  \<^verbatim>\<open>xfiredb_key_delete\<close>: the key is removed from the database first, whatever its container. A set
  is neither destroyed nor removed from the disk.
\<close>

definition xfiredb_key_delete :: "econf \<Rightarrow> string \<Rightarrow> engine \<Rightarrow> (int \<times> engine) option" where
  "xfiredb_key_delete x key e = do {
     (rc, data, e) \<leftarrow> e_delete key e;
     if rc \<noteq> - XFIREDB_OK then Some (0, e)
     else do {
       p \<leftarrow> data;
       c \<leftarrow> e_cont e p;
       case c_type c of
         CONTAINER_STRING \<Rightarrow> do {
           e \<leftarrow> e_queue x (Some key, None, None, STRING_DEL) e;
           Some (1, e_free p e)
         }
       | CONTAINER_LIST \<Rightarrow> do {
           (bio_key, b) \<leftarrow> Some (bio_key_copy (e_bio e));
           lh \<leftarrow> get_list c;
           (lh, rv, e) \<leftarrow> list_drop_loop x key bio_key lh (nxt lh 0) (nxt lh (nxt lh 0)) 0 (e\<lparr>e_bio := b\<rparr>);
           Some (int rv, e_free p e)
         }
       | CONTAINER_HASHMAP \<Rightarrow> do {
           hm \<leftarrow> get_map c;
           (_, e) \<leftarrow> map_drop_loop x key hm (hashmap_new_iterator hm) e;
           Some (hashmap_size hm, e_free p e)
         }
       | CONTAINER_SET \<Rightarrow> Some (- XFIREDB_ERR, e)
     }
   }"

text \<open>
  The loops of \<^verbatim>\<open>xfiredb_list_clear\<close> and \<^verbatim>\<open>xfiredb_hashmap_clear\<close>; \<open>hook\<close> acts on a state of the
  caller.
\<close>

partial_function (option) list_clear_loop ::
  "econf \<Rightarrow> (string \<Rightarrow> string \<Rightarrow> 'h \<Rightarrow> 'h) \<Rightarrow> string \<Rightarrow> list_head \<Rightarrow> nat \<Rightarrow> nat \<Rightarrow> 'h \<Rightarrow> engine \<Rightarrow>
   (list_head \<times> 'h \<times> engine) option" where
  [code]: "list_clear_loop x hook key lh c s st e =
     (if c = 0 then Some (lh, st, e)
      else do {
        let lh = list_del lh c;
        data \<leftarrow> str_at (e_strs e) c;
        e \<leftarrow> e_queue x (Some key, Some data, None, LIST_DEL) e;
        list_clear_loop x hook key lh s (nxt lh s) (hook key data st) (e_string_free c e)
      })"

definition xfiredb_list_clear ::
  "econf \<Rightarrow> (string \<Rightarrow> string \<Rightarrow> 'h \<Rightarrow> 'h) \<Rightarrow> string \<Rightarrow> 'h \<Rightarrow> engine \<Rightarrow> (int \<times> 'h \<times> engine) option" where
  "xfiredb_list_clear x hook key st e = do {
     (rc, d, e) \<leftarrow> e_lookup key e;
     if rc \<noteq> XFIREDB_OK then Some (- XFIREDB_ERR, st, e)
     else do {
       p \<leftarrow> d;
       c \<leftarrow> e_cont e p;
       if \<not> container_check_type c CONTAINER_LIST then Some (- XFIREDB_ERR, st, e)
       else do {
         lh \<leftarrow> get_list c;
         (_, st, e) \<leftarrow> list_clear_loop x hook key lh (nxt lh 0) (nxt lh (nxt lh 0)) st e;
         Some (- XFIREDB_OK, st, e_free p e)
       }
     }
   }"

partial_function (option) map_clear_loop ::
  "econf \<Rightarrow> (string \<Rightarrow> string \<Rightarrow> 'h \<Rightarrow> 'h) \<Rightarrow> string \<Rightarrow> hashmap \<Rightarrow> skiplist_iterator \<Rightarrow> 'h \<Rightarrow> engine \<Rightarrow>
   (hashmap \<times> 'h \<times> engine) option" where
  [code]: "map_clear_loop x hook key hm hit st e = do {
     (n, hit) \<leftarrow> hashmap_iterator_next hm hit;
     if n = NULL then Some (hm, st, e)
     else do {
       data \<leftarrow> str_at (e_strs e) n;
       skey \<leftarrow> h_key hm n;
       e \<leftarrow> e_queue x (Some key, Some skey, None, HM_DEL) e;
       (_, hit, hm) \<leftarrow> hashmap_iterator_delete hm hit;
       map_clear_loop x hook key (hashmap_node_destroy n hm) hit (hook skey data st) (e_string_free n e)
     }
   }"

definition xfiredb_hashmap_clear ::
  "econf \<Rightarrow> (string \<Rightarrow> string \<Rightarrow> 'h \<Rightarrow> 'h) \<Rightarrow> string \<Rightarrow> 'h \<Rightarrow> engine \<Rightarrow> (int \<times> 'h \<times> engine) option" where
  "xfiredb_hashmap_clear x hook key st e = do {
     (rc, d, e) \<leftarrow> e_lookup key e;
     if rc \<noteq> XFIREDB_OK then Some (- XFIREDB_ERR, st, e)
     else do {
       p \<leftarrow> d;
       c \<leftarrow> e_cont e p;
       if \<not> container_check_type c CONTAINER_HASHMAP then Some (- XFIREDB_ERR, st, e)
       else do {
         hm \<leftarrow> get_map c;
         (_, st, e) \<leftarrow> map_clear_loop x hook key hm (hashmap_new_iterator hm) st e;
         Some (- XFIREDB_OK, st, e_free p e)
       }
     }
   }"

section \<open>Persistence\<close>

definition xfiredb_notice_disk ::
  "econf \<Rightarrow> string option \<Rightarrow> string option \<Rightarrow> string option \<Rightarrow> bio_operation \<Rightarrow> engine \<Rightarrow> engine option" where
  "xfiredb_notice_disk x key arg data op e =
     (if \<not> e_load e then Some e else e_queue x (key, arg, data, op) e)"

primrec store_list_entries :: "econf \<Rightarrow> string \<Rightarrow> nat list \<Rightarrow> engine \<Rightarrow> engine option" where
  "store_list_entries x key [] e = Some e"
| "store_list_entries x key (l # ls) e = do {
     v \<leftarrow> str_at (e_strs e) l;
     e \<leftarrow> e_queue x (Some key, None, Some v, LIST_ADD) e;
     store_list_entries x key ls e
   }"

partial_function (option) store_map_entries ::
  "econf \<Rightarrow> string \<Rightarrow> hashmap \<Rightarrow> skiplist_iterator \<Rightarrow> engine \<Rightarrow> engine option" where
  [code]: "store_map_entries x key hm it e = do {
     (node, it) \<leftarrow> hashmap_iterator_next hm it;
     if node = NULL then Some e
     else do {
       v \<leftarrow> str_at (e_strs e) node;
       arg \<leftarrow> h_key hm node;
       e \<leftarrow> e_queue x (Some key, Some arg, Some v, HM_ADD) e;
       store_map_entries x key hm it e
     }
   }"

partial_function (option) store_set_entries ::
  "econf \<Rightarrow> string \<Rightarrow> sset \<Rightarrow> skiplist_iterator \<Rightarrow> engine \<Rightarrow> engine option" where
  [code]: "store_set_entries x key s it e = do {
     (k, it) \<leftarrow> set_iterator_next s it;
     if k = NULL then Some e
     else do {
       arg \<leftarrow> set_key s k;
       e \<leftarrow> e_queue x (Some key, Some arg, None, SET_ADD) e;
       store_set_entries x key s it e
     }
   }"

definition xfiredb_store_container :: "econf \<Rightarrow> string \<Rightarrow> container \<Rightarrow> engine \<Rightarrow> engine option" where
  "xfiredb_store_container x key c e =
     (if \<not> e_load e then Some e
      else case c_type c of
        CONTAINER_STRING \<Rightarrow> do {
          s \<leftarrow> get_string c;
          v \<leftarrow> string_get s;
          e_queue x (Some key, None, Some v, STRING_ADD) e
        }
      | CONTAINER_LIST \<Rightarrow> do { lh \<leftarrow> get_list c; ls \<leftarrow> list_for_each lh; store_list_entries x key ls e }
      | CONTAINER_HASHMAP \<Rightarrow> do { hm \<leftarrow> get_map c; store_map_entries x key hm (hashmap_new_iterator hm) e }
      | CONTAINER_SET \<Rightarrow> do { s \<leftarrow> get_set c; store_set_entries x key s (set_iterator_new s) e })"

definition xfiredb_get_row_type :: "string \<Rightarrow> container_type" where
  "xfiredb_get_row_type cell =
     (if cell = ''string'' then CONTAINER_STRING
      else if cell = ''list'' then CONTAINER_LIST
      else if cell = ''hashmap'' then CONTAINER_HASHMAP
      else if cell = ''set'' then CONTAINER_SET
      else CONTAINER_STRING)"

text \<open>
  One row of \<^verbatim>\<open>xfiredb_load\<close>. A container that is present is used without a check of its type:
  reading the wrong member of the union is not defined.
\<close>

definition load_row :: "econf \<Rightarrow> string \<Rightarrow> string \<Rightarrow> string \<Rightarrow> string \<Rightarrow> engine \<Rightarrow> engine option" where
  "load_row x key skey type data e = do {
     (rc, dbdata, e) \<leftarrow> e_lookup key e;
     let available = (rc = - XFIREDB_OK);
     let type = xfiredb_get_row_type type;
     if type = CONTAINER_STRING \<and> available then Some e
     else do {
       (p, e) \<leftarrow> (if available then do { p \<leftarrow> dbdata; Some (p, e) } else Some (e_alloc (container_alloc type) e));
       c \<leftarrow> e_cont e p;
       e \<leftarrow>
         (case type of
            CONTAINER_STRING \<Rightarrow> do { s \<leftarrow> get_string c; e_put p (DString (string_set s data)) e }
          | CONTAINER_LIST \<Rightarrow> do {
              h \<leftarrow> get_list c;
              let (s, e) = e_string_alloc data e;
              e_put p (DList (list_rpush h s)) e
            }
          | CONTAINER_HASHMAP \<Rightarrow> do {
              hm \<leftarrow> get_map c;
              let (s, e) = e_string_alloc data e;
              (_, hm) \<leftarrow> hashmap_add (x_coins x) hm skey s;
              e_put p (DMap hm) e
            }
          | CONTAINER_SET \<Rightarrow> do {
              st \<leftarrow> get_set c;
              let (k, e) = (e_fresh e, e\<lparr>e_fresh := e_fresh e + 1\<rparr>);
              (_, st) \<leftarrow> set_add (x_coins x) st skey k;
              e_put p (DSet st) e
            });
       if available then Some e else map_option snd (e_store x key p e)
     }
   }"

fun xfiredb_load :: "econf \<Rightarrow> string list \<Rightarrow> engine \<Rightarrow> engine option" where
  "xfiredb_load x [] e = Some e"
| "xfiredb_load x (key # skey # type # data # rows) e = do {
     e \<leftarrow> load_row x key skey type data e;
     xfiredb_load x rows e
   }"
| "xfiredb_load x _ e = None"

text \<open>The calls that hand the request to the disk; \<open>hook\<close> acts on a state of the caller.\<close>

definition xfiredb_disk_clear :: "'db sqlite \<Rightarrow> 'db disk \<Rightarrow> 'db disk option" where
  "xfiredb_disk_clear sql disk_db = disk_clear sql disk_db"

definition xfiredb_disk_size :: "'db sqlite \<Rightarrow> 'db disk \<Rightarrow> int option \<times> 'db disk" where
  "xfiredb_disk_size sql disk_db = disk_size sql disk_db"

definition xfiredb_raw_load ::
  "'db sqlite \<Rightarrow> (string list \<Rightarrow> 'h \<Rightarrow> 'h option) \<Rightarrow> 'db disk \<Rightarrow> 'h \<Rightarrow> ('db disk \<times> 'h) option" where
  "xfiredb_raw_load sql hook disk_db st = map_option snd (disk_load sql disk_db hook st)"

definition xfiredb_load_key ::
  "'db sqlite \<Rightarrow> string \<Rightarrow> (string list \<Rightarrow> 'h \<Rightarrow> 'h option) \<Rightarrow> 'db disk \<Rightarrow> 'h \<Rightarrow> ('db disk \<times> 'h) option" where
  "xfiredb_load_key sql key hook disk_db st = map_option snd (disk_load_key sql disk_db key hook st)"

text \<open>
  \<^verbatim>\<open>xfiredb_init\<close> in a build with \<^verbatim>\<open>HAVE_DEBUG\<close> (the option \<^verbatim>\<open>XFIREDB_DEBUG\<close>): an empty database filled from the disk. Without
  \<^verbatim>\<open>HAVE_DEBUG\<close> the database is not allocated, and the first row that is loaded is stored through a null pointer. The I/O
  queue stays untouched.
\<close>

definition xfiredb_init :: "'db sqlite \<Rightarrow> econf \<Rightarrow> 'db disk \<Rightarrow> ('db disk \<times> engine) option" where
  "xfiredb_init sql x d =
     map_option snd (disk_load sql d (xfiredb_load x) engine_init)"

end
