(* ===== verification/EngineRep.thy ===== *)
theory EngineRep
  imports Engine
begin

text \<open>
  What the state of the engine stands for: a map from keys to values. The predicate \<open>e_rep\<close> relates
  a state to its map and to the nodes that each key owns; the lemmas of this theory carry the
  effect of the calls into the components over to it, so that the operations on one key are
  verified without the others.
\<close>

section \<open>Representation\<close>

definition key_rep :: "engine \<Rightarrow> nat list \<Rightarrow> ptr \<Rightarrow> val \<Rightarrow> bool" where
  "key_rep e ns p v \<longleftrightarrow> (\<exists>m < e_next e. p = of_nat m) \<and> (\<forall>n\<in>set ns. 2 \<le> n \<and> n < e_fresh e) \<and>
     (\<exists>c. e_cont e p = Some c \<and> is_val (e_strs e) c ns v)"

definition e_rep :: "engine \<Rightarrow> (string \<Rightarrow> nat list) \<Rightarrow> (string \<rightharpoonup> val) \<Rightarrow> bool" where
  "e_rep e N M \<longleftrightarrow> db_ok (e_db e) \<and> 2 \<le> e_fresh e \<and> e_next e \<le> 2 ^ 64 \<and>
     (\<forall>k. dbmap (e_db e) k = None \<longleftrightarrow> M k = None) \<and>
     (\<forall>k p v. dbmap (e_db e) k = Some p \<longrightarrow> M k = Some v \<longrightarrow> key_rep e (N k) p v) \<and>
     (\<forall>k k' p p'. dbmap (e_db e) k = Some p \<longrightarrow> dbmap (e_db e) k' = Some p' \<longrightarrow> k \<noteq> k' \<longrightarrow>
        p \<noteq> p' \<and> set (N k) \<inter> set (N k') = {})"

text \<open>The entries waiting in the I/O queue.\<close>

definition e_io :: "econf \<Rightarrow> engine \<Rightarrow> bio_item list \<Rightarrow> bool" where
  "e_io x e items \<longleftrightarrow> 0 \<le> x_plvl x \<and> x_plvl x < 3 \<and> holds (e_bio e) items \<and>
     0 \<le> b_wake (e_bio e) \<and> b_wake (e_bio e) \<le> x_plvl x"

definition room_for :: "engine \<Rightarrow> (string \<rightharpoonup> val) \<Rightarrow> bool" where
  "room_for e M \<longleftrightarrow> card (dom M) \<le> 2 ^ 30 \<and> e_next e < 2 ^ 64"

lemma e_rep_bio [simp]: "e_rep (e\<lparr>e_bio := b\<rparr>) = e_rep e"
  by (simp add: fun_eq_iff e_rep_def key_rep_def)

lemma e_io_other [simp]:
  "e_io x (e\<lparr>e_db := db\<rparr>) = e_io x e" "e_io x (e\<lparr>e_cont := ct\<rparr>) = e_io x e" "e_io x (e\<lparr>e_strs := st\<rparr>) = e_io x e"
  "e_io x (e\<lparr>e_next := m\<rparr>) = e_io x e" "e_io x (e\<lparr>e_fresh := m\<rparr>) = e_io x e"
  by (simp_all add: fun_eq_iff e_io_def)

lemma e_queue_ok:
  assumes "e_io x e items"
  shows "\<exists>b. e_queue x item e = Some (e\<lparr>e_bio := b\<rparr>) \<and> e_io x (e\<lparr>e_bio := b\<rparr>) (items @ [item])"
proof -
  obtain b where "bio_queue_add (x_plvl x) item (e_bio e) = Some b" "holds b (items @ [item])"
      "0 \<le> b_wake b" "b_wake b \<le> x_plvl x"
    using assms bio_queue_add_ok [of "e_bio e" items "x_plvl x" item]
    by (auto simp: e_io_def split: if_splits)
  then show ?thesis
    using assms by (intro exI [of _ b]) (simp add: e_queue_def e_io_def)
qed

lemma e_queueE:
  assumes "e_io x e items"
  obtains b where "e_queue x item e = Some (e\<lparr>e_bio := b\<rparr>)" "e_io x (e\<lparr>e_bio := b\<rparr>) (items @ [item])"
  using e_queue_ok [OF assms] by blast

lemma db_room_card:
  assumes "db_ok db" "card (dom (dbmap db)) \<le> 2 ^ 30"
  shows "db_room db"
proof -
  let ?d = "container db"
  have ok: "dict_ok ?d"
    using assms(1) by (simp add: db_ok_def)
  have "dom (dbmap db) = e_key ` set (entries ?d)"
    using dmap_dom [of _ ?d] by (force simp: dbmap_def dom_def)
  moreover have "distinct (map e_key (entries ?d))"
    using ok by (simp add: dict_ok_def)
  ultimately have "card (dom (dbmap db)) = length (entries ?d)"
    by (metis distinct_card length_map list.set_map)
  moreover have "dict_get_size ?d = int (length (entries ?d))"
    using ok by (auto simp: dict_get_size_def dict_ok_def map_ok_def entries_def entries_of_def split: option.splits)
  ultimately show ?thesis
    using assms(2) by (simp add: db_room_def has_room_def)
qed

section \<open>Changing one key\<close>

text \<open>
  \<open>only e e' F p\<close>: the step from \<open>e\<close> to \<open>e'\<close> changes the container at \<open>p\<close>, the strings at the nodes
  \<open>F\<close> and unused nodes only.
\<close>

definition only :: "engine \<Rightarrow> engine \<Rightarrow> nat set \<Rightarrow> ptr \<Rightarrow> bool" where
  "only e e' F p \<longleftrightarrow> (\<forall>q. q \<noteq> p \<longrightarrow> e_cont e' q = e_cont e q) \<and>
     (\<forall>n. n \<notin> F \<longrightarrow> n < e_fresh e \<longrightarrow> e_strs e' n = e_strs e n) \<and> e_next e \<le> e_next e' \<and> e_fresh e \<le> e_fresh e'"

lemma key_rep_only:
  assumes "key_rep e ns q v" "only e e' F p" "q \<noteq> p" "set ns \<inter> F = {}"
  shows "key_rep e' ns q v"
proof -
  obtain c m where c: "e_cont e q = Some c" "is_val (e_strs e) c ns v" "q = of_nat m" "m < e_next e"
    using assms(1) by (auto simp: key_rep_def)
  have ns: "2 \<le> n \<and> n < e_fresh e" if "n \<in> set ns" for n
    using assms(1) that by (auto simp: key_rep_def)
  have "is_val (e_strs e') c ns v"
    by (rule is_val_frame [OF c(2)]) (use ns assms(2,4) in \<open>auto simp: only_def\<close>)
  moreover have "e_cont e' q = Some c" "m < e_next e'" "\<forall>n\<in>set ns. 2 \<le> n \<and> n < e_fresh e'"
    using assms(2,3) c ns by (auto simp: only_def dest: order.strict_trans2)
  ultimately show ?thesis
    using c(3) by (auto simp: key_rep_def)
qed

lemma e_rep_None: "e_rep e N M \<Longrightarrow> dbmap (e_db e) k = None \<longleftrightarrow> M k = None"
  unfolding e_rep_def by blast

lemma e_rep_key_rep: "e_rep e N M \<Longrightarrow> dbmap (e_db e) k = Some p \<Longrightarrow> M k = Some v \<Longrightarrow> key_rep e (N k) p v"
  unfolding e_rep_def by blast

lemma e_repD:
  assumes "e_rep e N M" "dbmap (e_db e) k = Some p"
  obtains v where "M k = Some v" "key_rep e (N k) p v"
proof -
  show thesis
    using e_rep_None [OF assms(1), of k] e_rep_key_rep [OF assms] assms(2) that by (cases "M k") simp_all
qed

lemma e_rep_step:
  assumes rep: "e_rep e N M" and only: "only e e' F p"
    and db: "db_ok (e_db e')" "\<And>k'. k' \<noteq> k \<Longrightarrow> dbmap (e_db e') k' = dbmap (e_db e) k'" "e_next e' \<le> 2 ^ 64"
    and F: "\<And>k' q. k' \<noteq> k \<Longrightarrow> dbmap (e_db e) k' = Some q \<Longrightarrow> q \<noteq> p \<and> set (N k') \<inter> F = {}"
    and new: "case vo of None \<Rightarrow> dbmap (e_db e') k = None
      | Some v \<Rightarrow> dbmap (e_db e') k = Some p \<and> key_rep e' ns p v \<and> (\<forall>n\<in>set ns. n \<in> F \<or> e_fresh e \<le> n)"
  shows "e_rep e' (N(k := ns)) (M(k := vo))"
proof -
  have other: "key_rep e' (N k') q v" if "k' \<noteq> k" "dbmap (e_db e') k' = Some q" "M k' = Some v" for k' q v
  proof -
    have q: "dbmap (e_db e) k' = Some q"
      using that db(2) by simp
    show ?thesis
      by (rule key_rep_only [OF _ only]) (use that q rep F [OF that(1) q] in \<open>auto simp: e_rep_def\<close>)
  qed
  have disj: "q \<noteq> p \<and> set (N k') \<inter> set ns = {}" if "k' \<noteq> k" "dbmap (e_db e') k' = Some q" "vo \<noteq> None" for k' q
  proof -
    have q: "dbmap (e_db e) k' = Some q"
      using that db(2) by simp
    then have "\<forall>n\<in>set (N k'). n < e_fresh e"
      using e_repD [OF rep q] by (auto simp: key_rep_def)
    then show ?thesis
      using F [OF that(1) q] new that(3) by fastforce
  qed
  have fresh: "2 \<le> e_fresh e'"
    using rep only by (simp add: e_rep_def only_def)
  have none: "dbmap (e_db e') k' = None \<longleftrightarrow> (M(k := vo)) k' = None" for k'
    using rep db(2) [of k'] new by (cases "k' = k") (auto simp: e_rep_def split: option.splits)
  have reps: "key_rep e' ((N(k := ns)) k') q v" if "dbmap (e_db e') k' = Some q" "(M(k := vo)) k' = Some v" for k' q v
    using that other new by (cases "k' = k") (auto split: option.splits)
  have pair: "q \<noteq> q' \<and> set ((N(k := ns)) k1) \<inter> set ((N(k := ns)) k2) = {}"
    if k: "dbmap (e_db e') k1 = Some q" "dbmap (e_db e') k2 = Some q'" "k1 \<noteq> k2" for k1 k2 q q'
  proof -
    consider "k1 \<noteq> k" "k2 \<noteq> k" | "k1 = k" "k2 \<noteq> k" | "k1 \<noteq> k" "k2 = k"
      using k(3) by blast
    then show ?thesis
    proof cases
      case 1
      then show ?thesis
        using k db(2) rep unfolding e_rep_def by auto
    next
      case 2
      then show ?thesis
        using k new disj [of k2 q'] by (auto split: option.splits)
    next
      case 3
      then show ?thesis
        using k new disj [of k1 q] by (auto split: option.splits)
    qed
  qed
  show ?thesis
    unfolding e_rep_def using db(1,3) fresh none reps pair by blast
qed

lemma e_rep_key:
  assumes "e_rep e N M" "M k = Some v"
  obtains p where "dbmap (e_db e) k = Some p" "key_rep e (N k) p v"
  using e_rep_None [OF assms(1), of k] e_rep_key_rep [OF assms(1)] assms(2) that
  by (cases "dbmap (e_db e) k") simp_all

text \<open>The three ways in which an operation changes the map.\<close>

lemma e_rep_change:
  assumes "e_rep e N M" "dbmap (e_db e) k = Some p" "only e e' (set (N k)) p" "e_db e' = e_db e" "e_next e' = e_next e"
    and "key_rep e' ns p v" "\<forall>n\<in>set ns. n \<in> set (N k) \<or> e_fresh e \<le> n"
  shows "e_rep e' (N(k := ns)) (M(k \<mapsto> v))"
proof (rule e_rep_step [OF assms(1,3)])
  show "q \<noteq> p \<and> set (N k') \<inter> set (N k) = {}" if "k' \<noteq> k" "dbmap (e_db e) k' = Some q" for k' q
    using assms(1,2) that by (simp add: e_rep_def)
qed (use assms in \<open>simp_all add: e_rep_def\<close>)

lemma e_rep_new:
  assumes "e_rep e N M" "M k = None" "e_next e < 2 ^ 64" "p = of_nat (e_next e)" "only e e' {} p"
    and "db_ok (e_db e')" "dbmap (e_db e') = (dbmap (e_db e))(k \<mapsto> p)" "e_next e' = e_next e + 1"
    and "key_rep e' ns p v" "\<forall>n\<in>set ns. e_fresh e \<le> n"
  shows "e_rep e' (N(k := ns)) (M(k \<mapsto> v))"
proof (rule e_rep_step [OF assms(1,5,6)])
  show "q \<noteq> p \<and> set (N k') \<inter> {} = {}" if k: "k' \<noteq> k" "dbmap (e_db e) k' = Some q" for k' q
  proof -
    obtain m where m: "m < e_next e" "q = of_nat m"
      using e_repD [OF assms(1) k(2)] by (auto simp: key_rep_def)
    then have "unat q = m" "unat p = e_next e"
      using assms(3,4) by (simp_all add: unat_of_nat take_bit_nat_eq_self)
    then show ?thesis
      using m by auto
  qed
qed (use assms in \<open>simp_all\<close>)

lemma e_rep_remove:
  assumes "e_rep e N M" "dbmap (e_db e) k = Some p" "only e e' (set (N k)) p" "db_ok (e_db e')"
    and "dbmap (e_db e') = (dbmap (e_db e))(k := None)" "e_next e' = e_next e"
  shows "e_rep e' (N(k := [])) (M(k := None))"
proof (rule e_rep_step [OF assms(1,3,4)])
  show "q \<noteq> p \<and> set (N k') \<inter> set (N k) = {}" if "k' \<noteq> k" "dbmap (e_db e) k' = Some q" for k' q
    using assms(1,2) that by (simp add: e_rep_def)
qed (use assms in \<open>simp_all add: e_rep_def\<close>)

lemma e_rep_db: "e_rep e N M \<Longrightarrow> db_ok db \<Longrightarrow> dbmap db = dbmap (e_db e) \<Longrightarrow> e_rep (e\<lparr>e_db := db\<rparr>) N M"
  by (simp add: e_rep_def key_rep_def)

lemma e_rep_dom: "e_rep e N M \<Longrightarrow> dom (dbmap (e_db e)) = dom M"
  using e_rep_None by (auto simp: dom_def)

section \<open>Calls into the database\<close>

lemma e_lookup_ok:
  assumes "e_rep e N M"
  shows "\<exists>db. e_lookup k e = Some (if M k = None then -1 else 0, dbmap (e_db e) k, e\<lparr>e_db := db\<rparr>) \<and>
    dbmap db = dbmap (e_db e) \<and> e_rep (e\<lparr>e_db := db\<rparr>) N M"
proof -
  obtain db where "db_lookup (e_db e) k = Some (if dbmap (e_db e) k = None then -1 else 0, dbmap (e_db e) k, db)"
      "db_ok db" "dbmap db = dbmap (e_db e)"
    using db.look_law [of "e_db e" k] assms by (auto simp: e_rep_def)
  then show ?thesis
    using e_rep_db [OF assms] e_rep_None [OF assms, of k] by (intro exI [of _ db]) (simp add: e_lookup_def)
qed

lemma e_store_ok:
  assumes "db_ok (e_db e)" "card (dom (dbmap (e_db e))) \<le> 2 ^ 30" "dbmap (e_db e) k = None"
  shows "\<exists>db. e_store x k p e = Some (0, e\<lparr>e_db := db\<rparr>) \<and> db_ok db \<and> dbmap db = (dbmap (e_db e))(k \<mapsto> p)"
  using db.store_law [OF assms(1) db_room_card [OF assms(1,2)], of "x_dict x" "x_mem x" k p] assms(3)
  by (auto simp: e_store_def)

lemma e_delete_ok:
  assumes "db_ok (e_db e)"
  shows "\<exists>db. e_delete k e = Some (if dbmap (e_db e) k = None then -1 else 0, dbmap (e_db e) k, e\<lparr>e_db := db\<rparr>) \<and>
    db_ok db \<and> dbmap db = (dbmap (e_db e))(k := None)"
  using db.delete_law [OF assms, of k] by (auto simp: e_delete_def)

section \<open>Looking a key up\<close>

lemma key_rep_cont:
  assumes "key_rep e ns p v"
  obtains c where "e_cont e p = Some c" "is_val (e_strs e) c ns v" "\<forall>t. container_check_type c t \<longleftrightarrow> t = type_of v"
    "c_type c = type_of v"
  using assms get_data_typed by (fastforce simp: key_rep_def)

lemma e_absent:
  assumes rep: "e_rep e N M" and k: "M k = None"
  obtains db where "e_lookup k e = Some (-1, None, e\<lparr>e_db := db\<rparr>)" "dbmap db = dbmap (e_db e)" "dbmap db k = None"
    "db_ok db" "e_rep (e\<lparr>e_db := db\<rparr>) N M"
proof -
  obtain db where "e_lookup k e = Some (-1, None, e\<lparr>e_db := db\<rparr>)" "dbmap db = dbmap (e_db e)" "dbmap db k = None"
      "e_rep (e\<lparr>e_db := db\<rparr>) N M"
    using e_lookup_ok [OF rep, of k] k e_rep_None [OF rep, of k] by auto
  then show thesis
    using that by (simp add: e_rep_def)
qed

lemma e_present:
  assumes rep: "e_rep e N M" and k: "M k = Some v"
  obtains db p c where "e_lookup k e = Some (0, Some p, e\<lparr>e_db := db\<rparr>)" "dbmap db k = Some p"
    "e_rep (e\<lparr>e_db := db\<rparr>) N M" "key_rep (e\<lparr>e_db := db\<rparr>) (N k) p v" "e_cont e p = Some c"
    "is_val (e_strs e) c (N k) v" "\<forall>t. container_check_type c t \<longleftrightarrow> t = type_of v"
proof -
  obtain db where db: "e_lookup k e = Some (0, dbmap (e_db e) k, e\<lparr>e_db := db\<rparr>)" "dbmap db = dbmap (e_db e)"
      "e_rep (e\<lparr>e_db := db\<rparr>) N M"
    using e_lookup_ok [OF rep, of k] k by auto
  obtain p where p: "dbmap (e_db e) k = Some p" "key_rep e (N k) p v"
    using e_rep_key [OF rep k] .
  then have "key_rep (e\<lparr>e_db := db\<rparr>) (N k) p v"
    by (simp add: key_rep_def)
  then show thesis
    using that db p key_rep_cont [OF p(2)] by (metis (no_types))
qed

text \<open>The database accepts a new key.\<close>

lemma e_store_new:
  assumes "e_rep e N M" "room_for e M" "db_ok db" "dbmap db = dbmap (e_db e)" "dbmap db k = None" "e_db e' = db"
  obtains db' where "e_store x k p e' = Some (0, e'\<lparr>e_db := db'\<rparr>)" "db_ok db'" "dbmap db' = (dbmap (e_db e))(k \<mapsto> p)"
  using e_store_ok [of e' k x p] assms e_rep_dom [OF assms(1)] by (auto simp: room_for_def)

end
