(* ===== verification/EngineOps.thy ===== *)
theory EngineOps
  imports EngineRep
begin

text \<open>
  The operations of the engine refine operations on a map from keys to values: every operation
  has a specification (\<open>spec_\<dots>\<close>) that gives its result, the new map and the entries it adds to the
  I/O queue.
\<close>

type_synonym dbval = "string \<rightharpoonup> val"

text \<open>
  \<open>refines e\<close>: the result, the map and the queue after an operation in the state \<open>e\<close> are those of its
  specification, and at most one container was allocated.
\<close>

definition refines ::
  "engine \<Rightarrow> econf \<Rightarrow> bio_item list \<Rightarrow> ('r \<times> engine) option \<Rightarrow> 'r \<times> dbval \<times> bio_item list \<Rightarrow> bool" where
  "refines e x Q res spec \<longleftrightarrow>
     (case spec of (r, M, items) \<Rightarrow>
        \<exists>e' N'. res = Some (r, e') \<and> e_rep e' N' M \<and> e_io x e' (Q @ items) \<and> e_next e' \<le> e_next e + 1)"

lemma refinesI:
  "res = Some (r, e') \<Longrightarrow> e_rep e' N' M \<Longrightarrow> e_io x e' (Q @ items) \<Longrightarrow> e_next e' \<le> e_next e + 1 \<Longrightarrow>
   refines e x Q res (r, M, items)"
  by (auto simp: refines_def)

lemma refines_db [simp]: "refines (e\<lparr>e_db := db\<rparr>) x Q res spec = refines e x Q res spec"
  by (simp add: refines_def)

section \<open>Strings\<close>

definition spec_string_get :: "string \<Rightarrow> string option \<Rightarrow> dbval \<Rightarrow> int \<times> string option" where
  "spec_string_get k old M =
     (case M k of None \<Rightarrow> (-1, None) | Some (VString s) \<Rightarrow> (0, Some s) | Some _ \<Rightarrow> (-1, old))"

definition spec_string_set :: "string \<Rightarrow> string \<Rightarrow> dbval \<Rightarrow> int \<times> dbval \<times> bio_item list" where
  "spec_string_set k s M =
     (case M k of
        None \<Rightarrow> (0, M(k \<mapsto> VString s), [(Some k, None, Some s, STRING_ADD)])
      | Some (VString _) \<Rightarrow> (0, M(k \<mapsto> VString s), [(Some k, None, Some s, STRING_UPDATE)])
      | Some _ \<Rightarrow> (-1, M, []))"

lemma get_string_val:
  assumes "is_val strs c ns (VString x)"
  obtains s where "get_string c = Some s" "string_get s = Some x" "c = \<lparr>c_type = CONTAINER_STRING, c_data = DString s\<rparr>"
  using get_data_typed(3) [OF assms refl] assms that by (cases c) (auto simp: is_val_def)

lemma xfiredb_string_get_ok:
  assumes "e_rep e N M"
  shows "\<exists>e'. xfiredb_string_get k old e = (case spec_string_get k old M of (rc, s) \<Rightarrow> Some (rc, s, e')) \<and>
    e_rep e' N M \<and> e_bio e' = e_bio e"
proof (cases "M k")
  case None
  obtain db where "e_lookup k e = Some (-1, None, e\<lparr>e_db := db\<rparr>)" "e_rep (e\<lparr>e_db := db\<rparr>) N M"
    using e_absent [OF assms None] by metis
  then show ?thesis
    using None by (simp add: xfiredb_string_get_def spec_string_get_def)
next
  case (Some v)
  obtain db p c where l: "e_lookup k e = Some (0, Some p, e\<lparr>e_db := db\<rparr>)" "e_rep (e\<lparr>e_db := db\<rparr>) N M"
      "e_cont e p = Some c" "is_val (e_strs e) c (N k) v" "\<forall>t. container_check_type c t \<longleftrightarrow> t = type_of v"
    using e_present [OF assms Some] by metis
  show ?thesis
  proof (cases v)
    case (VString x)
    then obtain s where "get_string c = Some s" "string_get s = Some x"
      using get_string_val l(4) by metis
    then show ?thesis
      using l Some VString by (simp add: xfiredb_string_get_def spec_string_get_def)
  qed (use l Some in \<open>simp_all add: xfiredb_string_get_def spec_string_get_def\<close>)
qed

lemma string_val: "is_val strs \<lparr>c_type = CONTAINER_STRING, c_data = DString (string_set s y)\<rparr> [] (VString y)"
  by (simp add: is_val_def string_set_def string_get_def Let_def)

lemma xfiredb_string_set_new:
  assumes rep: "e_rep e N M" and io: "e_io x e Q" and room: "room_for e M" and None: "M k = None"
  shows "refines e x Q (xfiredb_string_set x k s e) (0, M(k \<mapsto> VString s), [(Some k, None, Some s, STRING_ADD)])"
proof -
  obtain db where l: "e_lookup k e = Some (-1, None, e\<lparr>e_db := db\<rparr>)" "dbmap db = dbmap (e_db e)" "dbmap db k = None"
      "db_ok db" "e_rep (e\<lparr>e_db := db\<rparr>) N M"
    using e_absent [OF rep None] .
  let ?p = "of_nat (e_next e) :: ptr" and ?c = "\<lparr>c_type = CONTAINER_STRING, c_data = DString (string_set string_init s)\<rparr>"
  let ?e = "e\<lparr>e_db := db, e_cont := (e_cont e)(?p \<mapsto> ?c), e_next := e_next e + 1\<rparr>"
  obtain db2 where st: "e_store x k ?p ?e = Some (0, ?e\<lparr>e_db := db2\<rparr>)" "db_ok db2" "dbmap db2 = (dbmap (e_db e))(k \<mapsto> ?p)"
    using e_store_new [OF rep room l(4,2,3), of ?e x ?p] by auto
  let ?e2 = "?e\<lparr>e_db := db2\<rparr>"
  have io2: "e_io x ?e2 Q"
    using io by simp
  obtain b where b: "e_queue x (Some k, None, Some s, STRING_ADD) ?e2 = Some (?e2\<lparr>e_bio := b\<rparr>)"
      "e_io x (?e2\<lparr>e_bio := b\<rparr>) (Q @ [(Some k, None, Some s, STRING_ADD)])"
    using e_queueE [OF io2] .
  have r: "xfiredb_string_set x k s e = Some (0, ?e2\<lparr>e_bio := b\<rparr>)"
    using l(1) st(1) b(1)
    by (simp add: xfiredb_string_set_def container_alloc_def container_init_def get_string_def container_get_data_def
        e_alloc_def)
  have rep': "e_rep ?e2 (N(k := [])) (M(k \<mapsto> VString s))"
  proof (rule e_rep_new [OF l(5) None _ _, where p = ?p])
    show "key_rep ?e2 [] ?p (VString s)"
      by (auto simp: key_rep_def string_val)
  qed (use room st l in \<open>auto simp: only_def room_for_def\<close>)
  show ?thesis
    using refinesI [OF r _ b(2)] rep' by simp
qed

lemma xfiredb_string_set_old:
  assumes rep: "e_rep e N M" and io: "e_io x e Q" and k: "M k = Some (VString y)"
  shows "refines e x Q (xfiredb_string_set x k s e) (0, M(k \<mapsto> VString s), [(Some k, None, Some s, STRING_UPDATE)])"
proof -
  obtain db p c where l: "e_lookup k e = Some (0, Some p, e\<lparr>e_db := db\<rparr>)" "dbmap db k = Some p"
      "e_rep (e\<lparr>e_db := db\<rparr>) N M" "key_rep (e\<lparr>e_db := db\<rparr>) (N k) p (VString y)" "e_cont e p = Some c"
      "is_val (e_strs e) c (N k) (VString y)" "\<forall>t. container_check_type c t \<longleftrightarrow> t = type_of (VString y)"
    using e_present [OF rep k] .
  obtain d where d: "get_string c = Some d" "c = \<lparr>c_type = CONTAINER_STRING, c_data = DString d\<rparr>"
    using get_string_val [OF l(6)] by metis
  let ?e = "e\<lparr>e_db := db, e_cont := (e_cont e)(p \<mapsto> \<lparr>c_type = CONTAINER_STRING, c_data = DString (string_set d s)\<rparr>)\<rparr>"
  have io2: "e_io x ?e Q"
    using io by simp
  obtain b where b: "e_queue x (Some k, None, Some s, STRING_UPDATE) ?e = Some (?e\<lparr>e_bio := b\<rparr>)"
      "e_io x (?e\<lparr>e_bio := b\<rparr>) (Q @ [(Some k, None, Some s, STRING_UPDATE)])"
    using e_queueE [OF io2] .
  have r: "xfiredb_string_set x k s e = Some (0, ?e\<lparr>e_bio := b\<rparr>)"
    using l(1,5,7) d b(1) by (simp add: xfiredb_string_set_def e_put_def)
  have rep': "e_rep ?e (N(k := [])) (M(k \<mapsto> VString s))"
  proof (rule e_rep_change [OF l(3)])
    show "key_rep ?e [] p (VString s)"
      using l(4) by (auto simp: key_rep_def string_val)
  qed (use l(2) in \<open>auto simp: only_def\<close>)
  show ?thesis
    using refinesI [OF r _ b(2)] rep' by simp
qed

lemma xfiredb_string_set_other:
  assumes rep: "e_rep e N M" and io: "e_io x e Q" and k: "M k = Some v" "type_of v \<noteq> CONTAINER_STRING"
  shows "refines e x Q (xfiredb_string_set x k s e) (-1, M, [])"
proof -
  obtain db p c where l: "e_lookup k e = Some (0, Some p, e\<lparr>e_db := db\<rparr>)" "e_rep (e\<lparr>e_db := db\<rparr>) N M"
      "e_cont e p = Some c" "\<forall>t. container_check_type c t \<longleftrightarrow> t = type_of v"
    using e_present [OF rep k(1)] by metis
  then have r: "xfiredb_string_set x k s e = Some (-1, e\<lparr>e_db := db\<rparr>)"
    using k(2) by (auto simp: xfiredb_string_set_def)
  show ?thesis
    using refinesI [OF r l(2), where items = "[]"] io by simp
qed

lemma xfiredb_string_set_ok:
  assumes "e_rep e N M" "e_io x e Q" "room_for e M"
  shows "refines e x Q (xfiredb_string_set x k s e) (spec_string_set k s M)"
  using xfiredb_string_set_new [OF assms, of k s] xfiredb_string_set_old [OF assms(1,2), of k _ s]
    xfiredb_string_set_other [OF assms(1,2), of k _ s]
  by (auto simp: spec_string_set_def split: option.split val.split)

section \<open>Lists\<close>

definition spec_list_length :: "string \<Rightarrow> dbval \<Rightarrow> int" where
  "spec_list_length k M = (case M k of Some (VList xs) \<Rightarrow> int (length xs) | _ \<Rightarrow> -1)"

definition spec_list_push :: "string \<Rightarrow> string \<Rightarrow> bool \<Rightarrow> dbval \<Rightarrow> int \<times> dbval \<times> bio_item list" where
  "spec_list_push k s left M =
     (case M k of
        None \<Rightarrow> (0, M(k \<mapsto> VList [s]), [(Some k, None, Some s, LIST_ADD)])
      | Some (VList xs) \<Rightarrow>
          (0, M(k \<mapsto> VList (if left then s # xs else xs @ [s])), [(Some k, None, Some s, LIST_ADD)])
      | Some _ \<Rightarrow> (-1, M, []))"

lemma get_list_val:
  assumes "is_val strs c ns (VList xs)"
  obtains l where "get_list c = Some l" "c = \<lparr>c_type = CONTAINER_LIST, c_data = DList l\<rparr>" "is_list l ns"
    "map (str_at strs) ns = map Some xs" "length ns = length xs"
proof -
  obtain l where "get_list c = Some l" "c_data c = DList l"
    using get_data_typed(4) [OF assms refl] by blast
  moreover from this have "is_list l ns" "map (str_at strs) ns = map Some xs"
    using assms by (simp_all add: is_val_def)
  moreover from this have "length ns = length xs"
    by (metis length_map)
  ultimately show thesis
    using assms that by (cases c) (auto simp: is_val_def)
qed

lemma list_val_push:
  assumes "is_list l ns" "map (str_at strs) ns = map Some xs" "n \<notin> set ns" "n \<noteq> 0"
  shows "is_val (strs(n \<mapsto> string_alloc s))
    \<lparr>c_type = CONTAINER_LIST, c_data = DList (if left then list_lpush l n else list_rpush l n)\<rparr>
    (if left then n # ns else ns @ [n]) (VList (if left then s # xs else xs @ [s]))"
proof -
  have "map (str_at (strs(n \<mapsto> string_alloc s))) ns = map (str_at strs) ns"
    by (rule map_str_frame) (use assms(3) in auto)
  moreover have "str_at (strs(n \<mapsto> string_alloc s)) n = Some s"
    by (simp add: str_at_def string_alloc_def string_get_def Let_def)
  ultimately show ?thesis
    using assms list_lpush_ok [OF assms(1,4,3)] list_rpush_ok [OF assms(1,4,3)] by (simp add: is_val_def)
qed

lemma xfiredb_list_length_ok:
  assumes "e_rep e N M" "\<And>xs. M k = Some (VList xs) \<Longrightarrow> length xs < 2 ^ 31"
  shows "\<exists>e'. xfiredb_list_length k e = Some (spec_list_length k M, e') \<and> e_rep e' N M \<and> e_bio e' = e_bio e"
proof (cases "M k")
  case None
  obtain db where "e_lookup k e = Some (-1, None, e\<lparr>e_db := db\<rparr>)" "e_rep (e\<lparr>e_db := db\<rparr>) N M"
    using e_absent [OF assms(1) None] by metis
  then show ?thesis
    using None by (simp add: xfiredb_list_length_def spec_list_length_def)
next
  case (Some v)
  obtain db p c where l: "e_lookup k e = Some (0, Some p, e\<lparr>e_db := db\<rparr>)" "e_rep (e\<lparr>e_db := db\<rparr>) N M"
      "e_cont e p = Some c" "is_val (e_strs e) c (N k) v" "\<forall>t. container_check_type c t \<longleftrightarrow> t = type_of v"
    using e_present [OF assms(1) Some] by metis
  show ?thesis
  proof (cases v)
    case (VList xs)
    then obtain h where "get_list c = Some h" "is_list h (N k)" "length (N k) = length xs"
      using get_list_val l(4) by metis
    then show ?thesis
      using l Some VList list_length_ok [of h "N k"] assms(2) [of xs]
      by (simp add: xfiredb_list_length_def spec_list_length_def)
  qed (use l Some in \<open>simp_all add: xfiredb_list_length_def spec_list_length_def\<close>)
qed

lemma xfiredb_list_push_new:
  assumes rep: "e_rep e N M" and io: "e_io x e Q" and room: "room_for e M" and None: "M k = None"
  shows "refines e x Q (xfiredb_list_push x k s left e) (0, M(k \<mapsto> VList [s]), [(Some k, None, Some s, LIST_ADD)])"
proof -
  obtain db where l: "e_lookup k e = Some (-1, None, e\<lparr>e_db := db\<rparr>)" "dbmap db = dbmap (e_db e)" "dbmap db k = None"
      "db_ok db" "e_rep (e\<lparr>e_db := db\<rparr>) N M"
    using e_absent [OF rep None] .
  let ?p = "of_nat (e_next e) :: ptr" and ?n = "e_fresh e" and ?l = "list_head_init zero_list"
  let ?c = "\<lparr>c_type = CONTAINER_LIST, c_data = DList ?l\<rparr>"
  let ?c' = "\<lparr>c_type = CONTAINER_LIST, c_data = DList (if left then list_lpush ?l ?n else list_rpush ?l ?n)\<rparr>"
  let ?e = "e\<lparr>e_db := db, e_cont := (e_cont e)(?p \<mapsto> ?c), e_next := e_next e + 1,
    e_strs := (e_strs e)(?n \<mapsto> string_alloc s), e_fresh := ?n + 1\<rparr>"
  have io2: "e_io x ?e Q"
    using io by simp
  obtain b where b: "e_queue x (Some k, None, Some s, LIST_ADD) ?e = Some (?e\<lparr>e_bio := b\<rparr>)"
      "e_io x (?e\<lparr>e_bio := b\<rparr>) (Q @ [(Some k, None, Some s, LIST_ADD)])"
    using e_queueE [OF io2] .
  let ?e2 = "?e\<lparr>e_bio := b, e_cont := (e_cont e)(?p \<mapsto> ?c')\<rparr>"
  obtain db2 where st: "e_store x k ?p ?e2 = Some (0, ?e2\<lparr>e_db := db2\<rparr>)" "db_ok db2" "dbmap db2 = (dbmap (e_db e))(k \<mapsto> ?p)"
    using e_store_new [OF rep room l(4,2,3), of ?e2 x ?p] by auto
  have r: "xfiredb_list_push x k s left e = Some (0, ?e2\<lparr>e_db := db2\<rparr>)"
    using l(1) st(1) b(1)
    by (cases left) (simp_all add: xfiredb_list_push_def container_alloc_def container_init_def get_list_def
        container_get_data_def e_alloc_def e_string_alloc_def e_put_def)
  have n: "?n \<noteq> 0" "2 \<le> ?n"
    using rep by (simp_all add: e_rep_def)
  have "is_val ((e_strs e)(?n \<mapsto> string_alloc s)) ?c' [?n] (VList [s])"
    using list_val_push [of ?l "[]" "e_strs e" "[]" ?n s left] list_head_init_ok n(1) by (cases left) simp_all
  then have kr: "key_rep (?e2\<lparr>e_db := db2\<rparr>) [?n] ?p (VList [s])"
    using n by (auto simp: key_rep_def)
  have "e_rep (?e2\<lparr>e_db := db2\<rparr>) (N(k := [?n])) (M(k \<mapsto> VList [s]))"
    by (rule e_rep_new [OF l(5) None _ _, where p = ?p])
      (use kr room st l in \<open>auto simp: only_def room_for_def\<close>)
  moreover have "e_io x (?e2\<lparr>e_db := db2\<rparr>) (Q @ [(Some k, None, Some s, LIST_ADD)])"
    using b(2) by (simp add: e_io_def)
  ultimately show ?thesis
    using refinesI [OF r, of _ _ x Q] by simp
qed

lemma xfiredb_list_push_old:
  assumes rep: "e_rep e N M" and io: "e_io x e Q" and k: "M k = Some (VList xs)"
  shows "refines e x Q (xfiredb_list_push x k s left e)
    (0, M(k \<mapsto> VList (if left then s # xs else xs @ [s])), [(Some k, None, Some s, LIST_ADD)])"
proof -
  obtain db p c where l: "e_lookup k e = Some (0, Some p, e\<lparr>e_db := db\<rparr>)" "dbmap db k = Some p"
      "e_rep (e\<lparr>e_db := db\<rparr>) N M" "key_rep (e\<lparr>e_db := db\<rparr>) (N k) p (VList xs)" "e_cont e p = Some c"
      "is_val (e_strs e) c (N k) (VList xs)" "\<forall>t. container_check_type c t \<longleftrightarrow> t = type_of (VList xs)"
    using e_present [OF rep k] .
  obtain h where h: "get_list c = Some h" "c = \<lparr>c_type = CONTAINER_LIST, c_data = DList h\<rparr>" "is_list h (N k)"
      "map (str_at (e_strs e)) (N k) = map Some xs"
    using get_list_val [OF l(6)] by metis
  let ?n = "e_fresh e"
  let ?c' = "\<lparr>c_type = CONTAINER_LIST, c_data = DList (if left then list_lpush h ?n else list_rpush h ?n)\<rparr>"
  let ?e = "e\<lparr>e_db := db, e_strs := (e_strs e)(?n \<mapsto> string_alloc s), e_fresh := ?n + 1\<rparr>"
  have io2: "e_io x ?e Q"
    using io by simp
  obtain b where b: "e_queue x (Some k, None, Some s, LIST_ADD) ?e = Some (?e\<lparr>e_bio := b\<rparr>)"
      "e_io x (?e\<lparr>e_bio := b\<rparr>) (Q @ [(Some k, None, Some s, LIST_ADD)])"
    using e_queueE [OF io2] .
  let ?e2 = "?e\<lparr>e_bio := b, e_cont := (e_cont e)(p \<mapsto> ?c')\<rparr>" and ?ns = "if left then ?n # N k else N k @ [?n]"
  have r: "xfiredb_list_push x k s left e = Some (0, ?e2)"
    using l(1,5,7) h b(1) by (cases left) (simp_all add: xfiredb_list_push_def e_string_alloc_def e_put_def)
  have n: "?n \<noteq> 0" "?n \<notin> set (N k)" "2 \<le> ?n"
    using rep l(4) by (auto simp: e_rep_def key_rep_def)
  have "is_val ((e_strs e)(?n \<mapsto> string_alloc s)) ?c' ?ns (VList (if left then s # xs else xs @ [s]))"
    using list_val_push [OF h(3,4) n(2,1)] by simp
  then have kr: "key_rep ?e2 ?ns p (VList (if left then s # xs else xs @ [s]))"
    using n l(4) by (auto simp: key_rep_def)
  have "e_rep ?e2 (N(k := ?ns)) (M(k \<mapsto> VList (if left then s # xs else xs @ [s])))"
    by (rule e_rep_change [OF l(3), where p = p])
      (use kr l(2) in \<open>auto simp: only_def\<close>)
  moreover have "e_io x ?e2 (Q @ [(Some k, None, Some s, LIST_ADD)])"
    using b(2) by (simp add: e_io_def)
  ultimately show ?thesis
    using refinesI [OF r, of _ _ x Q] by simp
qed

lemma xfiredb_list_push_other:
  assumes rep: "e_rep e N M" and io: "e_io x e Q" and k: "M k = Some v" "type_of v \<noteq> CONTAINER_LIST"
  shows "refines e x Q (xfiredb_list_push x k s left e) (-1, M, [])"
proof -
  obtain db p c where l: "e_lookup k e = Some (0, Some p, e\<lparr>e_db := db\<rparr>)" "e_rep (e\<lparr>e_db := db\<rparr>) N M"
      "e_cont e p = Some c" "\<forall>t. container_check_type c t \<longleftrightarrow> t = type_of v"
    using e_present [OF rep k(1)] by metis
  then have r: "xfiredb_list_push x k s left e = Some (-1, e\<lparr>e_db := db\<rparr>)"
    using k(2) by (auto simp: xfiredb_list_push_def)
  show ?thesis
    using refinesI [OF r l(2), where items = "[]"] io by simp
qed

lemma xfiredb_list_push_ok:
  assumes "e_rep e N M" "e_io x e Q" "room_for e M"
  shows "refines e x Q (xfiredb_list_push x k s left e) (spec_list_push k s left M)"
  using xfiredb_list_push_new [OF assms, of k s] xfiredb_list_push_old [OF assms(1,2), of k _ s]
    xfiredb_list_push_other [OF assms(1,2), of k _ s]
  by (auto simp: spec_list_push_def split: option.split val.split)

text \<open>A negative index counts from the end of the list.\<close>

definition norm_idx :: "int \<Rightarrow> int \<Rightarrow> int" where
  "norm_idx len v = (if v < 0 then v + len else v)"

lemma nth_shift:
  assumes "\<forall>w\<in>set ws. i < w"
  shows "map (\<lambda>v. ys ! nat (v - (i + 1))) ws = map (\<lambda>v. (y # ys) ! nat (v - i)) ws"
proof (rule map_cong [OF refl])
  fix w assume "w \<in> set ws"
  then have "nat (w - i) = Suc (nat (w - (i + 1)))"
    using assms by fastforce
  then show "ys ! nat (w - (i + 1)) = (y # ys) ! nat (w - i)"
    by simp
qed

lemma list_get_loop_ok:
  assumes "map (str_at strs) cs = map Some ys" "counter < n" "n = length idx" "0 \<le> i"
    and "sorted_wrt (<) (map (norm_idx len) (drop counter idx))"
    and "\<forall>v\<in>set (map (norm_idx len) (drop counter idx)). i \<le> v \<and> v < i + int (length cs)"
  shows "\<exists>idx'. list_get_loop strs len n cs i counter idx data =
    Some (idx', data @ map (\<lambda>v. ys ! nat (v - i)) (map (norm_idx len) (drop counter idx)))"
  using assms
proof (induction cs arbitrary: ys i counter idx data)
  case Nil
  have "norm_idx len (idx ! counter) \<in> set (map (norm_idx len) (drop counter idx))"
    using Nil.prems(2,3) by (simp add: Cons_nth_drop_Suc [symmetric])
  from bspec [OF Nil.prems(6) this] show ?case
    by simp
next
  case (Cons c cs)
  obtain y ys' where ys: "ys = y # ys'" "str_at strs c = Some y" "map (str_at strs) cs = map Some ys'"
    using Cons.prems(1) by (cases ys) auto
  let ?v = "norm_idx len (idx ! counter)" and ?idx = "idx[counter := norm_idx len (idx ! counter)]"
  have dr: "drop counter idx = idx ! counter # drop (Suc counter) idx"
    using Cons.prems(2,3) by (simp add: Cons_nth_drop_Suc)
  have v: "i \<le> ?v" "0 \<le> ?v"
    using Cons.prems(4,6) dr by auto
  have rd: "read_idx idx counter len = Some (?v, ?idx)"
    using Cons.prems(2,3) by (simp add: read_idx_def norm_idx_def Let_def)
  have dr': "drop (Suc counter) ?idx = drop (Suc counter) idx"
    by (simp add: drop_update_cancel)
  have rest: "\<forall>w\<in>set (map (norm_idx len) (drop (Suc counter) idx)). ?v < w \<and> w < i + 1 + int (length cs)"
    using Cons.prems(5,6) dr by (auto simp: algebra_simps)
  show ?case
  proof (cases "?v = i")
    case True
    show ?thesis
    proof (cases "n \<le> Suc counter")
      case True
      then show ?thesis
        using rd ys \<open>?v = i\<close> dr Cons.prems(3) by simp
    next
      case False
      have "\<exists>idx'. list_get_loop strs len n cs (i + 1) (Suc counter) ?idx (data @ [y]) =
          Some (idx', (data @ [y]) @ map (\<lambda>v. ys' ! nat (v - (i + 1))) (map (norm_idx len) (drop (Suc counter) ?idx)))"
        by (rule Cons.IH) (use ys False Cons.prems rest \<open>?v = i\<close> dr dr' in auto)
      moreover have "\<forall>w\<in>set (map (norm_idx len) (drop (Suc counter) idx)). i < w"
        using rest \<open>?v = i\<close> by auto
      ultimately show ?thesis
        using rd ys False \<open>?v = i\<close> dr dr' nth_shift [of "map (norm_idx len) (drop (Suc counter) idx)" i ys' y] by auto
    qed
  next
    case False
    have di: "drop counter ?idx = ?v # drop (Suc counter) idx"
      using Cons.prems(2,3) by (metis Cons_nth_drop_Suc dr' length_list_update nth_list_update_eq)
    have nv: "norm_idx len ?v = ?v"
      using v(2) by (simp add: norm_idx_def)
    have eq: "map (norm_idx len) (drop counter ?idx) = map (norm_idx len) (drop counter idx)"
      using di dr nv by simp
    have gt: "\<forall>w\<in>set (map (norm_idx len) (drop counter idx)). i < w"
      using v(1) False rest dr by fastforce
    have "\<exists>idx'. list_get_loop strs len n cs (i + 1) counter ?idx data =
        Some (idx', data @ map (\<lambda>v. ys' ! nat (v - (i + 1))) (map (norm_idx len) (drop counter ?idx)))"
    proof (rule Cons.IH)
      show "\<forall>w\<in>set (map (norm_idx len) (drop counter ?idx)). i + 1 \<le> w \<and> w < i + 1 + int (length cs)"
        unfolding eq using gt Cons.prems(6) by fastforce
    qed (use ys Cons.prems eq in \<open>simp_all\<close>)
    then show ?thesis
      using rd False Cons.prems(2) eq nth_shift [OF gt, of ys' y] ys(1) by auto
  qed
qed

text \<open>
  \<^verbatim>\<open>xfiredb_list_get\<close> with ascending indices inside the list returns the elements at these indices.
\<close>

lemma xfiredb_list_get_ok:
  assumes rep: "e_rep e N M" and k: "M k = Some (VList xs)" and len: "length xs < 2 ^ 31" and n: "idx \<noteq> []"
    and idx: "sorted_wrt (<) (map (norm_idx (int (length xs))) idx)"
      "\<forall>v\<in>set idx. 0 \<le> norm_idx (int (length xs)) v \<and> norm_idx (int (length xs)) v < int (length xs)"
  shows "\<exists>idx' e'. xfiredb_list_get k idx (length idx) e =
      Some (0, idx', map (\<lambda>v. xs ! nat (norm_idx (int (length xs)) v)) idx, e') \<and> e_rep e' N M"
proof -
  obtain db p c where l: "e_lookup k e = Some (0, Some p, e\<lparr>e_db := db\<rparr>)" "e_rep (e\<lparr>e_db := db\<rparr>) N M"
      "e_cont e p = Some c" "is_val (e_strs e) c (N k) (VList xs)"
      "\<forall>t. container_check_type c t \<longleftrightarrow> t = type_of (VList xs)"
    using e_present [OF rep k] by metis
  obtain h where h: "get_list c = Some h" "is_list h (N k)" "map (str_at (e_strs e)) (N k) = map Some xs"
      "length (N k) = length xs"
    using get_list_val [OF l(4)] by metis
  have w: "list_for_each h = Some (N k)" "list_length h = int (length xs)"
    using list_for_each_ok [OF h(2)] list_length_ok [OF h(2)] h(4) len by simp_all
  obtain idx' where "list_get_loop (e_strs e) (int (length xs)) (length idx) (N k) 0 0 idx [] =
      Some (idx', map (\<lambda>v. xs ! nat (v - 0)) (map (norm_idx (int (length xs))) (drop 0 idx)))"
    using list_get_loop_ok [OF h(3), of 0 "length idx" idx 0 "int (length xs)" "[]"] n idx h(4) by auto
  then show ?thesis
    using l h(1) w by (simp add: xfiredb_list_get_def comp_def)
qed

section \<open>Deleting a key\<close>

definition spec_key_delete :: "string \<Rightarrow> dbval \<Rightarrow> int \<times> dbval \<times> bio_item list" where
  "spec_key_delete k M =
     (case M k of
        None \<Rightarrow> (0, M, [])
      | Some (VString _) \<Rightarrow> (1, M(k := None), [(Some k, None, None, STRING_DEL)])
      | Some (VList xs) \<Rightarrow> (int (length xs), M(k := None), map (\<lambda>s. (Some k, Some s, None, LIST_DEL)) xs)
      | Some _ \<Rightarrow> (-1, M(k := None), []))"

text \<open>\<open>q_io x b es\<close>: the queue holds the entries \<open>es\<close>, each with the block of its key, whether shared or not.\<close>

definition q_io :: "econf \<Rightarrow> bio_q_head \<Rightarrow> (bio_item \<times> nat) list \<Rightarrow> bool" where
  "q_io x b es \<longleftrightarrow> 0 \<le> x_plvl x \<and> x_plvl x < 3 \<and> queued b es \<and> 0 \<le> b_wake b \<and> b_wake b \<le> x_plvl x"

lemma e_io_q_io: "e_io x e Q \<longleftrightarrow> (\<exists>es. q_io x (e_bio e) es \<and> unshared (e_bio e) es \<and> map fst es = Q)"
  by (auto simp: e_io_def q_io_def holds_def)

lemma e_queue_put_ok:
  assumes "q_io x (e_bio e) es"
  shows "\<exists>b. e_queue_put x bk item e = Some (e\<lparr>e_bio := b\<rparr>) \<and> q_io x b (es @ [(item, bk)]) \<and> b_blk b = b_blk (e_bio e) \<and>
    b_fresh (e_bio e) \<le> b_fresh b"
  using bio_queue_put_ok [of "e_bio e" es "x_plvl x" bk item] assms by (auto simp: q_io_def e_queue_put_def)

text \<open>The loop over a list hands every element to the I/O queue, with the same block for the key, and ends.\<close>

lemma list_drop_loop_ok:
  assumes "is_list lh ns" "map (str_at (e_strs e)) ns = map Some xs" "q_io x (e_bio e) es"
    and "c = nxt lh 0" "s = nxt lh c"
  shows "\<exists>lh' b. list_drop_loop x k bk lh c s rv e =
      Some (lh', rv + length xs, e\<lparr>e_bio := b, e_strs := (e_strs e) |` (- set ns)\<rparr>) \<and>
    q_io x b (es @ map (\<lambda>s. ((Some k, Some s, None, LIST_DEL), bk)) xs) \<and> b_blk b = b_blk (e_bio e) \<and>
    b_fresh (e_bio e) \<le> b_fresh b"
  using assms
proof (induction ns arbitrary: lh e xs es c s rv)
  case Nil
  then have "c = 0" "xs = []"
    by (simp_all add: is_list_def linked_Cons_Cons)
  then show ?case
    using Nil.prems by (intro exI [of _ lh] exI [of _ "e_bio e"]) (subst list_drop_loop.simps, simp add: restrict_map_def)
next
  case (Cons n ns)
  obtain y ys where xs: "xs = y # ys" "str_at (e_strs e) n = Some y" "map (str_at (e_strs e)) ns = map Some ys"
    using Cons.prems(2) by (cases xs) auto
  have d: "n \<noteq> 0" "n \<notin> set ns" "c = n" "is_list (list_del lh n) ns"
    using Cons.prems list_del_ok [of lh "[]" n ns] by (auto simp: is_list_def linked_Cons_Cons)
  have s: "s = nxt (list_del lh n) 0"
    using Cons.prems(1,4,5) d by (cases ns) (auto simp: is_list_def linked_Cons_Cons)
  obtain b where b: "e_queue_put x bk (Some k, Some y, None, LIST_DEL) e = Some (e\<lparr>e_bio := b\<rparr>)"
      "q_io x b (es @ [((Some k, Some y, None, LIST_DEL), bk)])" "b_blk b = b_blk (e_bio e)" "b_fresh (e_bio e) \<le> b_fresh b"
    using e_queue_put_ok [OF Cons.prems(3)] by blast
  let ?e = "e_string_free n (e\<lparr>e_bio := b\<rparr>)"
  have "map (str_at (e_strs ?e)) ns = map (str_at (e_strs e)) ns"
    by (rule map_str_frame) (use d(2) in \<open>auto simp: e_string_free_def\<close>)
  then have m: "map (str_at (e_strs ?e)) ns = map Some ys"
    using xs(3) by simp
  have io: "q_io x (e_bio ?e) (es @ [((Some k, Some y, None, LIST_DEL), bk)])"
    using b(2) by (simp add: e_string_free_def)
  obtain lh' b' where l: "list_drop_loop x k bk (list_del lh n) s (nxt (list_del lh n) s) (rv + 1) ?e =
      Some (lh', rv + 1 + length ys, ?e\<lparr>e_bio := b', e_strs := (e_strs ?e) |` (- set ns)\<rparr>)"
      "q_io x b' ((es @ [((Some k, Some y, None, LIST_DEL), bk)]) @ map (\<lambda>s. ((Some k, Some s, None, LIST_DEL), bk)) ys)"
      "b_blk b' = b_blk (e_bio ?e)" "b_fresh (e_bio ?e) \<le> b_fresh b'"
    using Cons.IH [OF d(4) m io s refl] by blast
  have strs: "(e_strs e)(n := None) |` (- set ns) = e_strs e |` (- set (n # ns))"
    by (auto simp: restrict_map_def)
  have "list_drop_loop x k bk lh c s rv e = Some (lh', rv + length xs, e\<lparr>e_bio := b', e_strs := (e_strs e) |` (- set (n # ns))\<rparr>)"
    using b(1) xs d(1,3) l(1) strs by (subst list_drop_loop.simps) (auto simp: e_string_free_def simp del: restrict_fun_upd)
  then show ?case
    using l(2-4) b(3,4) xs(1) by (auto simp: e_string_free_def)
qed

lemma e_delete_rep:
  assumes rep: "e_rep e N M" and k: "M k = Some v"
  obtains db p c where "e_delete k e = Some (0, Some p, e\<lparr>e_db := db\<rparr>)" "db_ok db" "dbmap (e_db e) k = Some p"
    "dbmap db = (dbmap (e_db e))(k := None)" "e_cont e p = Some c" "is_val (e_strs e) c (N k) v" "c_type c = type_of v"
proof -
  obtain p where p: "dbmap (e_db e) k = Some p" "key_rep e (N k) p v"
    using e_rep_key [OF rep k] .
  moreover obtain db where "e_delete k e = Some (0, Some p, e\<lparr>e_db := db\<rparr>)" "db_ok db" "dbmap db = (dbmap (e_db e))(k := None)"
    using e_delete_ok [of e k] rep p(1) by (auto simp: e_rep_def)
  ultimately show thesis
    using that key_rep_cont [OF p(2)] by metis
qed

lemma key_delete_rep:
  assumes "e_rep e N M" "dbmap (e_db e) k = Some p" "db_ok db" "dbmap db = (dbmap (e_db e))(k := None)"
    and "e_db e' = db" "e_next e' = e_next e" "e_fresh e' = e_fresh e" "\<And>q. q \<noteq> p \<Longrightarrow> e_cont e' q = e_cont e q"
    and "\<And>n. n \<notin> set (N k) \<Longrightarrow> e_strs e' n = e_strs e n"
  shows "e_rep e' (N(k := [])) (M(k := None))"
  by (rule e_rep_remove [OF assms(1,2)]) (use assms in \<open>auto simp: only_def\<close>)

lemma xfiredb_key_delete_string:
  assumes rep: "e_rep e N M" and io: "e_io x e Q" and k: "M k = Some (VString s)"
  shows "refines e x Q (xfiredb_key_delete x k e) (1, M(k := None), [(Some k, None, None, STRING_DEL)])"
proof -
  obtain db p c where l: "e_delete k e = Some (0, Some p, e\<lparr>e_db := db\<rparr>)" "db_ok db" "dbmap (e_db e) k = Some p"
    "dbmap db = (dbmap (e_db e))(k := None)" "e_cont e p = Some c" "is_val (e_strs e) c (N k) (VString s)"
    "c_type c = type_of (VString s)"
    using e_delete_rep [OF rep k] .
  have io2: "e_io x (e\<lparr>e_db := db\<rparr>) Q"
    using io by simp
  obtain b where b: "e_queue x (Some k, None, None, STRING_DEL) (e\<lparr>e_db := db\<rparr>) = Some (e\<lparr>e_db := db, e_bio := b\<rparr>)"
      "e_io x (e\<lparr>e_db := db, e_bio := b\<rparr>) (Q @ [(Some k, None, None, STRING_DEL)])"
    using e_queueE [OF io2] .
  have r: "xfiredb_key_delete x k e = Some (1, e_free p (e\<lparr>e_db := db, e_bio := b\<rparr>))"
    using l(1,5,7) b(1) by (simp add: xfiredb_key_delete_def)
  have "e_rep (e_free p (e\<lparr>e_db := db, e_bio := b\<rparr>)) (N(k := [])) (M(k := None))"
    by (rule key_delete_rep [OF rep l(3,2,4)]) (simp_all add: e_free_def)
  then show ?thesis
    using refinesI [OF r, of _ _ x Q] b(2) by (simp add: e_free_def e_io_def)
qed

text \<open>Deleting a list: one entry per element, all with the block of the one copy of the key.\<close>

lemma xfiredb_key_delete_list_shared:
  assumes rep: "e_rep e N M" and io: "q_io x (e_bio e) es" and k: "M k = Some (VList xs)"
  shows "\<exists>e'. xfiredb_key_delete x k e = Some (int (length xs), e') \<and> e_rep e' (N(k := [])) (M(k := None)) \<and>
    q_io x (e_bio e') (es @ map (\<lambda>s. ((Some k, Some s, None, LIST_DEL), b_fresh (e_bio e))) xs) \<and>
    b_blk (e_bio e') = insert (b_fresh (e_bio e)) (b_blk (e_bio e)) \<and> b_fresh (e_bio e) < b_fresh (e_bio e') \<and>
    e_next e' = e_next e"
proof -
  obtain db p c where l: "e_delete k e = Some (0, Some p, e\<lparr>e_db := db\<rparr>)" "db_ok db" "dbmap (e_db e) k = Some p"
    "dbmap db = (dbmap (e_db e))(k := None)" "e_cont e p = Some c" "is_val (e_strs e) c (N k) (VList xs)"
    "c_type c = type_of (VList xs)"
    using e_delete_rep [OF rep k] .
  obtain h where h: "get_list c = Some h" "is_list h (N k)" "map (str_at (e_strs e)) (N k) = map Some xs"
    using get_list_val [OF l(6)] by metis
  let ?bk = "b_fresh (e_bio e)"
  let ?b0 = "(e_bio e)\<lparr>b_fresh := ?bk + 1, b_blk := insert ?bk (b_blk (e_bio e))\<rparr>"
  let ?e = "e\<lparr>e_db := db, e_bio := ?b0\<rparr>"
  have io0: "q_io x (e_bio ?e) es"
    using io bio_key_copy_queued by (simp add: q_io_def)
  obtain h' b where b: "list_drop_loop x k ?bk h (nxt h 0) (nxt h (nxt h 0)) 0 ?e =
      Some (h', 0 + length xs, ?e\<lparr>e_bio := b, e_strs := (e_strs ?e) |` (- set (N k))\<rparr>)"
      "q_io x b (es @ map (\<lambda>s. ((Some k, Some s, None, LIST_DEL), ?bk)) xs)" "b_blk b = b_blk (e_bio ?e)"
      "b_fresh (e_bio ?e) \<le> b_fresh b"
    using list_drop_loop_ok [OF h(2) _ io0 refl refl, of xs k ?bk 0] h(3) by auto
  let ?e2 = "e_free p (?e\<lparr>e_bio := b, e_strs := (e_strs ?e) |` (- set (N k))\<rparr>)"
  have r: "xfiredb_key_delete x k e = Some (int (length xs), ?e2)"
    using l(1,5,7) b(1) h(1) by (simp add: xfiredb_key_delete_def bio_key_copy_def)
  have "e_rep ?e2 (N(k := [])) (M(k := None))"
    by (rule key_delete_rep [OF rep l(3,2,4)]) (simp_all add: e_free_def)
  then show ?thesis
    using r b(2-4) by (intro exI [of _ ?e2]) (simp add: e_free_def)
qed

text \<open>A list of at most one element is handed over with a block of its own.\<close>

lemma xfiredb_key_delete_list:
  assumes rep: "e_rep e N M" and io: "e_io x e Q" and k: "M k = Some (VList xs)" and len: "length xs \<le> 1"
  shows "refines e x Q (xfiredb_key_delete x k e)
    (int (length xs), M(k := None), map (\<lambda>s. (Some k, Some s, None, LIST_DEL)) xs)"
proof -
  obtain es where es: "q_io x (e_bio e) es" "unshared (e_bio e) es" "map fst es = Q"
    using io by (auto simp: e_io_q_io)
  let ?bk = "b_fresh (e_bio e)" and ?es = "map (\<lambda>s. ((Some k, Some s, None, LIST_DEL), b_fresh (e_bio e))) xs"
  obtain e' where e': "xfiredb_key_delete x k e = Some (int (length xs), e')" "e_rep e' (N(k := [])) (M(k := None))"
      "q_io x (e_bio e') (es @ ?es)" "b_blk (e_bio e') = insert ?bk (b_blk (e_bio e))" "?bk < b_fresh (e_bio e')"
      "e_next e' = e_next e"
    using xfiredb_key_delete_list_shared [OF rep es(1) k] by blast
  have "unshared (e_bio e') (es @ ?es)"
    using es(2) e'(4,5) len by (cases xs) (fastforce simp: unshared_def)+
  then have "e_io x e' (Q @ map (\<lambda>s. (Some k, Some s, None, LIST_DEL)) xs)"
    using e'(3) es(3) unfolding e_io_q_io by (intro exI [of _ "es @ ?es"]) (simp add: comp_def)
  then show ?thesis
    using refinesI [OF e'(1,2)] e'(6) by simp
qed

text \<open>A longer list is removed from the database too, but its entries share one block: the worker frees it twice.\<close>

lemma xfiredb_key_delete_list_crash:
  assumes rep: "e_rep e N M" and io: "e_io x e Q" and k: "M k = Some (VList xs)" and len: "1 < length xs"
  shows "\<exists>e'. xfiredb_key_delete x k e = Some (int (length xs), e') \<and> e_rep e' (N(k := [])) (M(k := None)) \<and>
    (\<forall>sql d. bio_worker sql (e_bio e') (d :: 'db disk) = None)"
proof -
  obtain es where es: "q_io x (e_bio e) es"
    using io by (auto simp: e_io_q_io)
  let ?es = "map (\<lambda>s. ((Some k, Some s, None, LIST_DEL), b_fresh (e_bio e))) xs"
  obtain e' where e': "xfiredb_key_delete x k e = Some (int (length xs), e')" "e_rep e' (N(k := [])) (M(k := None))"
      "q_io x (e_bio e') (es @ ?es)"
    using xfiredb_key_delete_list_shared [OF rep es k] by blast
  obtain y z ys where xs: "xs = y # z # ys"
    using len by (cases xs; cases "tl xs") auto
  have "bio_worker sql (e_bio e') d = None" for sql and d :: "'db disk"
    using bio_worker_shared [of "e_bio e'" "es @ ?es"] e'(3) by (simp add: q_io_def xs)
  then show ?thesis
    using e'(1,2) by blast
qed

lemma xfiredb_key_delete_absent:
  assumes rep: "e_rep e N M" and io: "e_io x e Q" and k: "M k = None"
  shows "refines e x Q (xfiredb_key_delete x k e) (0, M, [])"
proof -
  have n: "dbmap (e_db e) k = None"
    using e_rep_None [OF rep] k by simp
  obtain db where db: "e_delete k e = Some (-1, None, e\<lparr>e_db := db\<rparr>)" "db_ok db" "dbmap db = dbmap (e_db e)"
    using e_delete_ok [of e k] rep n by (auto simp: e_rep_def fun_upd_idem)
  then have r: "xfiredb_key_delete x k e = Some (0, e\<lparr>e_db := db\<rparr>)"
    by (simp add: xfiredb_key_delete_def)
  show ?thesis
    using refinesI [OF r e_rep_db [OF rep db(2,3)], of x Q "[]"] io by simp
qed

text \<open>A set is taken out of the database, but neither freed nor removed from the disk.\<close>

lemma xfiredb_key_delete_set:
  assumes rep: "e_rep e N M" and io: "e_io x e Q" and k: "M k = Some (VSet X)"
  shows "refines e x Q (xfiredb_key_delete x k e) (-1, M(k := None), [])"
proof -
  obtain db p c where l: "e_delete k e = Some (0, Some p, e\<lparr>e_db := db\<rparr>)" "db_ok db" "dbmap (e_db e) k = Some p"
    "dbmap db = (dbmap (e_db e))(k := None)" "e_cont e p = Some c" "is_val (e_strs e) c (N k) (VSet X)"
    "c_type c = type_of (VSet X)"
    using e_delete_rep [OF rep k] .
  have r: "xfiredb_key_delete x k e = Some (-1, e\<lparr>e_db := db\<rparr>)"
    using l(1,5,7) by (simp add: xfiredb_key_delete_def)
  have "e_rep (e\<lparr>e_db := db\<rparr>) (N(k := [])) (M(k := None))"
    by (rule key_delete_rep [OF rep l(3,2,4)]) simp_all
  then show ?thesis
    using refinesI [OF r, of _ _ x Q "[]"] io by simp
qed

lemma xfiredb_key_delete_ok:
  assumes "e_rep e N M" "e_io x e Q" "\<forall>f. M k \<noteq> Some (VMap f)" "\<forall>xs. M k = Some (VList xs) \<longrightarrow> length xs \<le> 1"
  shows "refines e x Q (xfiredb_key_delete x k e) (spec_key_delete k M)"
  using xfiredb_key_delete_absent [OF assms(1,2), of k] xfiredb_key_delete_string [OF assms(1,2), of k]
    xfiredb_key_delete_list [OF assms(1,2), of k] xfiredb_key_delete_set [OF assms(1,2), of k] assms(3,4)
  by (auto simp: spec_key_delete_def split: option.split val.split)

end
