(* ===== verification/EngineMap.thy ===== *)
theory EngineMap
  imports EngineOps
begin

text \<open>
  The operations of the engine on hash maps refine operations on the map of the key, for
  secondary keys without hash collision.
\<close>

section \<open>The value of a hash map\<close>

definition no_collision :: "(string \<rightharpoonup> string) \<Rightarrow> string \<Rightarrow> bool" where
  "no_collision f sk \<longleftrightarrow> key_hash sk \<noteq> SKIPLIST_MAX_SIZE \<and> (\<forall>s. f s \<noteq> None \<longrightarrow> key_hash s = key_hash sk \<longrightarrow> s = sk)"

definition map_val :: "strings \<Rightarrow> hashmap \<Rightarrow> nat list \<Rightarrow> string \<rightharpoonup> string" where
  "map_val strs hm ns = (\<lambda>k. Option.bind (hmap hm ns k) (str_at strs))"

lemma get_map_val:
  assumes "is_val strs c ns (VMap f)"
  obtains hm where "get_map c = Some hm" "c = \<lparr>c_type = CONTAINER_HASHMAP, c_data = DMap hm\<rparr>" "hm_ok hm ns"
    "set ns \<subseteq> dom (str_at strs)" "f = map_val strs hm ns"
proof -
  obtain hm where "get_map c = Some hm" "c_data c = DMap hm"
    using get_data_typed(5) [OF assms refl] by blast
  then show thesis
    using assms that by (cases c) (auto simp: is_val_def map_val_def)
qed

lemma map_val_is_val:
  "hm_ok hm ns \<Longrightarrow> set ns \<subseteq> dom (str_at strs) \<Longrightarrow>
   is_val strs \<lparr>c_type = CONTAINER_HASHMAP, c_data = DMap hm\<rparr> ns (VMap (map_val strs hm ns))"
  by (simp add: is_val_def map_val_def)

lemma hmap_node: "hm_ok hm ns \<Longrightarrow> hmap hm ns k = Some n \<Longrightarrow> n \<in> set ns \<and> n \<noteq> NULL"
  using smap_ran [of "h_list hm" ns k n] by (simp add: hm_ok_def hmap_def)

lemma map_val_None:
  assumes "hm_ok hm ns" "set ns \<subseteq> dom (str_at strs)"
  shows "map_val strs hm ns k = None \<longleftrightarrow> hmap hm ns k = None"
  using assms hmap_node [OF assms(1), of k] by (cases "hmap hm ns k") (auto simp: map_val_def)

lemma map_val_good:
  assumes ok: "hm_ok hm ns" "set ns \<subseteq> dom (str_at strs)" and c: "no_collision (map_val strs hm ns) sk"
  shows "hm_good hm ns sk"
  unfolding hm_good_def
proof (rule good_key_dom)
  show "k' = sk" if "k' \<in> dom (smap (h_list hm) ns)" "key_hash k' = key_hash sk" for k'
    using c that map_val_None [OF ok, of k'] by (auto simp: no_collision_def hmap_def)
qed (use ok c in \<open>simp_all add: hm_ok_def no_collision_def\<close>)

lemma map_val_dom:
  assumes "hm_ok hm ns" "set ns \<subseteq> dom (str_at strs)"
  shows "dom (map_val strs hm ns) = dom (smap (h_list hm) ns)"
  using map_val_None [OF assms] by (auto simp: dom_def hmap_def)

lemma hm_distinct: "hm_ok hm ns \<Longrightarrow> distinct ns"
  using sl_ok_distinct by (auto simp: hm_ok_def)

lemma map_val_card:
  assumes "hm_ok hm ns" "set ns \<subseteq> dom (str_at strs)"
  shows "card (dom (map_val strs hm ns)) = length ns" "finite (dom (map_val strs hm ns))"
proof -
  have l: "sl_ok (h_list hm) ns"
    using assms(1) by (simp add: hm_ok_def)
  show "card (dom (map_val strs hm ns)) = length ns" "finite (dom (map_val strs hm ns))"
    using smap_card [OF l] smap_dom [OF l] by (simp_all add: map_val_dom [OF assms])
qed

text \<open>Changes of the strings outside of the nodes of a map, and of one node.\<close>

lemma map_val_frame:
  assumes "hm_ok hm ns" "\<And>n. n \<in> set ns \<Longrightarrow> strs' n = strs n"
  shows "map_val strs' hm ns = map_val strs hm ns"
proof
  fix k
  show "map_val strs' hm ns k = map_val strs hm ns k"
    using hmap_node [OF assms(1), of k] assms(2) by (cases "hmap hm ns k") (auto simp: map_val_def str_at_def)
qed

lemma map_val_set:
  assumes ok: "hm_ok hm ns" and n: "hmap hm ns sk = Some n" and s: "str_at strs' n = Some s"
    and other: "\<And>a. a \<noteq> n \<Longrightarrow> strs' a = strs a"
  shows "map_val strs' hm ns = (map_val strs hm ns)(sk \<mapsto> s)"
proof
  fix k
  have l: "sl_ok (h_list hm) ns"
    using ok by (simp add: hm_ok_def)
  have "k = sk" if "hmap hm ns k = Some n"
    using smap_key [OF l] that n by (metis hmap_def option.inject)
  then show "map_val strs' hm ns k = ((map_val strs hm ns)(sk \<mapsto> s)) k"
    using n s other by (cases "hmap hm ns k"; cases "hmap hm ns k = Some n") (auto simp: map_val_def str_at_def)
qed

section \<open>Reading\<close>

definition spec_hashmap_get :: "string \<Rightarrow> string list \<Rightarrow> dbval \<Rightarrow> int \<times> string option list" where
  "spec_hashmap_get k sks M = (case M k of Some (VMap f) \<Rightarrow> (0, map f sks) | _ \<Rightarrow> (-1, []))"

lemma hashmap_get_loop_ok:
  assumes "hm_ok hm ns" "set ns \<subseteq> dom (str_at strs)" "\<forall>sk\<in>set sks. no_collision (map_val strs hm ns) sk"
  shows "hashmap_get_loop strs hm sks data = Some (data @ map (map_val strs hm ns) sks)"
  using assms(3)
proof (induction sks arbitrary: data)
  case (Cons sk sks)
  have f: "hashmap_find hm sk = Some (case hmap hm ns sk of None \<Rightarrow> NULL | Some n \<Rightarrow> n)"
    using hashmap_find_ok [OF assms(1) map_val_good [OF assms(1,2)]] Cons.prems by simp
  show ?case
  proof (cases "hmap hm ns sk")
    case None
    then show ?thesis
      using f Cons by (simp add: map_val_def)
  next
    case (Some n)
    then obtain s where "str_at strs n = Some s" "n \<noteq> NULL"
      using hmap_node [OF assms(1) Some] assms(2) by auto
    then show ?thesis
      using f Cons Some by (simp add: map_val_def)
  qed
qed simp

lemma xfiredb_hashmap_get_ok:
  assumes "e_rep e N M" "\<And>f sk. M k = Some (VMap f) \<Longrightarrow> sk \<in> set sks \<Longrightarrow> no_collision f sk"
  shows "\<exists>e'. xfiredb_hashmap_get k sks e = Some (fst (spec_hashmap_get k sks M), snd (spec_hashmap_get k sks M), e') \<and>
    e_rep e' N M \<and> e_bio e' = e_bio e"
proof (cases "M k")
  case None
  obtain db where "e_lookup k e = Some (-1, None, e\<lparr>e_db := db\<rparr>)" "e_rep (e\<lparr>e_db := db\<rparr>) N M"
    using e_absent [OF assms(1) None] by metis
  then show ?thesis
    using None by (simp add: xfiredb_hashmap_get_def spec_hashmap_get_def)
next
  case (Some v)
  obtain db p c where l: "e_lookup k e = Some (0, Some p, e\<lparr>e_db := db\<rparr>)" "e_rep (e\<lparr>e_db := db\<rparr>) N M"
      "e_cont e p = Some c" "is_val (e_strs e) c (N k) v" "\<forall>t. container_check_type c t \<longleftrightarrow> t = type_of v"
    using e_present [OF assms(1) Some] by metis
  show ?thesis
  proof (cases v)
    case (VMap f)
    obtain hm where hm: "get_map c = Some hm" "hm_ok hm (N k)" "set (N k) \<subseteq> dom (str_at (e_strs e))"
        "f = map_val (e_strs e) hm (N k)"
      using get_map_val [OF l(4) [unfolded VMap]] by metis
    have "hashmap_get_loop (e_strs e) hm sks [] = Some (map f sks)"
      using hashmap_get_loop_ok [OF hm(2,3)] assms(2) Some VMap hm(4) by simp
    then show ?thesis
      using l hm(1) Some VMap by (simp add: xfiredb_hashmap_get_def spec_hashmap_get_def)
  qed (use l Some in \<open>simp_all add: xfiredb_hashmap_get_def spec_hashmap_get_def\<close>)
qed

section \<open>Setting\<close>

definition spec_hashmap_set :: "string \<Rightarrow> string \<Rightarrow> string \<Rightarrow> dbval \<Rightarrow> int \<times> dbval \<times> bio_item list" where
  "spec_hashmap_set k sk s M =
     (case M k of
        None \<Rightarrow> (0, M(k \<mapsto> VMap [sk \<mapsto> s]), [(Some k, Some sk, Some s, HM_ADD)])
      | Some (VMap f) \<Rightarrow>
          (0, M(k \<mapsto> VMap (f(sk \<mapsto> s))), [(Some k, Some sk, Some s, if f sk = None then HM_ADD else HM_UPDATE)])
      | Some _ \<Rightarrow> (-1, M, []))"

text \<open>Adding a string under a new secondary key, with a node that is not in use.\<close>

lemma map_val_add:
  assumes ok: "hm_ok hm ns" "set ns \<subseteq> dom (str_at strs)" and c: "no_collision (map_val strs hm ns) sk"
    and new: "map_val strs hm ns sk = None" and n: "2 \<le> n" "n \<notin> set ns"
  obtains hm' ns' where "hashmap_add coins hm sk n = Some (0, hm')" "hm_ok hm' ns'" "set ns' = insert n (set ns)"
    "set ns' \<subseteq> dom (str_at (strs(n \<mapsto> string_alloc s)))"
    "map_val (strs(n \<mapsto> string_alloc s)) hm' ns' = (map_val strs hm ns)(sk \<mapsto> s)"
proof -
  have usable: "n \<noteq> HEADER \<and> n \<noteq> NULL"
    using n(1) by (simp add: xdb_defs)
  have none: "hmap hm ns sk = None"
    using new map_val_None [OF ok] by simp
  obtain hm' ns' where a: "hashmap_add coins hm sk n = Some (0, hm')" "hm_ok hm' ns'"
      "hmap hm' ns' = (hmap hm ns)(sk \<mapsto> n)" "set ns' = insert n (set ns)"
    using hashmap_add_ok [OF ok(1) map_val_good [OF ok c] usable n(2) none, of coins] by auto
  have s: "str_at (strs(n \<mapsto> string_alloc s)) n = Some s"
    by (simp add: str_at_def string_alloc_def string_get_def Let_def)
  have "map_val (strs(n \<mapsto> string_alloc s)) hm' ns' k = ((map_val strs hm ns)(sk \<mapsto> s)) k" for k
    using a(3) s n(2) hmap_node [OF ok(1), of k] by (cases "hmap hm ns k") (auto simp: map_val_def str_at_def)
  moreover have "set ns' \<subseteq> dom (str_at (strs(n \<mapsto> string_alloc s)))"
    using a(4) s ok(2) by (auto simp: str_at_def)
  ultimately show thesis
    using that a by blast
qed

lemma xfiredb_hashmap_set_new:
  assumes rep: "e_rep e N M" and io: "e_io x e Q" and room: "room_for e M" and None: "M k = None"
    and c: "no_collision Map.empty sk"
  shows "refines e x Q (xfiredb_hashmap_set x k sk s e)
    (0, M(k \<mapsto> VMap [sk \<mapsto> s]), [(Some k, Some sk, Some s, HM_ADD)])"
proof -
  let ?item = "(Some k, Some sk, Some s, HM_ADD)"
  obtain db where l: "e_lookup k e = Some (-1, None, e\<lparr>e_db := db\<rparr>)" "dbmap db = dbmap (e_db e)" "dbmap db k = None"
      "db_ok db" "e_rep (e\<lparr>e_db := db\<rparr>) N M"
    using e_absent [OF rep None] .
  let ?p = "of_nat (e_next e) :: ptr" and ?n = "e_fresh e" and ?hm = "hashmap_init Map.empty"
  let ?strs = "(e_strs e)(?n \<mapsto> string_alloc s)"
  have n: "2 \<le> ?n"
    using rep by (simp add: e_rep_def)
  have emp: "map_val (e_strs e) ?hm [] = Map.empty"
    by (simp add: map_val_def hashmap_init_ok)
  have "hm_good ?hm [] sk"
    by (rule map_val_good [OF hashmap_init_ok(1), where strs = "e_strs e"]) (use c emp in simp_all)
  then have find: "hashmap_find ?hm sk = Some NULL"
    using hashmap_find_ok [OF hashmap_init_ok(1)] by (simp add: hashmap_init_ok(2))
  obtain hm ns where hm: "hashmap_add (x_coins x) ?hm sk ?n = Some (0, hm)" "hm_ok hm ns" "set ns = insert ?n (set [])"
      "set ns \<subseteq> dom (str_at ?strs)" "map_val ?strs hm ns = (map_val (e_strs e) ?hm [])(sk \<mapsto> s)"
    by (rule map_val_add [OF hashmap_init_ok(1) [of Map.empty], where strs = "e_strs e" and sk = sk and n = ?n and coins = "x_coins x" and s = s])
      (use c emp n in auto)
  let ?e = "e\<lparr>e_db := db, e_next := e_next e + 1, e_strs := ?strs, e_fresh := ?n + 1,
    e_cont := (e_cont e)(?p \<mapsto> \<lparr>c_type = CONTAINER_HASHMAP, c_data = DMap hm\<rparr>)\<rparr>"
  have io2: "e_io x ?e Q"
    using io by simp
  obtain b where b: "e_queue x ?item ?e = Some (?e\<lparr>e_bio := b\<rparr>)" "e_io x (?e\<lparr>e_bio := b\<rparr>) (Q @ [?item])"
    using e_queueE [OF io2] .
  obtain db2 where st: "e_store x k ?p (?e\<lparr>e_bio := b\<rparr>) = Some (0, ?e\<lparr>e_bio := b, e_db := db2\<rparr>)" "db_ok db2"
      "dbmap db2 = (dbmap (e_db e))(k \<mapsto> ?p)"
    using e_store_new [OF rep room l(4,2,3), of "?e\<lparr>e_bio := b\<rparr>" x ?p] by auto
  let ?e2 = "?e\<lparr>e_bio := b, e_db := db2\<rparr>"
  have r: "xfiredb_hashmap_set x k sk s e = Some (0, ?e2)"
    using l(1) st(1) b(1) find hm(1)
    by (simp add: xfiredb_hashmap_set_def container_alloc_def container_init_def get_map_def
        container_get_data_def e_alloc_def e_string_alloc_def e_put_def)
  have kr: "key_rep ?e2 ns ?p (VMap [sk \<mapsto> s])"
    using map_val_is_val [OF hm(2,4)] hm(3,5) n emp by (auto simp: key_rep_def)
  have "e_rep ?e2 (N(k := ns)) (M(k \<mapsto> VMap [sk \<mapsto> s]))"
    by (rule e_rep_new [OF l(5) None _ _, where p = ?p])
      (use kr room st l hm(3) in \<open>auto simp: only_def room_for_def\<close>)
  then show ?thesis
    using refinesI [OF r] b(2) by (simp add: e_io_def)
qed

lemma xfiredb_hashmap_set_add:
  assumes rep: "e_rep e N M" and io: "e_io x e Q" and k: "M k = Some (VMap f)"
    and c: "no_collision f sk" and new: "f sk = None"
  shows "refines e x Q (xfiredb_hashmap_set x k sk s e)
    (0, M(k \<mapsto> VMap (f(sk \<mapsto> s))), [(Some k, Some sk, Some s, HM_ADD)])"
proof -
  let ?item = "(Some k, Some sk, Some s, HM_ADD)"
  obtain db p cc where l: "e_lookup k e = Some (0, Some p, e\<lparr>e_db := db\<rparr>)" "dbmap db k = Some p"
      "e_rep (e\<lparr>e_db := db\<rparr>) N M" "key_rep (e\<lparr>e_db := db\<rparr>) (N k) p (VMap f)" "e_cont e p = Some cc"
      "is_val (e_strs e) cc (N k) (VMap f)" "\<forall>t. container_check_type cc t \<longleftrightarrow> t = type_of (VMap f)"
    using e_present [OF rep k] .
  obtain hm where hm: "get_map cc = Some hm" "cc = \<lparr>c_type = CONTAINER_HASHMAP, c_data = DMap hm\<rparr>" "hm_ok hm (N k)"
      "set (N k) \<subseteq> dom (str_at (e_strs e))" "f = map_val (e_strs e) hm (N k)"
    using get_map_val [OF l(6)] .
  let ?n = "e_fresh e"
  let ?strs = "(e_strs e)(?n \<mapsto> string_alloc s)"
  have n: "2 \<le> ?n" "?n \<notin> set (N k)"
    using rep l(4) by (auto simp: e_rep_def key_rep_def)
  have find: "hashmap_find hm sk = Some NULL"
    using hashmap_find_ok [OF hm(3) map_val_good [OF hm(3,4)]] c new hm(5) map_val_None [OF hm(3,4)] by simp
  obtain hm' ns where hm': "hashmap_add (x_coins x) hm sk ?n = Some (0, hm')" "hm_ok hm' ns" "set ns = insert ?n (set (N k))"
      "set ns \<subseteq> dom (str_at ?strs)" "map_val ?strs hm' ns = f(sk \<mapsto> s)"
    using map_val_add [OF hm(3,4) c [unfolded hm(5)] new [unfolded hm(5)] n, of "x_coins x" s] hm(5) by auto
  let ?e = "e\<lparr>e_db := db, e_strs := ?strs, e_fresh := ?n + 1,
    e_cont := (e_cont e)(p \<mapsto> \<lparr>c_type = CONTAINER_HASHMAP, c_data = DMap hm'\<rparr>)\<rparr>"
  have io2: "e_io x ?e Q"
    using io by simp
  obtain b where b: "e_queue x ?item ?e = Some (?e\<lparr>e_bio := b\<rparr>)" "e_io x (?e\<lparr>e_bio := b\<rparr>) (Q @ [?item])"
    using e_queueE [OF io2] .
  have r: "xfiredb_hashmap_set x k sk s e = Some (0, ?e\<lparr>e_bio := b\<rparr>)"
    using l(1,5,7) b(1) find hm(1,2) hm'(1) by (simp add: xfiredb_hashmap_set_def e_string_alloc_def e_put_def)
  have kr: "key_rep ?e ns p (VMap (f(sk \<mapsto> s)))"
    using map_val_is_val [OF hm'(2,4)] hm'(3,5) n l(4) by (auto simp: key_rep_def)
  have "e_rep ?e (N(k := ns)) (M(k \<mapsto> VMap (f(sk \<mapsto> s))))"
    by (rule e_rep_change [OF l(3), where p = p]) (use kr l(2) hm'(3) in \<open>auto simp: only_def\<close>)
  then show ?thesis
    using refinesI [OF r _ b(2)] by simp
qed

lemma xfiredb_hashmap_set_update:
  assumes rep: "e_rep e N M" and io: "e_io x e Q" and k: "M k = Some (VMap f)"
    and c: "no_collision f sk" and old: "f sk \<noteq> None"
  shows "refines e x Q (xfiredb_hashmap_set x k sk s e)
    (0, M(k \<mapsto> VMap (f(sk \<mapsto> s))), [(Some k, Some sk, Some s, HM_UPDATE)])"
proof -
  let ?item = "(Some k, Some sk, Some s, HM_UPDATE)"
  obtain db p cc where l: "e_lookup k e = Some (0, Some p, e\<lparr>e_db := db\<rparr>)" "dbmap db k = Some p"
      "e_rep (e\<lparr>e_db := db\<rparr>) N M" "key_rep (e\<lparr>e_db := db\<rparr>) (N k) p (VMap f)" "e_cont e p = Some cc"
      "is_val (e_strs e) cc (N k) (VMap f)" "\<forall>t. container_check_type cc t \<longleftrightarrow> t = type_of (VMap f)"
    using e_present [OF rep k] .
  obtain hm where hm: "get_map cc = Some hm" "cc = \<lparr>c_type = CONTAINER_HASHMAP, c_data = DMap hm\<rparr>" "hm_ok hm (N k)"
      "set (N k) \<subseteq> dom (str_at (e_strs e))" "f = map_val (e_strs e) hm (N k)"
    using get_map_val [OF l(6)] .
  obtain n where n: "hmap hm (N k) sk = Some n"
    using old hm(5) map_val_None [OF hm(3,4), of sk] by (cases "hmap hm (N k) sk") simp_all
  have nn: "n \<in> set (N k)" "n \<noteq> NULL"
    using hmap_node [OF hm(3) n] by auto
  then obtain str where str: "e_strs e n = Some str"
    using hm(4) by (auto simp: str_at_def dom_def Option.bind_eq_Some_conv)
  have find: "hashmap_find hm sk = Some n"
    using hashmap_find_ok [OF hm(3) map_val_good [OF hm(3,4)]] c hm(5) n by simp
  let ?strs = "(e_strs e)(n \<mapsto> string_set str s)"
  let ?e = "e\<lparr>e_db := db, e_strs := ?strs\<rparr>"
  have s: "str_at ?strs n = Some s"
    by (simp add: str_at_def string_set_def string_get_def Let_def)
  have io2: "e_io x ?e Q"
    using io by simp
  obtain b where b: "e_queue x ?item ?e = Some (?e\<lparr>e_bio := b\<rparr>)" "e_io x (?e\<lparr>e_bio := b\<rparr>) (Q @ [?item])"
    using e_queueE [OF io2] .
  have r: "xfiredb_hashmap_set x k sk s e = Some (0, ?e\<lparr>e_bio := b\<rparr>)"
    using l(1,5,7) b(1) find hm(1,2) nn(2) str by (simp add: xfiredb_hashmap_set_def)
  have dom: "set (N k) \<subseteq> dom (str_at ?strs)"
    using hm(4) s by (auto simp: str_at_def)
  have "map_val ?strs hm (N k) = f(sk \<mapsto> s)"
    using map_val_set [OF hm(3) n s, of "e_strs e"] hm(5) by simp
  then have kr: "key_rep ?e (N k) p (VMap (f(sk \<mapsto> s)))"
    using map_val_is_val [OF hm(3) dom] l(4,5) hm(2) by (auto simp: key_rep_def)
  have "e_rep ?e (N(k := N k)) (M(k \<mapsto> VMap (f(sk \<mapsto> s))))"
    by (rule e_rep_change [OF l(3), where p = p]) (use kr l(2) nn(1) in \<open>auto simp: only_def\<close>)
  then show ?thesis
    using refinesI [OF r _ b(2)] by simp
qed

lemma xfiredb_hashmap_set_other:
  assumes rep: "e_rep e N M" and io: "e_io x e Q" and k: "M k = Some v" "type_of v \<noteq> CONTAINER_HASHMAP"
  shows "refines e x Q (xfiredb_hashmap_set x k sk s e) (-1, M, [])"
proof -
  obtain db p c where l: "e_lookup k e = Some (0, Some p, e\<lparr>e_db := db\<rparr>)" "e_rep (e\<lparr>e_db := db\<rparr>) N M"
      "e_cont e p = Some c" "\<forall>t. container_check_type c t \<longleftrightarrow> t = type_of v"
    using e_present [OF rep k(1)] by metis
  then have r: "xfiredb_hashmap_set x k sk s e = Some (-1, e\<lparr>e_db := db\<rparr>)"
    using k(2) by (auto simp: xfiredb_hashmap_set_def)
  show ?thesis
    using refinesI [OF r l(2), where items = "[]"] io by simp
qed

text \<open>The secondary keys that an operation on the key compares the given one with.\<close>

definition map_at :: "dbval \<Rightarrow> string \<Rightarrow> string \<rightharpoonup> string" where
  "map_at M k = (case M k of Some (VMap f) \<Rightarrow> f | _ \<Rightarrow> Map.empty)"

lemma xfiredb_hashmap_set_ok:
  assumes "e_rep e N M" "e_io x e Q" "room_for e M" "no_collision (map_at M k) sk"
  shows "refines e x Q (xfiredb_hashmap_set x k sk s e) (spec_hashmap_set k sk s M)"
  using xfiredb_hashmap_set_new [OF assms(1-3), of k sk s] xfiredb_hashmap_set_add [OF assms(1,2), of k _ sk s]
    xfiredb_hashmap_set_update [OF assms(1,2), of k _ sk s] xfiredb_hashmap_set_other [OF assms(1,2), of k _ sk s] assms(4)
  by (auto simp: spec_hashmap_set_def map_at_def split: option.split val.split)

section \<open>Removing\<close>

text \<open>The given keys that are present, each once.\<close>

fun present_keys :: "(string \<rightharpoonup> 'a) \<Rightarrow> string list \<Rightarrow> string list" where
  "present_keys f [] = []"
| "present_keys f (k # ks) = (if f k = None then present_keys f ks else k # present_keys (f(k := None)) ks)"

definition spec_hashmap_remove :: "string \<Rightarrow> string list \<Rightarrow> dbval \<Rightarrow> int \<times> dbval \<times> bio_item list" where
  "spec_hashmap_remove k sks M =
     (case M k of
        Some (VMap f) \<Rightarrow>
          (int (length (present_keys f sks)),
           M(k := if dom f \<subseteq> set sks then None else Some (VMap (f |` (- set sks)))),
           map (\<lambda>sk. (Some k, Some sk, None, HM_DEL)) (present_keys f sks))
      | _ \<Rightarrow> (0, M, []))"

lemma no_collision_less: "no_collision f sk \<Longrightarrow> no_collision (f(k := None)) sk"
  by (auto simp: no_collision_def split: if_splits)

lemma map_val_remove:
  assumes ok: "hm_ok hm ns" "set ns \<subseteq> dom (str_at strs)" and n: "hmap hm ns sk = Some n"
    and hm': "hm_ok hm' ns'" "hmap hm' ns' = (hmap hm ns)(sk := None)" "set ns' = set ns - {n}"
  shows "map_val (strs(n := None)) hm' ns' = (map_val strs hm ns)(sk := None)"
proof -
  have "map_val (strs(n := None)) hm' ns' = map_val strs hm' ns'"
    by (rule map_val_frame [OF hm'(1)]) (use hm'(3) in auto)
  then show ?thesis
    using hm'(2) by (auto simp: map_val_def fun_eq_iff)
qed

text \<open>The loop of \<^verbatim>\<open>xfiredb_hashmap_remove\<close>.\<close>

lemma hashmap_remove_loop_ok:
  assumes "hm_ok hm ns" "set ns \<subseteq> dom (str_at (e_strs e))" "e_io x e Q" "HEADER \<notin> set ns"
    and "\<forall>sk\<in>set sks. no_collision (map_val (e_strs e) hm ns) sk" "f = map_val (e_strs e) hm ns"
  shows "\<exists>hm' ns' b. hashmap_remove_loop x k sks hm rm e =
      Some (hm', rm + length (present_keys f sks),
        e\<lparr>e_bio := b, e_strs := (e_strs e) |` (- (set ns - set ns'))\<rparr>) \<and>
    hm_ok hm' ns' \<and> set ns' \<subseteq> set ns \<and>
    map_val ((e_strs e) |` (- (set ns - set ns'))) hm' ns' = f |` (- set sks) \<and>
    e_io x (e\<lparr>e_bio := b\<rparr>) (Q @ map (\<lambda>sk. (Some k, Some sk, None, HM_DEL)) (present_keys f sks))"
  using assms
proof (induction sks arbitrary: hm ns e Q rm f)
  case Nil
  then show ?case
    by (intro exI [of _ hm] exI [of _ ns] exI [of _ "e_bio e"]) (simp add: restrict_map_def)
next
  case (Cons sk sks)
  have good: "hm_good hm ns sk"
    using map_val_good [OF Cons.prems(1,2)] Cons.prems(5) by simp
  obtain hm1 ns1 where r: "hashmap_remove hm sk = Some (case hmap hm ns sk of None \<Rightarrow> NULL | Some n \<Rightarrow> n, hm1)"
      "hm_ok hm1 ns1" "hmap hm1 ns1 = (hmap hm ns)(sk := None)" "set ns1 = set ns - set_option (hmap hm ns sk)"
    using hashmap_remove_ok [OF Cons.prems(1) good] by blast
  show ?case
  proof (cases "hmap hm ns sk")
    case None
    have f: "f sk = None"
      using None map_val_None [OF Cons.prems(1,2)] Cons.prems(6) by simp
    have v: "map_val (e_strs e) hm1 ns1 = f"
      using r(3) None Cons.prems(6) by (simp add: map_val_def fun_upd_idem)
    have ns1: "set ns1 = set ns"
      using r(4) None by simp
    obtain hm' ns' b where IH: "hashmap_remove_loop x k sks hm1 rm e =
        Some (hm', rm + length (present_keys f sks), e\<lparr>e_bio := b, e_strs := (e_strs e) |` (- (set ns1 - set ns'))\<rparr>)"
        "hm_ok hm' ns'" "set ns' \<subseteq> set ns1"
        "map_val ((e_strs e) |` (- (set ns1 - set ns'))) hm' ns' = f |` (- set sks)"
        "e_io x (e\<lparr>e_bio := b\<rparr>) (Q @ map (\<lambda>sk. (Some k, Some sk, None, HM_DEL)) (present_keys f sks))"
      using Cons.IH [of hm1 ns1 e Q f rm] r(2) ns1 v Cons.prems by auto
    moreover have "f |` (- set (sk # sks)) = f |` (- set sks)"
      using f by (auto simp: restrict_map_def)
    ultimately show ?thesis
      using r(1) None f ns1 by auto
  next
    case (Some n)
    have n: "n \<in> set ns" "n \<noteq> NULL" "n \<noteq> HEADER"
      using hmap_node [OF Cons.prems(1) Some] Cons.prems(4) by auto
    have f: "f sk \<noteq> None"
      using Some map_val_None [OF Cons.prems(1,2), of sk] Cons.prems(6) by simp
    have ns1: "set ns1 = set ns - {n}"
      using r(4) Some by simp
    let ?hm = "hashmap_node_destroy n hm1"
    have d: "hm_ok ?hm ns1" "hmap ?hm ns1 = (hmap hm ns)(sk := None)"
      using hashmap_node_destroy_ok [OF r(2), of n] ns1 n r(3) by auto
    obtain b where b: "e_queue x (Some k, Some sk, None, HM_DEL) e = Some (e\<lparr>e_bio := b\<rparr>)"
        "e_io x (e\<lparr>e_bio := b\<rparr>) (Q @ [(Some k, Some sk, None, HM_DEL)])"
      using e_queueE [OF Cons.prems(3)] .
    let ?e = "e_string_free n (e\<lparr>e_bio := b\<rparr>)"
    have v: "map_val (e_strs ?e) ?hm ns1 = f(sk := None)"
      using map_val_remove [OF Cons.prems(1,2) Some d ns1] Cons.prems(6) by (simp add: e_string_free_def)
    have "str_at (e_strs ?e) a = str_at (e_strs e) a" if "a \<noteq> n" for a
      using that by (simp add: e_string_free_def str_at_def)
    then have dom: "set ns1 \<subseteq> dom (str_at (e_strs ?e))"
      using Cons.prems(2) ns1 by fastforce
    have io: "e_io x ?e (Q @ [(Some k, Some sk, None, HM_DEL)])"
      using b(2) by (simp add: e_string_free_def)
    have hd1: "HEADER \<notin> set ns1"
      using ns1 Cons.prems(4) by simp
    have nc: "\<forall>s\<in>set sks. no_collision (map_val (e_strs ?e) ?hm ns1) s"
      unfolding v using Cons.prems(5,6) no_collision_less by simp
    obtain hm' ns' b' where IH: "hashmap_remove_loop x k sks ?hm (rm + 1) ?e =
        Some (hm', rm + 1 + length (present_keys (f(sk := None)) sks),
          ?e\<lparr>e_bio := b', e_strs := (e_strs ?e) |` (- (set ns1 - set ns'))\<rparr>)"
        "hm_ok hm' ns'" "set ns' \<subseteq> set ns1"
        "map_val ((e_strs ?e) |` (- (set ns1 - set ns'))) hm' ns' = (f(sk := None)) |` (- set sks)"
        "e_io x (?e\<lparr>e_bio := b'\<rparr>) ((Q @ [(Some k, Some sk, None, HM_DEL)]) @
           map (\<lambda>sk. (Some k, Some sk, None, HM_DEL)) (present_keys (f(sk := None)) sks))"
      using Cons.IH [OF d(1) dom io hd1 nc v [symmetric], of "rm + 1"] by blast
    have strs: "(e_strs ?e) |` (- (set ns1 - set ns')) = (e_strs e) |` (- (set ns - set ns'))"
      using ns1 n(1) IH(3) by (auto simp: e_string_free_def restrict_map_def fun_eq_iff)
    have "(f(sk := None)) |` (- set sks) = f |` (- set (sk # sks))"
      by (auto simp: restrict_map_def)
    then show ?thesis
      using r(1) Some f n(2) b(1) IH strs ns1 by (auto simp: e_string_free_def e_io_def)
  qed
qed

text \<open>
  \<^verbatim>\<open>xfiredb_hashmap_remove\<close> of a key that holds a hash map. The container of a map without entries is
  released.
\<close>

lemma xfiredb_hashmap_remove_map:
  assumes rep: "e_rep e N M" and io: "e_io x e Q" and k: "M k = Some (VMap f)"
    and c: "\<forall>sk\<in>set sks. no_collision f sk" and size: "card (dom f) < 2 ^ 31"
  shows "refines e x Q (xfiredb_hashmap_remove x k sks e) (spec_hashmap_remove k sks M)"
proof -
  let ?ks = "present_keys f sks"
  let ?items = "map (\<lambda>sk. (Some k, Some sk, None, HM_DEL)) ?ks"
  obtain db p cc where l: "e_lookup k e = Some (0, Some p, e\<lparr>e_db := db\<rparr>)" "dbmap db k = Some p"
      "e_rep (e\<lparr>e_db := db\<rparr>) N M" "key_rep (e\<lparr>e_db := db\<rparr>) (N k) p (VMap f)" "e_cont e p = Some cc"
      "is_val (e_strs e) cc (N k) (VMap f)" "\<forall>t. container_check_type cc t \<longleftrightarrow> t = type_of (VMap f)"
    using e_present [OF rep k] .
  obtain hm where hm: "get_map cc = Some hm" "cc = \<lparr>c_type = CONTAINER_HASHMAP, c_data = DMap hm\<rparr>" "hm_ok hm (N k)"
      "set (N k) \<subseteq> dom (str_at (e_strs e))" "f = map_val (e_strs e) hm (N k)"
    using get_map_val [OF l(6)] .
  have hd: "HEADER \<notin> set (N k)"
    using hm(3) by (simp add: hm_ok_def sl_ok_def)
  let ?e = "e\<lparr>e_db := db\<rparr>"
  have "e_io x ?e Q"
    using io by simp
  then obtain hm' ns b where lp: "hashmap_remove_loop x k sks hm 0 ?e =
      Some (hm', 0 + length ?ks, ?e\<lparr>e_bio := b, e_strs := (e_strs ?e) |` (- (set (N k) - set ns))\<rparr>)"
      "hm_ok hm' ns" "set ns \<subseteq> set (N k)"
      "map_val ((e_strs ?e) |` (- (set (N k) - set ns))) hm' ns = f |` (- set sks)"
      "e_io x (?e\<lparr>e_bio := b\<rparr>) (Q @ ?items)"
    using hashmap_remove_loop_ok [OF hm(3), of ?e x Q sks f k 0] hm(4,5) hd c by auto
  let ?strs = "(e_strs e) |` (- (set (N k) - set ns))"
  let ?e1 = "?e\<lparr>e_bio := b, e_strs := ?strs, e_cont := (e_cont e)(p \<mapsto> \<lparr>c_type = CONTAINER_HASHMAP, c_data = DMap hm'\<rparr>)\<rparr>"
  have sub: "set ns \<subseteq> dom (str_at ?strs)"
    using lp(3) hm(4) by (auto simp: str_at_def restrict_map_def)
  have "length ns \<le> length (N k)"
    using card_mono [OF _ lp(3)] distinct_card [OF hm_distinct [OF hm(3)]] distinct_card [OF hm_distinct [OF lp(2)]] by simp
  then have len: "length ns < 2 ^ 31" "card (dom (f |` (- set sks))) = length ns"
    using size map_val_card [OF hm(3,4)] map_val_card [OF lp(2) sub] hm(5) lp(4) by simp_all
  then have size': "hashmap_size hm' = int (length ns)"
    using hashmap_size_ok [OF lp(2)] smap_card lp(2) by (simp add: hm_ok_def hmap_def)
  have pre: "xfiredb_hashmap_remove x k sks e =
      (if length ns = 0
       then do { (rc, _, e) \<leftarrow> e_delete k ?e1; if rc \<noteq> 0 then Some (int (length ?ks), e) else Some (int (length ?ks), e_free p e) }
       else Some (int (length ?ks), ?e1))"
    using l(1,5,7) hm(1,2) lp(1) size' by (simp add: xfiredb_hashmap_remove_def e_put_def)
  have io1: "e_io x ?e1 (Q @ ?items)"
    using lp(5) by (simp add: e_io_def)
  show ?thesis
  proof (cases "ns = []")
    case True
    then have "dom f \<subseteq> set sks"
      using len(2) map_val_card(2) [OF hm(3,4)] hm(5) by auto
    then have spec: "spec_hashmap_remove k sks M = (int (length ?ks), M(k := None), ?items)"
      using k by (simp add: spec_hashmap_remove_def)
    obtain db2 where db2: "e_delete k ?e1 = Some (0, Some p, ?e1\<lparr>e_db := db2\<rparr>)" "db_ok db2" "dbmap db2 = (dbmap db)(k := None)"
      using e_delete_ok [of ?e1 k] l(2,3) by (auto simp: e_rep_def)
    have r: "xfiredb_hashmap_remove x k sks e = Some (int (length ?ks), e_free p (?e1\<lparr>e_db := db2\<rparr>))"
      using pre True db2(1) by simp
    have "e_rep (e_free p (?e1\<lparr>e_db := db2\<rparr>)) (N(k := [])) (M(k := None))"
      by (rule key_delete_rep [OF l(3), where p = p]) (use l(2) db2 in \<open>auto simp: e_free_def restrict_map_def\<close>)
    then show ?thesis
      unfolding spec using refinesI [OF r] io1 by (simp add: e_free_def e_io_def)
  next
    case False
    then have "dom f \<inter> - set sks \<noteq> {}"
      using len(2) by auto
    then have "\<not> dom f \<subseteq> set sks"
      by blast
    then have spec: "spec_hashmap_remove k sks M = (int (length ?ks), M(k \<mapsto> VMap (f |` (- set sks))), ?items)"
      using k by (simp add: spec_hashmap_remove_def)
    have r: "xfiredb_hashmap_remove x k sks e = Some (int (length ?ks), ?e1)"
      using pre False by simp
    have kr: "key_rep ?e1 ns p (VMap (f |` (- set sks)))"
      using map_val_is_val [OF lp(2) sub] lp(3,4) l(4) by (auto simp: key_rep_def)
    have "e_rep ?e1 (N(k := ns)) (M(k \<mapsto> VMap (f |` (- set sks))))"
      by (rule e_rep_change [OF l(3), where p = p]) (use kr l(2) lp(3) in \<open>auto simp: only_def restrict_map_def\<close>)
    then show ?thesis
      unfolding spec using refinesI [OF r] io1 by simp
  qed
qed

lemma xfiredb_hashmap_remove_other:
  assumes rep: "e_rep e N M" and io: "e_io x e Q" and k: "\<forall>f. M k \<noteq> Some (VMap f)"
  shows "refines e x Q (xfiredb_hashmap_remove x k sks e) (0, M, [])"
proof (cases "M k")
  case None
  obtain db where l: "e_lookup k e = Some (-1, None, e\<lparr>e_db := db\<rparr>)" "e_rep (e\<lparr>e_db := db\<rparr>) N M"
    using e_absent [OF rep None] by metis
  then have r: "xfiredb_hashmap_remove x k sks e = Some (0, e\<lparr>e_db := db\<rparr>)"
    by (simp add: xfiredb_hashmap_remove_def)
  show ?thesis
    using refinesI [OF r l(2), where items = "[]"] io by simp
next
  case (Some v)
  obtain db p c where l: "e_lookup k e = Some (0, Some p, e\<lparr>e_db := db\<rparr>)" "e_rep (e\<lparr>e_db := db\<rparr>) N M"
      "e_cont e p = Some c" "\<forall>t. container_check_type c t \<longleftrightarrow> t = type_of v"
    using e_present [OF rep Some] by metis
  then have r: "xfiredb_hashmap_remove x k sks e = Some (0, e\<lparr>e_db := db\<rparr>)"
    using k Some by (cases v) (simp_all add: xfiredb_hashmap_remove_def)
  show ?thesis
    using refinesI [OF r l(2), where items = "[]"] io by simp
qed

lemma xfiredb_hashmap_remove_ok:
  assumes "e_rep e N M" "e_io x e Q" "\<forall>sk\<in>set sks. no_collision (map_at M k) sk" "card (dom (map_at M k)) < 2 ^ 31"
  shows "refines e x Q (xfiredb_hashmap_remove x k sks e) (spec_hashmap_remove k sks M)"
proof (cases "\<exists>f. M k = Some (VMap f)")
  case True
  then show ?thesis
    using xfiredb_hashmap_remove_map [OF assms(1,2)] assms(3,4) by (auto simp: map_at_def)
next
  case False
  then have "spec_hashmap_remove k sks M = (0, M, [])"
    by (auto simp: spec_hashmap_remove_def split: option.split val.split)
  then show ?thesis
    using xfiredb_hashmap_remove_other [OF assms(1,2)] False by simp
qed

section \<open>Deleting a key\<close>

text \<open>The loop of \<^verbatim>\<open>xfiredb_key_delete\<close> over the nodes of a hash map: every node is queued once.\<close>

lemma map_drop_loop_ok:
  assumes "sl_ok (h_list hm) xs" "keyed (h_list hm) xs (h_key hm)" "it_current it = HEADER" "e_io x e Q"
  shows "\<exists>hm' b ks. map_drop_loop x k hm it e = Some (hm', e\<lparr>e_bio := b, e_strs := (e_strs e) |` (- set xs)\<rparr>) \<and>
    distinct ks \<and> set ks = dom (smap (h_list hm) xs) \<and>
    e_io x (e\<lparr>e_bio := b\<rparr>) (Q @ map (\<lambda>sk. (Some k, Some sk, None, HM_DEL)) ks)"
  using assms
proof (induction "length xs" arbitrary: hm xs it e Q)
  case 0
  then have "hashmap_iterator_next hm it = Some (NULL, \<lparr>it_prev = HEADER, it_current = NULL\<rparr>)"
    using iterator_at_end [of "h_list hm" it] by (simp add: hashmap_iterator_next_def)
  then show ?case
    using 0 by (intro exI [of _ hm] exI [of _ "e_bio e"] exI [of _ "[]"])
      (subst map_drop_loop.simps, simp add: restrict_map_def smap_def)
next
  case (Suc m)
  then obtain y ys where xs: "xs = y # ys"
    by (cases xs) auto
  let ?it = "\<lparr>it_prev = HEADER, it_current = HEADER\<rparr>"
  obtain sk l' xs' where d: "skiplist_iterator_next (h_list hm) it = Some (y, \<lparr>it_prev = HEADER, it_current = y\<rparr>)"
      "y \<noteq> HEADER" "y \<noteq> NULL" "smap (h_list hm) xs sk = Some y"
      "skiplist_iterator_delete (h_list hm) \<lparr>it_prev = HEADER, it_current = y\<rparr> = Some (HEADER, ?it, l')"
      "sl_ok l' xs'" "set xs' = set ys" "y \<notin> set ys" "smap l' xs' = (smap (h_list hm) xs)(sk := None)"
      "length xs' = length ys"
    using iterator_drop_first [OF Suc.prems(1) [unfolded xs] Suc.prems(3)] unfolding xs .
  have sk: "h_key hm y = Some sk"
    using Suc.prems(2) d(4) by (simp add: keyed_def)
  obtain b where b: "e_queue x (Some k, Some sk, None, HM_DEL) e = Some (e\<lparr>e_bio := b\<rparr>)"
      "e_io x (e\<lparr>e_bio := b\<rparr>) (Q @ [(Some k, Some sk, None, HM_DEL)])"
    using e_queueE [OF Suc.prems(4)] .
  let ?e = "e_string_free y (e\<lparr>e_bio := b\<rparr>)" and ?hm = "hashmap_node_destroy y (hm\<lparr>h_list := l'\<rparr>)"
  have ok: "sl_ok (h_list ?hm) xs'" "smap (h_list ?hm) xs' = (smap (h_list hm) xs)(sk := None)"
    using sl_ok_destroy [OF d(6), of y] d(2,7,8,9) by (simp_all add: hashmap_node_destroy_def)
  have keyed: "keyed (h_list ?hm) xs' (h_key ?hm)"
    using Suc.prems(2) ok(2) sk by (auto simp: keyed_def hashmap_node_destroy_def split: if_splits)
  have io: "e_io x ?e (Q @ [(Some k, Some sk, None, HM_DEL)])"
    using b(2) by (simp add: e_string_free_def)
  have len: "m = length xs'" "it_current ?it = HEADER"
    using Suc.hyps(2) xs d(10) by simp_all
  obtain hm' b' ks where IH: "map_drop_loop x k ?hm ?it ?e = Some (hm', ?e\<lparr>e_bio := b', e_strs := (e_strs ?e) |` (- set xs')\<rparr>)"
      "distinct ks" "set ks = dom (smap (h_list ?hm) xs')"
      "e_io x (?e\<lparr>e_bio := b'\<rparr>) ((Q @ [(Some k, Some sk, None, HM_DEL)]) @ map (\<lambda>sk. (Some k, Some sk, None, HM_DEL)) ks)"
    using Suc.hyps(1) [OF len(1) ok(1) keyed len(2) io] by blast
  have strs: "(e_strs ?e) |` (- set xs') = (e_strs e) |` (- set xs)"
    using d(7) xs by (auto simp: e_string_free_def restrict_map_def fun_eq_iff)
  have "map_drop_loop x k hm it e = Some (hm', e\<lparr>e_bio := b', e_strs := (e_strs e) |` (- set xs)\<rparr>)"
    using d(1,3,5) sk b(1) IH(1) strs
    by (subst map_drop_loop.simps)
      (simp add: hashmap_iterator_next_def hashmap_iterator_delete_def e_string_free_def)
  moreover have "distinct (sk # ks)" "set (sk # ks) = dom (smap (h_list hm) xs)"
    using IH(2,3) ok(2) d(4) by auto
  ultimately show ?case
    using IH(4) by (intro exI [of _ hm'] exI [of _ b'] exI [of _ "sk # ks"]) (simp add: e_string_free_def e_io_def)
qed

lemma xfiredb_key_delete_map:
  assumes rep: "e_rep e N M" and io: "e_io x e Q" and k: "M k = Some (VMap f)" and size: "card (dom f) < 2 ^ 31"
  obtains ks where "distinct ks" "set ks = dom f"
    "refines e x Q (xfiredb_key_delete x k e)
      (int (card (dom f)), M(k := None), map (\<lambda>sk. (Some k, Some sk, None, HM_DEL)) ks)"
proof -
  obtain db p c where l: "e_delete k e = Some (0, Some p, e\<lparr>e_db := db\<rparr>)" "db_ok db" "dbmap (e_db e) k = Some p"
    "dbmap db = (dbmap (e_db e))(k := None)" "e_cont e p = Some c" "is_val (e_strs e) c (N k) (VMap f)"
    "c_type c = type_of (VMap f)"
    using e_delete_rep [OF rep k] .
  obtain hm where hm: "get_map c = Some hm" "hm_ok hm (N k)" "set (N k) \<subseteq> dom (str_at (e_strs e))"
      "f = map_val (e_strs e) hm (N k)"
    using get_map_val [OF l(6)] by metis
  have sl: "sl_ok (h_list hm) (N k)" "keyed (h_list hm) (N k) (h_key hm)"
    using hm(2) by (simp_all add: hm_ok_def)
  have size': "hashmap_size hm = int (card (dom f))"
    using hashmap_size_ok [OF hm(2)] size map_val_dom [OF hm(2,3)] map_val_card [OF hm(2,3)] hm(4) by (simp add: hmap_def)
  let ?e = "e\<lparr>e_db := db\<rparr>"
  have io2: "e_io x ?e Q"
    using io by simp
  have it: "it_current (hashmap_new_iterator hm) = HEADER"
    by (simp add: hashmap_new_iterator_def skiplist_iterator_new_def)
  obtain hm' b ks where dr: "map_drop_loop x k hm (hashmap_new_iterator hm) ?e =
      Some (hm', ?e\<lparr>e_bio := b, e_strs := (e_strs ?e) |` (- set (N k))\<rparr>)" "distinct ks"
      "set ks = dom (smap (h_list hm) (N k))"
      "e_io x (?e\<lparr>e_bio := b\<rparr>) (Q @ map (\<lambda>sk. (Some k, Some sk, None, HM_DEL)) ks)"
    using map_drop_loop_ok [OF sl it io2] by blast
  let ?e2 = "e_free p (?e\<lparr>e_bio := b, e_strs := (e_strs ?e) |` (- set (N k))\<rparr>)"
  have r: "xfiredb_key_delete x k e = Some (int (card (dom f)), ?e2)"
    using l(1,5,7) dr(1) hm(1) size' by (simp add: xfiredb_key_delete_def)
  have "e_rep ?e2 (N(k := [])) (M(k := None))"
    by (rule key_delete_rep [OF rep l(3,2,4)]) (simp_all add: e_free_def)
  then show thesis
    using that [of ks] refinesI [OF r, of _ _ x Q] dr map_val_dom [OF hm(2,3)] hm(4) by (simp add: e_free_def e_io_def)
qed

end
