(* ===== verification/EngineProps.thy ===== *)
theory EngineProps
  imports EngineMap
begin

text \<open>The properties of the engine interface, with the states they are applied to.\<close>

definition sample_conf :: econf where
  "sample_conf = \<lparr>x_dict = default_conf, x_mem = (\<lambda>_. 0), x_coins = (\<lambda>_. True), x_plvl = 0\<rparr>"

lemma engine_init_ok:
  "e_rep engine_init (\<lambda>_. []) Map.empty" "e_io sample_conf engine_init []" "room_for engine_init Map.empty"
  using db_alloc_ok [of "''xfiredb''"] bio_init_holds
  by (simp_all add: e_rep_def e_io_def room_for_def engine_init_def sample_conf_def bio_init_def)

text \<open>
  C12: \<^verbatim>\<open>xfiredb_string_set\<close> binds a new key or a string key to the value and queues the matching row
  operation, and refuses a key of another type; \<^verbatim>\<open>xfiredb_string_get\<close> then returns the value.
\<close>

theorem engine_string_refines:
  assumes "e_rep e N M" "e_io x e Q" "room_for e M"
  shows "(\<exists>e'. xfiredb_string_get k old e = (case spec_string_get k old M of (rc, s) \<Rightarrow> Some (rc, s, e')) \<and> e_rep e' N M) \<and>
    (\<exists>e' N'. xfiredb_string_set x k s e = Some (fst (spec_string_set k s M), e') \<and>
       e_rep e' N' (fst (snd (spec_string_set k s M))) \<and> e_io x e' (Q @ snd (snd (spec_string_set k s M))) \<and>
       (fst (spec_string_set k s M) = 0 \<longrightarrow> (\<exists>e2. xfiredb_string_get k old e' = Some (0, Some s, e2))))"
proof -
  obtain e' N' where e': "xfiredb_string_set x k s e = Some (fst (spec_string_set k s M), e')"
      "e_rep e' N' (fst (snd (spec_string_set k s M)))" "e_io x e' (Q @ snd (snd (spec_string_set k s M)))"
    using xfiredb_string_set_ok [OF assms, of k s] by (auto simp: refines_def split: prod.splits)
  obtain e1 where e1: "xfiredb_string_get k old e = (case spec_string_get k old M of (rc, s) \<Rightarrow> Some (rc, s, e1))" "e_rep e1 N M"
    using xfiredb_string_get_ok [OF assms(1), of k old] by blast
  obtain e2 where e2: "xfiredb_string_get k old e' =
      (case spec_string_get k old (fst (snd (spec_string_set k s M))) of (rc, s) \<Rightarrow> Some (rc, s, e2))"
    using xfiredb_string_get_ok [OF e'(2), of k old] by blast
  have "spec_string_get k old (fst (snd (spec_string_set k s M))) = (0, Some s)" if "fst (spec_string_set k s M) = 0"
    using that by (auto simp: spec_string_set_def spec_string_get_def split: option.splits val.splits)
  then have "\<exists>e2. xfiredb_string_get k old e' = Some (0, Some s, e2)" if "fst (spec_string_set k s M) = 0"
    using e2 that by (simp only: prod.case) blast
  then show ?thesis
    using e1 e' by blast
qed

theorem engine_string_refines_witness:
  "\<exists>e' e2 N'. xfiredb_string_set sample_conf ''k'' ''v'' engine_init = Some (0, e') \<and>
    e_rep e' N' [''k'' \<mapsto> VString ''v''] \<and> e_io sample_conf e' [(Some ''k'', None, Some ''v'', STRING_ADD)] \<and>
    xfiredb_string_get ''k'' None e' = Some (0, Some ''v'', e2)"
  using engine_string_refines [OF engine_init_ok, of "''k''" None "''v''"] by (auto simp: spec_string_set_def)

text \<open>
  C13: \<^verbatim>\<open>xfiredb_list_push\<close> adds the value at the chosen end of the list of the key, creates the list of a
  new key, queues one row, and refuses a key of another type; \<^verbatim>\<open>xfiredb_list_length\<close> is the number of
  elements, and \<^verbatim>\<open>xfiredb_list_get\<close> with ascending indices returns the elements at these indices,
  negative ones counted from the end.
\<close>

theorem engine_list_refines:
  assumes "e_rep e N M" "e_io x e Q" "room_for e M"
  shows "(\<exists>e' N'. xfiredb_list_push x k s left e = Some (fst (spec_list_push k s left M), e') \<and>
      e_rep e' N' (fst (snd (spec_list_push k s left M))) \<and> e_io x e' (Q @ snd (snd (spec_list_push k s left M)))) \<and>
    (\<forall>xs. M k = Some (VList xs) \<and> length xs < 2 ^ 31 \<longrightarrow>
      (\<exists>e'. xfiredb_list_length k e = Some (int (length xs), e') \<and> e_rep e' N M) \<and>
      (idx \<noteq> [] \<and> sorted_wrt (<) (map (norm_idx (int (length xs))) idx) \<and>
         (\<forall>v\<in>set idx. 0 \<le> norm_idx (int (length xs)) v \<and> norm_idx (int (length xs)) v < int (length xs)) \<longrightarrow>
       (\<exists>idx' e'. xfiredb_list_get k idx (length idx) e =
          Some (0, idx', map (\<lambda>v. xs ! nat (norm_idx (int (length xs)) v)) idx, e') \<and> e_rep e' N M)))"
proof -
  have "\<exists>e' N'. xfiredb_list_push x k s left e = Some (fst (spec_list_push k s left M), e') \<and>
      e_rep e' N' (fst (snd (spec_list_push k s left M))) \<and> e_io x e' (Q @ snd (snd (spec_list_push k s left M)))"
    using xfiredb_list_push_ok [OF assms, of k s left] by (auto simp: refines_def split: prod.splits)
  moreover have "\<exists>e'. xfiredb_list_length k e = Some (int (length xs), e') \<and> e_rep e' N M"
    if "M k = Some (VList xs)" "length xs < 2 ^ 31" for xs
    using xfiredb_list_length_ok [OF assms(1), of k] that by (auto simp: spec_list_length_def)
  ultimately show ?thesis
    using xfiredb_list_get_ok [OF assms(1)] by blast
qed

lemma sample_list:
  obtains e N where "xfiredb_list_push sample_conf ''k'' ''a'' False engine_init = Some (0, e)"
    "e_rep e N [''k'' \<mapsto> VList [''a'']]" "e_io sample_conf e [(Some ''k'', None, Some ''a'', LIST_ADD)]"
  using xfiredb_list_push_ok [OF engine_init_ok, of "''k''" "''a''" False] that
  by (auto simp: refines_def spec_list_push_def)

theorem engine_list_refines_witness:
  "\<exists>e e' idx'. xfiredb_list_push sample_conf ''k'' ''a'' False engine_init = Some (0, e) \<and>
    xfiredb_list_get ''k'' [-1] 1 e = Some (0, idx', [''a''], e')"
proof -
  obtain e N where e: "xfiredb_list_push sample_conf ''k'' ''a'' False engine_init = Some (0, e)"
      "e_rep e N [''k'' \<mapsto> VList [''a'']]" "e_io sample_conf e [(Some ''k'', None, Some ''a'', LIST_ADD)]"
    using sample_list .
  have "map_option (e_next \<circ> snd) (xfiredb_list_push sample_conf ''k'' ''a'' False engine_init) = Some 2"
    by code_simp
  then have "e_next e = 2"
    using e(1) by simp
  then have "room_for e [''k'' \<mapsto> VList [''a'']]"
    by (simp add: room_for_def)
  then show ?thesis
    using engine_list_refines [OF e(2,3), of "''k''" undefined undefined "[-1]"] e(1)
    by (auto simp: norm_idx_def)
qed



end
