(* ===== verification/EngineList.thy ===== *)
theory EngineList
  imports EngineOps
begin

text \<open>
  Changing and removing list entries through the engine: \<^verbatim>\<open>xfiredb_list_set\<close> and \<^verbatim>\<open>xfiredb_list_pop\<close>.
\<close>

section \<open>Setting an entry\<close>

definition spec_list_set :: "string \<Rightarrow> int \<Rightarrow> string \<Rightarrow> dbval \<Rightarrow> int \<times> dbval \<times> bio_item list" where
  "spec_list_set k idx s M =
     (case M k of
        None \<Rightarrow> spec_list_push k s False M
      | Some (VList xs) \<Rightarrow>
          if 0 \<le> idx \<and> idx < int (length xs)
          then (0, M(k \<mapsto> VList (xs[nat idx := s])), [(Some k, Some (xs ! nat idx), Some s, LIST_UPDATE)])
          else (0, M(k \<mapsto> VList (xs @ [s])), if xs = [] then [(Some k, None, Some s, LIST_ADD)] else [])
      | Some _ \<Rightarrow> (-1, M, []))"

lemma list_set_loop_hit:
  assumes "0 \<le> idx - i" "idx - i < int (length cs)" "list_length h = i + int (length cs)"
    and "e_strs e (cs ! nat (idx - i)) = Some st" "string_get st = Some old"
  shows "list_set_loop x p h k s idx cs i e =
    map_option (\<lambda>e'. (0, e'\<lparr>e_strs := (e_strs e')(cs ! nat (idx - i) \<mapsto> string_set st s)\<rparr>))
      (e_queue x (Some k, Some old, Some s, LIST_UPDATE) e)"
  using assms
proof (induction cs arbitrary: i)
  case (Cons c cs)
  show ?case
  proof (cases "i = idx")
    case True
    then show ?thesis
      using Cons.prems by (cases "e_queue x (Some k, Some old, Some s, LIST_UPDATE) e") (simp_all add: fun_upd_def)
  next
    case False
    then have "nat (idx - i) = Suc (nat (idx - (i + 1)))"
      using Cons.prems(1) by simp
    then show ?thesis
      using Cons.IH [of "i + 1"] Cons.prems False by (cases cs) simp_all
  qed
qed simp

lemma list_set_loop_miss:
  assumes "idx < i \<or> i + int (length cs) \<le> idx" "list_length h = i + int (length cs)" "cs \<noteq> []"
  shows "list_set_loop x p h k s idx cs i e =
    (let (n, e) = e_string_alloc s e in map_option (\<lambda>e. (0, e)) (e_put p (DList (list_rpush h n)) e))"
  using assms
proof (induction cs arbitrary: i)
  case (Cons c cs)
  then show ?case
    using Cons.IH [of "i + 1"]
    by (cases "cs = []"; cases "e_cont e p") (auto simp: e_string_alloc_def e_put_def Let_def)
qed simp

text \<open>Overwriting the string of one node of a list.\<close>

lemma list_val_update:
  assumes l: "is_list h ns" and m: "map (str_at strs) ns = map Some xs" and i: "i < length ns"
    and s: "str_at strs' (ns ! i) = Some s" and other: "\<And>a. a \<noteq> ns ! i \<Longrightarrow> strs' a = strs a"
  shows "map (str_at strs') ns = map Some (xs[i := s])"
proof (rule nth_equalityI)
  have len: "length xs = length ns"
    using m by (metis length_map)
  then show "length (map (str_at strs') ns) = length (map Some (xs[i := s]))"
    by simp
  fix j assume j: "j < length (map (str_at strs') ns)"
  show "map (str_at strs') ns ! j = map Some (xs[i := s]) ! j"
  proof (cases "j = i")
    case True
    then show ?thesis
      using s i len by simp
  next
    case False
    then have "ns ! j \<noteq> ns ! i"
      using l i j by (simp add: is_list_def nth_eq_iff_index_eq)
    moreover have "str_at strs (ns ! j) = Some (xs ! j)"
      using arg_cong [OF m, of "\<lambda>z. z ! j"] j len by simp
    ultimately show ?thesis
      using other [of "ns ! j"] j len False by (simp add: str_at_def)
  qed
qed

lemma xfiredb_list_set_update:
  assumes rep: "e_rep e N M" and io: "e_io x e Q" and k: "M k = Some (VList xs)"
    and idx: "0 \<le> idx" "idx < int (length xs)" and len: "length xs < 2 ^ 31"
  shows "refines e x Q (xfiredb_list_set x k idx s e)
    (0, M(k \<mapsto> VList (xs[nat idx := s])), [(Some k, Some (xs ! nat idx), Some s, LIST_UPDATE)])"
proof -
  let ?item = "(Some k, Some (xs ! nat idx), Some s, LIST_UPDATE)"
  obtain db p c where l: "e_lookup k e = Some (0, Some p, e\<lparr>e_db := db\<rparr>)" "dbmap db k = Some p"
      "e_rep (e\<lparr>e_db := db\<rparr>) N M" "key_rep (e\<lparr>e_db := db\<rparr>) (N k) p (VList xs)" "e_cont e p = Some c"
      "is_val (e_strs e) c (N k) (VList xs)" "\<forall>t. container_check_type c t \<longleftrightarrow> t = type_of (VList xs)"
    using e_present [OF rep k] .
  obtain h where h: "get_list c = Some h" "c = \<lparr>c_type = CONTAINER_LIST, c_data = DList h\<rparr>" "is_list h (N k)"
      "map (str_at (e_strs e)) (N k) = map Some xs" "length (N k) = length xs"
    using get_list_val [OF l(6)] .
  let ?n = "N k ! nat idx" and ?e = "e\<lparr>e_db := db\<rparr>"
  have i: "nat idx < length (N k)"
    using idx h(5) by simp
  then have "str_at (e_strs e) ?n = Some (xs ! nat idx)"
    using arg_cong [OF h(4), of "\<lambda>z. z ! nat idx"] h(5) by simp
  then obtain st where st: "e_strs e ?n = Some st" "string_get st = Some (xs ! nat idx)"
    by (auto simp: str_at_def Option.bind_eq_Some_conv)
  have io2: "e_io x ?e Q"
    using io by simp
  obtain b where b: "e_queue x ?item ?e = Some (?e\<lparr>e_bio := b\<rparr>)" "e_io x (?e\<lparr>e_bio := b\<rparr>) (Q @ [?item])"
    using e_queueE [OF io2] .
  let ?strs = "(e_strs e)(?n \<mapsto> string_set st s)"
  let ?e2 = "?e\<lparr>e_bio := b, e_strs := ?strs\<rparr>"
  have w: "list_for_each h = Some (N k)" "list_length h = int (length xs)" "list_length h \<noteq> 0"
    using list_for_each_ok [OF h(3)] list_length_ok [OF h(3)] h(5) len idx by auto
  have "list_set_loop x p h k s idx (N k) 0 ?e = Some (0, ?e2)"
    using list_set_loop_hit [of idx 0 "N k" h ?e st "xs ! nat idx" x p k s] idx h(5) w(2) st b(1) by simp
  then have r: "xfiredb_list_set x k idx s e = Some (0, ?e2)"
    using l(1,5,7) h(1) w(1,3) by (simp add: xfiredb_list_set_def)
  have "str_at ?strs ?n = Some s"
    by (simp add: str_at_def string_set_def string_get_def Let_def)
  then have "map (str_at ?strs) (N k) = map Some (xs[nat idx := s])"
    using list_val_update [OF h(3,4) i, of ?strs s] by simp
  then have kr: "key_rep ?e2 (N k) p (VList (xs[nat idx := s]))"
    using l(4,5) h(2,3) by (auto simp: key_rep_def is_val_def)
  have "?n \<in> set (N k)"
    using i by simp
  then have "e_rep ?e2 (N(k := N k)) (M(k \<mapsto> VList (xs[nat idx := s])))"
    by (intro e_rep_change [OF l(3), where p = p]) (use kr l(2) in \<open>auto simp: only_def\<close>)
  then show ?thesis
    using refinesI [OF r] b(2) by (simp add: e_io_def)
qed

text \<open>An index outside of the list appends; the new entry of a list that is not empty is not queued.\<close>

lemma xfiredb_list_set_append:
  assumes rep: "e_rep e N M" and io: "e_io x e Q" and k: "M k = Some (VList xs)"
    and idx: "\<not> (0 \<le> idx \<and> idx < int (length xs))" and len: "length xs < 2 ^ 31"
  shows "refines e x Q (xfiredb_list_set x k idx s e)
    (0, M(k \<mapsto> VList (xs @ [s])), if xs = [] then [(Some k, None, Some s, LIST_ADD)] else [])"
proof -
  let ?item = "(Some k, None, Some s, LIST_ADD)"
  obtain db p c where l: "e_lookup k e = Some (0, Some p, e\<lparr>e_db := db\<rparr>)" "dbmap db k = Some p"
      "e_rep (e\<lparr>e_db := db\<rparr>) N M" "key_rep (e\<lparr>e_db := db\<rparr>) (N k) p (VList xs)" "e_cont e p = Some c"
      "is_val (e_strs e) c (N k) (VList xs)" "\<forall>t. container_check_type c t \<longleftrightarrow> t = type_of (VList xs)"
    using e_present [OF rep k] .
  obtain h where h: "get_list c = Some h" "c = \<lparr>c_type = CONTAINER_LIST, c_data = DList h\<rparr>" "is_list h (N k)"
      "map (str_at (e_strs e)) (N k) = map Some xs" "length (N k) = length xs"
    using get_list_val [OF l(6)] .
  let ?n = "e_fresh e"
  let ?strs = "(e_strs e)(?n \<mapsto> string_alloc s)"
  let ?e = "e\<lparr>e_db := db, e_strs := ?strs, e_fresh := ?n + 1,
    e_cont := (e_cont e)(p \<mapsto> \<lparr>c_type = CONTAINER_LIST, c_data = DList (list_rpush h ?n)\<rparr>)\<rparr>"
  have n: "?n \<noteq> 0" "?n \<notin> set (N k)" "2 \<le> ?n"
    using rep l(4) by (auto simp: e_rep_def key_rep_def)
  have "is_val ?strs \<lparr>c_type = CONTAINER_LIST, c_data = DList (list_rpush h ?n)\<rparr> (N k @ [?n]) (VList (xs @ [s]))"
    using list_val_push [OF h(3,4) n(2,1), of s False] by simp
  then have kr: "key_rep ?e (N k @ [?n]) p (VList (xs @ [s]))"
    using n l(4) by (auto simp: key_rep_def)
  have rep': "e_rep ?e (N(k := N k @ [?n])) (M(k \<mapsto> VList (xs @ [s])))"
    by (rule e_rep_change [OF l(3), where p = p]) (use kr l(2) in \<open>auto simp: only_def\<close>)
  have w: "list_for_each h = Some (N k)" "list_length h = int (length xs)"
    using list_for_each_ok [OF h(3)] list_length_ok [OF h(3)] h(5) len by simp_all
  have io2: "e_io x ?e Q"
    using io by simp
  show ?thesis
  proof (cases "xs = []")
    case True
    obtain b where b: "e_queue x ?item ?e = Some (?e\<lparr>e_bio := b\<rparr>)" "e_io x (?e\<lparr>e_bio := b\<rparr>) (Q @ [?item])"
      using e_queueE [OF io2] .
    have r: "xfiredb_list_set x k idx s e = Some (0, ?e\<lparr>e_bio := b\<rparr>)"
      using l(1,5,7) h(1,2) w True b(1) by (simp add: xfiredb_list_set_def e_string_alloc_def e_put_def)
    show ?thesis
      using refinesI [OF r _ b(2)] rep' True by simp
  next
    case False
    then have "N k \<noteq> []"
      using h(5) by auto
    then have "list_set_loop x p h k s idx (N k) 0 (e\<lparr>e_db := db\<rparr>) = Some (0, ?e)"
      using list_set_loop_miss [of idx 0 "N k" h x p k s "e\<lparr>e_db := db\<rparr>"] idx h(2,5) w(2) l(5)
      by (auto simp: e_string_alloc_def e_put_def)
    then have r: "xfiredb_list_set x k idx s e = Some (0, ?e)"
      using l(1,5,7) h(1) w False by (simp add: xfiredb_list_set_def)
    show ?thesis
      using refinesI [OF r rep', where items = "[]"] io2 False by simp
  qed
qed

lemma xfiredb_list_set_other:
  assumes rep: "e_rep e N M" and io: "e_io x e Q" and k: "M k = Some v" "type_of v \<noteq> CONTAINER_LIST"
  shows "refines e x Q (xfiredb_list_set x k idx s e) (-1, M, [])"
proof -
  obtain db p c where l: "e_lookup k e = Some (0, Some p, e\<lparr>e_db := db\<rparr>)" "e_rep (e\<lparr>e_db := db\<rparr>) N M"
      "e_cont e p = Some c" "\<forall>t. container_check_type c t \<longleftrightarrow> t = type_of v"
    using e_present [OF rep k(1)] by metis
  then have r: "xfiredb_list_set x k idx s e = Some (-1, e\<lparr>e_db := db\<rparr>)"
    using k(2) by (auto simp: xfiredb_list_set_def)
  show ?thesis
    using refinesI [OF r l(2), where items = "[]"] io by simp
qed

lemma xfiredb_list_set_new:
  assumes rep: "e_rep e N M" and io: "e_io x e Q" and room: "room_for e M" and None: "M k = None"
  shows "refines e x Q (xfiredb_list_set x k idx s e) (spec_list_push k s False M)"
proof -
  obtain db where l: "e_lookup k e = Some (-1, None, e\<lparr>e_db := db\<rparr>)" "e_rep (e\<lparr>e_db := db\<rparr>) N M"
    using e_absent [OF rep None] by metis
  then have "xfiredb_list_set x k idx s e = xfiredb_list_push x k s False (e\<lparr>e_db := db\<rparr>)"
    by (simp add: xfiredb_list_set_def)
  moreover have "e_io x (e\<lparr>e_db := db\<rparr>) Q" "room_for (e\<lparr>e_db := db\<rparr>) M"
    using io room by (simp_all add: room_for_def)
  ultimately show ?thesis
    using xfiredb_list_push_ok [OF l(2)] by simp
qed

lemma xfiredb_list_set_ok:
  assumes "e_rep e N M" "e_io x e Q" "room_for e M" "\<And>xs. M k = Some (VList xs) \<Longrightarrow> length xs < 2 ^ 31"
  shows "refines e x Q (xfiredb_list_set x k idx s e) (spec_list_set k idx s M)"
  using xfiredb_list_set_new [OF assms(1-3), of k idx s] xfiredb_list_set_update [OF assms(1,2), of k _ idx s]
    xfiredb_list_set_append [OF assms(1,2), of k _ idx s] xfiredb_list_set_other [OF assms(1,2), of k _ idx s] assms(4)
  by (auto simp: spec_list_set_def split: option.split val.split)

section \<open>Removing entries\<close>

definition spec_list_pop :: "string \<Rightarrow> int list \<Rightarrow> dbval \<Rightarrow> int \<times> dbval \<times> bio_item list" where
  "spec_list_pop k idx M =
     (case M k of
        None \<Rightarrow> (0, M, [])
      | Some (VList xs) \<Rightarrow>
          (int (length idx),
           M(k := if nths xs {j. int j \<notin> set idx} = [] then None else Some (VList (nths xs {j. int j \<notin> set idx}))),
           map (\<lambda>i. (Some k, Some (xs ! nat i), None, LIST_DEL)) idx)
      | Some _ \<Rightarrow> (-1, M, []))"

lemma nths_hit: "nths (c # cs) {j. i + int j \<notin> insert i S} = nths cs {j. (i + 1) + int j \<notin> S}"
  by (auto simp: nths_Cons algebra_simps intro!: arg_cong2 [where f = nths])

lemma nths_miss: "i \<notin> S \<Longrightarrow> nths (c # cs) {j. i + int j \<notin> S} = c # nths cs {j. (i + 1) + int j \<notin> S}"
  by (auto simp: nths_Cons algebra_simps intro!: arg_cong2 [where f = nths])

lemma del_items_shift:
  assumes "\<forall>w\<in>set ws. i < w"
  shows "map (\<lambda>v. (Some k, Some (ys ! nat (v - (i + 1))), None, LIST_DEL)) ws =
    map (\<lambda>v. (Some k, Some ((y # ys) ! nat (v - i)), None, LIST_DEL)) ws"
  using arg_cong [OF nth_shift [OF assms, of ys y], of "map (\<lambda>s. (Some k, Some s, None, LIST_DEL))"]
  by (simp only: map_map comp_def)

lemma length_nths_le: "length (nths xs I) \<le> length xs"
  by (induction xs arbitrary: I) (auto simp: nths_Cons le_SucI)

lemma is_list_next:
  assumes "is_list l (xs @ y # ys)"
  shows "nxt l y = hd (ys @ [0])"
proof -
  obtain z zs where z: "ys @ [0] = z # zs"
    by (cases "ys @ [0]") auto
  have "linked l ((0 # xs) @ y # z # zs)"
    using assms z by (simp add: is_list_def)
  then show ?thesis
    using z by (simp add: linked_append del: append_Cons)
qed

lemma is_list_first: "is_list l xs \<Longrightarrow> nxt l 0 = hd (xs @ [0])"
  by (cases xs) (simp_all add: is_list_def linked_Cons_Cons)

text \<open>
  The loop of \<^verbatim>\<open>xfiredb_list_pop\<close> for ascending indices from the start of the list: it takes out exactly
  the entries at these indices.
\<close>

lemma list_pop_loop_ok:
  assumes "is_list lh (ks @ cs)" "c = hd (cs @ [0])" "s = nxt lh c" "map (str_at (e_strs e)) cs = map Some ys"
    and "counter < length idx" "0 \<le> i" "sorted_wrt (<) (drop counter idx)"
    and "\<forall>v\<in>set (drop counter idx). i \<le> v \<and> v < i + int (length cs)" "e_io x e Q"
    and "cs' = nths cs {j. i + int j \<notin> set (drop counter idx)}"
  shows "\<exists>lh' b. list_pop_loop x k (length idx) lh c s i counter idx e =
      Some (lh', length idx, idx, e\<lparr>e_bio := b, e_strs := (e_strs e) |` (- (set cs - set cs'))\<rparr>) \<and>
    is_list lh' (ks @ cs') \<and>
    e_io x (e\<lparr>e_bio := b\<rparr>) (Q @ map (\<lambda>v. (Some k, Some (ys ! nat (v - i)), None, LIST_DEL)) (drop counter idx))"
  using assms
proof (induction cs arbitrary: lh ks c s e ys counter i Q cs')
  case Nil
  have "idx ! counter \<in> set (drop counter idx)"
    using Nil.prems(5) by (simp add: Cons_nth_drop_Suc [symmetric])
  from bspec [OF Nil.prems(8) this] have False
    by auto
  then show ?case ..
next
  case (Cons n cs)
  obtain y ys' where ys: "ys = y # ys'" "str_at (e_strs e) n = Some y" "map (str_at (e_strs e)) cs = map Some ys'"
    using Cons.prems(4) by (cases ys) auto
  have n: "n \<noteq> 0" "n \<notin> set cs" "c = n"
    using Cons.prems(1,2) by (auto simp: is_list_def)
  have s: "s = hd (cs @ [0])"
    using is_list_next [OF Cons.prems(1)] Cons.prems(3) n(3) by simp
  let ?v = "idx ! counter"
  have dr: "drop counter idx = ?v # drop (Suc counter) idx"
    using Cons.prems(5) by (simp add: Cons_nth_drop_Suc)
  have v: "i \<le> ?v" "0 \<le> ?v"
    using Cons.prems(6,8) dr by auto
  then have rd: "read_idx idx counter (list_length lh) = Some (?v, idx)"
    using Cons.prems(5) by (simp add: read_idx_def)
  have rest: "\<forall>w\<in>set (drop (Suc counter) idx). ?v < w \<and> w < i + 1 + int (length cs)"
    using Cons.prems(7,8) dr by (auto simp: algebra_simps)
  show ?case
  proof (cases "?v = i")
    case True
    have dl: "is_list (list_del lh n) (ks @ cs)"
      using list_del_ok [OF Cons.prems(1)] .
    obtain b where b: "e_queue x (Some k, Some y, None, LIST_DEL) e = Some (e\<lparr>e_bio := b\<rparr>)"
        "e_io x (e\<lparr>e_bio := b\<rparr>) (Q @ [(Some k, Some y, None, LIST_DEL)])"
      using e_queueE [OF Cons.prems(9)] .
    let ?e = "e_string_free n (e\<lparr>e_bio := b\<rparr>)"
    have cs': "cs' = nths cs {j. (i + 1) + int j \<notin> set (drop (Suc counter) idx)}"
      using Cons.prems(10) dr True nths_hit [of n cs i "set (drop (Suc counter) idx)"] by simp
    have io: "e_io x ?e (Q @ [(Some k, Some y, None, LIST_DEL)])"
      using b(2) by (simp add: e_string_free_def)
    have sub: "set cs' \<subseteq> set cs"
      unfolding cs' by (rule set_nths_subset)
    have strs: "(e_strs ?e) |` (- (set cs - set cs')) = (e_strs e) |` (- (set (n # cs) - set cs'))"
      using n(2) sub by (auto simp: e_string_free_def restrict_map_def fun_eq_iff)
    show ?thesis
    proof (cases "length idx \<le> Suc counter")
      case True
      then have "drop (Suc counter) idx = []" "Suc counter = length idx"
        using Cons.prems(5) by simp_all
      moreover from this have eq: "cs' = cs"
        using cs' by (simp add: nths_all)
      moreover have "e_strs ?e = (e_strs e) |` (- (set (n # cs) - set cs))"
        using strs unfolding eq by (simp add: restrict_map_def)
      then have "?e = e\<lparr>e_bio := b, e_strs := (e_strs e) |` (- (set (n # cs) - set cs))\<rparr>"
        by (simp add: e_string_free_def)
      ultimately show ?thesis
        using rd ys(1,2) \<open>?v = i\<close> n(1,3) dl b dr by (subst list_pop_loop.simps) auto
    next
      case False
      have "map (str_at (e_strs ?e)) cs = map (str_at (e_strs e)) cs"
        by (rule map_str_frame) (use n(2) in \<open>auto simp: e_string_free_def\<close>)
      then have m: "map (str_at (e_strs ?e)) cs = map Some ys'"
        using ys(3) by simp
      have pc: "Suc counter < length idx" "0 \<le> i + 1" "sorted_wrt (<) (drop (Suc counter) idx)"
          "\<forall>v\<in>set (drop (Suc counter) idx). i + 1 \<le> v \<and> v < i + 1 + int (length cs)"
        using False Cons.prems(6,7) dr rest \<open>?v = i\<close> by fastforce+
      obtain lh' b' where IH: "list_pop_loop x k (length idx) (list_del lh n) s (nxt (list_del lh n) s) (i + 1) (Suc counter) idx ?e =
          Some (lh', length idx, idx, ?e\<lparr>e_bio := b', e_strs := (e_strs ?e) |` (- (set cs - set cs'))\<rparr>)"
          "is_list lh' (ks @ cs')"
          "e_io x (?e\<lparr>e_bio := b'\<rparr>) ((Q @ [(Some k, Some y, None, LIST_DEL)]) @
             map (\<lambda>v. (Some k, Some (ys' ! nat (v - (i + 1))), None, LIST_DEL)) (drop (Suc counter) idx))"
        using Cons.IH [OF dl s refl m pc io cs'] by blast
      have "\<forall>w\<in>set (drop (Suc counter) idx). i < w"
        using rest \<open>?v = i\<close> by auto
      from IH(3) [unfolded del_items_shift [OF this, of k ys' y]]
      have io': "e_io x (e\<lparr>e_bio := b'\<rparr>)
          (Q @ map (\<lambda>v. (Some k, Some (ys ! nat (v - i)), None, LIST_DEL)) (drop counter idx))"
        using dr \<open>?v = i\<close> ys(1) by (simp add: e_string_free_def e_io_def)
      have "list_pop_loop x k (length idx) lh c s i counter idx e =
          Some (lh', length idx, idx, e\<lparr>e_bio := b', e_strs := (e_strs e) |` (- (set (n # cs) - set cs'))\<rparr>)"
        using rd ys(2) \<open>?v = i\<close> n(1,3) b(1) False IH(1) unfolding strs
        by (subst list_pop_loop.simps) (simp add: e_string_free_def)
      then show ?thesis
        using IH(2) io' by blast
    qed
  next
    case False
    have gt: "\<forall>w\<in>set (drop counter idx). i < w"
      using v(1) False rest dr by fastforce
    have cs': "cs' = n # nths cs {j. (i + 1) + int j \<notin> set (drop counter idx)}" (is "_ = n # ?cs")
      using Cons.prems(10) gt nths_miss [of i "set (drop counter idx)" n cs] by fastforce
    have l: "is_list lh ((ks @ [n]) @ cs)"
      using Cons.prems(1) by simp
    have "\<exists>lh' b. list_pop_loop x k (length idx) lh s (nxt lh s) (i + 1) counter idx e =
        Some (lh', length idx, idx, e\<lparr>e_bio := b, e_strs := (e_strs e) |` (- (set cs - set ?cs))\<rparr>) \<and>
      is_list lh' ((ks @ [n]) @ ?cs) \<and>
      e_io x (e\<lparr>e_bio := b\<rparr>) (Q @ map (\<lambda>v. (Some k, Some (ys' ! nat (v - (i + 1))), None, LIST_DEL)) (drop counter idx))"
    proof (rule Cons.IH [OF l s refl ys(3) Cons.prems(5) _ Cons.prems(7) _ Cons.prems(9) refl])
      show "\<forall>v\<in>set (drop counter idx). i + 1 \<le> v \<and> v < i + 1 + int (length cs)"
        using gt Cons.prems(8) by fastforce
    qed (use Cons.prems(6) in simp)
    then obtain lh' b where IH: "list_pop_loop x k (length idx) lh s (nxt lh s) (i + 1) counter idx e =
        Some (lh', length idx, idx, e\<lparr>e_bio := b, e_strs := (e_strs e) |` (- (set cs - set ?cs))\<rparr>)"
        "is_list lh' (ks @ cs')"
        "e_io x (e\<lparr>e_bio := b\<rparr>) (Q @ map (\<lambda>v. (Some k, Some (ys' ! nat (v - (i + 1))), None, LIST_DEL)) (drop counter idx))"
      unfolding cs' by auto
    have "set cs - set ?cs = set (n # cs) - set cs'"
      using cs' n(2) by auto
    then have "list_pop_loop x k (length idx) lh c s i counter idx e =
        Some (lh', length idx, idx, e\<lparr>e_bio := b, e_strs := (e_strs e) |` (- (set (n # cs) - set cs'))\<rparr>)"
      using rd False n(1,3) IH(1) Cons.prems(5) by (subst list_pop_loop.simps) simp
    then show ?thesis
      using IH(2) IH(3) [unfolded del_items_shift [OF gt, of k ys' y]] unfolding ys(1) by blast
  qed
qed

lemma xfiredb_list_pop_list:
  assumes rep: "e_rep e N M" and io: "e_io x e Q" and k: "M k = Some (VList xs)" and len: "length xs < 2 ^ 31"
    and idx: "idx \<noteq> []" "sorted_wrt (<) idx" "\<forall>v\<in>set idx. 0 \<le> v \<and> v < int (length xs)"
  shows "refines e x Q (map_option (\<lambda>(r, _, e). (r, e)) (xfiredb_list_pop x k idx (length idx) e)) (spec_list_pop k idx M)"
proof -
  let ?items = "map (\<lambda>i. (Some k, Some (xs ! nat i), None, LIST_DEL)) idx"
  let ?I = "{j. int j \<notin> set idx}" and ?n = "int (length idx)"
  obtain db p c where l: "e_lookup k e = Some (0, Some p, e\<lparr>e_db := db\<rparr>)" "dbmap db k = Some p"
      "e_rep (e\<lparr>e_db := db\<rparr>) N M" "key_rep (e\<lparr>e_db := db\<rparr>) (N k) p (VList xs)" "e_cont e p = Some c"
      "is_val (e_strs e) c (N k) (VList xs)" "\<forall>t. container_check_type c t \<longleftrightarrow> t = type_of (VList xs)"
    using e_present [OF rep k] .
  obtain h where h: "get_list c = Some h" "c = \<lparr>c_type = CONTAINER_LIST, c_data = DList h\<rparr>" "is_list h (N k)"
      "map (str_at (e_strs e)) (N k) = map Some xs" "length (N k) = length xs"
    using get_list_val [OF l(6)] .
  let ?e = "e\<lparr>e_db := db\<rparr>" and ?ns = "nths (N k) ?I"
  have sub: "set ?ns \<subseteq> set (N k)"
    by (rule set_nths_subset)
  have "e_io x ?e Q"
    using io by simp
  then obtain h' b where lp: "list_pop_loop x k (length idx) h (nxt h 0) (nxt h (nxt h 0)) 0 0 idx ?e =
      Some (h', length idx, idx, ?e\<lparr>e_bio := b, e_strs := (e_strs ?e) |` (- (set (N k) - set ?ns))\<rparr>)" "is_list h' ?ns"
      "e_io x (?e\<lparr>e_bio := b\<rparr>) (Q @ ?items)"
    using list_pop_loop_ok [of h "[]" "N k" "nxt h 0" "nxt h (nxt h 0)" ?e xs 0 idx 0 x Q ?ns k]
      h(3,4,5) is_list_first [OF h(3)] idx by auto
  let ?strs = "(e_strs e) |` (- (set (N k) - set ?ns))"
  let ?e1 = "?e\<lparr>e_bio := b, e_strs := ?strs, e_cont := (e_cont e)(p \<mapsto> \<lparr>c_type = CONTAINER_LIST, c_data = DList h'\<rparr>)\<rparr>"
  have "map (str_at ?strs) ?ns = map (str_at (e_strs e)) ?ns"
    by (rule map_str_frame) simp
  also have "\<dots> = map Some (nths xs ?I)"
    using arg_cong [OF h(4), of "\<lambda>z. nths z ?I"] by (simp add: nths_map)
  finally have m: "map (str_at ?strs) ?ns = map Some (nths xs ?I)" .
  have len': "length ?ns = length (nths xs ?I)" "length ?ns < 2 ^ 31"
    using arg_cong [OF m, of length] le_less_trans [OF length_nths_le len, of ?I] by simp_all
  have pre: "map_option (\<lambda>(r, _, e). (r, e)) (xfiredb_list_pop x k idx (length idx) e) =
      (if ?ns = []
       then do { (rc, _, e) \<leftarrow> e_delete k ?e1; if rc \<noteq> 0 then Some (?n, e) else Some (?n, e_free p e) }
       else Some (?n, ?e1))"
    using l(1,5,7) h(1,2) lp(1) list_length_ok [OF lp(2) len'(2)]
    by (auto simp: xfiredb_list_pop_def e_put_def split: Option.bind_splits)
  have io1: "e_io x ?e1 (Q @ ?items)"
    using lp(3) by (simp add: e_io_def)
  show ?thesis
  proof (cases "?ns = []")
    case True
    then have spec: "spec_list_pop k idx M = (?n, M(k := None), ?items)"
      using k len'(1) by (simp add: spec_list_pop_def)
    obtain db2 where db2: "e_delete k ?e1 = Some (0, Some p, ?e1\<lparr>e_db := db2\<rparr>)" "db_ok db2" "dbmap db2 = (dbmap db)(k := None)"
      using e_delete_ok [of ?e1 k] l(2,3) by (auto simp: e_rep_def)
    have r: "map_option (\<lambda>(r, _, e). (r, e)) (xfiredb_list_pop x k idx (length idx) e) =
        Some (?n, e_free p (?e1\<lparr>e_db := db2\<rparr>))"
      using pre True db2(1) by simp
    have "e_rep (e_free p (?e1\<lparr>e_db := db2\<rparr>)) (N(k := [])) (M(k := None))"
      by (rule key_delete_rep [OF l(3), where p = p]) (use l(2) db2 in \<open>auto simp: e_free_def restrict_map_def\<close>)
    then show ?thesis
      unfolding spec using refinesI [OF r] io1 by (simp add: e_free_def e_io_def)
  next
    case False
    then have spec: "spec_list_pop k idx M = (?n, M(k \<mapsto> VList (nths xs ?I)), ?items)"
      using k len'(1) by (auto simp: spec_list_pop_def)
    have r: "map_option (\<lambda>(r, _, e). (r, e)) (xfiredb_list_pop x k idx (length idx) e) = Some (?n, ?e1)"
      using pre False by simp
    have kr: "key_rep ?e1 ?ns p (VList (nths xs ?I))"
      using m lp(2) sub l(4) by (auto simp: key_rep_def is_val_def)
    have "e_rep ?e1 (N(k := ?ns)) (M(k \<mapsto> VList (nths xs ?I)))"
      by (rule e_rep_change [OF l(3), where p = p]) (use kr l(2) sub in \<open>auto simp: only_def restrict_map_def\<close>)
    then show ?thesis
      unfolding spec using refinesI [OF r] io1 by simp
  qed
qed

lemma xfiredb_list_pop_other:
  assumes rep: "e_rep e N M" and io: "e_io x e Q" and k: "\<forall>xs. M k \<noteq> Some (VList xs)"
  shows "refines e x Q (map_option (\<lambda>(r, _, e). (r, e)) (xfiredb_list_pop x k idx n e)) (spec_list_pop k idx M)"
proof (cases "M k")
  case None
  obtain db where l: "e_lookup k e = Some (-1, None, e\<lparr>e_db := db\<rparr>)" "e_rep (e\<lparr>e_db := db\<rparr>) N M"
    using e_absent [OF rep None] by metis
  then have r: "map_option (\<lambda>(r, _, e). (r, e)) (xfiredb_list_pop x k idx n e) = Some (0, e\<lparr>e_db := db\<rparr>)"
    by (simp add: xfiredb_list_pop_def)
  show ?thesis
    using refinesI [OF r l(2), where items = "[]"] io None by (simp add: spec_list_pop_def)
next
  case (Some v)
  obtain db p c where l: "e_lookup k e = Some (0, Some p, e\<lparr>e_db := db\<rparr>)" "e_rep (e\<lparr>e_db := db\<rparr>) N M"
      "e_cont e p = Some c" "\<forall>t. container_check_type c t \<longleftrightarrow> t = type_of v"
    using e_present [OF rep Some] by metis
  then have r: "map_option (\<lambda>(r, _, e). (r, e)) (xfiredb_list_pop x k idx n e) = Some (-1, e\<lparr>e_db := db\<rparr>)"
    using k Some by (cases v) (simp_all add: xfiredb_list_pop_def)
  have "spec_list_pop k idx M = (-1, M, [])"
    using k Some by (cases v) (simp_all add: spec_list_pop_def)
  then show ?thesis
    using refinesI [OF r l(2), where items = "[]"] io by simp
qed

lemma xfiredb_list_pop_ok:
  assumes "e_rep e N M" "e_io x e Q" "idx \<noteq> []" "sorted_wrt (<) idx"
    and "\<And>xs. M k = Some (VList xs) \<Longrightarrow> length xs < 2 ^ 31 \<and> (\<forall>v\<in>set idx. 0 \<le> v \<and> v < int (length xs))"
  shows "refines e x Q (map_option (\<lambda>(r, _, e). (r, e)) (xfiredb_list_pop x k idx (length idx) e)) (spec_list_pop k idx M)"
  using xfiredb_list_pop_list [OF assms(1,2) _ _ assms(3,4)] xfiredb_list_pop_other [OF assms(1,2)] assms(5) by blast

end
