(* ===== verification/Persist.thy ===== *)
theory Persist
  imports EngineMap EngineList
begin

text \<open>
  The rows of the table that stand for a map from keys to values, and the effect of the queued
  entries of an operation on them: the table follows the map.
\<close>

section \<open>The rows of a value\<close>

definition map_row :: "string \<Rightarrow> (string \<rightharpoonup> string) \<Rightarrow> string \<Rightarrow> row" where
  "map_row k f s = mk_row k s ''hashmap'' (the (f s))"

fun rows_of :: "string \<Rightarrow> val \<Rightarrow> row multiset" where
  "rows_of k (VString s) = {#mk_row k ''null'' ''string'' s#}"
| "rows_of k (VList xs) = image_mset (mk_row k ''null'' ''list'') (mset xs)"
| "rows_of k (VMap f) = image_mset (map_row k f) (mset_set (dom f))"
| "rows_of k (VSet X) = image_mset (\<lambda>s. mk_row k s ''set'' ''null'') (mset_set X)"

definition key_rows :: "string \<Rightarrow> row multiset \<Rightarrow> row multiset" where
  "key_rows k T = filter_mset (\<lambda>r. r_key r = k) T"

definition rows_at :: "string \<Rightarrow> val option \<Rightarrow> row multiset" where
  "rows_at k vo = (case vo of None \<Rightarrow> {#} | Some v \<Rightarrow> rows_of k v)"

text \<open>\<open>mirrors T M\<close>: for every key, the table holds exactly the rows of its value.\<close>

definition mirrors :: "row multiset \<Rightarrow> dbval \<Rightarrow> bool" where
  "mirrors T M \<longleftrightarrow> (\<forall>k. key_rows k T = rows_at k (M k))"

lemma mirrors_empty: "mirrors {#} Map.empty"
  by (simp add: mirrors_def key_rows_def rows_at_def)

lemma mk_row_sel [simp]:
  "r_key (mk_row k s t v) = k" "r_skey (mk_row k s t v) = s" "r_type (mk_row k s t v) = t" "r_value (mk_row k s t v) = v"
  by (simp_all add: mk_row_def)

lemma mk_row_value [simp]: "(mk_row k s t v)\<lparr>r_value := w\<rparr> = mk_row k s t w"
  by (simp add: mk_row_def)

lemma mk_row_inj [simp]: "mk_row k s t v = mk_row k' s' t' v' \<longleftrightarrow> k = k' \<and> s = s' \<and> t = t' \<and> v = v'"
  by (simp add: mk_row_def)

lemma rows_of_list_skey: "r \<in># rows_of k v \<Longrightarrow> r_type r = ''list'' \<Longrightarrow> r_skey r = ''null''"
  by (cases v) (auto simp: map_row_def)

lemma mirrors_rows_ok:
  assumes "mirrors T M"
  shows "rows_ok T"
proof -
  have "r_skey r = ''null''" if r: "r \<in># T" "r_type r = ''list''" for r
  proof -
    have "r \<in># key_rows (r_key r) T"
      using r(1) by (simp add: key_rows_def)
    then have "r \<in># rows_at (r_key r) (M (r_key r))"
      using assms by (simp add: mirrors_def)
    then show ?thesis
      using rows_of_list_skey [OF _ r(2)] by (auto simp: rows_at_def split: option.splits)
  qed
  then show ?thesis
    by (simp add: rows_ok_def)
qed

section \<open>Entries act on the rows of their key\<close>

lemma key_rows_simps [simp]:
  "key_rows k {#} = {#}" "key_rows k (add_mset r T) = (if r_key r = k then add_mset r (key_rows k T) else key_rows k T)"
  "key_rows k (T - {#r#}) = (if r_key r = k then key_rows k T - {#r#} else key_rows k T)"
  "r \<in># key_rows k T \<longleftrightarrow> r \<in># T \<and> r_key r = k"
  by (simp_all add: key_rows_def filter_diff_mset)

lemma key_rows_where:
  assumes "\<And>r. P r \<Longrightarrow> r_key r = k"
  shows "key_rows k' (set_where P v T) = (if k' = k then set_where P v (key_rows k T) else key_rows k' T)"
    "key_rows k' (del_where P T) = (if k' = k then del_where P (key_rows k T) else key_rows k' T)"
  using assms
  by (induction T) (auto simp: set_where_def del_where_def key_rows_def)

lemma key_rows_changes:
  "key_rows k' (set_where (string_row k) v T) = (if k' = k then set_where (string_row k) v (key_rows k T) else key_rows k' T)"
  "key_rows k' (set_where (\<lambda>r. r_key r = k \<and> r_skey r = s) v T) =
     (if k' = k then set_where (\<lambda>r. r_key r = k \<and> r_skey r = s) v (key_rows k T) else key_rows k' T)"
  "key_rows k' (del_where (string_row k) T) = (if k' = k then del_where (string_row k) (key_rows k T) else key_rows k' T)"
  "key_rows k' (del_where (typed_row t k s) T) =
     (if k' = k then del_where (typed_row t k s) (key_rows k T) else key_rows k' T)"
  by (rule key_rows_where, simp add: string_row_def typed_row_def)+

lemma key_rows_apply:
  assumes "fst item = Some k"
  shows "key_rows k' (row_apply item T) = (if k' = k then row_apply item (key_rows k T) else key_rows k' T)"
  using assms
  by (cases item; cases "snd (snd (snd item))")
    (auto simp: row_apply_def Let_def text_of_def key_rows_changes)

lemma key_rows_fold:
  assumes "\<forall>item\<in>set items. fst item = Some k"
  shows "key_rows k' (fold row_apply items T) = (if k' = k then fold row_apply items (key_rows k T) else key_rows k' T)"
  using assms by (induction items arbitrary: T) (auto simp: key_rows_apply)

lemma row_apply_simps [simp]:
  "row_apply (Some k, a, Some s, STRING_ADD) T = add_mset (mk_row k ''null'' ''string'' s) T"
  "row_apply (Some k, a, Some s, STRING_UPDATE) T = set_where (string_row k) s T"
  "row_apply (Some k, a, n, STRING_DEL) T = del_where (string_row k) T"
  "row_apply (Some k, a, Some s, LIST_ADD) T = add_mset (mk_row k ''null'' ''list'' s) T"
  "row_apply (Some k, Some s, n, LIST_DEL) T = T - {#mk_row k ''null'' ''list'' s#}"
  "row_apply (Some k, Some s, Some s', LIST_UPDATE) T =
     (if mk_row k ''null'' ''list'' s \<in># T
      then add_mset (mk_row k ''null'' ''list'' s') (T - {#mk_row k ''null'' ''list'' s#}) else T)"
  "row_apply (Some k, Some sk, Some s, HM_ADD) T = add_mset (mk_row k sk ''hashmap'' s) T"
  "row_apply (Some k, Some sk, n, HM_DEL) T = del_where (typed_row ''hashmap'' k sk) T"
  "row_apply (Some k, Some sk, Some s, HM_UPDATE) T = set_where (\<lambda>r. r_key r = k \<and> r_skey r = sk) s T"
  by (simp_all add: row_apply_def text_of_def)

lemma mirrors_change:
  assumes "mirrors T M" "\<forall>item\<in>set items. fst item = Some k" "fold row_apply items (rows_at k (M k)) = rows_at k vo"
  shows "mirrors (fold row_apply items T) (M(k := vo))"
  using assms(1,3) by (simp add: mirrors_def key_rows_fold [OF assms(2)])

section \<open>Lists\<close>

lemma list_del_fold:
  "fold row_apply (map (\<lambda>s. (Some k, Some s, None, LIST_DEL)) ss) T =
   T - image_mset (mk_row k ''null'' ''list'') (mset ss)"
  by (induction ss arbitrary: T) simp_all

lemma mset_nths: "mset (nths xs I) = image_mset ((!) xs) (mset_set {i. i < length xs \<and> i \<in> I})"
proof (induction xs rule: rev_induct)
  case (snoc x xs)
  have split: "{i. i < length (xs @ [x]) \<and> i \<in> I} =
      (if length xs \<in> I then insert (length xs) {i. i < length xs \<and> i \<in> I} else {i. i < length xs \<and> i \<in> I})"
    by (auto simp: less_Suc_eq)
  have "image_mset ((!) (xs @ [x])) (mset_set {i. i < length xs \<and> i \<in> I}) =
      image_mset ((!) xs) (mset_set {i. i < length xs \<and> i \<in> I})"
    by (rule image_mset_cong) (simp add: nth_append)
  then show ?case
    unfolding split using snoc.IH by (simp add: nths_append nths_singleton)
qed simp

lemma mset_nths_split: "mset xs = mset (nths xs I) + mset (nths xs (- I))"
proof -
  let ?A = "{i. i < length xs \<and> i \<in> I}" and ?B = "{i. i < length xs \<and> i \<in> - I}"
  have "mset_set {i. i < length xs} = mset_set (?A \<union> ?B)"
    by (rule arg_cong [where f = mset_set]) auto
  also have "\<dots> = mset_set ?A + mset_set ?B"
    by (rule mset_set_Union) auto
  finally have "mset_set {i. i < length xs} = mset_set ?A + mset_set ?B" .
  moreover have "mset xs = image_mset ((!) xs) (mset_set {i. i < length xs})"
    using mset_nths [of xs UNIV] by (simp add: nths_all)
  ultimately show ?thesis
    by (simp add: mset_nths)
qed

lemma mset_popped:
  assumes "distinct idx" "\<forall>v\<in>set idx. 0 \<le> v \<and> v < int (length xs)"
  shows "mset (map (\<lambda>i. xs ! nat i) idx) = mset (nths xs {j. int j \<in> set idx})"
proof -
  have "inj_on nat (set idx)"
    using assms(2) by (auto simp: inj_on_def eq_nat_nat_iff)
  then have "mset (map nat idx) = mset_set (nat ` set idx)"
    using assms(1) by (metis distinct_map list.set_map mset_set_set)
  moreover have "nat ` set idx = {i. i < length xs \<and> int i \<in> set idx}"
    using assms(2) by (force simp: image_iff)
  moreover have "mset (map (\<lambda>i. xs ! nat i) idx) = image_mset ((!) xs) (mset (map nat idx))"
    by (simp add: multiset.map_comp comp_def)
  ultimately show ?thesis
    by (simp add: mset_nths)
qed

lemma pop_rows:
  assumes "distinct idx" "\<forall>v\<in>set idx. 0 \<le> v \<and> v < int (length xs)"
  shows "fold row_apply (map (\<lambda>i. (Some k, Some (xs ! nat i), None, LIST_DEL)) idx) (rows_of k (VList xs)) =
    rows_of k (VList (nths xs {j. int j \<notin> set idx}))"
proof -
  have eq: "map (\<lambda>i. (Some k, Some (xs ! nat i), None, LIST_DEL)) idx =
      map (\<lambda>s. (Some k, Some s, None, LIST_DEL)) (map (\<lambda>i. xs ! nat i) idx)"
    by simp
  have c: "{j. int j \<notin> set idx} = - {j. int j \<in> set idx}"
    by auto
  have "mset xs - mset (map (\<lambda>i. xs ! nat i) idx) = mset (nths xs {j. int j \<notin> set idx})"
    unfolding mset_popped [OF assms] c using mset_nths_split [of xs "{j. int j \<in> set idx}"] by simp
  moreover have "mset (map (\<lambda>i. xs ! nat i) idx) \<subseteq># mset xs"
    unfolding mset_popped [OF assms] using mset_nths_split [of xs "{j. int j \<in> set idx}"] by simp
  ultimately show ?thesis
    unfolding eq list_del_fold rows_of.simps
    using image_mset_Diff [of "mset (map (\<lambda>i. xs ! nat i) idx)" "mset xs" "mk_row k ''null'' ''list''"] by (simp only:)
qed

section \<open>Hash maps\<close>

lemma map_rows_add:
  assumes "finite (dom f)" "f s = None"
  shows "rows_of k (VMap (f(s \<mapsto> v))) = add_mset (mk_row k s ''hashmap'' v) (rows_of k (VMap f))"
proof -
  have "image_mset (map_row k (f(s \<mapsto> v))) (mset_set (dom f)) = image_mset (map_row k f) (mset_set (dom f))"
    by (rule image_mset_cong) (use assms in \<open>auto simp: map_row_def\<close>)
  moreover have "s \<notin> dom f"
    using assms(2) by auto
  ultimately show ?thesis
    using assms(1) by (simp add: map_row_def [of k "f(s \<mapsto> v)" s])
qed

lemma map_rows_update:
  assumes "f s \<noteq> None"
  shows "set_where (\<lambda>r. r_key r = k \<and> r_skey r = s) v (rows_of k (VMap f)) = rows_of k (VMap (f(s \<mapsto> v)))"
proof -
  have "dom (f(s \<mapsto> v)) = dom f"
    using assms by auto
  then show ?thesis
    by (auto simp: set_where_def multiset.map_comp comp_def map_row_def intro!: image_mset_cong)
qed

lemma map_rows_del:
  assumes "finite (dom f)"
  shows "del_where (typed_row ''hashmap'' k s) (rows_of k (VMap f)) = rows_of k (VMap (f(s := None)))"
proof -
  have "filter_mset (\<lambda>x. \<not> typed_row ''hashmap'' k s (map_row k f x)) (mset_set (dom f)) = mset_set (dom f - {s})"
    using assms by (simp add: typed_row_def map_row_def set_diff_eq)
  moreover have "image_mset (map_row k f) (mset_set (dom f - {s})) = image_mset (map_row k (f(s := None))) (mset_set (dom f - {s}))"
    by (rule image_mset_cong) (use assms in \<open>auto simp: map_row_def\<close>)
  ultimately show ?thesis
    by (simp add: del_where_def filter_mset_image_mset)
qed

lemma map_del_fold:
  assumes "finite (dom f)"
  shows "fold row_apply (map (\<lambda>s. (Some k, Some s, None, HM_DEL)) ss) (rows_of k (VMap f)) = rows_of k (VMap (f |` (- set ss)))"
  using assms
proof (induction ss arbitrary: f)
  case Nil
  then show ?case
    by (simp add: restrict_map_def)
next
  case (Cons s ss)
  have "(f(s := None)) |` (- set ss) = f |` (- set (s # ss))"
    by (auto simp: restrict_map_def)
  then show ?case
    using Cons.IH [of "f(s := None)"] Cons.prems map_rows_del [OF Cons.prems, of k s]
    by (simp del: rows_of.simps fun_upd_apply restrict_fun_upd)
qed

lemma present_keys_restrict: "f |` (- set (present_keys f ss)) = f |` (- set ss)"
proof (induction f ss rule: present_keys.induct)
  case (2 f s ss)
  show ?case
  proof (cases "f s")
    case None
    then show ?thesis
      using 2(1) by (auto simp: restrict_map_def fun_eq_iff)
  next
    case (Some v)
    have eq: "f |` (- set (s # ts)) = (f(s := None)) |` (- set ts)" for ts
      by (auto simp: restrict_map_def)
    have pk: "present_keys f (s # ss) = s # present_keys (f(s := None)) ss"
      using Some by simp
    have "f |` (- set (present_keys f (s # ss))) = (f(s := None)) |` (- set (present_keys (f(s := None)) ss))"
      unfolding pk by (rule eq)
    also have "\<dots> = (f(s := None)) |` (- set ss)"
      by (rule 2(2)) (simp add: Some)
    also have "\<dots> = f |` (- set (s # ss))"
      by (rule eq [symmetric])
    finally show ?thesis .
  qed
qed simp

section \<open>Requests\<close>

text \<open>The operations that change the database, as data.\<close>

datatype request =
    StringSet string string
  | ListPush string string bool
  | ListSet string int string
  | ListPop string "int list"
  | HashmapSet string string string
  | HashmapRemove string "string list"
  | KeyDelete string

fun exec :: "econf \<Rightarrow> request \<Rightarrow> engine \<Rightarrow> (int \<times> engine) option" where
  "exec x (StringSet k s) e = xfiredb_string_set x k s e"
| "exec x (ListPush k s left) e = xfiredb_list_push x k s left e"
| "exec x (ListSet k idx s) e = xfiredb_list_set x k idx s e"
| "exec x (ListPop k idx) e = map_option (\<lambda>(r, _, e). (r, e)) (xfiredb_list_pop x k idx (length idx) e)"
| "exec x (HashmapSet k sk s) e = xfiredb_hashmap_set x k sk s e"
| "exec x (HashmapRemove k sks) e = xfiredb_hashmap_remove x k sks e"
| "exec x (KeyDelete k) e = xfiredb_key_delete x k e"

text \<open>The map after a request.\<close>

fun spec_map :: "request \<Rightarrow> dbval \<Rightarrow> dbval" where
  "spec_map (StringSet k s) M = fst (snd (spec_string_set k s M))"
| "spec_map (ListPush k s left) M = fst (snd (spec_list_push k s left M))"
| "spec_map (ListSet k idx s) M = fst (snd (spec_list_set k idx s M))"
| "spec_map (ListPop k idx) M = fst (snd (spec_list_pop k idx M))"
| "spec_map (HashmapSet k sk s) M = fst (snd (spec_hashmap_set k sk s M))"
| "spec_map (HashmapRemove k sks) M = fst (snd (spec_hashmap_remove k sks M))"
| "spec_map (KeyDelete k) M = M(k := None)"

definition list_at :: "dbval \<Rightarrow> string \<Rightarrow> string list option" where
  "list_at M k = (case M k of Some (VList xs) \<Rightarrow> Some xs | _ \<Rightarrow> None)"

text \<open>
  The requests that the disk follows: lists and maps below the range of their counters, list
  indices inside of the list, ascending ones to be removed, no hash collision, no deletion of a
  set.
\<close>

fun allowed :: "dbval \<Rightarrow> request \<Rightarrow> bool" where
  "allowed M (StringSet k s) \<longleftrightarrow> plain k \<and> plain s"
| "allowed M (ListPush k s left) \<longleftrightarrow> plain k \<and> plain s"
| "allowed M (ListSet k idx s) \<longleftrightarrow> plain k \<and> plain s \<and>
     (case list_at M k of None \<Rightarrow> True | Some xs \<Rightarrow> length xs < 2 ^ 31 \<and> 0 \<le> idx \<and> idx < int (length xs))"
| "allowed M (ListPop k idx) \<longleftrightarrow> plain k \<and> idx \<noteq> [] \<and> sorted_wrt (<) idx \<and>
     (case list_at M k of None \<Rightarrow> True
      | Some xs \<Rightarrow> length xs < 2 ^ 31 \<and> (\<forall>v\<in>set idx. 0 \<le> v \<and> v < int (length xs)))"
| "allowed M (HashmapSet k sk s) \<longleftrightarrow> plain k \<and> plain sk \<and> plain s \<and> no_collision (map_at M k) sk"
| "allowed M (HashmapRemove k sks) \<longleftrightarrow> plain k \<and> (\<forall>sk\<in>set sks. plain sk \<and> no_collision (map_at M k) sk) \<and>
     card (dom (map_at M k)) < 2 ^ 31"
| "allowed M (KeyDelete k) \<longleftrightarrow> plain k \<and> card (dom (map_at M k)) < 2 ^ 31 \<and> (\<forall>X. M k \<noteq> Some (VSet X))"

text \<open>
  A request after which every entry of the I/O queue has the block of its key for itself. \<^verbatim>\<open>xfiredb_key_delete\<close>
  gives all entries of a list the same block, so only a list of at most one element may be deleted as a whole; the
  elements of a longer one can be popped.
\<close>

fun owns_keys :: "dbval \<Rightarrow> request \<Rightarrow> bool" where
  "owns_keys M (KeyDelete k) \<longleftrightarrow> (case list_at M k of None \<Rightarrow> True | Some xs \<Rightarrow> length xs \<le> 1)"
| "owns_keys M r \<longleftrightarrow> True"

text \<open>
  A value that the table can hold: its text has no quotes, it is not empty, and no two keys of a
  hash map or of a set collide.
\<close>

fun storable :: "val \<Rightarrow> bool" where
  "storable (VString s) \<longleftrightarrow> plain s"
| "storable (VList xs) \<longleftrightarrow> xs \<noteq> [] \<and> (\<forall>s\<in>set xs. plain s)"
| "storable (VMap f) \<longleftrightarrow> finite (dom f) \<and> dom f \<noteq> {} \<and> (\<forall>k s. f k = Some s \<longrightarrow> plain k \<and> plain s \<and> no_collision f k)"
| "storable (VSet X) \<longleftrightarrow> finite X \<and> X \<noteq> {} \<and>
     (\<forall>s\<in>X. plain s \<and> no_collision (\<lambda>t. if t \<in> X then Some [] else None) s)"

definition storable_map :: "dbval \<Rightarrow> bool" where
  "storable_map M \<longleftrightarrow> (\<forall>k v. M k = Some v \<longrightarrow> plain k \<and> storable v)"

lemma storable_map_update: "storable_map M \<Longrightarrow> plain k \<Longrightarrow> storable v \<Longrightarrow> storable_map (M(k \<mapsto> v))"
  "storable_map M \<Longrightarrow> storable_map (M(k := None))"
  by (simp_all add: storable_map_def)

end
