(* ===== verification/PersistRun.thy ===== *)
theory PersistRun
  imports Persist
begin

text \<open>
  Sequences of requests, the worker that empties the queue behind them, and the table they leave.
\<close>

section \<open>One request\<close>

text \<open>\<open>good_spec M spec\<close>: the entries of the specification are complete and take the table along.\<close>

definition good_spec :: "dbval \<Rightarrow> 'r \<times> dbval \<times> bio_item list \<Rightarrow> bool" where
  "good_spec M spec \<longleftrightarrow> (case spec of (_, M', items) \<Rightarrow>
     storable_map M' \<and> (\<forall>i\<in>set items. item_ok i) \<and> (\<forall>T. mirrors T M \<longrightarrow> mirrors (fold row_apply items T) M'))"

lemma good_specI:
  assumes "storable_map (M(k := vo))" "\<forall>i\<in>set items. fst i = Some k \<and> item_ok i"
    "fold row_apply items (rows_at k (M k)) = rows_at k vo"
  shows "good_spec M (rc, M(k := vo), items)"
  using assms mirrors_change [of _ M items k vo] by (auto simp: good_spec_def)

lemma good_spec_refl: "storable_map M \<Longrightarrow> good_spec M (rc, M, [])"
  by (simp add: good_spec_def)

lemma given_Some [simp]: "given (Some s) \<longleftrightarrow> plain s"
  by (simp add: given_def)

lemma storable_at: "storable_map M \<Longrightarrow> M k = Some v \<Longrightarrow> storable v"
  by (simp add: storable_map_def)

lemma good_string_set:
  assumes "storable_map M" "plain k" "plain s"
  shows "good_spec M (spec_string_set k s M)"
proof (cases "M k")
  case None
  have "good_spec M (0, M(k \<mapsto> VString s), [(Some k, None, Some s, STRING_ADD)])"
    by (rule good_specI) (use assms None in \<open>simp_all add: storable_map_update item_ok_def rows_at_def\<close>)
  then show ?thesis
    using None by (simp add: spec_string_set_def)
next
  case (Some v)
  have "good_spec M (0, M(k \<mapsto> VString s), [(Some k, None, Some s, STRING_UPDATE)])" if "v = VString y" for y
    by (rule good_specI)
      (use assms Some that in \<open>simp_all add: storable_map_update item_ok_def rows_at_def set_where_def string_row_def\<close>)
  then show ?thesis
    using Some good_spec_refl [OF assms(1)] by (cases v) (simp_all add: spec_string_set_def)
qed

lemma good_list_push:
  assumes "storable_map M" "plain k" "plain s"
  shows "good_spec M (spec_list_push k s left M)"
proof (cases "M k")
  case None
  have "good_spec M (0, M(k \<mapsto> VList [s]), [(Some k, None, Some s, LIST_ADD)])"
    by (rule good_specI) (use assms None in \<open>simp_all add: storable_map_update item_ok_def rows_at_def\<close>)
  then show ?thesis
    using None by (simp add: spec_list_push_def)
next
  case (Some v)
  have "good_spec M (0, M(k \<mapsto> VList (if left then s # xs else xs @ [s])), [(Some k, None, Some s, LIST_ADD)])"
    if "v = VList xs" for xs
    by (rule good_specI)
      (use assms Some that storable_at [OF assms(1) Some] in \<open>auto simp: storable_map_update item_ok_def rows_at_def\<close>)
  then show ?thesis
    using Some good_spec_refl [OF assms(1)] by (cases v) (simp_all add: spec_list_push_def)
qed

lemma good_list_set:
  assumes "storable_map M" "allowed M (ListSet k idx s)"
  shows "good_spec M (spec_list_set k idx s M)"
proof (cases "M k")
  case None
  then show ?thesis
    using good_list_push [OF assms(1), of k s False] assms(2) by (simp add: spec_list_set_def)
next
  case (Some v)
  have "good_spec M (spec_list_set k idx s M)" if v: "v = VList xs" for xs
  proof -
    have i: "0 \<le> idx" "idx < int (length xs)" "nat idx < length xs" and p: "plain k" "plain s"
      using assms(2) Some v by (auto simp: list_at_def)
    have xs: "\<forall>y\<in>set xs. plain y"
      using storable_at [OF assms(1) Some] v by simp
    have "good_spec M (0, M(k \<mapsto> VList (xs[nat idx := s])), [(Some k, Some (xs ! nat idx), Some s, LIST_UPDATE)])"
    proof (rule good_specI)
      show "storable_map (M(k \<mapsto> VList (xs[nat idx := s])))"
      proof (rule storable_map_update(1) [OF assms(1) p(1)])
        have "\<forall>y\<in>set (xs[nat idx := s]). plain y"
          using xs p(2) set_update_subset_insert [of xs "nat idx" s] by blast
        then show "storable (VList (xs[nat idx := s]))"
          using i(3) by auto
      qed
      show "\<forall>i\<in>set [(Some k, Some (xs ! nat idx), Some s, LIST_UPDATE)]. fst i = Some k \<and> item_ok i"
        using xs p i(3) by (simp add: item_ok_def)
      have "xs ! nat idx \<in># mset xs"
        using i(3) by simp
      then show "fold row_apply [(Some k, Some (xs ! nat idx), Some s, LIST_UPDATE)] (rows_at k (M k)) =
          rows_at k (Some (VList (xs[nat idx := s])))"
        using Some v i(3) by (simp add: rows_at_def mset_update image_mset_Diff del: set_mset_mset)
    qed
    then show ?thesis
      using Some v i by (simp add: spec_list_set_def)
  qed
  then show ?thesis
    using Some good_spec_refl [OF assms(1)] by (cases v) (simp_all add: spec_list_set_def)
qed

lemma good_list_pop:
  assumes "storable_map M" "allowed M (ListPop k idx)"
  shows "good_spec M (spec_list_pop k idx M)"
proof (cases "M k")
  case None
  then show ?thesis
    using good_spec_refl [OF assms(1)] by (simp add: spec_list_pop_def)
next
  case (Some v)
  have "good_spec M (spec_list_pop k idx M)" if v: "v = VList xs" for xs
  proof -
    let ?ys = "nths xs {j. int j \<notin> set idx}"
    have i: "\<forall>v\<in>set idx. 0 \<le> v \<and> v < int (length xs)" "distinct idx" and p: "plain k"
      using assms(2) Some v by (auto simp: list_at_def strict_sorted_iff)
    have xs: "\<forall>y\<in>set xs. plain y"
      using storable_at [OF assms(1) Some] v by simp
    have "good_spec M (int (length idx), M(k := if ?ys = [] then None else Some (VList ?ys)),
        map (\<lambda>i. (Some k, Some (xs ! nat i), None, LIST_DEL)) idx)"
    proof (rule good_specI)
      show "storable_map (M(k := if ?ys = [] then None else Some (VList ?ys)))"
        using storable_map_update(2) [OF assms(1)] storable_map_update(1) [OF assms(1) p, of "VList ?ys"] xs in_set_nthsD [of _ xs]
        by auto
      show "\<forall>i\<in>set (map (\<lambda>i. (Some k, Some (xs ! nat i), None, LIST_DEL)) idx). fst i = Some k \<and> item_ok i"
        using xs p i(1) by (auto simp: item_ok_def nat_less_iff)
      show "fold row_apply (map (\<lambda>i. (Some k, Some (xs ! nat i), None, LIST_DEL)) idx) (rows_at k (M k)) =
          rows_at k (if ?ys = [] then None else Some (VList ?ys))"
        using pop_rows [OF i(2,1), of k] Some v by (auto simp: rows_at_def)
    qed
    then show ?thesis
      using Some v by (simp add: spec_list_pop_def)
  qed
  then show ?thesis
    using Some good_spec_refl [OF assms(1)] by (cases v) (simp_all add: spec_list_pop_def)
qed

lemma no_collision_insert:
  "no_collision f k \<Longrightarrow> no_collision f sk \<Longrightarrow> f k \<noteq> None \<or> k = sk \<Longrightarrow> no_collision (f(sk \<mapsto> s)) k"
  by (auto simp: no_collision_def)

lemma good_hashmap_set:
  assumes "storable_map M" "plain k" "plain sk" "plain s" "no_collision (map_at M k) sk"
  shows "good_spec M (spec_hashmap_set k sk s M)"
proof (cases "M k")
  case None
  have "good_spec M (0, M(k \<mapsto> VMap [sk \<mapsto> s]), [(Some k, Some sk, Some s, HM_ADD)])"
    by (rule good_specI) (use assms None no_collision_insert [of Map.empty sk sk s] in
      \<open>auto simp: storable_map_update item_ok_def rows_at_def map_row_def map_at_def split: if_splits\<close>)
  then show ?thesis
    using None by (simp add: spec_hashmap_set_def)
next
  case (Some v)
  have "good_spec M (0, M(k \<mapsto> VMap (f(sk \<mapsto> s))),
      [(Some k, Some sk, Some s, if f sk = None then HM_ADD else HM_UPDATE)])" if v: "v = VMap f" for f
  proof (rule good_specI)
    have f: "finite (dom f)" "\<forall>k s. f k = Some s \<longrightarrow> plain k \<and> plain s \<and> no_collision f k" "no_collision f sk"
      using storable_at [OF assms(1) Some] assms(5) Some v by (simp_all add: map_at_def)
    then have "\<forall>k t. (f(sk \<mapsto> s)) k = Some t \<longrightarrow> plain k \<and> plain t \<and> no_collision (f(sk \<mapsto> s)) k"
      using assms(3,4) no_collision_insert [of f _ sk s] by (simp split: if_splits)
    then show "storable_map (M(k \<mapsto> VMap (f(sk \<mapsto> s))))"
      using assms(1,2) f(1) by (intro storable_map_update) auto
    show "fold row_apply [(Some k, Some sk, Some s, if f sk = None then HM_ADD else HM_UPDATE)] (rows_at k (M k)) =
        rows_at k (Some (VMap (f(sk \<mapsto> s))))"
      using map_rows_add [OF f(1), of sk k s] map_rows_update [of f sk k s] Some v
      by (cases "f sk") (simp_all add: rows_at_def del: rows_of.simps)
  qed (use assms in \<open>simp add: item_ok_def\<close>)
  then show ?thesis
    using Some good_spec_refl [OF assms(1)] by (cases v) (simp_all add: spec_hashmap_set_def)
qed

lemma present_keys_subset: "set (present_keys f sks) \<subseteq> set sks"
  by (induction f sks rule: present_keys.induct) (auto simp del: fun_upd_apply)

lemma no_collision_restrict: "no_collision f sk \<Longrightarrow> no_collision (f |` A) sk"
  by (auto simp: no_collision_def restrict_map_def)

lemma good_hashmap_remove:
  assumes "storable_map M" "allowed M (HashmapRemove k sks)"
  shows "good_spec M (spec_hashmap_remove k sks M)"
proof (cases "M k")
  case None
  then show ?thesis
    using good_spec_refl [OF assms(1)] by (simp add: spec_hashmap_remove_def)
next
  case (Some v)
  have "good_spec M (spec_hashmap_remove k sks M)" if v: "v = VMap f" for f
  proof -
    let ?ks = "present_keys f sks" and ?f = "f |` (- set sks)"
    have p: "plain k" "\<forall>sk\<in>set sks. plain sk"
      using assms(2) by auto
    have f: "finite (dom f)" "\<forall>k s. f k = Some s \<longrightarrow> plain k \<and> plain s \<and> no_collision f k"
      using storable_at [OF assms(1) Some] v by simp_all
    have sub: "set ?ks \<subseteq> set sks"
      by (rule present_keys_subset)
    have "good_spec M (int (length ?ks), M(k := if dom f \<subseteq> set sks then None else Some (VMap ?f)),
        map (\<lambda>sk. (Some k, Some sk, None, HM_DEL)) ?ks)"
    proof (rule good_specI)
      have "storable (VMap ?f)" if "\<not> dom f \<subseteq> set sks"
      proof -
        have "dom ?f \<noteq> {}"
          using that by auto
        moreover have "f k = Some s" if "?f k = Some s" for k s
          using that by (auto simp: restrict_map_def split: if_splits)
        ultimately show ?thesis
          using f no_collision_restrict [of f _ "- set sks"] by auto
      qed
      then show "storable_map (M(k := if dom f \<subseteq> set sks then None else Some (VMap ?f)))"
        using storable_map_update [OF assms(1)] p(1) by auto
      show "\<forall>i\<in>set (map (\<lambda>sk. (Some k, Some sk, None, HM_DEL)) ?ks). fst i = Some k \<and> item_ok i"
        using sub p by (auto simp: item_ok_def)
      have "rows_at k (if dom f \<subseteq> set sks then None else Some (VMap ?f)) = rows_of k (VMap ?f)"
      proof (cases "dom f \<subseteq> set sks")
        case True
        then have "dom ?f = {}"
          by auto
        then show ?thesis
          using True by (simp add: rows_at_def)
      qed (simp add: rows_at_def)
      then show "fold row_apply (map (\<lambda>sk. (Some k, Some sk, None, HM_DEL)) ?ks) (rows_at k (M k)) =
          rows_at k (if dom f \<subseteq> set sks then None else Some (VMap ?f))"
        using map_del_fold [OF f(1), of k ?ks] present_keys_restrict [of f sks] Some v
        by (simp add: rows_at_def del: rows_of.simps)
    qed
    then show ?thesis
      using Some v by (simp add: spec_hashmap_remove_def)
  qed
  then show ?thesis
    using Some good_spec_refl [OF assms(1)] by (cases v) (simp_all add: spec_hashmap_remove_def)
qed

lemma good_key_delete:
  assumes "storable_map M" "plain k" "\<forall>f. M k \<noteq> Some (VMap f)" "\<forall>X. M k \<noteq> Some (VSet X)"
  shows "good_spec M (spec_key_delete k M)"
proof (cases "M k")
  case None
  then show ?thesis
    using good_spec_refl [OF assms(1)] by (simp add: spec_key_delete_def)
next
  case (Some v)
  have "good_spec M (1, M(k := None), [(Some k, None, None, STRING_DEL)])" if "v = VString s" for s
    by (rule good_specI)
      (use assms Some that in \<open>simp_all add: storable_map_update item_ok_def rows_at_def del_where_def string_row_def\<close>)
  moreover have "good_spec M (int (length xs), M(k := None), map (\<lambda>s. (Some k, Some s, None, LIST_DEL)) xs)"
    if "v = VList xs" for xs
    by (rule good_specI)
      (use assms(1,2) Some that storable_at [OF assms(1) Some] in
        \<open>auto simp: storable_map_update item_ok_def rows_at_def list_del_fold\<close>)
  ultimately show ?thesis
    using Some assms(3,4) by (cases v) (simp_all add: spec_key_delete_def)
qed

lemma good_key_delete_map:
  assumes "storable_map M" "plain k" "M k = Some (VMap f)" "set ks = dom f"
  shows "good_spec M (rc, M(k := None), map (\<lambda>sk. (Some k, Some sk, None, HM_DEL)) ks)"
proof (rule good_specI)
  have f: "finite (dom f)" "\<forall>k s. f k = Some s \<longrightarrow> plain k \<and> plain s"
    using storable_at [OF assms(1,3)] by auto
  show "\<forall>i\<in>set (map (\<lambda>sk. (Some k, Some sk, None, HM_DEL)) ks). fst i = Some k \<and> item_ok i"
    using f(2) assms(2,4) by (auto simp: item_ok_def)
  have "f |` (- set ks) = Map.empty"
    using assms(4) by (auto simp: restrict_map_def fun_eq_iff)
  then show "fold row_apply (map (\<lambda>sk. (Some k, Some sk, None, HM_DEL)) ks) (rows_at k (M k)) = rows_at k None"
    using map_del_fold [OF f(1), of k ks] assms(3) by (simp add: rows_at_def)
qed (use assms in \<open>simp add: storable_map_update\<close>)

text \<open>A request returns; the new state stands for the new map, and the table follows.\<close>

definition serves :: "econf \<Rightarrow> bio_item list \<Rightarrow> dbval \<Rightarrow> engine \<Rightarrow> ('r \<times> engine) option \<Rightarrow> dbval \<Rightarrow> bool" where
  "serves x Q M e res M' \<longleftrightarrow> (\<exists>rc e' N' items. res = Some (rc, e') \<and> e_rep e' N' M' \<and> e_io x e' (Q @ items) \<and>
     e_next e' \<le> e_next e + 1 \<and> good_spec M (rc, M', items))"

lemma servesI:
  assumes "refines e x Q res spec" "good_spec M spec" "M' = fst (snd spec)"
  shows "serves x Q M e res M'"
proof -
  obtain rc items where "spec = (rc, M', items)"
    using assms(3) by (cases spec) auto
  then show ?thesis
    using assms(1,2) by (auto simp: refines_def serves_def)
qed

lemma exec_ok:
  assumes rep: "e_rep e N M" and io: "e_io x e Q" and room: "room_for e M" and M: "storable_map M" and r: "allowed M r"
    and own: "owns_keys M r"
  shows "serves x Q M e (exec x r e) (spec_map r M)"
proof (cases r)
  case (StringSet k s)
  then show ?thesis
    using servesI [OF xfiredb_string_set_ok [OF rep io room, of k s] good_string_set [OF M]] r by simp
next
  case (ListPush k s left)
  then show ?thesis
    using servesI [OF xfiredb_list_push_ok [OF rep io room, of k s left] good_list_push [OF M]] r by simp
next
  case (ListSet k idx s)
  have "length xs < 2 ^ 31" if "M k = Some (VList xs)" for xs
    using r ListSet that by (simp add: list_at_def)
  then show ?thesis
    using servesI [OF xfiredb_list_set_ok [OF rep io room, of k idx s] good_list_set [OF M, of k idx s]] r ListSet by simp
next
  case (ListPop k idx)
  have "length xs < 2 ^ 31 \<and> (\<forall>v\<in>set idx. 0 \<le> v \<and> v < int (length xs))" if "M k = Some (VList xs)" for xs
    using r ListPop that by (simp add: list_at_def)
  then show ?thesis
    using servesI [OF xfiredb_list_pop_ok [OF rep io, of idx k] good_list_pop [OF M, of k idx]] r ListPop by simp
next
  case (HashmapSet k sk s)
  then show ?thesis
    using servesI [OF xfiredb_hashmap_set_ok [OF rep io room, of k sk s] good_hashmap_set [OF M]] r by simp
next
  case (HashmapRemove k sks)
  then show ?thesis
    using servesI [OF xfiredb_hashmap_remove_ok [OF rep io, of sks k] good_hashmap_remove [OF M, of k sks]] r by simp
next
  case (KeyDelete k)
  show ?thesis
  proof (cases "\<exists>f. M k = Some (VMap f)")
    case True
    then obtain f where f: "M k = Some (VMap f)"
      by blast
    then have size: "card (dom f) < 2 ^ 31"
      using r KeyDelete by (simp add: map_at_def)
    obtain ks where ks: "set ks = dom f" "refines e x Q (xfiredb_key_delete x k e)
        (int (card (dom f)), M(k := None), map (\<lambda>sk. (Some k, Some sk, None, HM_DEL)) ks)"
      using xfiredb_key_delete_map [OF rep io f size] by metis
    show ?thesis
      using servesI [OF ks(2) good_key_delete_map [OF M _ f ks(1)]] r KeyDelete by simp
  next
    case False
    then have nm: "\<forall>f. M k \<noteq> Some (VMap f)"
      by blast
    have "fst (snd (spec_key_delete k M)) = M(k := None)"
      by (auto simp: spec_key_delete_def split: option.split val.split)
    moreover have "\<forall>xs. M k = Some (VList xs) \<longrightarrow> length xs \<le> 1"
      using own KeyDelete by (auto simp: list_at_def)
    ultimately show ?thesis
      using servesI [OF xfiredb_key_delete_ok [OF rep io nm] good_key_delete [OF M _ nm]] r KeyDelete by simp
  qed
qed

text \<open>
  A permitted request that makes entries share a block still returns and leaves a state of the new map; what is
  lost is the queue.
\<close>

lemma exec_rep:
  assumes "e_rep e N M" "e_io x e Q" "room_for e M" "storable_map M" "allowed M r"
  shows "\<exists>rc e' N'. exec x r e = Some (rc, e') \<and> e_rep e' N' (spec_map r M)"
proof (cases "owns_keys M r")
  case True
  then show ?thesis
    using exec_ok [OF assms] by (auto simp: serves_def)
next
  case False
  then obtain k xs where "r = KeyDelete k" "M k = Some (VList xs)" "1 < length xs"
    by (cases r) (auto simp: list_at_def split: option.splits val.splits)
  then show ?thesis
    using xfiredb_key_delete_list_crash [OF assms(1,2), of k xs] by auto
qed

section \<open>Sequences of requests\<close>

fun exec_all :: "econf \<Rightarrow> request list \<Rightarrow> engine \<Rightarrow> (int list \<times> engine) option" where
  "exec_all x [] e = Some ([], e)"
| "exec_all x (r # rs) e = do {
     (rc, e) \<leftarrow> exec x r e;
     (rcs, e) \<leftarrow> exec_all x rs e;
     Some (rc # rcs, e)
   }"

fun allowed_all :: "dbval \<Rightarrow> request list \<Rightarrow> bool" where
  "allowed_all M [] \<longleftrightarrow> True"
| "allowed_all M (r # rs) \<longleftrightarrow> allowed M r \<and> owns_keys M r \<and> allowed_all (spec_map r M) rs"

lemma spec_map_update: "\<exists>k vo. spec_map r M = M(k := vo)"
proof -
  have "\<exists>k vo. M = M(k := vo)"
    by (metis fun_upd_triv)
  moreover have "\<exists>k' vo'. M(k := vo) = M(k' := vo')" for k vo
    by blast
  ultimately show ?thesis
    by (cases r) (auto simp: spec_string_set_def spec_list_push_def spec_list_set_def spec_list_pop_def
      spec_hashmap_set_def spec_hashmap_remove_def split: option.split val.split)
qed

lemma spec_map_card: "card (dom (spec_map r M)) \<le> card (dom M) + 1"
proof -
  obtain k vo where M': "spec_map r M = M(k := vo)"
    using spec_map_update by blast
  show ?thesis
  proof (cases "finite (dom M)")
    case True
    have "dom (spec_map r M) \<subseteq> insert k (dom M)"
      using M' by auto
    then have "card (dom (spec_map r M)) \<le> card (insert k (dom M))"
      using True by (intro card_mono) auto
    also have "\<dots> \<le> card (dom M) + 1"
      by (simp add: card_insert_le_m1 card_insert_if True)
    finally show ?thesis .
  next
    case False
    have "dom M \<subseteq> insert k (dom (spec_map r M))"
      using M' by auto
    then have "infinite (dom (spec_map r M))"
      using False finite_subset by auto
    then show ?thesis
      by simp
  qed
qed

text \<open>A request adds at most one row to the table.\<close>

lemma size_rows [simp]:
  "size (rows_at k None) = 0" "size (rows_at k (Some (VString s))) = 1" "size (rows_at k (Some (VList xs))) = length xs"
  "size (rows_at k (Some (VMap f))) = card (dom f)" "size (rows_at k (Some (VSet X))) = card X"
  by (simp_all add: rows_at_def)

lemma spec_map_rows:
  assumes "storable_map M"
  shows "size (rows_at k (spec_map r M k)) \<le> size (rows_at k (M k)) + 1"
proof -
  have fin: "finite (dom f)" if "M k = Some (VMap f)" for f
    using storable_at [OF assms that] by simp
  have nths: "length (nths xs A) \<le> Suc (length xs)" for xs :: "string list" and A
    using card_mono [of "{..<length xs}" "{i. i < length xs \<and> i \<in> A}"] by (auto simp: length_nths intro: le_SucI)
  have upd: "card (dom (f(sk \<mapsto> s))) \<le> card (dom f) + 1" if "finite (dom f)" for f :: "string \<rightharpoonup> string" and sk s
    using that by (simp add: card_insert_if)
  have res: "card (dom f \<inter> A) \<le> Suc (card (dom f))" if "finite (dom f)" for f :: "string \<rightharpoonup> string" and A
    using that by (simp add: card_mono le_SucI)
  show ?thesis
  proof (cases r)
    case (ListPop k' idx)
    then show ?thesis
      using nths by (auto simp: spec_list_pop_def split: option.split val.split)
  next
    case (HashmapSet k' sk s)
    then show ?thesis
      using upd [OF fin] upd [of Map.empty sk s] by (auto simp: spec_hashmap_set_def split: option.split val.split simp del: dom_fun_upd)
  next
    case (HashmapRemove k' sks)
    then show ?thesis
      using res [OF fin] by (auto simp: spec_hashmap_remove_def split: option.split val.split)
  qed (auto simp: spec_string_set_def spec_list_push_def spec_list_set_def split: option.split val.split)
qed

lemma mirrors_size:
  assumes "mirrors T M" "mirrors T' (M(k := vo))" "size (rows_at k vo) \<le> size (rows_at k (M k)) + 1"
  shows "size T' \<le> size T + 1"
proof -
  have rest: "filter_mset (\<lambda>r. r_key r \<noteq> k) T' = filter_mset (\<lambda>r. r_key r \<noteq> k) T"
  proof (rule multiset_eqI)
    fix r
    have "count (key_rows (r_key r) T') r = count (key_rows (r_key r) T) r" if "r_key r \<noteq> k"
      using assms(1,2) that by (simp add: mirrors_def)
    then show "count (filter_mset (\<lambda>r. r_key r \<noteq> k) T') r = count (filter_mset (\<lambda>r. r_key r \<noteq> k) T) r"
      by (simp add: key_rows_def)
  qed
  have split: "size A = size (key_rows k A) + size (filter_mset (\<lambda>r. r_key r \<noteq> k) A)" for A
    by (metis key_rows_def multiset_partition size_union)
  have "key_rows k T = rows_at k (M k)" "key_rows k T' = rows_at k vo"
    using assms(1,2) by (simp_all add: mirrors_def)
  then show ?thesis
    using split [of T] split [of T'] rest assms(3) by simp
qed

lemma spec_map_size:
  assumes "storable_map M" "mirrors T M" "mirrors T' (spec_map r M)"
  shows "size T' \<le> size T + 1"
proof -
  obtain k vo where "spec_map r M = M(k := vo)"
    using spec_map_update by blast
  then show ?thesis
    using mirrors_size [OF assms(2), of T' k vo] assms(3) spec_map_rows [OF assms(1), of k r] by simp
qed

lemma exec_all_ok:
  assumes "e_rep e N M" "e_io x e Q" "storable_map M" "allowed_all M rs"
    and "card (dom M) + length rs \<le> 2 ^ 30" "e_next e + length rs < 2 ^ 64"
  shows "\<exists>rcs e' N' items. exec_all x rs e = Some (rcs, e') \<and> e_rep e' N' (fold spec_map rs M) \<and> e_io x e' (Q @ items) \<and>
    (\<forall>i\<in>set items. item_ok i) \<and> storable_map (fold spec_map rs M) \<and>
    (\<forall>T. mirrors T M \<longrightarrow> mirrors (fold row_apply items T) (fold spec_map rs M) \<and>
       size (fold row_apply items T) \<le> size T + length rs)"
  using assms
proof (induction rs arbitrary: e N M Q)
  case Nil
  then show ?case
    by (intro exI [of _ "[]"] exI [of _ e] exI [of _ N]) simp
next
  case (Cons r rs)
  have room: "room_for e M"
    using Cons.prems(5,6) by (simp add: room_for_def)
  obtain rc e1 N1 items1 where e1: "exec x r e = Some (rc, e1)" "e_rep e1 N1 (spec_map r M)" "e_io x e1 (Q @ items1)"
      "e_next e1 \<le> e_next e + 1" "good_spec M (rc, spec_map r M, items1)"
    using exec_ok [OF Cons.prems(1,2) room Cons.prems(3), of r] Cons.prems(4) by (auto simp: serves_def)
  have g: "storable_map (spec_map r M)" "\<forall>i\<in>set items1. item_ok i"
      "\<And>T. mirrors T M \<Longrightarrow> mirrors (fold row_apply items1 T) (spec_map r M)"
    using e1(5) by (simp_all add: good_spec_def)
  have "\<exists>rcs e' N' items. exec_all x rs e1 = Some (rcs, e') \<and> e_rep e' N' (fold spec_map rs (spec_map r M)) \<and>
      e_io x e' ((Q @ items1) @ items) \<and> (\<forall>i\<in>set items. item_ok i) \<and> storable_map (fold spec_map rs (spec_map r M)) \<and>
      (\<forall>T. mirrors T (spec_map r M) \<longrightarrow> mirrors (fold row_apply items T) (fold spec_map rs (spec_map r M)) \<and>
         size (fold row_apply items T) \<le> size T + length rs)"
    by (rule Cons.IH [OF e1(2,3) g(1)]) (use Cons.prems(4-6) e1(4) spec_map_card [of r M] in auto)
  then obtain rcs e' N' items where "exec_all x rs e1 = Some (rcs, e')" "e_rep e' N' (fold spec_map (r # rs) M)"
      "e_io x e' (Q @ items1 @ items)" "\<forall>i\<in>set items. item_ok i" "storable_map (fold spec_map (r # rs) M)"
      and rest: "\<And>T. mirrors T (spec_map r M) \<Longrightarrow> mirrors (fold row_apply items T) (fold spec_map (r # rs) M) \<and>
         size (fold row_apply items T) \<le> size T + length rs"
    by auto
  moreover have "mirrors (fold row_apply (items1 @ items) T) (fold spec_map (r # rs) M) \<and>
      size (fold row_apply (items1 @ items) T) \<le> size T + length (r # rs)" if T: "mirrors T M" for T
    using rest [OF g(3) [OF T]] spec_map_size [OF Cons.prems(3) T g(3) [OF T]] by simp
  ultimately show ?case
    using e1(1) g(2) by (intro exI [of _ "rc # rcs"] exI [of _ e'] exI [of _ N'] exI [of _ "items1 @ items"]) auto
qed

lemma engine_start:
  assumes "0 \<le> x_plvl x" "x_plvl x < 3"
  shows "e_rep engine_init (\<lambda>_. []) Map.empty" "e_io x engine_init []" "room_for engine_init Map.empty"
    "storable_map Map.empty"
  using db_alloc_ok [of "''xfiredb''"] bio_init_holds assms
  by (simp_all add: e_rep_def e_io_def room_for_def engine_init_def bio_init_def storable_map_def)

text \<open>A run from the empty engine, and the worker behind it.\<close>

lemma run_persists:
  assumes sql: "sqlite_sem sql tbl" "disk_rows tbl d = Some {#}" and x: "0 \<le> x_plvl x" "x_plvl x < 3"
    and rs: "allowed_all Map.empty rs" "length rs \<le> 2 ^ 30"
  obtains rcs e N b d' T where "exec_all x rs engine_init = Some (rcs, e)" "e_rep e N (fold spec_map rs Map.empty)"
    "bio_worker sql (e_bio e) d = Some (b, d')" "holds b []" "disk_rows tbl d' = Some T"
    "mirrors T (fold spec_map rs Map.empty)" "storable_map (fold spec_map rs Map.empty)" "size T \<le> length rs"
proof -
  let ?M = "fold spec_map rs Map.empty"
  obtain rcs e N items where e: "exec_all x rs engine_init = Some (rcs, e)" "e_rep e N ?M" "e_io x e ([] @ items)"
      "\<forall>i\<in>set items. item_ok i" "storable_map ?M"
      "\<forall>T. mirrors T Map.empty \<longrightarrow> mirrors (fold row_apply items T) ?M \<and> size (fold row_apply items T) \<le> size T + length rs"
    using exec_all_ok [OF engine_start(1) engine_start(2) engine_start(4) rs(1)] x rs(2)
    by (fastforce simp: engine_init_def)
  have "holds (e_bio e) items"
    using e(3) by (simp add: e_io_def)
  then obtain b d' where "bio_worker sql (e_bio e) d = Some (b, d')" "holds b []"
      "disk_rows tbl d' = Some (fold row_apply items {#})"
    using bio_worker_ok [OF sql(1) _ e(4) sql(2), of "e_bio e"] by (auto simp: rows_ok_def)
  moreover have "mirrors (fold row_apply items {#}) ?M" "size (fold row_apply items {#}) \<le> length rs"
    using e(6) mirrors_empty by force+
  ultimately show thesis
    using that e(1,2,5) by blast
qed

end
