(* ===== verification/Restart.thy ===== *)
theory Restart
  imports PersistRun
begin

text \<open>
  \<^verbatim>\<open>xfiredb_init\<close> on a table that holds the rows of a map: the new engine stands for the map again, with
  the entries of a list in the order in which SQLite returns its rows.
\<close>

section \<open>Loading one row\<close>

text \<open>\<open>loads\<close>: the state after a step stands for the map \<open>M\<close>, and the I/O queue is untouched.\<close>

definition loads :: "engine \<Rightarrow> engine option \<Rightarrow> dbval \<Rightarrow> bool" where
  "loads e res M \<longleftrightarrow> (\<exists>e' N'. res = Some e' \<and> e_rep e' N' M \<and> e_next e' \<le> e_next e + 1 \<and> e_bio e' = e_bio e)"

text \<open>The container of a key is new, or changed in place.\<close>

lemma load_new:
  assumes rep: "e_rep e N M" and room: "room_for e M" and None: "M k = None" and db: "db_ok db" "dbmap db = dbmap (e_db e)"
    and v: "is_val strs c ns v" "\<forall>n\<in>set ns. e_fresh e \<le> n \<and> n < fresh"
    and strs: "\<forall>n. n < e_fresh e \<longrightarrow> strs n = e_strs e n" "e_fresh e \<le> fresh"
    and e': "e' = e\<lparr>e_db := db, e_next := e_next e + 1, e_strs := strs, e_fresh := fresh,
      e_cont := (e_cont e)(of_nat (e_next e) \<mapsto> c)\<rparr>"
  shows "loads e (map_option snd (e_store x k (of_nat (e_next e)) e')) (M(k \<mapsto> v))"
proof -
  let ?p = "of_nat (e_next e) :: ptr"
  have n: "dbmap db k = None" "2 \<le> e_fresh e"
    using rep None db(2) e_rep_None [OF rep] by (simp_all add: e_rep_def)
  obtain db2 where st: "e_store x k ?p e' = Some (0, e'\<lparr>e_db := db2\<rparr>)" "db_ok db2" "dbmap db2 = (dbmap (e_db e))(k \<mapsto> ?p)"
    using e_store_new [OF rep room db n(1), of e' x ?p] e' by auto
  have kr: "key_rep (e'\<lparr>e_db := db2\<rparr>) ns ?p v"
    using v n(2) by (auto simp: key_rep_def e')
  have "e_rep (e'\<lparr>e_db := db2\<rparr>) (N(k := ns)) (M(k \<mapsto> v))"
    by (rule e_rep_new [OF rep None _ _, where p = ?p]) (use kr room st v strs in \<open>auto simp: only_def room_for_def e'\<close>)
  then show ?thesis
    using st(1) by (auto simp: loads_def e')
qed

lemma load_old:
  assumes rep: "e_rep (e\<lparr>e_db := db\<rparr>) N M" and p: "dbmap db k = Some p" "key_rep (e\<lparr>e_db := db\<rparr>) (N k) p v0"
    and v: "is_val strs c ns v" "\<forall>n\<in>set ns. n \<in> set (N k) \<or> e_fresh e \<le> n \<and> n < fresh"
    and strs: "\<forall>n. n < e_fresh e \<longrightarrow> strs n = e_strs e n" "e_fresh e \<le> fresh"
    and e': "e' = e\<lparr>e_db := db, e_strs := strs, e_fresh := fresh, e_cont := (e_cont e)(p \<mapsto> c)\<rparr>"
  shows "loads e (Some e') (M(k \<mapsto> v))"
proof -
  have n: "2 \<le> e_fresh e"
    using rep by (simp add: e_rep_def)
  have "2 \<le> n \<and> n < fresh" if "n \<in> set ns" for n
    using v(2) p(2) n strs(2) that by (force simp: key_rep_def)
  then have kr: "key_rep e' ns p v"
    using v(1) p(2) by (auto simp: key_rep_def e')
  have "e_rep e' (N(k := ns)) (M(k \<mapsto> v))"
    by (rule e_rep_change [OF rep, where p = p]) (use kr p v strs in \<open>auto simp: only_def e'\<close>)
  then show ?thesis
    by (auto simp: loads_def e')
qed

text \<open>The effect of one row, for rows that fit the value of their key.\<close>

definition fits :: "dbval \<Rightarrow> row \<Rightarrow> val \<Rightarrow> bool" where
  "fits M r v \<longleftrightarrow>
     (let k = r_key r; s = r_skey r; d = r_value r in
      r_type r = ''string'' \<and> M k = None \<and> v = VString d \<or>
      r_type r = ''list'' \<and> (\<exists>xs. (M k = None \<and> xs = [] \<or> M k = Some (VList xs)) \<and> v = VList (xs @ [d])) \<or>
      r_type r = ''hashmap'' \<and> (\<exists>f. (M k = None \<and> f = Map.empty \<or> M k = Some (VMap f)) \<and> f s = None \<and>
        no_collision f s \<and> v = VMap (f(s \<mapsto> d))) \<or>
      r_type r = ''set'' \<and> (\<exists>X. (M k = None \<and> X = {} \<or> M k = Some (VSet X)) \<and>
        no_collision (\<lambda>t. if t \<in> X then Some [] else None) s \<and> v = VSet (insert s X)))"

lemma get_string_alloc: "get_string (container_alloc CONTAINER_STRING) = Some string_init"
  and get_list_alloc: "get_list (container_alloc CONTAINER_LIST) = Some (list_head_init zero_list)"
  and get_map_alloc: "get_map (container_alloc CONTAINER_HASHMAP) = Some (hashmap_init Map.empty)"
  and get_set_alloc: "get_set (container_alloc CONTAINER_SET) = Some (set_init Map.empty)"
  by (simp_all add: container_alloc_def container_init_def get_string_def get_list_def get_map_def get_set_def
      container_get_data_def)

lemma alloc_data: "(container_alloc t)\<lparr>c_data := d\<rparr> = \<lparr>c_type = t, c_data = d\<rparr>"
  by (simp add: container_alloc_def container_init_def)

lemma load_string:
  assumes rep: "e_rep e N M" and room: "room_for e M" and None: "M k = None"
  shows "loads e (load_row x k s ''string'' d e) (M(k \<mapsto> VString d))"
proof -
  obtain db where l: "e_lookup k e = Some (-1, None, e\<lparr>e_db := db\<rparr>)" "dbmap db = dbmap (e_db e)" "db_ok db"
    using e_absent [OF rep None] by metis
  show ?thesis
    using load_new [OF rep room None l(3,2) string_val [of "e_strs e" string_init d] _ _ _ refl, of "e_fresh e" x] l(1)
    by (simp add: load_row_def xfiredb_get_row_type_def e_alloc_def get_string_alloc e_put_def alloc_data)
qed

lemma load_list:
  assumes rep: "e_rep e N M" and room: "room_for e M" and k: "M k = None \<and> xs = [] \<or> M k = Some (VList xs)"
  shows "loads e (load_row x k s ''list'' d e) (M(k \<mapsto> VList (xs @ [d])))"
  using k
proof
  assume None: "M k = None \<and> xs = []"
  obtain db where l: "e_lookup k e = Some (-1, None, e\<lparr>e_db := db\<rparr>)" "dbmap db = dbmap (e_db e)" "db_ok db"
    using e_absent [OF rep] None by metis
  let ?n = "e_fresh e"
  have n: "?n \<noteq> 0"
    using rep by (simp add: e_rep_def)
  have v: "is_val ((e_strs e)(?n \<mapsto> string_alloc d))
      \<lparr>c_type = CONTAINER_LIST, c_data = DList (list_rpush (list_head_init zero_list) ?n)\<rparr> [?n] (VList [d])"
    using list_val_push [OF list_head_init_ok [of zero_list], of "e_strs e" "[]" ?n d False] n by simp
  show ?thesis
    using load_new [OF rep room _ l(3,2) v _ _ _ refl, of k "?n + 1" x] l(1) None
    by (simp add: load_row_def xfiredb_get_row_type_def e_alloc_def get_list_alloc e_put_def alloc_data e_string_alloc_def)
next
  assume Some: "M k = Some (VList xs)"
  obtain db p c where l: "e_lookup k e = Some (0, Some p, e\<lparr>e_db := db\<rparr>)" "dbmap db k = Some p"
      "e_rep (e\<lparr>e_db := db\<rparr>) N M" "key_rep (e\<lparr>e_db := db\<rparr>) (N k) p (VList xs)" "e_cont e p = Some c"
      "is_val (e_strs e) c (N k) (VList xs)" "\<forall>t. container_check_type c t \<longleftrightarrow> t = type_of (VList xs)"
    using e_present [OF rep Some] .
  obtain h where h: "get_list c = Some h" "c = \<lparr>c_type = CONTAINER_LIST, c_data = DList h\<rparr>" "is_list h (N k)"
      "map (str_at (e_strs e)) (N k) = map Some xs"
    using get_list_val [OF l(6)] by metis
  let ?n = "e_fresh e"
  have n: "?n \<noteq> 0" "?n \<notin> set (N k)"
    using rep l(4) by (auto simp: e_rep_def key_rep_def)
  have v: "is_val ((e_strs e)(?n \<mapsto> string_alloc d)) \<lparr>c_type = CONTAINER_LIST, c_data = DList (list_rpush h ?n)\<rparr>
      (N k @ [?n]) (VList (xs @ [d]))"
    using list_val_push [OF h(3,4) n(2,1), of d False] by simp
  show ?thesis
    using load_old [OF l(3,2,4) v _ _ _ refl, of "?n + 1"] l(1,5) h(1,2)
    by (simp add: load_row_def xfiredb_get_row_type_def e_put_def e_string_alloc_def)
qed

lemma load_map:
  assumes rep: "e_rep e N M" and room: "room_for e M" and k: "M k = None \<and> f = Map.empty \<or> M k = Some (VMap f)"
    and s: "f s = None" "no_collision f s"
  shows "loads e (load_row x k s ''hashmap'' d e) (M(k \<mapsto> VMap (f(s \<mapsto> d))))"
  using k
proof
  assume None: "M k = None \<and> f = Map.empty"
  obtain db where l: "e_lookup k e = Some (-1, None, e\<lparr>e_db := db\<rparr>)" "dbmap db = dbmap (e_db e)" "db_ok db"
    using e_absent [OF rep] None by metis
  let ?n = "e_fresh e" and ?hm = "hashmap_init Map.empty"
  have n: "2 \<le> ?n"
    using rep by (simp add: e_rep_def)
  have emp: "map_val (e_strs e) ?hm [] = f"
    using None by (simp add: map_val_def hashmap_init_ok)
  obtain hm ns where hm: "hashmap_add (x_coins x) ?hm s ?n = Some (0, hm)" "hm_ok hm ns" "set ns = insert ?n (set [])"
      "set ns \<subseteq> dom (str_at ((e_strs e)(?n \<mapsto> string_alloc d)))"
      "map_val ((e_strs e)(?n \<mapsto> string_alloc d)) hm ns = (map_val (e_strs e) ?hm [])(s \<mapsto> d)"
    by (rule map_val_add [OF hashmap_init_ok(1) [of Map.empty], where strs = "e_strs e" and sk = s and n = ?n and coins = "x_coins x" and s = d])
      (use s emp n in auto)
  show ?thesis
    using load_new [OF rep room _ l(3,2) map_val_is_val [OF hm(2,4)] _ _ _ refl, of k "?n + 1" x] l(1) None hm emp
    by (simp add: load_row_def xfiredb_get_row_type_def e_alloc_def get_map_alloc e_put_def alloc_data e_string_alloc_def)
next
  assume Some: "M k = Some (VMap f)"
  obtain db p c where l: "e_lookup k e = Some (0, Some p, e\<lparr>e_db := db\<rparr>)" "dbmap db k = Some p"
      "e_rep (e\<lparr>e_db := db\<rparr>) N M" "key_rep (e\<lparr>e_db := db\<rparr>) (N k) p (VMap f)" "e_cont e p = Some c"
      "is_val (e_strs e) c (N k) (VMap f)" "\<forall>t. container_check_type c t \<longleftrightarrow> t = type_of (VMap f)"
    using e_present [OF rep Some] .
  obtain hm where hm: "get_map c = Some hm" "c = \<lparr>c_type = CONTAINER_HASHMAP, c_data = DMap hm\<rparr>" "hm_ok hm (N k)"
      "set (N k) \<subseteq> dom (str_at (e_strs e))" "f = map_val (e_strs e) hm (N k)"
    using get_map_val [OF l(6)] .
  let ?n = "e_fresh e"
  have n: "2 \<le> ?n" "?n \<notin> set (N k)"
    using rep l(4) by (auto simp: e_rep_def key_rep_def)
  obtain hm' ns where hm': "hashmap_add (x_coins x) hm s ?n = Some (0, hm')" "hm_ok hm' ns" "set ns = insert ?n (set (N k))"
      "set ns \<subseteq> dom (str_at ((e_strs e)(?n \<mapsto> string_alloc d)))"
      "map_val ((e_strs e)(?n \<mapsto> string_alloc d)) hm' ns = f(s \<mapsto> d)"
    using map_val_add [OF hm(3,4) s(2) [unfolded hm(5)] s(1) [unfolded hm(5)] n, of "x_coins x" d] hm(5) by auto
  show ?thesis
    using load_old [OF l(3,2,4) map_val_is_val [OF hm'(2,4)] _ _ _ refl, of "?n + 1"] l(1,5) hm(1,2) hm'(1,3,5)
    by (simp add: load_row_def xfiredb_get_row_type_def e_put_def e_string_alloc_def)
qed

lemma get_set_val:
  assumes "is_val strs c ns (VSet X)"
  obtains s where "get_set c = Some s" "c = \<lparr>c_type = CONTAINER_SET, c_data = DSet s\<rparr>" "set_ok s ns" "X = members s ns"
proof -
  obtain s where "get_set c = Some s" "c_data c = DSet s"
    using get_data_typed(6) [OF assms refl] by blast
  then show thesis
    using assms that by (cases c) (auto simp: is_val_def)
qed

lemma set_val_add:
  assumes ok: "set_ok st ns" and c: "no_collision (\<lambda>t. if t \<in> members st ns then Some [] else None) s"
    and n: "2 \<le> n" "n \<notin> set ns"
  obtains rc st' ns' where "set_add coins st s n = Some (rc, st')" "set ns' \<subseteq> insert n (set ns)"
    "is_val strs \<lparr>c_type = CONTAINER_SET, c_data = DSet st'\<rparr> ns' (VSet (insert s (members st ns)))"
proof -
  have "set_good st ns s"
    unfolding set_good_def
  proof (rule good_key_dom)
    show "k' = s" if "k' \<in> dom (smap (set_list st) ns)" "key_hash k' = key_hash s" for k'
      using c that by (auto simp: no_collision_def members_def split: if_splits)
  qed (use ok c in \<open>simp_all add: set_ok_def no_collision_def\<close>)
  moreover have "n \<noteq> HEADER \<and> n \<noteq> NULL"
    using n(1) by (simp add: xdb_defs)
  ultimately show thesis
    using set_add_ok [OF ok _ _ n(2), of s coins] that by (auto simp: is_val_def)
qed

lemma load_set:
  assumes rep: "e_rep e N M" and room: "room_for e M" and k: "M k = None \<and> X = {} \<or> M k = Some (VSet X)"
    and s: "no_collision (\<lambda>t. if t \<in> X then Some [] else None) s"
  shows "loads e (load_row x k s ''set'' d e) (M(k \<mapsto> VSet (insert s X)))"
  using k
proof
  assume None: "M k = None \<and> X = {}"
  obtain db where l: "e_lookup k e = Some (-1, None, e\<lparr>e_db := db\<rparr>)" "dbmap db = dbmap (e_db e)" "db_ok db"
    using e_absent [OF rep] None by metis
  let ?n = "e_fresh e" and ?st = "set_init Map.empty"
  have n: "2 \<le> ?n" "?n \<notin> set []"
    using rep by (simp_all add: e_rep_def)
  have c: "no_collision (\<lambda>t. if t \<in> members ?st [] then Some [] else None) s"
    using s None by (simp add: set_init_ok)
  obtain rc st ns where st: "set_add (x_coins x) ?st s ?n = Some (rc, st)" "set ns \<subseteq> insert ?n (set [])"
      "is_val (e_strs e) \<lparr>c_type = CONTAINER_SET, c_data = DSet st\<rparr> ns (VSet (insert s (members ?st [])))"
    using set_val_add [OF set_init_ok(1) c n] .
  have ns: "\<forall>n\<in>set ns. ?n \<le> n \<and> n < ?n + 1"
    using st(2) by auto
  show ?thesis
    using load_new [OF rep room _ l(3,2) st(3) ns _ _ refl, of k x] l(1) None st(1)
    by (simp add: load_row_def xfiredb_get_row_type_def e_alloc_def get_set_alloc e_put_def alloc_data set_init_ok)
next
  assume Some: "M k = Some (VSet X)"
  obtain db p c where l: "e_lookup k e = Some (0, Some p, e\<lparr>e_db := db\<rparr>)" "dbmap db k = Some p"
      "e_rep (e\<lparr>e_db := db\<rparr>) N M" "key_rep (e\<lparr>e_db := db\<rparr>) (N k) p (VSet X)" "e_cont e p = Some c"
      "is_val (e_strs e) c (N k) (VSet X)" "\<forall>t. container_check_type c t \<longleftrightarrow> t = type_of (VSet X)"
    using e_present [OF rep Some] .
  obtain st where st: "get_set c = Some st" "c = \<lparr>c_type = CONTAINER_SET, c_data = DSet st\<rparr>" "set_ok st (N k)"
      "X = members st (N k)"
    using get_set_val [OF l(6)] .
  let ?n = "e_fresh e"
  have n: "2 \<le> ?n" "?n \<notin> set (N k)"
    using rep l(4) by (auto simp: e_rep_def key_rep_def)
  obtain rc st' ns where st': "set_add (x_coins x) st s ?n = Some (rc, st')" "set ns \<subseteq> insert ?n (set (N k))"
      "is_val (e_strs e) \<lparr>c_type = CONTAINER_SET, c_data = DSet st'\<rparr> ns (VSet (insert s (members st (N k))))"
    using set_val_add [OF st(3) s [unfolded st(4)] n] .
  have ns: "\<forall>n\<in>set ns. n \<in> set (N k) \<or> ?n \<le> n \<and> n < ?n + 1"
    using st'(2) by auto
  show ?thesis
    using load_old [OF l(3,2,4) st'(3) ns _ _ refl] l(1,5) st(1,2,4) st'(1)
    by (simp add: load_row_def xfiredb_get_row_type_def e_put_def)
qed

lemma load_row_ok:
  assumes "e_rep e N M" "room_for e M" "fits M r v"
  shows "loads e (xfiredb_load x (cells r) e) (M(r_key r \<mapsto> v))"
proof -
  have "xfiredb_load x (cells r) e = load_row x (r_key r) (r_skey r) (r_type r) (r_value r) e"
    by (cases "load_row x (r_key r) (r_skey r) (r_type r) (r_value r) e") (simp_all add: cells_def)
  then have r: "loads e (xfiredb_load x (cells r) e) (M(r_key r \<mapsto> v))"
    if "loads e (load_row x (r_key r) (r_skey r) (r_type r) (r_value r) e) (M(r_key r \<mapsto> v))"
    using that by simp
  consider (string) "r_type r = ''string''" "M (r_key r) = None" "v = VString (r_value r)"
    | (list) xs where "r_type r = ''list''" "M (r_key r) = None \<and> xs = [] \<or> M (r_key r) = Some (VList xs)"
        "v = VList (xs @ [r_value r])"
    | (hashmap) f where "r_type r = ''hashmap''" "M (r_key r) = None \<and> f = Map.empty \<or> M (r_key r) = Some (VMap f)"
        "f (r_skey r) = None" "no_collision f (r_skey r)" "v = VMap (f(r_skey r \<mapsto> r_value r))"
    | (set) X where "r_type r = ''set''" "M (r_key r) = None \<and> X = {} \<or> M (r_key r) = Some (VSet X)"
        "no_collision (\<lambda>t. if t \<in> X then Some [] else None) (r_skey r)" "v = VSet (insert (r_skey r) X)"
    using assms(3) unfolding fits_def Let_def by (elim disjE conjE exE) blast+
  then show ?thesis
  proof cases
    case string
    then show ?thesis
      using r load_string [OF assms(1,2)] by (simp only:)
  next
    case list
    then show ?thesis
      using r load_list [OF assms(1,2) list(2)] by (simp only:)
  next
    case hashmap
    then show ?thesis
      using r load_map [OF assms(1,2) hashmap(2-4)] by (simp only:)
  next
    case set
    then show ?thesis
      using r load_set [OF assms(1,2) set(2,3)] by (simp only:)
  qed
qed

section \<open>Rows and values\<close>

fun type_name :: "val \<Rightarrow> string" where
  "type_name (VString _) = ''string''"
| "type_name (VList _) = ''list''"
| "type_name (VMap _) = ''hashmap''"
| "type_name (VSet _) = ''set''"

lemma rows_of_type: "r \<in># rows_of k v \<Longrightarrow> r_type r = type_name v \<and> r_key r = k"
  by (cases v) (auto simp: map_row_def)

lemma rows_of_nonempty: "storable v \<Longrightarrow> rows_of k v \<noteq> {#}"
  by (cases v) (auto simp: mset_set_empty_iff)

lemma no_collision_mono: "no_collision f s \<Longrightarrow> (\<And>t. g t \<noteq> None \<Longrightarrow> f t \<noteq> None) \<Longrightarrow> no_collision g s"
  unfolding no_collision_def by blast

text \<open>Values that have the same rows are equal up to the order of a list.\<close>

fun same_val :: "val \<Rightarrow> val \<Rightarrow> bool" where
  "same_val (VList xs) (VList ys) \<longleftrightarrow> mset xs = mset ys"
| "same_val v w \<longleftrightarrow> v = w"

lemma map_rows_mem:
  assumes "finite (dom f)"
  shows "r \<in># rows_of k (VMap f) \<longleftrightarrow> (\<exists>s d. f s = Some d \<and> r = mk_row k s ''hashmap'' d)"
  using assms by (auto simp: map_row_def image_iff dom_def)

lemma same_rows:
  assumes eq: "rows_of k v = rows_of k w" and ok: "storable v" "storable w"
  shows "same_val v w"
proof -
  obtain r where "r \<in># rows_of k v"
    using rows_of_nonempty [OF ok(1), of k] by auto
  then have t: "type_name v = type_name w"
    using rows_of_type [of r k v] rows_of_type [of r k w] eq by simp
  show ?thesis
  proof (cases v)
    case (VString s)
    then show ?thesis
      using t eq by (cases w) simp_all
  next
    case (VList xs)
    then obtain ys where w: "w = VList ys"
      using t by (cases w) simp_all
    then show ?thesis
      using arg_cong [OF eq, of "image_mset r_value"] VList by (simp add: multiset.map_comp comp_def)
  next
    case (VMap f)
    then obtain g where w: "w = VMap g"
      using t by (cases w) simp_all
    have fin: "finite (dom f)" "finite (dom g)"
      using ok VMap w by simp_all
    have iff: "f s = Some d \<longleftrightarrow> g s = Some d" for s d
    proof -
      have "mk_row k s ''hashmap'' d \<in># rows_of k (VMap f) \<longleftrightarrow> mk_row k s ''hashmap'' d \<in># rows_of k (VMap g)"
        using eq [unfolded VMap w] by (simp only:)
      then show ?thesis
        unfolding map_rows_mem [OF fin(1)] map_rows_mem [OF fin(2)] by simp
    qed
    have "f s = g s" for s
      by (cases "g s") (use iff [of s] in \<open>metis option.exhaust\<close>)+
    then show ?thesis
      using VMap w by (simp add: fun_eq_iff)
  next
    case (VSet X)
    then obtain Y where w: "w = VSet Y"
      using t by (cases w) simp_all
    have "mset_set X = mset_set Y"
      using arg_cong [OF eq, of "image_mset r_skey"] VSet w by (simp add: multiset.map_comp comp_def)
    then show ?thesis
      using ok VSet w by simp
  qed
qed

lemma storable_fresh:
  assumes "storable_map M" "rows_at k (M k) = {#}"
  shows "M k = None"
  using assms rows_of_nonempty [of _ k] by (cases "M k") (auto simp: rows_at_def storable_map_def)

text \<open>The value of a key after part of its rows has the type of the whole value.\<close>

lemma partial_value:
  assumes M: "storable_map M" and sub: "rows_at k (M k) \<subseteq># rows_of k w" and k: "M k = Some v"
  shows "type_name v = type_name w"
proof -
  obtain r where "r \<in># rows_of k v"
    using rows_of_nonempty [of v k] M k by (auto simp: storable_map_def)
  moreover from this have "r \<in># rows_of k w"
    using sub k by (auto simp: rows_at_def dest: mset_subset_eqD)
  ultimately show ?thesis
    using rows_of_type by metis
qed

text \<open>The next row of a key extends its value.\<close>

definition next_val :: "dbval \<Rightarrow> row \<Rightarrow> val \<Rightarrow> bool" where
  "next_val M r v \<longleftrightarrow> fits M r v \<and> storable v \<and> rows_of (r_key r) v = add_mset r (rows_at (r_key r) (M (r_key r)))"

lemma next_list:
  assumes M: "storable_map M" and w: "storable (VList xs)"
    and sub: "add_mset r (rows_at k (M k)) \<subseteq># rows_of k (VList xs)" and k: "r_key r = k"
  shows "\<exists>v. next_val M r v"
proof -
  obtain d where d: "r = mk_row k ''null'' ''list'' d" "d \<in> set xs"
    using sub by (auto simp: insert_subset_eq_iff)
  have sub': "rows_at k (M k) \<subseteq># rows_of k (VList xs)"
    using sub by (meson insert_subset_eq_iff diff_subset_eq_self subset_mset.trans)
  have "\<exists>ys. (M k = None \<and> ys = [] \<or> M k = Some (VList ys)) \<and> (\<forall>y\<in>set ys. plain y)"
  proof (cases "M k")
    case (Some v)
    have "type_name v = ''list''" "storable v"
      using partial_value [OF M sub' Some] M Some by (simp_all add: storable_map_def)
    then show ?thesis
      using Some by (cases v) simp_all
  qed simp
  then obtain ys where ys: "M k = None \<and> ys = [] \<or> M k = Some (VList ys)" "\<forall>y\<in>set ys. plain y"
    by blast
  have "next_val M r (VList (ys @ [d]))"
    using ys d w k by (auto simp: next_val_def fits_def rows_at_def)
  then show ?thesis
    by blast
qed

lemma next_map:
  assumes M: "storable_map M" and w: "storable (VMap f)"
    and sub: "add_mset r (rows_at k (M k)) \<subseteq># rows_of k (VMap f)" and k: "r_key r = k"
  shows "\<exists>v. next_val M r v"
proof -
  have fin: "finite (dom f)"
    using w by simp
  have r: "r \<in># rows_of k (VMap f)" "rows_at k (M k) \<subseteq># rows_of k (VMap f) - {#r#}"
    using sub [unfolded insert_subset_eq_iff] by blast+
  obtain s d where d: "f s = Some d" "r = mk_row k s ''hashmap'' d"
    using r(1) map_rows_mem [OF fin] by blast
  have sub': "rows_at k (M k) \<subseteq># rows_of k (VMap f)"
    using r(2) diff_subset_eq_self subset_mset.trans by blast
  have "\<exists>g. (M k = None \<and> g = Map.empty \<or> M k = Some (VMap g)) \<and> rows_of k (VMap g) = rows_at k (M k) \<and> finite (dom g)"
  proof (cases "M k")
    case (Some v)
    have "type_name v = ''hashmap''" "storable v"
      using partial_value [OF M sub' Some] M Some by (simp_all add: storable_map_def)
    then show ?thesis
      using Some by (cases v) (simp_all add: rows_at_def)
  qed (simp add: rows_at_def)
  then obtain g where g: "M k = None \<and> g = Map.empty \<or> M k = Some (VMap g)" "rows_of k (VMap g) = rows_at k (M k)"
      "finite (dom g)"
    by blast
  have fs: "finite (dom (f(s := None)))"
    using fin by simp
  have "rows_of k (VMap f) = add_mset r (rows_of k (VMap (f(s := None))))"
    using map_rows_add [OF fs, of s k d] d by (simp add: fun_upd_idem del: rows_of.simps)
  then have "rows_of k (VMap g) \<subseteq># rows_of k (VMap (f(s := None)))"
    using r(2) g(2) by simp
  then have gf: "(f(s := None)) t = Some y" if "g t = Some y" for t y
    using map_rows_mem [OF g(3), of "mk_row k t ''hashmap'' y" k] map_rows_mem [OF fs, of "mk_row k t ''hashmap'' y" k] that
    by (auto dest: mset_subset_eqD simp del: rows_of.simps)
  have gf: "t \<noteq> s \<and> f t = Some y" if "g t = Some y" for t y
    using gf [OF that] by (simp split: if_splits)
  have gs: "g s = None"
    using gf [of s] by (cases "g s") simp_all
  have nc: "no_collision f t" if "f t = Some y" for t y
    using w that by simp
  have sub2: "f t \<noteq> None" if "g t \<noteq> None" for t
    using gf that by blast
  have sub1: "f t \<noteq> None" if "(g(s \<mapsto> d)) t \<noteq> None" for t
    using sub2 that d(1) by (cases "t = s") simp_all
  have "storable (VMap (g(s \<mapsto> d)))"
  proof -
    have "plain t \<and> plain y \<and> no_collision (g(s \<mapsto> d)) t" if "(g(s \<mapsto> d)) t = Some y" for t y
    proof -
      have ft: "f t = Some y"
        using that gf [of t y] d(1) by (auto split: if_splits)
      have "no_collision (g(s \<mapsto> d)) t"
        by (rule no_collision_mono [OF nc [OF ft] sub1])
      then show ?thesis
        using w ft by simp
    qed
    then show ?thesis
      using g(3) by auto
  qed
  moreover have "no_collision g s"
    by (rule no_collision_mono [OF nc [OF d(1)] sub2])
  then have "fits M r (VMap (g(s \<mapsto> d)))"
    unfolding fits_def Let_def using g(1) gs d k by auto
  moreover have "rows_of (r_key r) (VMap (g(s \<mapsto> d))) = add_mset r (rows_at (r_key r) (M (r_key r)))"
    using map_rows_add [OF g(3) gs, of k d] g(2) d(2) k by (simp del: rows_of.simps)
  ultimately show ?thesis
    unfolding next_val_def by blast
qed

lemma next_set:
  assumes M: "storable_map M" and w: "storable (VSet X)"
    and sub: "add_mset r (rows_at k (M k)) \<subseteq># rows_of k (VSet X)" and k: "r_key r = k"
  shows "\<exists>v. next_val M r v"
proof -
  have r: "r \<in># rows_of k (VSet X)" "rows_at k (M k) \<subseteq># rows_of k (VSet X) - {#r#}"
    using sub [unfolded insert_subset_eq_iff] by blast+
  obtain s where s: "s \<in> X" "r = mk_row k s ''set'' ''null''"
    using r(1) w by auto
  have sub': "rows_at k (M k) \<subseteq># rows_of k (VSet X)"
    using r(2) diff_subset_eq_self subset_mset.trans by blast
  have "\<exists>Y. (M k = None \<and> Y = {} \<or> M k = Some (VSet Y)) \<and> rows_of k (VSet Y) = rows_at k (M k) \<and> finite Y"
  proof (cases "M k")
    case (Some v)
    have "type_name v = ''set''" "storable v"
      using partial_value [OF M sub' Some] M Some by (simp_all add: storable_map_def)
    then show ?thesis
      using Some by (cases v) (simp_all add: rows_at_def)
  qed (simp add: rows_at_def)
  then obtain Y where Y: "M k = None \<and> Y = {} \<or> M k = Some (VSet Y)" "rows_of k (VSet Y) = rows_at k (M k)" "finite Y"
    by blast
  have "rows_of k (VSet X) - {#r#} = rows_of k (VSet (X - {s}))"
    using s w mset_set.remove [of X s] by simp
  then have "image_mset r_skey (rows_of k (VSet Y)) \<subseteq># image_mset r_skey (rows_of k (VSet (X - {s})))"
    using r(2) Y(2) by (intro image_mset_subseteq_mono) simp
  then have "Y \<subseteq> X - {s}"
    using w Y(3) by (simp add: multiset.map_comp comp_def)
  then have yx: "Y \<subseteq> X" "insert s Y \<subseteq> X" "s \<notin> Y"
    using s(1) by auto
  have nc: "no_collision (\<lambda>t. if t \<in> Z then Some [] else None) u" if "Z \<subseteq> X" "u \<in> X" for u Z
    by (rule no_collision_mono [of "\<lambda>t. if t \<in> X then Some [] else None"]) (use w that in \<open>auto split: if_splits\<close>)
  have "storable (VSet (insert s Y))"
    using w Y(3) yx nc [OF yx(2)] unfolding storable.simps by blast
  moreover have "fits M r (VSet (insert s Y))"
    unfolding fits_def Let_def using Y(1) s k nc [OF yx(1) s(1)] by auto
  moreover have "rows_of (r_key r) (VSet (insert s Y)) = add_mset r (rows_at (r_key r) (M (r_key r)))"
    using Y(2,3) yx(3) s(2) k by (simp flip: Y(2))
  ultimately show ?thesis
    unfolding next_val_def by blast
qed

lemma next_row:
  assumes M1: "storable_map M1" "mirrors D M1" and M: "storable_map M" "mirrors (add_mset r D + E) M"
  shows "\<exists>v. fits M1 r v \<and> storable_map (M1(r_key r \<mapsto> v)) \<and> mirrors (add_mset r D) (M1(r_key r \<mapsto> v))"
proof -
  let ?k = "r_key r"
  have D: "key_rows ?k D = rows_at ?k (M1 ?k)"
    using M1(2) by (simp add: mirrors_def)
  have "key_rows ?k (add_mset r D + E) = rows_at ?k (M ?k)"
    using M(2) by (simp only: mirrors_def)
  then have "add_mset r (rows_at ?k (M1 ?k)) + key_rows ?k E = rows_at ?k (M ?k)"
    by (simp add: key_rows_def D [unfolded key_rows_def])
  moreover from this obtain w where w: "M ?k = Some w"
    by (cases "M ?k") (simp_all add: rows_at_def)
  ultimately have "rows_of ?k w = add_mset r (rows_at ?k (M1 ?k)) + key_rows ?k E"
    by (simp add: rows_at_def)
  then have sub: "add_mset r (rows_at ?k (M1 ?k)) \<subseteq># rows_of ?k w"
    by (simp only: mset_subset_eq_add_left)
  have ok: "storable w" "plain ?k"
    using M(1) w by (simp_all add: storable_map_def)
  have "\<exists>v. next_val M1 r v"
  proof (cases w)
    case (VString s)
    then have "r = mk_row ?k ''null'' ''string'' s" "rows_at ?k (M1 ?k) = {#}"
      using sub by (auto simp: insert_subset_eq_iff)
    moreover from this have "M1 ?k = None"
      using storable_fresh [OF M1(1)] by blast
    ultimately have "next_val M1 r (VString s)"
      using ok VString by (cases r) (auto simp: next_val_def fits_def mk_row_def)
    then show ?thesis
      by blast
  qed (use next_list [OF M1(1)] next_map [OF M1(1)] next_set [OF M1(1)] sub ok(1) in blast)+
  then obtain v where v: "fits M1 r v" "storable v" "rows_of ?k v = add_mset r (rows_at ?k (M1 ?k))"
    by (auto simp: next_val_def)
  have "mirrors (add_mset r D) (M1(?k \<mapsto> v))"
    using M1(2) v(3) by (simp add: mirrors_def rows_at_def)
  then show ?thesis
    using v storable_map_update(1) [OF M1(1) ok(2) v(2)] by blast
qed

section \<open>Loading the table\<close>

lemma run_hook_Cons: "run_hook h (r # rs) e = Option.bind (h r e) (run_hook h rs)"
proof -
  have none: "fold (\<lambda>row st. Option.bind st (h row)) rs None = None" for rs
    by (induction rs) simp_all
  show ?thesis
    by (cases "h r e") (simp_all add: run_hook_def none)
qed

lemma load_rows_ok:
  assumes "e_rep e N M1" "storable_map M1" "mirrors D M1" "storable_map M" "mirrors (D + mset rs) M"
    and "card (dom M1) + length rs \<le> 2 ^ 30" "e_next e + length rs < 2 ^ 64"
  shows "\<exists>e' N' M2. run_hook (xfiredb_load x) (map cells rs) e = Some e' \<and> e_rep e' N' M2 \<and> e_bio e' = e_bio e \<and>
    storable_map M2 \<and> mirrors (D + mset rs) M2"
  using assms
proof (induction rs arbitrary: e N M1 D)
  case Nil
  then show ?case
    by (auto simp: run_hook_def)
next
  case (Cons r rs)
  have "mirrors (add_mset r D + mset rs) M"
    using Cons.prems(5) by simp
  then obtain v where v: "fits M1 r v" "storable_map (M1(r_key r \<mapsto> v))" "mirrors (add_mset r D) (M1(r_key r \<mapsto> v))"
    using next_row [OF Cons.prems(2,3,4)] by blast
  have "room_for e M1"
    using Cons.prems(6,7) by (simp add: room_for_def)
  then obtain e1 N1 where e1: "xfiredb_load x (cells r) e = Some e1" "e_rep e1 N1 (M1(r_key r \<mapsto> v))"
      "e_next e1 \<le> e_next e + 1" "e_bio e1 = e_bio e"
    using load_row_ok [OF Cons.prems(1) _ v(1), of x] by (auto simp: loads_def)
  have "card (dom (M1(r_key r \<mapsto> v))) \<le> card (dom M1) + 1"
    using card_insert_le_m1 [of "card (dom M1) + 1" "dom M1" "r_key r"] by simp
  then have "\<exists>e' N' M2. run_hook (xfiredb_load x) (map cells rs) e1 = Some e' \<and> e_rep e' N' M2 \<and> e_bio e' = e_bio e1 \<and>
      storable_map M2 \<and> mirrors (add_mset r D + mset rs) M2"
    by (intro Cons.IH [OF e1(2) v(2,3) Cons.prems(4)]) (use Cons.prems(5-7) e1(3) in \<open>auto simp del: fun_upd_apply\<close>)
  then show ?case
    using e1(1,4) by (auto simp: run_hook_Cons)
qed

text \<open>The maps before and after a restart.\<close>

definition restored :: "dbval \<Rightarrow> dbval \<Rightarrow> bool" where
  "restored M M2 \<longleftrightarrow> (\<forall>k. rel_option same_val (M k) (M2 k))"

lemma mirrors_restored:
  assumes "mirrors T M" "mirrors T M2" "storable_map M" "storable_map M2"
  shows "restored M M2"
  unfolding restored_def
proof
  fix k
  have eq: "rows_at k (M k) = rows_at k (M2 k)"
    using assms(1,2) by (simp add: mirrors_def)
  show "rel_option same_val (M k) (M2 k)"
  proof (cases "M k")
    case None
    then have "M2 k = None"
      using eq storable_fresh [OF assms(4), of k] by (simp add: rows_at_def)
    then show ?thesis
      using None by simp
  next
    case (Some v)
    have "M2 k \<noteq> None"
      using eq storable_fresh [OF assms(3), of k] Some by (cases "M2 k") (simp_all add: rows_at_def)
    then obtain w where w: "M2 k = Some w"
      by blast
    have "same_val v w"
      by (rule same_rows [of k]) (use eq Some w assms(3,4) in \<open>simp_all add: rows_at_def storable_map_def\<close>)
    then show ?thesis
      using Some w by simp
  qed
qed

lemma xfiredb_init_ok:
  assumes sql: "sqlite_sem sql tbl" "disk_rows tbl d = Some T" and M: "mirrors T M" "storable_map M" and size: "size T \<le> 2 ^ 30"
  shows "\<exists>d' e N M2. xfiredb_init sql x d = Some (d', e) \<and> disk_rows tbl d' = Some T \<and> e_rep e N M2 \<and>
    e_bio e = bio_init \<and> restored M M2"
proof -
  obtain rs where rs: "sql DISK_SELECT_ALL (handle d) = (SQLITE_OK, map cells rs, handle d)" "mset rs = T"
    using sqlite_reads(1) [OF sql] by blast
  have len: "length rs \<le> 2 ^ 30"
    using size rs(2) by auto
  have init: "e_rep engine_init (\<lambda>_. []) Map.empty" "storable_map Map.empty"
    using engine_start [of "\<lparr>x_dict = undefined, x_mem = undefined, x_coins = undefined, x_plvl = 0\<rparr>"] by simp_all
  have "\<exists>e' N' M2. run_hook (xfiredb_load x) (map cells rs) engine_init = Some e' \<and> e_rep e' N' M2 \<and>
      e_bio e' = e_bio engine_init \<and> storable_map M2 \<and> mirrors ({#} + mset rs) M2"
    by (rule load_rows_ok [OF init mirrors_empty M(2)]) (use M(1) rs(2) len in \<open>simp_all add: engine_init_def\<close>)
  then obtain e N M2 where e: "run_hook (xfiredb_load x) (map cells rs) engine_init = Some e" "e_rep e N M2"
      "e_bio e = bio_init" "storable_map M2" "mirrors T M2"
    using rs(2) by (auto simp: engine_init_def)
  have "xfiredb_init sql x d = Some (d\<lparr>handle := handle d\<rparr>, e)"
    using rs(1) e(1) by (simp add: xfiredb_init_def disk_load_def sqlite3_exec_def)
  then show ?thesis
    using e(2,3) sql(2) mirrors_restored [OF M(1) e(5) M(2) e(4)] by (auto simp: disk_rows_def)
qed

end
