(* ===== verification/Durable.thy ===== *)
theory Durable
  imports EngineProps Restart
begin

text \<open>
  The properties of hash map and list updates, of sequences of requests, and of a restart from
  the disk.
\<close>

section \<open>Samples\<close>

lemma sample_start: "e_rep engine_init (\<lambda>_. []) Map.empty" "e_io sample_conf engine_init []"
  "room_for engine_init Map.empty" "storable_map Map.empty"
  using engine_start [of sample_conf] by (simp_all add: sample_conf_def)

lemma sample_room: "e_next e = 2 \<Longrightarrow> room_for e [k \<mapsto> v]"
  by (simp add: room_for_def)

lemma sample_map:
  obtains e N where "xfiredb_hashmap_set sample_conf ''k'' ''a'' ''v'' engine_init = Some (0, e)"
    "e_rep e N [''k'' \<mapsto> VMap [''a'' \<mapsto> ''v'']]" "e_io sample_conf e [(Some ''k'', Some ''a'', Some ''v'', HM_ADD)]"
    "room_for e [''k'' \<mapsto> VMap [''a'' \<mapsto> ''v'']]"
proof -
  have "key_hash ''a'' \<noteq> SKIPLIST_MAX_SIZE"
    by code_simp
  then have "no_collision (map_at Map.empty ''k'') ''a''"
    by (simp add: no_collision_def map_at_def)
  then obtain e N where e: "xfiredb_hashmap_set sample_conf ''k'' ''a'' ''v'' engine_init = Some (0, e)"
      "e_rep e N [''k'' \<mapsto> VMap [''a'' \<mapsto> ''v'']]" "e_io sample_conf e [(Some ''k'', Some ''a'', Some ''v'', HM_ADD)]"
      "e_next e \<le> e_next engine_init + 1"
    using xfiredb_hashmap_set_ok [OF sample_start(1-3), of "''k''" "''a''" "''v''"]
    by (auto simp: refines_def spec_hashmap_set_def)
  have "room_for e [''k'' \<mapsto> VMap [''a'' \<mapsto> ''v'']]"
    using e(4) by (simp add: room_for_def engine_init_def)
  then show thesis
    using that e by blast
qed

section \<open>Hash maps\<close>

text \<open>
  C14: without a collision of key hashes, \<^verbatim>\<open>xfiredb_hashmap_set\<close> binds the secondary key and queues the
  insertion or the update of its row, \<^verbatim>\<open>xfiredb_hashmap_get\<close> returns the value of every requested key or
  nothing, and \<^verbatim>\<open>xfiredb_hashmap_remove\<close> removes the requested keys, queues one deletion for each key that was
  present, returns their number, and drops the key of a map that it emptied.
\<close>

theorem engine_hashmap_refines:
  assumes "e_rep e N M" "e_io x e Q" "room_for e M" "no_collision (map_at M k) sk"
    and "\<forall>s\<in>set sks. no_collision (map_at M k) s" "card (dom (map_at M k)) < 2 ^ 31"
  shows "(\<exists>e' N'. xfiredb_hashmap_set x k sk s e = Some (fst (spec_hashmap_set k sk s M), e') \<and>
      e_rep e' N' (fst (snd (spec_hashmap_set k sk s M))) \<and> e_io x e' (Q @ snd (snd (spec_hashmap_set k sk s M)))) \<and>
    (\<exists>e'. xfiredb_hashmap_get k sks e = Some (fst (spec_hashmap_get k sks M), snd (spec_hashmap_get k sks M), e') \<and>
      e_rep e' N M) \<and>
    (\<exists>e' N'. xfiredb_hashmap_remove x k sks e = Some (fst (spec_hashmap_remove k sks M), e') \<and>
      e_rep e' N' (fst (snd (spec_hashmap_remove k sks M))) \<and> e_io x e' (Q @ snd (snd (spec_hashmap_remove k sks M))))"
proof -
  have "no_collision f s" if "M k = Some (VMap f)" "s \<in> set sks" for f s
    using assms(5) that by (simp add: map_at_def)
  then show ?thesis
    using xfiredb_hashmap_set_ok [OF assms(1-4), of s] xfiredb_hashmap_get_ok [OF assms(1), of k sks]
      xfiredb_hashmap_remove_ok [OF assms(1,2,5,6)]
    by (auto simp: refines_def split: prod.splits)
qed

theorem engine_hashmap_refines_witness:
  "\<exists>e e1 e2 N'. xfiredb_hashmap_set sample_conf ''k'' ''a'' ''v'' engine_init = Some (0, e) \<and>
    xfiredb_hashmap_get ''k'' [''a'', ''b''] e = Some (0, [Some ''v'', None], e1) \<and>
    xfiredb_hashmap_remove sample_conf ''k'' [''a'', ''b''] e = Some (1, e2) \<and> e_rep e2 N' Map.empty"
proof -
  let ?M = "[''k'' \<mapsto> VMap [''a'' \<mapsto> ''v'']]"
  obtain e N where e: "xfiredb_hashmap_set sample_conf ''k'' ''a'' ''v'' engine_init = Some (0, e)"
      "e_rep e N ?M" "e_io sample_conf e [(Some ''k'', Some ''a'', Some ''v'', HM_ADD)]" "room_for e ?M"
    using sample_map .
  have "key_hash ''a'' \<noteq> SKIPLIST_MAX_SIZE" "key_hash ''b'' \<noteq> SKIPLIST_MAX_SIZE" "key_hash ''a'' \<noteq> key_hash ''b''"
    by code_simp+
  then have c: "no_collision (map_at ?M ''k'') ''a''" "\<forall>s\<in>set [''a'', ''b'']. no_collision (map_at ?M ''k'') s"
      "card (dom (map_at ?M ''k'')) < 2 ^ 31"
    by (simp_all add: no_collision_def map_at_def)
  show ?thesis
    using engine_hashmap_refines [OF e(2-4) c, of "''v''"] e(1)
    by (auto simp: spec_hashmap_get_def spec_hashmap_remove_def)
qed

section \<open>Updates of lists\<close>

text \<open>
  C15: \<^verbatim>\<open>xfiredb_list_set\<close> replaces the element at an index of the list and queues the update of its row,
  creates the list of a new key, and appends the element when the index is not in the list; \<^verbatim>\<open>xfiredb_list_pop\<close>
  with ascending indices removes the elements at these indices, queues one deletion for each, and drops
  the key of a list that it emptied; both refuse a key of another type.
\<close>

theorem engine_list_update_refines:
  assumes "e_rep e N M" "e_io x e Q" "room_for e M" "idxs \<noteq> []" "sorted_wrt (<) idxs"
    and "\<forall>xs. M k = Some (VList xs) \<longrightarrow> length xs < 2 ^ 31 \<and> (\<forall>v\<in>set idxs. 0 \<le> v \<and> v < int (length xs))"
  shows "(\<exists>e' N'. xfiredb_list_set x k idx s e = Some (fst (spec_list_set k idx s M), e') \<and>
      e_rep e' N' (fst (snd (spec_list_set k idx s M))) \<and> e_io x e' (Q @ snd (snd (spec_list_set k idx s M)))) \<and>
    (\<exists>idx' e' N'. xfiredb_list_pop x k idxs (length idxs) e = Some (fst (spec_list_pop k idxs M), idx', e') \<and>
      e_rep e' N' (fst (snd (spec_list_pop k idxs M))) \<and> e_io x e' (Q @ snd (snd (spec_list_pop k idxs M))))"
proof -
  have len: "length xs < 2 ^ 31" if "M k = Some (VList xs)" for xs
    using assms(6) that by blast
  have pop: "length xs < 2 ^ 31 \<and> (\<forall>v\<in>set idxs. 0 \<le> v \<and> v < int (length xs))" if "M k = Some (VList xs)" for xs
    using assms(6) that by blast
  have "refines e x Q (xfiredb_list_set x k idx s e) (spec_list_set k idx s M)"
    by (rule xfiredb_list_set_ok [OF assms(1-3) len])
  moreover have "refines e x Q (map_option (\<lambda>(r, _, e). (r, e)) (xfiredb_list_pop x k idxs (length idxs) e)) (spec_list_pop k idxs M)"
    by (rule xfiredb_list_pop_ok [OF assms(1,2,4,5) pop])
  ultimately show ?thesis
    by (auto simp: refines_def split: prod.splits)
qed

theorem engine_list_update_refines_witness:
  "\<exists>e e1 e2 idx' N1 N2. xfiredb_list_push sample_conf ''k'' ''a'' False engine_init = Some (0, e) \<and>
    xfiredb_list_set sample_conf ''k'' 0 ''b'' e = Some (0, e1) \<and> e_rep e1 N1 [''k'' \<mapsto> VList [''b'']] \<and>
    xfiredb_list_pop sample_conf ''k'' [0] 1 e = Some (1, idx', e2) \<and> e_rep e2 N2 Map.empty"
proof -
  let ?M = "[''k'' \<mapsto> VList [''a'']]"
  obtain e N where e: "xfiredb_list_push sample_conf ''k'' ''a'' False engine_init = Some (0, e)" "e_rep e N ?M"
      "e_io sample_conf e [(Some ''k'', None, Some ''a'', LIST_ADD)]" "room_for e ?M"
    using xfiredb_list_push_ok [OF sample_start(1-3), of "''k''" "''a''" False]
    by (auto simp: refines_def spec_list_push_def room_for_def engine_init_def)
  have "nths [''a''] {j. int j \<notin> set [0]} = []"
    by (simp add: nths_Cons)
  then show ?thesis
    using engine_list_update_refines [OF e(2-4), of "[0]" "''k''" 0 "''b''"] e(1)
    by (auto simp: spec_list_set_def spec_list_pop_def)
qed

section \<open>Types\<close>

text \<open>The tag of the container of a key, and the agreement of every tag with the member of its union.\<close>

definition tag_at :: "engine \<Rightarrow> string \<Rightarrow> container_type option" where
  "tag_at e k = Option.bind (dbmap (e_db e) k) (\<lambda>p. map_option c_type (e_cont e p))"

definition well_typed :: "engine \<Rightarrow> bool" where
  "well_typed e \<longleftrightarrow> (\<forall>k p. dbmap (e_db e) k = Some p \<longrightarrow> (\<exists>c. e_cont e p = Some c \<and> container_get_data c \<noteq> None))"

lemma e_rep_typed:
  assumes "e_rep e N M"
  shows "well_typed e" "tag_at e k = map_option type_of (M k)"
proof -
  have none: "dbmap (e_db e) k = None \<longleftrightarrow> M k = None" for k
    using assms unfolding e_rep_def by blast
  have key: "\<exists>c v. M k = Some v \<and> e_cont e p = Some c \<and> c_type c = type_of v \<and> container_get_data c \<noteq> None"
    if p: "dbmap (e_db e) k = Some p" for k p
  proof -
    obtain v where k: "M k = Some v"
      using p none [of k] by (cases "M k") simp_all
    then have v: "M k = Some v" "key_rep e (N k) p v"
      using assms p unfolding e_rep_def by blast+
    obtain c where "e_cont e p = Some c" "is_val (e_strs e) c (N k) v" "c_type c = type_of v"
      using key_rep_cont [OF v(2)] .
    moreover from this have "container_get_data c \<noteq> None"
      using get_data_typed(3-6) [of "e_strs e" c "N k" v]
      by (cases v) (auto simp: get_string_def get_list_def get_map_def get_set_def split: option.splits)
    ultimately show ?thesis
      using v(1) by blast
  qed
  show "well_typed e"
    unfolding well_typed_def using key by blast
  show "tag_at e k = map_option type_of (M k)"
  proof (cases "dbmap (e_db e) k")
    case None
    then show ?thesis
      using none [of k] by (simp add: tag_at_def)
  next
    case (Some p)
    then show ?thesis
      using key [OF Some] by (auto simp: tag_at_def)
  qed
qed

lemma spec_map_type: "M k = Some v \<Longrightarrow> spec_map r M k = Some w \<Longrightarrow> type_of w = type_of v"
  by (cases r) (auto simp: spec_string_set_def spec_list_push_def spec_list_set_def spec_list_pop_def
    spec_hashmap_set_def spec_hashmap_remove_def split: val.splits option.splits if_splits)

text \<open>
  C16: a permitted request to an engine in which every container holds the member of the union that its tag
  names does not get stuck and keeps it so; a key that is there before and after the request keeps its
  type, and a key that has no container afterwards is free to take another one.
\<close>

theorem engine_requests_keep_types:
  assumes "e_rep e N M" "e_io x e Q" "room_for e M" "storable_map M" "allowed M r"
  shows "well_typed e \<and> (\<exists>rc e' N'. exec x r e = Some (rc, e') \<and> e_rep e' N' (spec_map r M) \<and> well_typed e' \<and>
    (\<forall>k. tag_at e' k = map_option type_of (spec_map r M k)) \<and>
    (\<forall>k t t'. tag_at e k = Some t \<and> tag_at e' k = Some t' \<longrightarrow> t' = t))"
proof -
  obtain rc e' N' where e': "exec x r e = Some (rc, e')" "e_rep e' N' (spec_map r M)"
    using exec_rep [OF assms] by blast
  have "t' = t" if "tag_at e k = Some t \<and> tag_at e' k = Some t'" for k t t'
    using that spec_map_type [of M k _ r] by (auto simp: e_rep_typed(2) [OF assms(1)] e_rep_typed(2) [OF e'(2)])
  then show ?thesis
    using e' e_rep_typed [OF assms(1)] e_rep_typed [OF e'(2)] by blast
qed

theorem engine_requests_keep_types_witness:
  "\<exists>rc e'. exec sample_conf (ListPush ''k'' ''a'' True) engine_init = Some (rc, e') \<and> well_typed e' \<and>
    tag_at e' ''k'' = Some CONTAINER_LIST"
proof -
  have "allowed Map.empty (ListPush ''k'' ''a'' True)"
    by (simp add: plain_def sq_def cstr_def)
  moreover have "spec_map (ListPush ''k'' ''a'' True) Map.empty ''k'' = Some (VList [''a''])"
    by (simp add: spec_list_push_def)
  ultimately show ?thesis
    using engine_requests_keep_types [OF sample_start] by fastforce
qed

section \<open>Runs and restarts\<close>

text \<open>
  C2: every sequence of permitted requests that gives each entry of the I/O queue a block of its own (a list is deleted as
  a whole only when it has at most one element) returns and leaves the engine in a state that stands for the
  map the requests describe; the entries it adds to the I/O queue take a table that holds the rows of the
  old map to one that holds exactly the rows of the new map, with at most one more row per request.
\<close>

theorem engine_requests_refine_map:
  assumes "e_rep e N M" "e_io x e Q" "storable_map M" "allowed_all M rs"
    and "card (dom M) + length rs \<le> 2 ^ 30" "e_next e + length rs < 2 ^ 64"
  shows "\<exists>rcs e' N' items. exec_all x rs e = Some (rcs, e') \<and> e_rep e' N' (fold spec_map rs M) \<and> e_io x e' (Q @ items) \<and>
    (\<forall>T. mirrors T M \<longrightarrow> mirrors (fold row_apply items T) (fold spec_map rs M) \<and>
       size (fold row_apply items T) \<le> size T + length rs)"
  using exec_all_ok [OF assms] by blast

definition sample_requests :: "request list" where
  "sample_requests = [StringSet ''s'' ''x'', ListPush ''l'' ''a'' False, ListPush ''l'' ''b'' True, KeyDelete ''s'']"

lemma sample_allowed: "allowed_all Map.empty sample_requests"
  by (simp add: sample_requests_def spec_string_set_def spec_list_push_def map_at_def list_at_def) (simp add: plain_def sq_def cstr_def)

lemma sample_result: "fold spec_map sample_requests Map.empty = [''l'' \<mapsto> VList [''b'', ''a'']]"
  by (auto simp: sample_requests_def spec_string_set_def spec_list_push_def)

theorem engine_requests_refine_map_witness:
  "\<exists>rcs e' N' items. exec_all sample_conf sample_requests engine_init = Some (rcs, e') \<and>
    e_rep e' N' [''l'' \<mapsto> VList [''b'', ''a'']] \<and> mirrors (fold row_apply items {#}) [''l'' \<mapsto> VList [''b'', ''a'']]"
proof -
  have "card (dom Map.empty) + length sample_requests \<le> 2 ^ 30" "e_next engine_init + length sample_requests < 2 ^ 64"
    by (simp_all add: sample_requests_def engine_init_def)
  then show ?thesis
    using engine_requests_refine_map [OF sample_start(1,2,4) sample_allowed] mirrors_empty unfolding sample_result by blast
qed

text \<open>
  C1: the database survives a restart, in a build with \<^verbatim>\<open>HAVE_DEBUG\<close>. After any sequence of permitted requests to an
  empty engine that gives each entry of the I/O queue a block of its own (a list is deleted as a whole only when it has at
  most one element), and with an SQLite that executes every statement, the worker empties the queue, and \<^verbatim>\<open>xfiredb_init\<close> on the table it left builds an engine in which every key has the
  value it had before, a list up to the order of its elements.
\<close>

theorem engine_survives_restart:
  assumes "sqlite_sem sql tbl" "disk_rows tbl d = Some {#}" "0 \<le> x_plvl x" "x_plvl x < 3"
    and "allowed_all Map.empty rs" "length rs \<le> 2 ^ 30"
  shows "\<exists>rcs e b d1 d2 e2 N M2. exec_all x rs engine_init = Some (rcs, e) \<and>
    bio_worker sql (e_bio e) d = Some (b, d1) \<and> holds b [] \<and> xfiredb_init sql x d1 = Some (d2, e2) \<and> e_rep e2 N M2 \<and>
    (\<forall>k. rel_option same_val (fold spec_map rs Map.empty k) (M2 k))"
proof -
  obtain rcs e N b d1 T where run: "exec_all x rs engine_init = Some (rcs, e)" "e_rep e N (fold spec_map rs Map.empty)"
      "bio_worker sql (e_bio e) d = Some (b, d1)" "holds b []" "disk_rows tbl d1 = Some T"
      "mirrors T (fold spec_map rs Map.empty)" "storable_map (fold spec_map rs Map.empty)" "size T \<le> length rs"
    using run_persists [OF assms] .
  have "size T \<le> 2 ^ 30"
    using run(8) assms(6) by simp
  then obtain d2 e2 N2 M2 where "xfiredb_init sql x d1 = Some (d2, e2)" "e_rep e2 N2 M2"
      "restored (fold spec_map rs Map.empty) M2"
    using xfiredb_init_ok [OF assms(1) run(5-7), of x] by blast
  then show ?thesis
    using run(1,3,4) unfolding restored_def by blast
qed

theorem engine_survives_restart_witness:
  "\<exists>rcs e b d1 d2 e2 N M2 xs. exec_all sample_conf sample_requests engine_init = Some (rcs, e) \<and>
    bio_worker mini_sql (e_bio e) (sample_disk []) = Some (b, d1) \<and> xfiredb_init mini_sql sample_conf d1 = Some (d2, e2) \<and>
    e_rep e2 N M2 \<and> M2 ''l'' = Some (VList xs) \<and> mset xs = {#''a'', ''b''#} \<and> M2 ''s'' = None"
proof -
  have x: "0 \<le> x_plvl sample_conf" "x_plvl sample_conf < 3" and len: "length sample_requests \<le> 2 ^ 30"
    by (simp_all add: sample_conf_def sample_requests_def)
  obtain rcs e b d1 d2 e2 N M2 where r: "exec_all sample_conf sample_requests engine_init = Some (rcs, e)"
      "bio_worker mini_sql (e_bio e) (sample_disk []) = Some (b, d1)" "xfiredb_init mini_sql sample_conf d1 = Some (d2, e2)"
      "e_rep e2 N M2" "\<forall>k. rel_option same_val (fold spec_map sample_requests Map.empty k) (M2 k)"
    using engine_survives_restart [OF mini_sem sample_rows(1) x sample_allowed len] by blast
  have "rel_option same_val (Some (VList [''b'', ''a''])) (M2 ''l'')" "rel_option same_val None (M2 ''s'')"
    using spec [OF r(5), of "''l''"] spec [OF r(5), of "''s''"] unfolding sample_result by simp_all
  moreover have "\<exists>xs. w = VList xs \<and> mset xs = {#''a'', ''b''#}" if "same_val (VList [''b'', ''a'']) w" for w
    using that by (cases w) (auto simp: add_mset_commute)
  ultimately have "(\<exists>xs. M2 ''l'' = Some (VList xs) \<and> mset xs = {#''a'', ''b''#}) \<and> M2 ''s'' = None"
    by (auto simp: option_rel_Some1)
  then show ?thesis
    using r(1-4) by blast
qed

end
