(* ===== verification/ClientSplit.thy ===== *)
theory ClientSplit
  imports XPrelude
begin

text \<open>
  String splitting of the C client (\<^verbatim>\<open>clients/c/split.c\<close>): counting a character and cutting a string at a
  delimiter with \<^verbatim>\<open>strtok\<close>. A string is the list of the characters before its terminator.
\<close>

section \<open>Model\<close>

text \<open>\<^verbatim>\<open>str_count_occurences\<close>: the loop advances the pointer before it compares.\<close>

fun occ_loop :: "string \<Rightarrow> char \<Rightarrow> int \<Rightarrow> int" where
  "occ_loop [] x rv = rv"
| "occ_loop (_ # s) x rv =
     occ_loop s x (if (case s of [] \<Rightarrow> CHR 0x00 | c # _ \<Rightarrow> c) = x then rv + 1 else rv)"

definition str_count_occurences :: "string \<Rightarrow> char \<Rightarrow> int" where
  "str_count_occurences s x = occ_loop s x 0"

text \<open>
  The first loop of \<^verbatim>\<open>str_split\<close>: the number of delimiters and the address of the last one, zero for the
  null pointer. \<open>tmp\<close> is the address of the rest of the string.
\<close>

fun count_loop :: "char \<Rightarrow> nat \<Rightarrow> string \<Rightarrow> nat \<Rightarrow> nat \<Rightarrow> nat \<times> nat" where
  "count_loop a_delim tmp [] count last_comma = (count, last_comma)"
| "count_loop a_delim tmp (c # s) count last_comma =
     (if a_delim = c then count_loop a_delim (tmp + 1) s (count + 1) tmp
      else count_loop a_delim (tmp + 1) s count last_comma)"

text \<open>\<^verbatim>\<open>strtok\<close> with one delimiter: the next token and the rest that the next call starts with.\<close>

definition strtok :: "char \<Rightarrow> string \<Rightarrow> (string \<times> string) option" where
  "strtok d s =
     (case dropWhile (\<lambda>c. c = d) s of
        [] \<Rightarrow> None
      | s' \<Rightarrow> Some (takeWhile (\<lambda>c. c \<noteq> d) s', drop 1 (dropWhile (\<lambda>c. c \<noteq> d) s')))"

lemma strtok_shorter: "strtok d s = Some (t, r) \<Longrightarrow> length r < length s"
proof (cases "dropWhile (\<lambda>c. c = d) s")
  case (Cons x xs)
  assume "strtok d s = Some (t, r)"
  then have "length r \<le> length xs"
    using Cons length_dropWhile_le [of "\<lambda>c. c \<noteq> d" xs] by (auto simp: strtok_def split: if_splits)
  then show ?thesis
    using Cons length_dropWhile_le [of "\<lambda>c. c = d" s] by simp
qed (simp add: strtok_def)

text \<open>The second loop: \<open>result\<close> is the filled part of the array. A failing \<^verbatim>\<open>assert\<close> aborts.\<close>

function split_loop :: "char \<Rightarrow> nat \<Rightarrow> string list \<Rightarrow> string \<Rightarrow> string list option" where
  "split_loop d count result s =
     (case strtok d s of
        None \<Rightarrow> if length result = count - 1 then Some result else None
      | Some (token, s') \<Rightarrow>
          if length result < count then split_loop d count (result @ [token]) s' else None)"
  by pat_completeness auto
termination
  by (relation "measure (\<lambda>(_, _, _, s). length s)") (auto dest: strtok_shorter)

declare split_loop.simps [simp del]

text \<open>\<^verbatim>\<open>str_split\<close> of the string at address \<open>a_str\<close>; the null pointer behind the last element is left out.\<close>

definition str_split :: "nat \<Rightarrow> string \<Rightarrow> char \<Rightarrow> string list option" where
  "str_split a_str s a_delim =
     (let (count, last_comma) = count_loop a_delim a_str s 0 0;
          count = count + (if last_comma < a_str + length s - 1 then 1 else 0);
          count = count + 1
      in split_loop a_delim count [] s)"

section \<open>Counting\<close>

lemma occ_loop_eq: "x \<noteq> CHR 0x00 \<Longrightarrow> occ_loop s x rv = rv + int (count_list (tl s) x)"
  by (induction s x rv rule: occ_loop.induct) (auto split: list.splits)

lemma str_count_eq: "x \<noteq> CHR 0x00 \<Longrightarrow> str_count_occurences s x = int (count_list (tl s) x)"
  by (simp add: str_count_occurences_def occ_loop_eq)

lemma count_loop_count: "fst (count_loop d p s n l) = n + count_list s d"
  by (induction d p s n l rule: count_loop.induct) auto

lemma count_loop_last:
  "s \<noteq> [] \<Longrightarrow> l < p \<Longrightarrow> snd (count_loop d p s n l) < p + length s - 1 \<longleftrightarrow> last s \<noteq> d"
proof (induction s arbitrary: p n l)
  case (Cons c s)
  show ?case
  proof (cases "s = []")
    case False
    then show ?thesis
      using Cons.IH [of l "p + 1"] Cons.IH [of p "p + 1"] Cons.prems by auto
  qed (use Cons.prems in auto)
qed simp

text \<open>The number of elements that \<^verbatim>\<open>str_split\<close> expects: one more unless the string ends with a delimiter.\<close>

definition expected :: "string \<Rightarrow> char \<Rightarrow> nat" where
  "expected s d = count_list s d + (if s \<noteq> [] \<and> last s = d then 0 else 1)"

lemma str_split_expected:
  assumes "2 \<le> a"
  shows "str_split a s d = split_loop d (expected s d + 1) [] s"
proof -
  have "snd (count_loop d a s 0 0) < a + length s - 1 \<longleftrightarrow> \<not> (s \<noteq> [] \<and> last s = d)"
    using count_loop_last [of s 0 a d] assms by (cases "s = []") auto
  then show ?thesis
    using count_loop_count [of d a s 0 0]
    by (cases "count_loop d a s 0 0") (simp add: str_split_def expected_def)
qed

section \<open>Splitting\<close>

fun join_with :: "char \<Rightarrow> string list \<Rightarrow> string" where
  "join_with d [] = []"
| "join_with d [w] = w"
| "join_with d (w # ws) = w @ d # join_with d ws"

text \<open>The tokens of a string.\<close>

function strtoks :: "char \<Rightarrow> string \<Rightarrow> string list" where
  "strtoks d s = (case strtok d s of None \<Rightarrow> [] | Some (t, r) \<Rightarrow> t # strtoks d r)"
  by pat_completeness auto
termination
  by (relation "measure (\<lambda>(_, s). length s)") (auto dest: strtok_shorter)

declare strtoks.simps [simp del]

lemma split_loop_eq:
  "split_loop d n result s = (if length result + length (strtoks d s) = n - 1 then Some (result @ strtoks d s) else None)"
  if "0 < n"
  using that
proof (induction d n result s rule: split_loop.induct)
  case (1 d n result s)
  show ?case
  proof (cases "strtok d s")
    case None
    then show ?thesis
      by (simp add: split_loop.simps [of d n] strtoks.simps [of d s])
  next
    case (Some tr)
    then obtain t r where tr: "strtok d s = Some (t, r)"
      by (cases tr) auto
    then show ?thesis
      using 1 by (auto simp: split_loop.simps [of d n result s] strtoks.simps [of d s])
  qed
qed

lemma str_split_eq:
  "2 \<le> a \<Longrightarrow> str_split a s d = (if length (strtoks d s) = expected s d then Some (strtoks d s) else None)"
  by (simp add: str_split_expected split_loop_eq)

text \<open>The tokens of a string, by its first character.\<close>

lemma strtoks_Nil [simp]: "strtoks d [] = []"
  by (simp add: strtoks.simps [of d "[]"] strtok_def)

lemma strtoks_delim [simp]: "strtoks d (d # s) = strtoks d s"
  by (simp add: strtoks.simps [of d "d # s"] strtoks.simps [of d s] strtok_def)

lemma strtoks_word:
  assumes "w \<noteq> []" "d \<notin> set w"
  shows "strtoks d (w @ d # s) = w # strtoks d s" "strtoks d w = [w]"
proof -
  obtain c cs where w: "w = c # cs"
    using assms(1) by (cases w) auto
  have all: "\<forall>x\<in>set w. x \<noteq> d"
    using assms(2) by auto
  have dw: "dropWhile (\<lambda>c. c = d) (w @ r) = w @ r" for r
    using all w by simp
  have tw: "takeWhile (\<lambda>c. c \<noteq> d) (w @ d # s) = w" "dropWhile (\<lambda>c. c \<noteq> d) (w @ d # s) = d # s"
      "takeWhile (\<lambda>c. c \<noteq> d) w = w" "dropWhile (\<lambda>c. c \<noteq> d) w = []"
    using all by (simp_all add: takeWhile_append2 dropWhile_append2)
  have "strtok d (w @ d # s) = Some (w, s)" "strtok d w = Some (w, [])"
    using dw [of "d # s"] dw [of "[]"] tw w unfolding strtok_def by (auto split: list.split)
  then show "strtoks d (w @ d # s) = w # strtoks d s" "strtoks d w = [w]"
    by (simp_all add: strtoks.simps [of d "w @ d # s"] strtoks.simps [of d w])
qed

lemma strtoks_join:
  "\<forall>w\<in>set ws. w \<noteq> [] \<and> d \<notin> set w \<Longrightarrow> strtoks d (join_with d ws) = ws"
  by (induction d ws rule: join_with.induct) (simp_all add: strtoks_word)

lemma join_count:
  assumes "ws \<noteq> []" "\<forall>w\<in>set ws. w \<noteq> [] \<and> d \<notin> set w"
  shows "join_with d ws \<noteq> []" "hd (join_with d ws) \<noteq> d" "last (join_with d ws) \<noteq> d"
    "count_list (join_with d ws) d = length ws - 1"
proof -
  have "join_with d ws \<noteq> [] \<and> hd (join_with d ws) \<noteq> d \<and> last (join_with d ws) \<noteq> d \<and>
      count_list (join_with d ws) d = length ws - 1"
    using assms
  proof (induction d ws rule: join_with.induct)
    case (2 d w)
    then show ?case
      by (auto simp: count_list_0_iff dest: hd_in_set last_in_set)
  next
    case (3 d w v ws)
    then have "count_list w d = 0" "hd w \<noteq> d"
      by (auto simp: count_list_0_iff dest: hd_in_set)
    then show ?case
      using 3 by (auto simp: hd_append)
  qed simp
  then show "join_with d ws \<noteq> []" "hd (join_with d ws) \<noteq> d" "last (join_with d ws) \<noteq> d"
    "count_list (join_with d ws) d = length ws - 1"
    by blast+
qed

lemma count_list_tl: "s \<noteq> [] \<Longrightarrow> hd s \<noteq> x \<Longrightarrow> count_list (tl s) x = count_list s x"
  by (cases s) simp_all

text \<open>The two counts that the client keeps of a list of words agree.\<close>

lemma split_counts_ok:
  assumes "ws \<noteq> []" "\<forall>w\<in>set ws. w \<noteq> [] \<and> d \<notin> set w" "2 \<le> a" "d \<noteq> CHR 0x00"
  shows "str_split a (join_with d ws) d = Some ws" "str_count_occurences (join_with d ws) d + 1 = int (length ws)"
proof -
  have "expected (join_with d ws) d = length ws"
    using join_count [OF assms(1,2)] assms(1) by (simp add: expected_def)
  then show "str_split a (join_with d ws) d = Some ws"
    using str_split_eq [OF assms(3)] strtoks_join [OF assms(2)] by simp
  show "str_count_occurences (join_with d ws) d + 1 = int (length ws)"
    using join_count [OF assms(1,2)] assms(1)
    by (simp add: str_count_eq [OF assms(4)] count_list_tl of_nat_diff Suc_le_eq)
qed

section \<open>Aborts\<close>

fun doubled :: "char \<Rightarrow> string \<Rightarrow> bool" where
  "doubled d (x # y # s) \<longleftrightarrow> x = d \<and> y = d \<or> doubled d (y # s)"
| "doubled d _ \<longleftrightarrow> False"

lemma strtoks_char:
  assumes "c \<noteq> d"
  shows "length (strtoks d (c # s)) = (if s = [] \<or> hd s = d then 1 else 0) + length (strtoks d s)"
proof -
  have one: "strtoks d (e # r) = (e # takeWhile (\<lambda>c. c \<noteq> d) r) # strtoks d (drop 1 (dropWhile (\<lambda>c. c \<noteq> d) r))"
    if "e \<noteq> d" for e r
    using that by (simp add: strtoks.simps [of d "e # r"] strtok_def)
  show ?thesis
  proof (cases s)
    case (Cons e r)
    then show ?thesis
      using one [OF assms, of s] one [of e r] by (cases "e = d") auto
  qed (use one [OF assms, of "[]"] in simp)
qed

lemma expected_Cons: "s \<noteq> [] \<Longrightarrow> expected (c # s) d = (if c = d then 1 else 0) + expected s d"
  by (simp add: expected_def)

lemma strtoks_expected:
  "length (strtoks d s) \<le> expected s d \<and> (length (strtoks d s) = expected s d \<longleftrightarrow> s \<noteq> [] \<and> hd s \<noteq> d \<and> \<not> doubled d s)"
proof (induction s rule: induct_list012)
  case 1
  then show ?case
    by (simp add: expected_def)
next
  case (2 c)
  then show ?case
    by (cases "c = d") (simp_all add: expected_def strtoks_char)
next
  case (3 c e s)
  consider "c = d" | "c \<noteq> d" "e \<noteq> d" | "c \<noteq> d" "e = d"
    by blast
  then show ?case
  proof cases
    case 1
    then show ?thesis
      using 3 by (simp add: expected_Cons)
  next
    case 2
    then show ?thesis
      using 3 by (simp add: expected_Cons strtoks_char)
  next
    case c: 3
    show ?thesis
    proof (cases s)
      case Nil
      then show ?thesis
        using c by (simp add: expected_def strtoks_char)
    next
      case (Cons f r)
      then show ?thesis
        using 3(1) c by (auto simp: expected_Cons strtoks_char [OF c(1)])
    qed
  qed
qed

lemma str_split_aborts_iff: "2 \<le> a \<Longrightarrow> str_split a s d = None \<longleftrightarrow> s = [] \<or> hd s = d \<or> doubled d s"
  using strtoks_expected [of d s] by (auto simp: str_split_eq)

section \<open>Properties\<close>

text \<open>
  C32: \<^verbatim>\<open>str_split\<close> inverts joining: it cuts a string of non-empty words, separated by single delimiters, into
  these words, its assertions hold, and \<^verbatim>\<open>str_count_occurences\<close> plus one is the number of the words, so
  that the client reads as many entries as the array has.
\<close>

theorem str_split_inverts_join:
  assumes "ws \<noteq> []" "\<forall>w\<in>set ws. w \<noteq> [] \<and> d \<notin> set w" "2 \<le> a" "d \<noteq> CHR 0x00"
  shows "str_split a (join_with d ws) d = Some ws \<and> str_count_occurences (join_with d ws) d + 1 = int (length ws)"
  using split_counts_ok [OF assms] by blast

theorem str_split_inverts_join_witness:
  "str_split 4096 ''3 15 4'' (CHR '' '') = Some [''3'', ''15'', ''4''] \<and> str_count_occurences ''3 15 4'' (CHR '' '') + 1 = 3"
  using str_split_inverts_join [of "[''3'', ''15'', ''4'']" "CHR '' ''" 4096] by simp

text \<open>
  \<^verbatim>\<open>str_split\<close> aborts the program exactly on an empty string, a leading delimiter or two delimiters in a
  row; an empty string is what the client reads when the server has closed the connection.
\<close>

theorem str_split_aborts:
  assumes "2 \<le> a"
  shows "(str_split a s d = None \<longleftrightarrow> s = [] \<or> hd s = d \<or> doubled d s) \<and> str_split a [] d = None"
  using assms by (simp add: str_split_aborts_iff)

theorem str_split_aborts_witness:
  "str_split 4096 ''1  2'' (CHR '' '') = None \<and> str_split 4096 [] (CHR '' '') = None"
  using str_split_aborts [of 4096 "''1  2''" "CHR '' ''"] by simp

end
