(* ===== verification/ClientResult.thy ===== *)
theory ClientResult
  imports XPrelude "HOL-Library.Monad_Syntax"
begin

text \<open>
  Query results of the C client (\<^verbatim>\<open>clients/c/result.c\<close> and the accessors of its header): allocation, parsing
  of the reply texts, and release. The heap maps the address of a block to the C string in it; a
  result holds a union of 64 bits that is an address, a number or a truth value.
\<close>

section \<open>Heap\<close>

record cheap =
  ch_blk :: "u64 \<rightharpoonup> string"
  ch_next :: nat

definition c_strdup :: "string \<Rightarrow> cheap \<Rightarrow> u64 \<times> cheap" where
  "c_strdup s h = (of_nat (ch_next h), h\<lparr>ch_blk := (ch_blk h)(of_nat (ch_next h) \<mapsto> s), ch_next := ch_next h + 1\<rparr>)"

text \<open>\<^verbatim>\<open>xfiredb_free\<close>: the null pointer is left alone; a block that is not allocated must not be freed.\<close>

definition c_free :: "u64 \<Rightarrow> cheap \<Rightarrow> cheap option" where
  "c_free p h =
     (if p = 0 then Some h
      else if ch_blk h p = None then None
      else Some (h\<lparr>ch_blk := (ch_blk h)(p := None)\<rparr>))"

section \<open>Results\<close>

datatype xfiredb_result_type_t = XFIREDB_STRING | XFIREDB_FIXNUM | XFIREDB_STATUS | XFIREDB_BOOL

record xfiredb_result =
  rs_data :: u64
  rs_length :: int
  rs_type :: xfiredb_result_type_t
  rs_status :: u64

definition XFIREDB_RESULT_NIL :: u64 where
  [xdb_defs]: "XFIREDB_RESULT_NIL = 1"

definition XFIREDB_RESULT_OK :: u64 where
  [xdb_defs]: "XFIREDB_RESULT_OK = 2"

definition XFIREDB_RESULT_MSG :: u64 where
  [xdb_defs]: "XFIREDB_RESULT_MSG = 4"

definition XFIREDB_RESULT_SUCCESS :: u64 where
  [xdb_defs]: "XFIREDB_RESULT_SUCCESS = 8"

text \<open>The accessors; \<^verbatim>\<open>xfiredb_result_to_ptr\<close> and \<^verbatim>\<open>xfiredb_result_to_uint\<close> read the union unchanged.\<close>

definition xfiredb_result_type :: "xfiredb_result \<Rightarrow> xfiredb_result_type_t" where
  "xfiredb_result_type r = rs_type r"

definition xfiredb_result_status :: "xfiredb_result \<Rightarrow> u64" where
  "xfiredb_result_status r = rs_status r AND (XFIREDB_RESULT_NIL OR XFIREDB_RESULT_OK OR XFIREDB_RESULT_MSG)"

definition xfiredb_result_to_int :: "xfiredb_result \<Rightarrow> int" where
  "xfiredb_result_to_int r = sint (rs_data r)"

definition xfiredb_result_to_uint :: "xfiredb_result \<Rightarrow> u64" where
  "xfiredb_result_to_uint r = rs_data r"

definition xfiredb_result_to_bool :: "xfiredb_result \<Rightarrow> u8" where
  "xfiredb_result_to_bool r = ucast (rs_data r)"

definition xfiredb_result_to_ptr :: "xfiredb_result \<Rightarrow> u64" where
  "xfiredb_result_to_ptr r = rs_data r"

definition xfiredb_result_success :: "xfiredb_result \<Rightarrow> int" where
  "xfiredb_result_success r = (if rs_status r AND XFIREDB_RESULT_SUCCESS \<noteq> 0 then 1 else 0)"

text \<open>\<^verbatim>\<open>xfiredb_result_alloc\<close>: zeroed structures; the null pointer behind the last one is left out.\<close>

definition xfiredb_result_alloc :: "nat \<Rightarrow> xfiredb_result list" where
  "xfiredb_result_alloc num =
     replicate num \<lparr>rs_data = 0, rs_length = 0, rs_type = XFIREDB_STRING, rs_status = 0\<rparr>"

text \<open>\<^verbatim>\<open>atoi\<close>: white space, a sign, digits; a number that is no \<^verbatim>\<open>int\<close> is undefined.\<close>

definition c_space :: "char \<Rightarrow> bool" where
  "c_space c \<longleftrightarrow> c \<in> {CHR '' '', CHR 0x09, CHR 0x0A, CHR 0x0B, CHR 0x0C, CHR 0x0D}"

fun digits_val :: "string \<Rightarrow> int \<Rightarrow> int" where
  "digits_val [] n = n"
| "digits_val (c # s) n = (if 48 \<le> (of_char c :: int) \<and> (of_char c :: int) \<le> 57 then digits_val s (10 * n + (of_char c - 48)) else n)"

definition atoi :: "string \<Rightarrow> int option" where
  "atoi s =
     (let s = dropWhile c_space s;
          n = (case s of
                 [] \<Rightarrow> 0
               | c # r \<Rightarrow> if c = CHR ''-'' then - digits_val r 0 else if c = CHR ''+'' then digits_val r 0 else digits_val s 0)
      in if - (2 ^ 31) \<le> n \<and> n < 2 ^ 31 then Some n else None)"

text \<open>The body of the loop of \<^verbatim>\<open>xfiredb_result_parse\<close>. Writing the byte \<^verbatim>\<open>boolean\<close> keeps the other bytes.\<close>

definition parse_result :: "xfiredb_result \<Rightarrow> cheap \<Rightarrow> (xfiredb_result \<times> cheap) option" where
  "parse_result r h = do {
     s \<leftarrow> ch_blk h (rs_data r);
     let c = (case s of [] \<Rightarrow> CHR 0x00 | c # _ \<Rightarrow> c);
     if c = CHR ''+'' then do {
       let r = r\<lparr>rs_type := XFIREDB_STRING\<rparr>;
       let (tmp, h) = c_strdup (tl s) h;
       h \<leftarrow> c_free (rs_data r) h;
       Some (r\<lparr>rs_data := tmp, rs_status := XFIREDB_RESULT_SUCCESS\<rparr>, h)
     } else if c = CHR ''&'' then do {
       let r = r\<lparr>rs_type := XFIREDB_BOOL\<rparr>;
       let numeral = (if s = ''&true'' then 1 else 0);
       h \<leftarrow> c_free (rs_data r) h;
       let r = r\<lparr>rs_data := 0\<rparr>;
       Some (r\<lparr>rs_data := (rs_data r AND NOT 0xFF) OR numeral, rs_status := XFIREDB_RESULT_SUCCESS\<rparr>, h)
     } else if c = CHR ''%'' then do {
       let r = r\<lparr>rs_type := XFIREDB_FIXNUM\<rparr>;
       numeral \<leftarrow> atoi (tl s);
       h \<leftarrow> c_free (rs_data r) h;
       Some (r\<lparr>rs_data := word_of_int numeral, rs_status := XFIREDB_RESULT_SUCCESS\<rparr>, h)
     } else do {
       let r = r\<lparr>rs_type := XFIREDB_STATUS\<rparr>;
       let tmp = (if c = CHR ''-'' then tl s else s);
       if tmp = ''OK'' then do {
         h \<leftarrow> c_free (rs_data r) h;
         Some (r\<lparr>rs_data := 0, rs_status := XFIREDB_RESULT_OK OR XFIREDB_RESULT_SUCCESS\<rparr>, h)
       } else if tmp = ''nil'' then do {
         h \<leftarrow> c_free (rs_data r) h;
         Some (r\<lparr>rs_data := 0, rs_status := XFIREDB_RESULT_NIL\<rparr>, h)
       } else Some (r\<lparr>rs_status := XFIREDB_RESULT_MSG\<rparr>, h)
     }
   }"

primrec xfiredb_result_parse :: "xfiredb_result list \<Rightarrow> cheap \<Rightarrow> (xfiredb_result list \<times> cheap) option" where
  "xfiredb_result_parse [] h = Some ([], h)"
| "xfiredb_result_parse (r # rp) h = do {
     (r, h) \<leftarrow> parse_result r h;
     (rp, h) \<leftarrow> xfiredb_result_parse rp h;
     Some (r # rp, h)
   }"

text \<open>\<^verbatim>\<open>xfiredb_result_free\<close>: the blocks behind the results; the structures themselves are values here.\<close>

primrec xfiredb_result_free :: "xfiredb_result list \<Rightarrow> cheap \<Rightarrow> cheap option" where
  "xfiredb_result_free [] h = Some h"
| "xfiredb_result_free (r # rp) h = do {
     h \<leftarrow> (if rs_data r \<noteq> 0 \<and> (rs_status r = XFIREDB_RESULT_MSG \<or> rs_type r = XFIREDB_STRING)
          then c_free (rs_data r) h else Some h);
     xfiredb_result_free rp h
   }"

section \<open>What a reply stands for\<close>

datatype reply = ReplyString string | ReplyBool bool | ReplyNum int | ReplyOk | ReplyNil | ReplyMsg string

definition decode :: "string \<Rightarrow> reply" where
  "decode s =
     (case s of
        [] \<Rightarrow> ReplyMsg []
      | c # t \<Rightarrow>
          if c = CHR ''+'' then ReplyString t
          else if c = CHR ''&'' then ReplyBool (t = ''true'')
          else if c = CHR ''%'' then ReplyNum (the (atoi t))
          else if s = ''OK'' \<or> s = ''-OK'' then ReplyOk
          else if s = ''nil'' \<or> s = ''-nil'' then ReplyNil
          else ReplyMsg s)"

text \<open>A reply that can be parsed: a number fits into an \<^verbatim>\<open>int\<close>.\<close>

definition decodable :: "string \<Rightarrow> bool" where
  "decodable s \<longleftrightarrow> (case s of [] \<Rightarrow> True | c # t \<Rightarrow> c = CHR ''%'' \<longrightarrow> atoi t \<noteq> None)"

fun reply_text :: "reply \<Rightarrow> string option" where
  "reply_text (ReplyString s) = Some s"
| "reply_text (ReplyMsg s) = Some s"
| "reply_text _ = None"

text \<open>What the accessors return for a parsed reply.\<close>

fun reply_fields :: "xfiredb_result \<Rightarrow> reply \<Rightarrow> bool" where
  "reply_fields r (ReplyString _) \<longleftrightarrow> xfiredb_result_type r = XFIREDB_STRING \<and> xfiredb_result_success r = 1 \<and>
     xfiredb_result_status r = 0 \<and> xfiredb_result_to_ptr r \<noteq> 0"
| "reply_fields r (ReplyBool b) \<longleftrightarrow> xfiredb_result_type r = XFIREDB_BOOL \<and> xfiredb_result_success r = 1 \<and>
     xfiredb_result_status r = 0 \<and> xfiredb_result_to_bool r = (if b then 1 else 0)"
| "reply_fields r (ReplyNum n) \<longleftrightarrow> xfiredb_result_type r = XFIREDB_FIXNUM \<and> xfiredb_result_success r = 1 \<and>
     xfiredb_result_status r = 0 \<and> xfiredb_result_to_int r = n"
| "reply_fields r ReplyOk \<longleftrightarrow> xfiredb_result_type r = XFIREDB_STATUS \<and> xfiredb_result_success r = 1 \<and>
     xfiredb_result_status r = XFIREDB_RESULT_OK \<and> xfiredb_result_to_ptr r = 0"
| "reply_fields r ReplyNil \<longleftrightarrow> xfiredb_result_type r = XFIREDB_STATUS \<and> xfiredb_result_success r = 0 \<and>
     xfiredb_result_status r = XFIREDB_RESULT_NIL \<and> xfiredb_result_to_ptr r = 0"
| "reply_fields r (ReplyMsg _) \<longleftrightarrow> xfiredb_result_type r = XFIREDB_STATUS \<and> xfiredb_result_success r = 0 \<and>
     xfiredb_result_status r = XFIREDB_RESULT_MSG \<and> xfiredb_result_to_ptr r \<noteq> 0"

definition shows_reply :: "cheap \<Rightarrow> xfiredb_result \<Rightarrow> reply \<Rightarrow> bool" where
  "shows_reply h r v \<longleftrightarrow> reply_fields r v \<and> (\<forall>s. reply_text v = Some s \<longrightarrow> ch_blk h (xfiredb_result_to_ptr r) = Some s)"

section \<open>One result\<close>

text \<open>Every block has an address below the next one of the allocator.\<close>

definition heap_ok :: "cheap \<Rightarrow> bool" where
  "heap_ok h \<longleftrightarrow> 0 < ch_next h \<and> (\<forall>p. ch_blk h p \<noteq> None \<longrightarrow> (\<exists>m < ch_next h. 0 < m \<and> p = of_nat m))"

lemma heap_fresh:
  assumes "heap_ok h" "ch_next h < 2 ^ 64"
  shows "ch_blk h (of_nat (ch_next h)) = None" "(of_nat (ch_next h) :: u64) \<noteq> 0" "ch_blk h 0 = None"
proof -
  have inj: "(of_nat m :: u64) \<noteq> of_nat n" if "m < 2 ^ 64" "n < 2 ^ 64" "m \<noteq> n" for m n
    using that by (simp add: word_of_nat_eq_iff take_bit_nat_eq_self)
  have addr: "\<exists>m. m < ch_next h \<and> 0 < m \<and> p = of_nat m" if "ch_blk h p = Some s" for p s
    using assms(1) that unfolding heap_ok_def by auto
  have out: "ch_blk h (of_nat n) = None" if "n = 0 \<or> n = ch_next h" for n
  proof (cases "ch_blk h (of_nat n)")
    case (Some s)
    then obtain m where m: "m < ch_next h" "0 < m" "(of_nat n :: u64) = of_nat m"
      using addr by blast
    then show ?thesis
      using inj [of n m] that assms(2) by auto
  qed
  show "ch_blk h (of_nat (ch_next h)) = None" "ch_blk h 0 = None"
    using out [of "ch_next h"] out [of 0] by simp_all
  show "(of_nat (ch_next h) :: u64) \<noteq> 0"
    using inj [of "ch_next h" 0] assms by (simp add: heap_ok_def)
qed

lemma heap_ok_mono:
  assumes "heap_ok h" "ch_blk h' = ch_blk h" "ch_next h \<le> ch_next h'"
  shows "heap_ok h'"
proof -
  have "\<exists>m < ch_next h'. 0 < m \<and> p = of_nat m" if p: "ch_blk h' p \<noteq> None" for p
  proof -
    obtain m where "m < ch_next h" "0 < m" "p = of_nat m"
      using assms(1) p unfolding heap_ok_def assms(2) by blast
    then show ?thesis
      using assms(3) less_le_trans by blast
  qed
  then show ?thesis
    using assms(1,3) unfolding heap_ok_def by auto
qed

lemma heap_ok_free: "heap_ok h \<Longrightarrow> heap_ok (h\<lparr>ch_blk := (ch_blk h)(p := None)\<rparr>)"
  by (simp add: heap_ok_def)

lemma heap_ok_strdup:
  assumes "heap_ok h"
  shows "heap_ok (snd (c_strdup s h))"
proof -
  have "\<exists>m < ch_next h + 1. 0 < m \<and> p = of_nat m" if "((ch_blk h)(of_nat (ch_next h) \<mapsto> s)) p \<noteq> None" for p
  proof (cases "p = of_nat (ch_next h)")
    case True
    then show ?thesis
      using assms by (auto simp: heap_ok_def)
  next
    case False
    then show ?thesis
      using assms that unfolding heap_ok_def by (auto intro: less_SucI)
  qed
  then show ?thesis
    by (simp add: heap_ok_def c_strdup_def)
qed

text \<open>The condition under which \<^verbatim>\<open>xfiredb_result_free\<close> frees the block of a result.\<close>

definition freed :: "xfiredb_result \<Rightarrow> bool" where
  "freed r \<longleftrightarrow> rs_data r \<noteq> 0 \<and> (rs_status r = XFIREDB_RESULT_MSG \<or> rs_type r = XFIREDB_STRING)"

text \<open>The heap after a result has been parsed: its block is gone, the text of the reply is there.\<close>

definition parsed_blk :: "(u64 \<rightharpoonup> string) \<Rightarrow> u64 \<Rightarrow> u64 \<Rightarrow> reply \<Rightarrow> (u64 \<rightharpoonup> string)" where
  "parsed_blk blk p q v = (case reply_text v of None \<Rightarrow> blk(p := None) | Some s \<Rightarrow> blk(p := None, q \<mapsto> s))"

lemma parse_result_ok:
  assumes ok: "heap_ok h" "ch_next h < 2 ^ 64" and s: "ch_blk h (rs_data r) = Some s" "decodable s"
  shows "\<exists>r' h'. parse_result r h = Some (r', h') \<and> heap_ok h' \<and> ch_next h \<le> ch_next h' \<and> ch_next h' \<le> ch_next h + 1 \<and>
    reply_fields r' (decode s) \<and> ch_blk h' = parsed_blk (ch_blk h) (rs_data r) (rs_data r') (decode s) \<and>
    (reply_text (decode s) \<noteq> None \<longrightarrow> rs_data r' = rs_data r \<or> ch_blk h (rs_data r') = None) \<and>
    (freed r' \<longleftrightarrow> reply_text (decode s) \<noteq> None)"
proof -
  have p: "rs_data r \<noteq> 0" "rs_data r \<noteq> of_nat (ch_next h)"
    using s(1) heap_fresh [OF ok] by auto
  have free: "c_free (rs_data r) h = Some (h\<lparr>ch_blk := (ch_blk h)(rs_data r := None)\<rparr>)"
    using p s(1) by (simp add: c_free_def)
  note fields = xfiredb_result_type_def xfiredb_result_success_def xfiredb_result_status_def xfiredb_result_to_ptr_def
    xfiredb_result_to_int_def xfiredb_result_to_bool_def freed_def xdb_defs
  consider t where "s = CHR ''+'' # t" | t where "s = CHR ''&'' # t" | t where "s = CHR ''%'' # t"
    | "case s of [] \<Rightarrow> True | c # _ \<Rightarrow> c \<noteq> CHR ''+'' \<and> c \<noteq> CHR ''&'' \<and> c \<noteq> CHR ''%''"
    by (cases s) auto
  then show ?thesis
  proof cases
    case 1
    let ?h = "snd (c_strdup t h)"
    have "c_free (rs_data r) ?h = Some (?h\<lparr>ch_blk := (ch_blk ?h)(rs_data r := None)\<rparr>)"
      using p s(1) by (simp add: c_free_def c_strdup_def)
    then show ?thesis
      using 1 p s heap_ok_free [OF heap_ok_strdup [OF ok(1), of t], of "rs_data r"] heap_fresh [OF ok]
      by (simp add: parse_result_def decode_def parsed_blk_def fields c_strdup_def fun_upd_twist)
  next
    case 2
    then show ?thesis
      using s free heap_ok_free [OF ok(1), of "rs_data r"] heap_fresh [OF ok]
      by (simp add: parse_result_def decode_def parsed_blk_def fields)
  next
    case 3
    then obtain n where n: "atoi t = Some n"
      using s(2) by (auto simp: decodable_def)
    then have "- (2 ^ 31) \<le> n" "n < 2 ^ 31"
      by (auto simp: atoi_def Let_def split: if_splits)
    then have "sint (word_of_int n :: u64) = n"
      by (simp add: sint_sbintrunc' signed_take_bit_int_eq_self)
    then show ?thesis
      using 3 n s free heap_ok_free [OF ok(1), of "rs_data r"] heap_fresh [OF ok]
      by (simp add: parse_result_def decode_def parsed_blk_def fields)
  next
    case 4
    have split: "s = ''OK'' \<or> s = ''-OK'' \<or> s = ''nil'' \<or> s = ''-nil'' \<or>
        (decode s = ReplyMsg s \<and> parse_result r h = Some (r\<lparr>rs_type := XFIREDB_STATUS, rs_status := XFIREDB_RESULT_MSG\<rparr>, h))"
      using 4 s(1) by (cases s) (auto simp: parse_result_def decode_def)
    have ok: "?thesis" if "s = ''OK'' \<or> s = ''-OK''"
      using that s free heap_ok_free [OF ok(1), of "rs_data r"] heap_fresh [OF ok]
      by (elim disjE) (simp_all add: parse_result_def decode_def parsed_blk_def fields)
    have nil: "?thesis" if "s = ''nil'' \<or> s = ''-nil''"
      using that s free heap_ok_free [OF assms(1), of "rs_data r"] heap_fresh [OF assms(1,2)]
      by (elim disjE) (simp_all add: parse_result_def decode_def parsed_blk_def fields)
    have "?thesis" if "decode s = ReplyMsg s" "parse_result r h = Some (r\<lparr>rs_type := XFIREDB_STATUS, rs_status := XFIREDB_RESULT_MSG\<rparr>, h)"
      using that s(1) assms(1) p(1) by (simp add: parsed_blk_def fields fun_upd_idem)
    then show ?thesis
      using split ok nil by blast
  qed
qed

section \<open>All results\<close>

text \<open>The blocks that a parsed result owns.\<close>

definition owned :: "xfiredb_result \<Rightarrow> reply \<Rightarrow> u64 list" where
  "owned r v = (if reply_text v = None then [] else [rs_data r])"

definition all_owned :: "xfiredb_result list \<Rightarrow> reply list \<Rightarrow> u64 list" where
  "all_owned rs vs = concat (map2 owned rs vs)"

lemma all_owned_simps [simp]: "all_owned [] vs = []" "all_owned (r # rs) (v # vs) = owned r v @ all_owned rs vs"
  by (simp_all add: all_owned_def)

text \<open>
  Parsing a list of results whose blocks are \<open>ps\<close>: the results show the replies, each owns its text, and
  every other block of \<open>ps\<close> is released.
\<close>

definition parsed :: "cheap \<Rightarrow> u64 list \<Rightarrow> xfiredb_result list \<Rightarrow> cheap \<Rightarrow> reply list \<Rightarrow> bool" where
  "parsed h ps rs h' vs \<longleftrightarrow> heap_ok h' \<and> list_all2 (shows_reply h') rs vs \<and>
     list_all2 (\<lambda>r v. freed r \<longleftrightarrow> reply_text v \<noteq> None) rs vs \<and> distinct (all_owned rs vs) \<and>
     (\<forall>q\<in>set (all_owned rs vs). ch_blk h' q \<noteq> None \<and> (q \<in> set ps \<or> ch_blk h q = None)) \<and>
     (\<forall>q. q \<notin> set (all_owned rs vs) \<longrightarrow> ch_blk h' q = (if q \<in> set ps then None else ch_blk h q))"

lemma parsedD:
  assumes "parsed h ps rs h' vs"
  shows "q \<in> set (all_owned rs vs) \<Longrightarrow> ch_blk h' q \<noteq> None" "q \<in> set (all_owned rs vs) \<Longrightarrow> q \<in> set ps \<or> ch_blk h q = None"
    "q \<notin> set (all_owned rs vs) \<Longrightarrow> ch_blk h' q = (if q \<in> set ps then None else ch_blk h q)"
  using assms by (simp_all add: parsed_def)

lemma parsed_Cons:
  assumes p: "p \<notin> set ps" and f: "reply_fields r v" "ch_blk h1 = parsed_blk (ch_blk h) p (rs_data r) v"
    "reply_text v \<noteq> None \<longrightarrow> rs_data r = p \<or> ch_blk h (rs_data r) = None" and ps: "\<forall>q\<in>set ps. ch_blk h q \<noteq> None"
    and fr: "freed r \<longleftrightarrow> reply_text v \<noteq> None" and rest: "parsed h1 ps rs h' vs"
  shows "parsed h (p # ps) (r # rs) h' (v # vs)"
proof -
  let ?own = "all_owned rs vs"
  have h1: "ch_blk h1 q = (if q \<in> set (owned r v) then reply_text v else if q = p then None else ch_blk h q)" for q
    using f(2) by (simp add: parsed_blk_def owned_def split: option.split)
  have q: "q = p \<or> ch_blk h q = None" "q \<notin> set ps" "reply_text v \<noteq> None" "q = rs_data r" if "q \<in> set (owned r v)" for q
    using that f(3) ps p by (auto simp: owned_def split: if_splits)
  have new: "q \<notin> set ?own" if "q \<in> set (owned r v)" for q
    using parsedD(2) [OF rest, of q] h1 [of q] q [OF that] that by auto
  have kept: "ch_blk h' q = reply_text v" if "q \<in> set (owned r v)" for q
    using parsedD(3) [OF rest new [OF that]] h1 [of q] q(2) [OF that] that by simp
  have "shows_reply h' r v"
    using f(1) kept [of "rs_data r"] by (auto simp: shows_reply_def xfiredb_result_to_ptr_def owned_def)
  moreover have "ch_blk h' x = (if x \<in> set (p # ps) then None else ch_blk h x)" if "x \<notin> set (owned r v @ ?own)" for x
    using parsedD(3) [OF rest, of x] h1 [of x] that by (cases "x = p") simp_all
  moreover have "ch_blk h' x \<noteq> None \<and> (x \<in> set (p # ps) \<or> ch_blk h x = None)" if x: "x \<in> set (owned r v @ ?own)" for x
  proof (cases "x \<in> set (owned r v)")
    case True
    then show ?thesis
      using kept [OF True] q [OF True] by auto
  next
    case False
    then show ?thesis
      using parsedD(1,2) [OF rest, of x] h1 [of x] x by (simp split: if_splits)
  qed
  moreover have "distinct (owned r v @ ?own)"
    using rest new by (auto simp: parsed_def owned_def)
  ultimately show ?thesis
    using rest fr unfolding parsed_def by simp
qed

lemma result_parse_ok:
  assumes "heap_ok h" "ch_next h + length rs < 2 ^ 64" "distinct (map rs_data rs)"
    and "list_all2 (\<lambda>r s. ch_blk h (rs_data r) = Some s \<and> decodable s) rs ss"
  shows "\<exists>rs' h'. xfiredb_result_parse rs h = Some (rs', h') \<and> parsed h (map rs_data rs) rs' h' (map decode ss) \<and>
    ch_next h \<le> ch_next h' \<and> ch_next h' \<le> ch_next h + length rs"
  using assms
proof (induction rs arbitrary: h ss)
  case Nil
  then show ?case
    by (simp add: parsed_def)
next
  case (Cons r rs)
  obtain s ts where ss: "ss = s # ts" "ch_blk h (rs_data r) = Some s" "decodable s"
      "list_all2 (\<lambda>r s. ch_blk h (rs_data r) = Some s \<and> decodable s) rs ts"
    using Cons.prems(4) by (cases ss) auto
  have room: "ch_next h < 2 ^ 64"
    using Cons.prems(2) by simp
  obtain r' h1 where r': "parse_result r h = Some (r', h1)" "heap_ok h1" "ch_next h \<le> ch_next h1" "ch_next h1 \<le> ch_next h + 1"
      "reply_fields r' (decode s)" "ch_blk h1 = parsed_blk (ch_blk h) (rs_data r) (rs_data r') (decode s)"
      "reply_text (decode s) \<noteq> None \<longrightarrow> rs_data r' = rs_data r \<or> ch_blk h (rs_data r') = None"
      "freed r' \<longleftrightarrow> reply_text (decode s) \<noteq> None"
    using parse_result_ok [OF Cons.prems(1) room ss(2,3)] by blast
  have alive: "\<forall>q\<in>set (map rs_data rs). ch_blk h q \<noteq> None"
    using ss(4) by (induction rs ts rule: list_all2_induct) auto
  have d: "rs_data r \<notin> set (map rs_data rs)"
    using Cons.prems(3) by simp
  have same: "ch_blk h1 q = ch_blk h q" if "q \<in> set (map rs_data rs)" for q
  proof -
    have "q \<noteq> rs_data r" "ch_blk h q \<noteq> None"
      using that d alive by blast+
    then show ?thesis
      using r'(6,7) by (cases "reply_text (decode s)") (auto simp: parsed_blk_def)
  qed
  have "list_all2 (\<lambda>r s. ch_blk h1 (rs_data r) = Some s \<and> decodable s) rs ts"
    by (rule list.rel_mono_strong [OF ss(4)]) (simp add: same)
  then obtain rs' h' where rs': "xfiredb_result_parse rs h1 = Some (rs', h')"
      "parsed h1 (map rs_data rs) rs' h' (map decode ts)" "ch_next h1 \<le> ch_next h'" "ch_next h' \<le> ch_next h1 + length rs"
    using Cons.IH [OF r'(2), of ts] Cons.prems(2,3) r'(4) by auto
  have "parsed h (map rs_data (r # rs)) (r' # rs') h' (map decode ss)"
    using parsed_Cons [OF d r'(5-7) alive r'(8) rs'(2)] ss(1,2) by simp
  then show ?case
    using r'(1,3,4) rs'(1,3,4) by simp
qed

lemma result_free_ok:
  assumes "list_all2 (\<lambda>r v. freed r \<longleftrightarrow> reply_text v \<noteq> None) rs vs" "distinct (all_owned rs vs)"
    "\<forall>q\<in>set (all_owned rs vs). ch_blk h q \<noteq> None"
  shows "\<exists>h'. xfiredb_result_free rs h = Some h' \<and> ch_blk h' = (ch_blk h) |` (- set (all_owned rs vs)) \<and> ch_next h' = ch_next h"
  using assms
proof (induction rs arbitrary: h vs)
  case Nil
  then show ?case
    by (simp add: restrict_map_def)
next
  case (Cons r rs)
  obtain v ws where vs: "vs = v # ws" "freed r \<longleftrightarrow> reply_text v \<noteq> None"
      "list_all2 (\<lambda>r v. freed r \<longleftrightarrow> reply_text v \<noteq> None) rs ws"
    using Cons.prems(1) by (cases vs) auto
  show ?case
  proof (cases "freed r")
    case False
    then show ?thesis
      using Cons.IH [OF vs(3), of h] Cons.prems(2,3) vs(1,2) by (auto simp: freed_def owned_def)
  next
    case True
    then have own: "owned r v = [rs_data r]" and p: "rs_data r \<noteq> 0"
      using vs(2) by (simp_all add: owned_def freed_def)
    let ?h = "h\<lparr>ch_blk := (ch_blk h)(rs_data r := None)\<rparr>"
    have c: "c_free (rs_data r) h = Some ?h"
      using Cons.prems(3) vs(1) own p by (auto simp: c_free_def)
    have "\<exists>h'. xfiredb_result_free rs ?h = Some h' \<and> ch_blk h' = (ch_blk ?h) |` (- set (all_owned rs ws)) \<and>
        ch_next h' = ch_next ?h"
      by (rule Cons.IH [OF vs(3)]) (use Cons.prems(2,3) vs(1) own in auto)
    moreover have "(ch_blk ?h) |` (- set (all_owned rs ws)) = (ch_blk h) |` (- set (all_owned (r # rs) (v # ws)))"
      using own by (auto simp: restrict_map_def)
    ultimately show ?thesis
      using True c vs(1) by (auto simp: freed_def)
  qed
qed

text \<open>Parsing and then freeing the results leaves the blocks that are not theirs.\<close>

lemma parse_free_ok:
  assumes "heap_ok h" "ch_next h + length rs < 2 ^ 64" "distinct (map rs_data rs)"
    and "list_all2 (\<lambda>r s. ch_blk h (rs_data r) = Some s \<and> decodable s) rs ss"
  obtains rs' h' h'' where "xfiredb_result_parse rs h = Some (rs', h')" "list_all2 (shows_reply h') rs' (map decode ss)"
    "xfiredb_result_free rs' h' = Some h''" "ch_blk h'' = (ch_blk h) |` (- set (map rs_data rs))"
    "ch_next h \<le> ch_next h''" "ch_next h'' \<le> ch_next h + length rs"
proof -
  obtain rs' h' where p: "xfiredb_result_parse rs h = Some (rs', h')" "parsed h (map rs_data rs) rs' h' (map decode ss)"
      "ch_next h \<le> ch_next h'" "ch_next h' \<le> ch_next h + length rs"
    using result_parse_ok [OF assms] by blast
  let ?own = "all_owned rs' (map decode ss)"
  have own: "list_all2 (\<lambda>r v. freed r \<longleftrightarrow> reply_text v \<noteq> None) rs' (map decode ss)" "distinct ?own"
      "\<forall>q\<in>set ?own. ch_blk h' q \<noteq> None" "list_all2 (shows_reply h') rs' (map decode ss)"
    using p(2) unfolding parsed_def by blast+
  obtain h'' where h'': "xfiredb_result_free rs' h' = Some h''" "ch_blk h'' = (ch_blk h') |` (- set ?own)" "ch_next h'' = ch_next h'"
    using result_free_ok [OF own(1-3)] by blast
  have "ch_blk h'' q = ((ch_blk h) |` (- set (map rs_data rs))) q" for q
    using p(2) h''(2) unfolding parsed_def by (cases "q \<in> set ?own") (auto simp: restrict_map_def)
  then have "ch_blk h'' = (ch_blk h) |` (- set (map rs_data rs))"
    by blast
  then show thesis
    using that [OF p(1) own(4) h''(1)] p(3,4) h''(3) by simp
qed

section \<open>Property\<close>

text \<open>
  C30: \<^verbatim>\<open>xfiredb_result_parse\<close> turns every reply text into what it stands for (a string, a number, a truth value,
  OK, nil or a message, told apart by the first character), as the accessors report it, and
  \<^verbatim>\<open>xfiredb_result_free\<close> after it frees every block of the results exactly once and no other block.
\<close>

theorem results_parsed_and_freed:
  assumes "heap_ok h" "ch_next h + length rs < 2 ^ 64" "distinct (map rs_data rs)"
    and "list_all2 (\<lambda>r s. ch_blk h (rs_data r) = Some s \<and> decodable s) rs ss"
  shows "\<exists>rs' h' h''. xfiredb_result_parse rs h = Some (rs', h') \<and> list_all2 (shows_reply h') rs' (map decode ss) \<and>
    xfiredb_result_free rs' h' = Some h'' \<and> ch_blk h'' = (ch_blk h) |` (- set (map rs_data rs))"
  using parse_free_ok [OF assms] by blast

definition sample_heap :: cheap where
  "sample_heap = \<lparr>ch_blk = [1 \<mapsto> ''+hello'', 2 \<mapsto> ''%-12'', 3 \<mapsto> ''-nil''], ch_next = 4\<rparr>"

definition sample_results :: "xfiredb_result list" where
  "sample_results = map (\<lambda>p. \<lparr>rs_data = p, rs_length = 0, rs_type = XFIREDB_STRING, rs_status = 0\<rparr>) [1, 2, 3]"

theorem results_parsed_and_freed_witness:
  "\<exists>rs' h' h''. xfiredb_result_parse sample_results sample_heap = Some (rs', h') \<and>
    list_all2 (shows_reply h') rs' [ReplyString ''hello'', ReplyNum (-12), ReplyNil] \<and>
    xfiredb_result_free rs' h' = Some h'' \<and> ch_blk h'' = Map.empty"
proof -
  have a: "atoi ''-12'' = Some (-12)"
    by (simp add: atoi_def c_space_def of_char_def)
  have "heap_ok sample_heap"
    unfolding heap_ok_def sample_heap_def
    by (auto split: if_splits intro: exI [of _ 1] exI [of _ 2] exI [of _ 3])
  moreover have "map decode [''+hello'', ''%-12'', ''-nil''] = [ReplyString ''hello'', ReplyNum (-12), ReplyNil]"
    using a by (simp add: decode_def)
  moreover have "list_all2 (\<lambda>r s. ch_blk sample_heap (rs_data r) = Some s \<and> decodable s) sample_results
      [''+hello'', ''%-12'', ''-nil'']"
    using a by (simp add: sample_heap_def sample_results_def decodable_def)
  moreover have "(ch_blk sample_heap) |` (- set (map rs_data sample_results)) = Map.empty"
    by (auto simp: sample_heap_def sample_results_def restrict_map_def)
  ultimately show ?thesis
    using results_parsed_and_freed [of sample_heap sample_results "[''+hello'', ''%-12'', ''-nil'']"]
    by (simp add: sample_results_def) (simp add: sample_heap_def)
qed

end
