(* ===== verification/ClientQuery.thy ===== *)
theory ClientQuery
  imports ClientSplit ClientResult
begin

text \<open>
  Queries of the C client (\<^verbatim>\<open>clients/c/query.c\<close>). The sockets and the TLS library are a parameter: functions
  on a state \<open>'io\<close> of the environment. A read returns its result code and the bytes it has stored.
\<close>

section \<open>Environment and client\<close>

record 'io net =
  n_send :: "int \<Rightarrow> string \<Rightarrow> 'io \<Rightarrow> int \<times> 'io"
  n_recv :: "int \<Rightarrow> nat \<Rightarrow> 'io \<Rightarrow> int \<times> string \<times> 'io"
  n_SSL_write :: "nat \<Rightarrow> string \<Rightarrow> 'io \<Rightarrow> int \<times> 'io"
  n_SSL_read :: "nat \<Rightarrow> nat \<Rightarrow> 'io \<Rightarrow> int \<times> string \<times> 'io"

text \<open>\<open>cl_ssl\<close> holds the context and the handle of the TLS library, \<open>cl_serv\<close> is a pointer.\<close>

record xfiredb_client =
  cl_socket :: int
  cl_serv :: u64
  cl_ssl :: "(nat \<times> nat) option"
  cl_flags :: u64

definition XFIREDB_SOCK_STREAM :: u64 where
  [xdb_defs]: "XFIREDB_SOCK_STREAM = 1"

definition XFIREDB_SOCK_RESOLV :: u64 where
  [xdb_defs]: "XFIREDB_SOCK_RESOLV = 2"

definition XFIREDB_SSL :: u64 where
  [xdb_defs]: "XFIREDB_SSL = 4"

definition XFIREDB_AUTH :: u64 where
  [xdb_defs]: "XFIREDB_AUTH = 8"

section \<open>Reading a line\<close>

definition read_char :: "'io net \<Rightarrow> xfiredb_client \<Rightarrow> 'io \<Rightarrow> (int \<times> string \<times> 'io) option" where
  "read_char net client io =
     (if cl_flags client AND XFIREDB_SSL \<noteq> 0
      then (case cl_ssl client of None \<Rightarrow> None | Some (_, s) \<Rightarrow> Some (n_SSL_read net s 1 io))
      else Some (n_recv net (cl_socket client) 1 io))"

text \<open>The inner loop of \<^verbatim>\<open>query_readline\<close>; the flag tells whether it has jumped to \<^verbatim>\<open>done\<close>.\<close>

fun read_chunk :: "'io net \<Rightarrow> xfiredb_client \<Rightarrow> nat \<Rightarrow> string \<Rightarrow> 'io \<Rightarrow> (string \<times> bool \<times> 'io) option" where
  "read_chunk net client 0 tmp io = Some (tmp, False, io)"
| "read_chunk net client (Suc n) tmp io = do {
     (num, c, io) \<leftarrow> read_char net client io;
     if num \<le> 0 \<or> c = [CHR 0x0A] then Some (tmp, True, io)
     else read_chunk net client n (tmp @ c) io
   }"

text \<open>The C string in a buffer.\<close>

definition c_str :: "string \<Rightarrow> string" where
  "c_str buf = takeWhile (\<lambda>c. c \<noteq> CHR 0x00) buf"

text \<open>
  The outer loop: chunks of 1022 bytes. \<open>first\<close> stands for \<^verbatim>\<open>tmp == rv\<close>: the first chunk is read into \<^verbatim>\<open>rv\<close>
  itself, later ones are appended with \<^verbatim>\<open>strcat\<close>. Every later chunk is read into a block of its own, which is not freed.
\<close>

partial_function (option) readline_loop ::
  "'io net \<Rightarrow> xfiredb_client \<Rightarrow> bool \<Rightarrow> string \<Rightarrow> cheap \<Rightarrow> 'io \<Rightarrow> (string \<times> cheap \<times> 'io) option" where
  [code]: "readline_loop net client first rv h io = do {
     (tmp, stop, io) \<leftarrow> read_chunk net client 1022 [] io;
     let (rv, h) = (if first then (c_str tmp, h) else (rv @ c_str tmp, snd (c_strdup (c_str tmp) h)));
     if stop then Some (rv, h, io) else readline_loop net client False rv h io
   }"

text \<open>The line is returned in a block that belongs to the caller.\<close>

definition query_readline :: "'io net \<Rightarrow> xfiredb_client \<Rightarrow> cheap \<Rightarrow> 'io \<Rightarrow> (u64 \<times> cheap \<times> 'io) option" where
  "query_readline net client h io = do {
     (rv, h, io) \<leftarrow> readline_loop net client True [] h io;
     let (p, h) = c_strdup rv h;
     Some (p, h, io)
   }"

section \<open>Queries\<close>

text \<open>
  The loop over the results: \<open>rd\<close> reads from the connection. A missing size is a null pointer for \<^verbatim>\<open>atoi\<close>;
  a size that is not positive gives no block to write the terminator to, and the terminator is
  written in front of the block when the read fails.
\<close>

fun recv_loop ::
  "(nat \<Rightarrow> 'io \<Rightarrow> int \<times> string \<times> 'io) \<Rightarrow> string list \<Rightarrow> xfiredb_result list \<Rightarrow> cheap \<Rightarrow> 'io \<Rightarrow>
   (xfiredb_result list \<times> cheap \<times> 'io) option" where
  "recv_loop rd sizes [] h io = Some ([], h, io)"
| "recv_loop rd [] (r # rs) h io = None"
| "recv_loop rd (sz # sizes) (r # rs) h io = do {
     size \<leftarrow> atoi sz;
     if size \<le> 0 then None
     else do {
       let (num, buf, io) = rd (nat size) io;
       if num \<le> 0 then None
       else do {
         let (p, h) = c_strdup (c_str (take (nat num - 1) buf)) h;
         (rs, h, io) \<leftarrow> recv_loop rd sizes rs h io;
         Some (r\<lparr>rs_data := p\<rparr> # rs, h, io)
       }
     }
   }"

text \<open>
  The part that \<^verbatim>\<open>__query\<close> and \<^verbatim>\<open>ssl_query\<close> share, with the functions they call. \<open>a\<close> is the position of the line
  that was read in memory, which \<^verbatim>\<open>str_split\<close> compares addresses with. The texts of the query and of the sizes, the array of
  the sizes and the results themselves are values: the blocks that hold them are freed in the function that allocates
  them, or by \<^verbatim>\<open>xfiredb_result_free\<close>. The result \<^const>\<open>None\<close> in the first component is the null pointer.
\<close>

definition exchange ::
  "nat \<Rightarrow> (string \<Rightarrow> 'io \<Rightarrow> int \<times> 'io) \<Rightarrow> (nat \<Rightarrow> 'io \<Rightarrow> int \<times> string \<times> 'io) \<Rightarrow> 'io net \<Rightarrow> xfiredb_client \<Rightarrow> string \<Rightarrow>
   cheap \<Rightarrow> 'io \<Rightarrow> (xfiredb_result list option \<times> cheap \<times> 'io) option" where
  "exchange a wr rd net client query h io = do {
     let (num, io) = wr (query @ [CHR 0x0A]) io;
     if num \<le> 0 then Some (None, h, io)
     else do {
       (p, h, io) \<leftarrow> query_readline net client h io;
       buf \<leftarrow> ch_blk h p;
       let len = str_count_occurences buf (CHR '' '') + 1;
       sizes \<leftarrow> str_split a buf (CHR '' '');
       let res = xfiredb_result_alloc (nat len);
       h \<leftarrow> c_free p h;
       (res, h, io) \<leftarrow> recv_loop rd sizes res h io;
       Some (Some res, h, io)
     }
   }"

definition plain_query ::
  "nat \<Rightarrow> 'io net \<Rightarrow> xfiredb_client \<Rightarrow> string option \<Rightarrow> cheap \<Rightarrow> 'io \<Rightarrow> (xfiredb_result list option \<times> cheap \<times> 'io) option" where
  "plain_query a net client query h io =
     (case query of
        None \<Rightarrow> Some (None, h, io)
      | Some q \<Rightarrow> exchange a (n_send net (cl_socket client)) (n_recv net (cl_socket client)) net client q h io)"

definition ssl_query ::
  "nat \<Rightarrow> 'io net \<Rightarrow> xfiredb_client \<Rightarrow> string option \<Rightarrow> cheap \<Rightarrow> 'io \<Rightarrow> (xfiredb_result list option \<times> cheap \<times> 'io) option" where
  "ssl_query a net client query h io =
     (case (cl_ssl client, query) of
        (Some (_, ssl), Some q) \<Rightarrow> exchange a (n_SSL_write net ssl) (n_SSL_read net ssl) net client q h io
      | _ \<Rightarrow> Some (None, h, io))"

definition xfiredb_query ::
  "nat \<Rightarrow> 'io net \<Rightarrow> xfiredb_client option \<Rightarrow> string option \<Rightarrow> cheap \<Rightarrow> 'io \<Rightarrow>
   (xfiredb_result list option \<times> cheap \<times> 'io) option" where
  "xfiredb_query a net client query h io =
     (case client of
        None \<Rightarrow> Some (None, h, io)
      | Some cl \<Rightarrow> do {
          (rv, h, io) \<leftarrow> (if cl_flags cl AND XFIREDB_SSL \<noteq> 0 then ssl_query a net cl query h io
                          else plain_query a net cl query h io);
          case rv of
            None \<Rightarrow> Some (None, h, io)
          | Some rv \<Rightarrow> do {
              (rv, h) \<leftarrow> xfiredb_result_parse rv h;
              Some (Some rv, h, io)
            }
        })"

section \<open>The connection as a stream\<close>

text \<open>The functions that a client's connection reads and writes with.\<close>

definition conn_of ::
  "'io net \<Rightarrow> xfiredb_client \<Rightarrow> ((string \<Rightarrow> 'io \<Rightarrow> int \<times> 'io) \<times> (nat \<Rightarrow> 'io \<Rightarrow> int \<times> string \<times> 'io)) option" where
  "conn_of net client =
     (if cl_flags client AND XFIREDB_SSL \<noteq> 0
      then map_option (\<lambda>(_, s). (n_SSL_write net s, n_SSL_read net s)) (cl_ssl client)
      else Some (n_send net (cl_socket client), n_recv net (cl_socket client)))"

text \<open>
  \<open>pend io\<close> are the bytes that have arrived and were not read. A read of \<open>n\<close> bytes stores at least one and at most
  \<open>n\<close> of them, or fails when there are none.
\<close>

definition reads_stream :: "(nat \<Rightarrow> 'io \<Rightarrow> int \<times> string \<times> 'io) \<Rightarrow> ('io \<Rightarrow> string) \<Rightarrow> bool" where
  "reads_stream rd pend \<longleftrightarrow>
     (\<forall>n io. 0 < n \<longrightarrow>
        (case rd n io of (num, buf, io') \<Rightarrow>
           if pend io = [] then num \<le> 0 \<and> pend io' = []
           else (\<exists>k. 0 < k \<and> k \<le> n \<and> k \<le> length (pend io) \<and> num = int k \<and> buf = take k (pend io) \<and> pend io' = drop k (pend io))))"

text \<open>The state after \<open>n\<close> reads of one byte.\<close>

primrec after :: "(nat \<Rightarrow> 'io \<Rightarrow> int \<times> string \<times> 'io) \<Rightarrow> nat \<Rightarrow> 'io \<Rightarrow> 'io" where
  "after rd 0 io = io"
| "after rd (Suc n) io = after rd n (snd (snd (rd 1 io)))"

lemma after_add: "after rd (m + n) io = after rd n (after rd m io)"
  by (induction m arbitrary: io) simp_all

lemma streamD:
  assumes "reads_stream rd pend" "0 < n" "rd n io = (num, buf, io')"
  shows "if pend io = [] then num \<le> 0 \<and> pend io' = []
     else (\<exists>k. 0 < k \<and> k \<le> n \<and> k \<le> length (pend io) \<and> num = int k \<and> buf = take k (pend io) \<and> pend io' = drop k (pend io))"
  using assms(1) [unfolded reads_stream_def, rule_format, OF assms(2), of io] assms(3) by simp

lemma stream_char:
  assumes "reads_stream rd pend"
  shows "pend io = c # s \<Longrightarrow> \<exists>io'. rd 1 io = (1, [c], io') \<and> pend io' = s"
    "pend io = [] \<Longrightarrow> \<exists>num buf io'. rd 1 io = (num, buf, io') \<and> num \<le> 0 \<and> pend io' = []"
proof -
  obtain num buf io' where r: "rd 1 io = (num, buf, io')"
    by (cases "rd 1 io") auto
  have "if pend io = [] then num \<le> 0 \<and> pend io' = []
      else (\<exists>k. 0 < k \<and> k \<le> 1 \<and> k \<le> length (pend io) \<and> num = int k \<and> buf = take k (pend io) \<and> pend io' = drop k (pend io))"
    using streamD [OF assms _ r] by simp
  then show "pend io = c # s \<Longrightarrow> \<exists>io'. rd 1 io = (1, [c], io') \<and> pend io' = s"
    "pend io = [] \<Longrightarrow> \<exists>num buf io'. rd 1 io = (num, buf, io') \<and> num \<le> 0 \<and> pend io' = []"
    using r by (auto simp: le_Suc_eq)
qed

lemma read_char_conn: "conn_of net cl = Some (wr, rd) \<Longrightarrow> read_char net cl io = Some (rd 1 io)"
  by (auto simp: conn_of_def read_char_def split: if_splits)

lemma query_conn:
  "conn_of net cl = Some (wr, rd) \<Longrightarrow> xfiredb_query a net (Some cl) (Some q) h io = do {
     (rv, h, io) \<leftarrow> exchange a wr rd net cl q h io;
     case rv of
       None \<Rightarrow> Some (None, h, io)
     | Some rv \<Rightarrow> do { (rv, h) \<leftarrow> xfiredb_result_parse rv h; Some (Some rv, h, io) }
   }"
  by (auto simp: conn_of_def xfiredb_query_def plain_query_def ssl_query_def split: if_splits)

section \<open>Reading a line\<close>

lemma read_chunk_ok:
  assumes conn: "conn_of net cl = Some (wr, rd)" "reads_stream rd pend"
    and p: "pend io = line @ CHR 0x0A # rest" "CHR 0x0A \<notin> set line"
  shows "\<exists>io'. read_chunk net cl n tmp io =
      (if length line < n then Some (tmp @ line, True, io') else Some (tmp @ take n line, False, io')) \<and>
    pend io' = (if length line < n then rest else drop n line @ CHR 0x0A # rest) \<and>
    io' = after rd (if length line < n then length line + 1 else n) io"
  using p
proof (induction n arbitrary: line tmp io)
  case (Suc n)
  show ?case
  proof (cases line)
    case Nil
    then obtain io' where "rd 1 io = (1, [CHR 0x0A], io')" "pend io' = rest"
      using stream_char(1) [OF conn(2), of io "CHR 0x0A" rest] Suc.prems(1) by auto
    then show ?thesis
      using Nil by (simp add: read_char_conn [OF conn(1)])
  next
    case (Cons c cs)
    then obtain io1 where io1: "rd 1 io = (1, [c], io1)" "pend io1 = cs @ CHR 0x0A # rest"
      using stream_char(1) [OF conn(2), of io c] Suc.prems(1) by auto
    then show ?thesis
      using Suc.IH [OF io1(2), of "tmp @ [c]"] Suc.prems(2) Cons
      by (cases "length cs < n") (auto simp: read_char_conn [OF conn(1)])
  qed
qed simp

text \<open>\<open>leaks h n h'\<close>: of the blocks that were allocated after the heap \<open>h\<close>, exactly the first \<open>n\<close> are still there in \<open>h'\<close>.\<close>

definition leaks :: "cheap \<Rightarrow> nat \<Rightarrow> cheap \<Rightarrow> bool" where
  "leaks h n h' \<longleftrightarrow>
     (\<forall>p. if p \<in> of_nat ` {ch_next h..<ch_next h + n} then ch_blk h' p \<noteq> None else ch_blk h' p = ch_blk h p)"

lemma leaks_0: "leaks h 0 h' \<longleftrightarrow> ch_blk h' = ch_blk h"
  by (auto simp: leaks_def)

lemma leaks_strdup:
  assumes "leaks (snd (c_strdup v h)) n h'"
  shows "leaks h (Suc n) h'"
proof -
  have "{ch_next h..<ch_next h + Suc n} = insert (ch_next h) {Suc (ch_next h)..<Suc (ch_next h) + n}"
    by auto
  then show ?thesis
    using assms unfolding leaks_def c_strdup_def by (auto split: if_splits)
qed

lemma c_str_id [simp]: "cstr s \<Longrightarrow> c_str s = s"
  by (auto simp: cstr_def c_str_def takeWhile_eq_all_conv)

lemma cstr_take [simp]: "cstr s \<Longrightarrow> cstr (take n s)" "cstr s \<Longrightarrow> cstr (drop n s)"
  unfolding cstr_def by (auto dest: in_set_takeD in_set_dropD)

lemma readline_loop_ok:
  assumes conn: "conn_of net cl = Some (wr, rd)" "reads_stream rd pend"
    and p: "pend io = line @ CHR 0x0A # rest" "CHR 0x0A \<notin> set line" "cstr line" "first \<longrightarrow> rv = []" "heap_ok h"
  shows "\<exists>h'. readline_loop net cl first rv h io = Some (rv @ line, h', after rd (length line + 1) io) \<and>
    pend (after rd (length line + 1) io) = rest \<and> heap_ok h' \<and>
    ch_next h' = ch_next h + ((if first then 0 else 1) + length line div 1022) \<and>
    leaks h ((if first then 0 else 1) + length line div 1022) h'"
  using p
proof (induction "length line" arbitrary: line io first rv h rule: less_induct)
  case less
  define h1 where "h1 = (\<lambda>tmp. if first then h else snd (c_strdup tmp h))"
  have h1: "heap_ok (h1 tmp)" "ch_next (h1 tmp) = ch_next h + (if first then 0 else 1)"
    "leaks (h1 tmp) n h' \<Longrightarrow> leaks h ((if first then 0 else 1) + n) h'" for tmp n h'
    using less.prems(5) heap_ok_strdup [OF less.prems(5)] leaks_strdup by (auto simp: h1_def c_strdup_def)
  show ?case
  proof (cases "length line < 1022")
    case True
    then have r: "read_chunk net cl 1022 [] io = Some (line, True, after rd (length line + 1) io)"
        "pend (after rd (length line + 1) io) = rest"
      using read_chunk_ok [OF conn less.prems(1,2), of 1022 "[]"] by auto
    have "readline_loop net cl first rv h io = Some (rv @ line, h1 line, after rd (length line + 1) io)"
      using r(1) less.prems(3,4) by (subst readline_loop.simps) (simp add: h1_def)
    then show ?thesis
      using r(2) h1(1,2) [of line] h1(3) [of line 0 "h1 line"] True by (simp add: leaks_0)
  next
    case False
    then have r: "read_chunk net cl 1022 [] io = Some (take 1022 line, False, after rd 1022 io)"
        "pend (after rd 1022 io) = drop 1022 line @ CHR 0x0A # rest"
      using read_chunk_ok [OF conn less.prems(1,2), of 1022 "[]"] by auto
    let ?h = "h1 (take 1022 line)"
    have len: "length line + 1 = 1022 + (length (drop 1022 line) + 1)"
        "1 + length (drop 1022 line) div 1022 = length line div 1022"
      using False by (simp_all add: le_div_geq)
    have d: "length (drop 1022 line) < length line" "CHR 0x0A \<notin> set (drop 1022 line)" "cstr (drop 1022 line)"
      "False \<longrightarrow> rv @ take 1022 line = []"
      using False less.prems(2,3) by (auto dest: in_set_dropD)
    obtain h' where h': "readline_loop net cl False (rv @ take 1022 line) ?h (after rd 1022 io) =
          Some ((rv @ take 1022 line) @ drop 1022 line, h', after rd (length (drop 1022 line) + 1) (after rd 1022 io))"
        "pend (after rd (length (drop 1022 line) + 1) (after rd 1022 io)) = rest" "heap_ok h'"
        "ch_next h' = ch_next ?h + (1 + length (drop 1022 line) div 1022)"
        "leaks ?h (1 + length (drop 1022 line) div 1022) h'"
      using less.hyps [OF d(1) r(2) d(2-4) h1(1) [of "take 1022 line"]] unfolding if_False by blast
    have "readline_loop net cl first rv h io = Some (rv @ line, h', after rd (length line + 1) io)"
      using r(1) h'(1) less.prems(3,4) unfolding len(1) after_add by (subst readline_loop.simps) (auto simp: h1_def)
    then show ?thesis
      using h'(2-5) h1(2) h1(3) [of "take 1022 line" "length line div 1022" h'] unfolding len(2) len(1) after_add by simp
  qed
qed

lemma query_readline_ok:
  assumes "conn_of net cl = Some (wr, rd)" "reads_stream rd pend" "pend io = line @ CHR 0x0A # rest" "CHR 0x0A \<notin> set line"
    "cstr line" "heap_ok h"
  shows "\<exists>h1. query_readline net cl h io = Some (of_nat (ch_next h1), snd (c_strdup line h1), after rd (length line + 1) io) \<and>
    pend (after rd (length line + 1) io) = rest \<and> heap_ok h1 \<and> ch_next h1 = ch_next h + length line div 1022 \<and>
    leaks h (length line div 1022) h1"
proof -
  obtain h1 where h1: "readline_loop net cl True [] h io = Some (line, h1, after rd (length line + 1) io)"
      "pend (after rd (length line + 1) io) = rest" "heap_ok h1" "ch_next h1 = ch_next h + length line div 1022"
      "leaks h (length line div 1022) h1"
    using readline_loop_ok [OF assms(1-5) _ assms(6), of True "[]"] by auto
  have "query_readline net cl h io = Some (of_nat (ch_next h1), snd (c_strdup line h1), after rd (length line + 1) io)"
    using h1(1) by (simp add: query_readline_def c_strdup_def)
  then show ?thesis
    using h1(2-5) by blast
qed

text \<open>At the end of the stream, or before a line feed, the line is empty.\<close>

lemma query_readline_empty:
  assumes "conn_of net cl = Some (wr, rd)" "reads_stream rd pend" "pend io = [] \<or> pend io = CHR 0x0A # rest"
  shows "\<exists>io'. query_readline net cl h io = Some (of_nat (ch_next h), snd (c_strdup [] h), io')"
proof -
  obtain num buf io' where r: "rd 1 io = (num, buf, io')" "num \<le> 0 \<or> buf = [CHR 0x0A]"
    using stream_char [OF assms(2), of io] assms(3) by fastforce
  then have "read_chunk net cl (Suc 1021) [] io = Some ([], True, io')"
    unfolding read_chunk.simps by (auto simp: read_char_conn [OF assms(1)])
  then have "read_chunk net cl 1022 [] io = Some ([], True, io')"
    by (simp del: read_chunk.simps)
  then show ?thesis
    unfolding query_readline_def by (subst readline_loop.simps) (simp add: c_str_def c_strdup_def)
qed

section \<open>The frame of a reply\<close>

text \<open>
  The server (\<^verbatim>\<open>lib/xfiredb-serv/workerpool.rb\<close>) sends a line with the sizes of the values, each with its line
  feed, and then the values.
\<close>

fun show_nat :: "nat \<Rightarrow> string" where
  "show_nat n = (if n < 10 then [char_of (48 + n)] else show_nat (n div 10) @ [char_of (48 + n mod 10)])"

declare show_nat.simps [simp del]

definition size_line :: "string list \<Rightarrow> string" where
  "size_line vals = join_with (CHR '' '') (map (\<lambda>v. show_nat (length v + 1)) vals)"

definition frame :: "string list \<Rightarrow> string" where
  "frame vals = size_line vals @ CHR 0x0A # concat (map (\<lambda>v. v @ [CHR 0x0A]) vals)"

text \<open>
  A read may return fewer bytes than asked for, and the client then takes what it got for the value. \<open>whole_reads rd vals io\<close>: from
  the state \<open>io\<close> on each of the values arrives in one read. \<open>arrives rd vals io\<close>: so it is after the line of the sizes.
\<close>

primrec whole_reads :: "(nat \<Rightarrow> 'io \<Rightarrow> int \<times> string \<times> 'io) \<Rightarrow> string list \<Rightarrow> 'io \<Rightarrow> bool" where
  "whole_reads rd [] io \<longleftrightarrow> True"
| "whole_reads rd (v # vs) io \<longleftrightarrow>
     (case rd (length v + 1) io of (num, _, io) \<Rightarrow> num = int (length v + 1) \<and> whole_reads rd vs io)"

definition arrives :: "(nat \<Rightarrow> 'io \<Rightarrow> int \<times> string \<times> 'io) \<Rightarrow> string list \<Rightarrow> 'io \<Rightarrow> bool" where
  "arrives rd vals io \<longleftrightarrow> whole_reads rd vals (after rd (length (size_line vals) + 1) io)"

definition digit_char :: "char \<Rightarrow> bool" where
  "digit_char c \<longleftrightarrow> 48 \<le> (of_char c :: int) \<and> (of_char c :: int) \<le> 57"

lemma digit_char_of: "n < 10 \<Longrightarrow> digit_char (char_of (48 + n))" "n < 10 \<Longrightarrow> (of_char (char_of (48 + n)) :: int) = 48 + int n"
proof -
  assume n: "n < 10"
  have "(of_char (char_of (48 + n)) :: int) = int (of_char (char_of (48 + n) :: char))"
    by (simp only: of_nat_of_char)
  also have "\<dots> = 48 + int n"
    using n by (simp add: of_char_of)
  finally show "(of_char (char_of (48 + n)) :: int) = 48 + int n" .
  then show "digit_char (char_of (48 + n))"
    using n by (simp add: digit_char_def)
qed

lemma show_nat_digits: "show_nat n \<noteq> []" "\<forall>c\<in>set (show_nat n). digit_char c"
proof -
  have "show_nat n \<noteq> [] \<and> (\<forall>c\<in>set (show_nat n). digit_char c)"
  proof (induction n rule: show_nat.induct)
    case (1 n)
    then show ?case
      using digit_char_of(1) by (cases "n < 10") (auto simp: show_nat.simps [of n])
  qed
  then show "show_nat n \<noteq> []" "\<forall>c\<in>set (show_nat n). digit_char c"
    by blast+
qed

lemma digits_val_snoc:
  "\<forall>c\<in>set s. digit_char c \<Longrightarrow> digit_char d \<Longrightarrow> digits_val (s @ [d]) n = 10 * digits_val s n + (of_char d - 48)"
  by (induction s arbitrary: n) (simp_all add: digit_char_def)

lemma digits_val_show: "digits_val (show_nat n) 0 = int n"
proof (induction n rule: show_nat.induct)
  case (1 n)
  show ?case
  proof (cases "n < 10")
    case True
    then show ?thesis
      using digit_char_of [OF True] by (simp add: show_nat.simps [of n] digit_char_def)
  next
    case False
    have "digits_val (show_nat n) 0 = 10 * digits_val (show_nat (n div 10)) 0 + int (n mod 10)"
      using False digits_val_snoc [OF show_nat_digits(2) digit_char_of(1)] digit_char_of(2) [of "n mod 10"]
      by (simp add: show_nat.simps [of n])
    then show ?thesis
      using 1 [OF False] by presburger
  qed
qed

lemma digit_char_plain: "digit_char c \<Longrightarrow> \<not> c_space c \<and> c \<noteq> CHR ''-'' \<and> c \<noteq> CHR ''+'' \<and> c \<noteq> CHR '' '' \<and> c \<noteq> CHR 0x0A \<and> c \<noteq> CHR 0x00"
  by (auto simp: digit_char_def c_space_def of_char_def)

lemma atoi_show: "n < 2 ^ 31 \<Longrightarrow> atoi (show_nat n) = Some (int n)"
proof -
  assume n: "n < 2 ^ 31"
  obtain c s where s: "show_nat n = c # s"
    using show_nat_digits(1) [of n] by (cases "show_nat n") auto
  have "\<not> c_space c" "c \<noteq> CHR ''-''" "c \<noteq> CHR ''+''"
    using show_nat_digits(2) [of n] digit_char_plain [of c] s by simp_all
  then show ?thesis
    using n digits_val_show [of n] s by (simp add: atoi_def)
qed

lemma sizes_line:
  "\<forall>w\<in>set (map (\<lambda>v. show_nat (length v + 1)) vals). w \<noteq> [] \<and> CHR '' '' \<notin> set w"
  "CHR 0x0A \<notin> set (size_line vals)"
  "cstr (size_line vals)"
proof -
  have digits: "c \<noteq> CHR '' '' \<and> c \<noteq> CHR 0x0A \<and> c \<noteq> CHR 0x00" if "c \<in> set (show_nat n)" for c n
    using show_nat_digits(2) [of n] digit_char_plain that by blast
  show "\<forall>w\<in>set (map (\<lambda>v. show_nat (length v + 1)) vals). w \<noteq> [] \<and> CHR '' '' \<notin> set w"
    using show_nat_digits(1) digits by auto
  have join: "set (join_with d ws) \<subseteq> insert d (\<Union>(set ` set ws))" for d ws
    by (induction d ws rule: join_with.induct) auto
  show "CHR 0x0A \<notin> set (size_line vals)"
    "cstr (size_line vals)"
    using join [of "CHR '' ''" "map (\<lambda>v. show_nat (length v + 1)) vals"] digits unfolding cstr_def size_line_def by fastforce+
qed

section \<open>Receiving the values\<close>

lemma heap_above:
  assumes "heap_ok h" "ch_next h \<le> n" "n < 2 ^ 64"
  shows "ch_blk h (of_nat n) = None"
proof -
  have "heap_ok (h\<lparr>ch_next := n\<rparr>)"
    using heap_ok_mono [OF assms(1)] assms(2) by simp
  then show ?thesis
    using heap_fresh(1) [of "h\<lparr>ch_next := n\<rparr>"] assms(3) by simp
qed

lemma of_nat_range:
  assumes "m + n < 2 ^ 64"
  shows "distinct (map of_nat [m..<m + n] :: u64 list)"
    "i < 2 ^ 64 \<Longrightarrow> (of_nat i :: u64) \<in> set (map of_nat [m..<m + n]) \<longleftrightarrow> m \<le> i \<and> i < m + n"
proof -
  have eq: "(of_nat i :: u64) = of_nat j \<longleftrightarrow> i = j" if "i < 2 ^ 64" "j < 2 ^ 64" for i j
    using that by (simp add: word_of_nat_eq_iff take_bit_nat_eq_self)
  show "distinct (map of_nat [m..<m + n] :: u64 list)"
    using assms eq by (auto simp: distinct_map inj_on_def)
  show "i < 2 ^ 64 \<Longrightarrow> (of_nat i :: u64) \<in> set (map of_nat [m..<m + n]) \<longleftrightarrow> m \<le> i \<and> i < m + n"
  proof -
    assume i: "i < 2 ^ 64"
    have "(of_nat i :: u64) \<in> set (map of_nat [m..<m + n]) \<longleftrightarrow> (\<exists>j. m \<le> j \<and> j < m + n \<and> (of_nat i :: u64) = of_nat j)"
      by auto
    also have "\<dots> \<longleftrightarrow> (\<exists>j. m \<le> j \<and> j < m + n \<and> i = j)"
    proof -
      have "(of_nat i :: u64) = of_nat j \<longleftrightarrow> i = j" if "j < m + n" for j
        by (rule eq [OF i]) (use assms that in simp)
      then show ?thesis
        by blast
    qed
    finally show ?thesis
      by simp
  qed
qed

lemma full_read:
  assumes "reads_stream rd pend" "pend io = s @ rest" "s \<noteq> []" "rd (length s) io = (int (length s), buf, io')"
  shows "buf = s" "pend io' = rest"
  using streamD [OF assms(1) _ assms(4)] assms(2,3) by auto

text \<open>The results point to fresh blocks that hold the values.\<close>

definition received :: "cheap \<Rightarrow> string list \<Rightarrow> xfiredb_result list \<Rightarrow> cheap \<Rightarrow> bool" where
  "received h vals rs h' \<longleftrightarrow> heap_ok h' \<and> ch_next h' = ch_next h + length vals \<and>
     map rs_data rs = map of_nat [ch_next h..<ch_next h + length vals] \<and>
     list_all2 (\<lambda>r v. ch_blk h' (rs_data r) = Some v) rs vals \<and>
     (\<forall>q. q \<notin> set (map rs_data rs) \<longrightarrow> ch_blk h' q = ch_blk h q)"

lemma recv_loop_ok:
  assumes stream: "reads_stream rd pend"
    and "whole_reads rd vals io" "heap_ok h" "ch_next h + length vals < 2 ^ 64" "pend io = concat (map (\<lambda>v. v @ [CHR 0x0A]) vals) @ rest"
    and "\<forall>v\<in>set vals. cstr v \<and> length v + 1 < 2 ^ 31" "length rs = length vals"
  shows "\<exists>rs' h' io'. recv_loop rd (map (\<lambda>v. show_nat (length v + 1)) vals) rs h io = Some (rs', h', io') \<and>
    pend io' = rest \<and> received h vals rs' h'"
  using assms(2-)
proof (induction vals arbitrary: rs h io)
  case Nil
  then show ?case
    by (simp add: received_def)
next
  case (Cons v vals)
  obtain r rs1 where rs: "rs = r # rs1" "length rs1 = length vals"
    using Cons.prems(6) by (cases rs) auto
  let ?v = "v @ [CHR 0x0A]" and ?p = "of_nat (ch_next h) :: u64" and ?h = "snd (c_strdup v h)"
  obtain buf io1 where rd: "rd (length ?v) io = (int (length ?v), buf, io1)" "whole_reads rd vals io1"
    using Cons.prems(1) by (cases "rd (length ?v) io") simp
  have io1: "rd (length ?v) io = (int (length ?v), ?v, io1)" "pend io1 = concat (map (\<lambda>v. v @ [CHR 0x0A]) vals) @ rest"
    using full_read [OF stream _ _ rd(1)] rd(1) Cons.prems(4) by auto
  have a: "atoi (show_nat (length v + 1)) = Some (int (length v + 1))"
    by (rule atoi_show) (use Cons.prems(5) in simp)
  have h: "heap_ok ?h" "ch_next ?h = ch_next h + 1" "ch_blk ?h = (ch_blk h)(?p \<mapsto> v)"
    using heap_ok_strdup [OF Cons.prems(2)] by (simp_all add: c_strdup_def)
  obtain rs' h' io' where IH: "recv_loop rd (map (\<lambda>v. show_nat (length v + 1)) vals) rs1 ?h io1 = Some (rs', h', io')"
      "pend io' = rest" "received ?h vals rs' h'"
    using Cons.IH [OF rd(2) h(1) _ io1(2), of rs1] Cons.prems(3,5) rs(2) h(2) by auto
  have ptrs: "map rs_data rs' = map of_nat [ch_next h + 1..<ch_next h + 1 + length vals]"
    using IH(3) h(2) by (simp add: received_def)
  have new: "?p \<notin> set (map rs_data rs')"
    using of_nat_range(2) [of "ch_next h + 1" "length vals" "ch_next h"] Cons.prems(3) unfolding ptrs by simp
  have range: "[ch_next h..<ch_next h + length (v # vals)] = ch_next h # [ch_next h + 1..<ch_next h + 1 + length vals]"
    by (simp add: upt_rec)
  have "recv_loop rd (map (\<lambda>v. show_nat (length v + 1)) (v # vals)) rs h io = Some (r\<lparr>rs_data := ?p\<rparr> # rs', h', io')"
    using a io1(1) IH(1) rs(1) Cons.prems(5) by (simp add: c_strdup_def nat_add_distrib)
  moreover have "received h (v # vals) (r\<lparr>rs_data := ?p\<rparr> # rs') h'"
    using IH(3) h(2,3) new ptrs range unfolding received_def by (simp del: upt_Suc)
  ultimately show ?case
    using IH(2) by blast
qed

text \<open>The line of the sizes is in a block of its own, which is freed before the values are read.\<close>

lemma line_freed:
  assumes "heap_ok h" "ch_next h < 2 ^ 64"
  shows "\<exists>h'. ch_blk (snd (c_strdup line h)) (of_nat (ch_next h)) = Some line \<and>
    c_free (of_nat (ch_next h)) (snd (c_strdup line h)) = Some h' \<and> ch_blk h' = ch_blk h \<and> heap_ok h' \<and> ch_next h' = ch_next h + 1"
proof -
  let ?h = "(snd (c_strdup line h))\<lparr>ch_blk := ch_blk h\<rparr>"
  have "c_free (of_nat (ch_next h)) (snd (c_strdup line h)) = Some ?h"
    using heap_fresh(1,2) [OF assms] by (simp add: c_free_def c_strdup_def fun_upd_idem)
  moreover have "heap_ok ?h"
    by (rule heap_ok_mono [OF assms(1)]) (simp_all add: c_strdup_def)
  ultimately show ?thesis
    by (simp add: c_strdup_def)
qed

text \<open>The values are read into fresh blocks, parsed, and freed again.\<close>

lemma values_parsed:
  assumes "received h vals rs h1" "heap_ok h" "ch_next h + 2 * length vals < 2 ^ 64" "\<forall>v\<in>set vals. decodable v"
  shows "\<exists>rs' h' h''. xfiredb_result_parse rs h1 = Some (rs', h') \<and> list_all2 (shows_reply h') rs' (map decode vals) \<and>
    xfiredb_result_free rs' h' = Some h'' \<and> ch_blk h'' = ch_blk h \<and> heap_ok h'' \<and> ch_next h'' \<le> ch_next h + 2 * length vals"
proof -
  have room: "ch_next h + length vals < 2 ^ 64"
    using assms(3) by simp
  have h1: "heap_ok h1" "ch_next h1 = ch_next h + length vals" "map rs_data rs = map of_nat [ch_next h..<ch_next h + length vals]"
      "list_all2 (\<lambda>r v. ch_blk h1 (rs_data r) = Some v) rs vals" "\<And>p. p \<notin> set (map rs_data rs) \<Longrightarrow> ch_blk h1 p = ch_blk h p"
    using assms(1) unfolding received_def by blast+
  have n: "length rs = length vals"
    using h1(4) by (rule list_all2_lengthD)
  have dist: "distinct (map rs_data rs)"
    unfolding h1(3) by (rule of_nat_range(1) [OF room])
  have dec: "list_all2 (\<lambda>r v. ch_blk h1 (rs_data r) = Some v \<and> decodable v) rs vals"
    by (rule list.rel_mono_strong [OF h1(4)]) (use assms(4) in blast)
  have room1: "ch_next h1 + length rs < 2 ^ 64"
    using assms(3) h1(2) n by simp
  obtain rs' h' h'' where p: "xfiredb_result_parse rs h1 = Some (rs', h')" "list_all2 (shows_reply h') rs' (map decode vals)"
      "xfiredb_result_free rs' h' = Some h''" "ch_blk h'' = (ch_blk h1) |` (- set (map rs_data rs))"
      "ch_next h1 \<le> ch_next h''" "ch_next h'' \<le> ch_next h1 + length rs"
    using parse_free_ok [OF h1(1) room1 dist dec] .
  have "ch_blk h p = None" if p: "p \<in> set (map rs_data rs)" for p
    using p heap_above [OF assms(2)] room unfolding h1(3) by auto
  then have same: "ch_blk h'' = ch_blk h"
    using p(4) h1(5) by (auto simp: restrict_map_def fun_eq_iff)
  have "heap_ok h''"
    using heap_ok_mono [OF assms(2) same] p(5) h1(2) by simp
  moreover have "ch_next h'' \<le> ch_next h + 2 * length vals"
    using p(6) h1(2) n by simp
  ultimately show ?thesis
    using p(1-3) same by blast
qed

lemma query_ok:
  assumes conn: "conn_of net cl = Some (wr, rd)" "reads_stream rd pend"
    and reply: "wr (q @ [CHR 0x0A]) io = (num, io1)" "0 < num" "pend io1 = frame vals @ rest" "arrives rd vals io1"
    and vals: "vals \<noteq> []" "\<forall>v\<in>set vals. cstr v \<and> length v + 1 < 2 ^ 31 \<and> decodable v"
    and h: "heap_ok h" "ch_next h + length (size_line vals) div 1022 + 1 + 2 * length vals < 2 ^ 64" "2 \<le> a"
  shows "\<exists>rs h' h'' io'. xfiredb_query a net (Some cl) (Some q) h io = Some (Some rs, h', io') \<and> pend io' = rest \<and>
    list_all2 (shows_reply h') rs (map decode vals) \<and> xfiredb_result_free rs h' = Some h'' \<and>
    leaks h (length (size_line vals) div 1022) h'' \<and> heap_ok h'' \<and>
    ch_next h'' \<le> ch_next h + length (size_line vals) div 1022 + 1 + 2 * length vals"
proof -
  let ?sizes = "map (\<lambda>v. show_nat (length v + 1)) vals" and ?line = "size_line vals"
  let ?io2 = "after rd (length ?line + 1) io1"
  have "pend io1 = ?line @ CHR 0x0A # concat (map (\<lambda>v. v @ [CHR 0x0A]) vals) @ rest"
    using reply(3) by (simp add: frame_def)
  then obtain h1 where h1: "query_readline net cl h io1 = Some (of_nat (ch_next h1), snd (c_strdup ?line h1), ?io2)"
      "pend ?io2 = concat (map (\<lambda>v. v @ [CHR 0x0A]) vals) @ rest" "heap_ok h1" "ch_next h1 = ch_next h + length ?line div 1022"
      "leaks h (length ?line div 1022) h1"
    using query_readline_ok [OF conn _ sizes_line(2,3) h(1)] by blast
  have "ch_next h1 < 2 ^ 64"
    using h1(4) h(2) by simp
  then obtain h2 where h2: "ch_blk (snd (c_strdup ?line h1)) (of_nat (ch_next h1)) = Some ?line"
      "c_free (of_nat (ch_next h1)) (snd (c_strdup ?line h1)) = Some h2" "ch_blk h2 = ch_blk h1" "heap_ok h2" "ch_next h2 = ch_next h1 + 1"
    using line_freed [OF h1(3)] by blast
  have split: "str_split a ?line (CHR '' '') = Some ?sizes" "str_count_occurences ?line (CHR '' '') + 1 = int (length vals)"
    using split_counts_ok [OF _ sizes_line(1) h(3), of vals] vals(1) by (auto simp: size_line_def)
  have room: "ch_next h2 + length vals < 2 ^ 64" "ch_next h2 + 2 * length vals < 2 ^ 64"
    using h(2) h1(4) h2(5) by simp_all
  have small: "\<forall>v\<in>set vals. cstr v \<and> length v + 1 < 2 ^ 31" and dec: "\<forall>v\<in>set vals. decodable v"
    using vals(2) by blast+
  have len: "length (xfiredb_result_alloc (length vals)) = length vals"
    by (simp add: xfiredb_result_alloc_def)
  obtain rs h3 io3 where rs: "recv_loop rd ?sizes (xfiredb_result_alloc (length vals)) h2 ?io2 = Some (rs, h3, io3)"
      "pend io3 = rest" "received h2 vals rs h3"
    using recv_loop_ok [OF conn(2) reply(4) [unfolded arrives_def] h2(4) room(1) h1(2) small len] by blast
  have ex: "exchange a wr rd net cl q h io = Some (Some rs, h3, io3)"
    unfolding exchange_def using reply(1,2) h1(1) h2(1,2) split rs(1) by simp
  obtain rs' h' h'' where p: "xfiredb_result_parse rs h3 = Some (rs', h')" "list_all2 (shows_reply h') rs' (map decode vals)"
      "xfiredb_result_free rs' h' = Some h''" "ch_blk h'' = ch_blk h2" "heap_ok h''" "ch_next h'' \<le> ch_next h2 + 2 * length vals"
    using values_parsed [OF rs(3) h2(4) room(2) dec] by blast
  have "leaks h (length ?line div 1022) h''"
    using h1(5) p(4) h2(3) by (simp add: leaks_def)
  moreover have "xfiredb_query a net (Some cl) (Some q) h io = Some (Some rs', h', io3)"
    unfolding query_conn [OF conn(1)] using ex p(1) by simp
  ultimately show ?thesis
    using rs(2) p(2,3,5,6) h1(4) h2(5) by auto
qed

section \<open>Properties\<close>

text \<open>A connection whose peer answers every line with the next of the given replies.\<close>

record line_io =
  io_in :: string
  io_replies :: "string list"
  io_out :: string

definition sample_send :: "string \<Rightarrow> line_io \<Rightarrow> int \<times> line_io" where
  "sample_send s io = (int (length s),
     case io_replies io of
       [] \<Rightarrow> io\<lparr>io_out := io_out io @ s\<rparr>
     | r # rs \<Rightarrow> io\<lparr>io_out := io_out io @ s, io_in := io_in io @ r, io_replies := rs\<rparr>)"

definition sample_recv :: "nat \<Rightarrow> line_io \<Rightarrow> int \<times> string \<times> line_io" where
  "sample_recv n io = (int (min n (length (io_in io))), take n (io_in io), io\<lparr>io_in := drop n (io_in io)\<rparr>)"

definition sample_net :: "line_io net" where
  "sample_net = \<lparr>n_send = (\<lambda>_. sample_send), n_recv = (\<lambda>_. sample_recv), n_SSL_write = (\<lambda>_. sample_send),
     n_SSL_read = (\<lambda>_. sample_recv)\<rparr>"

definition sample_client :: xfiredb_client where
  "sample_client = \<lparr>cl_socket = 5, cl_serv = 0, cl_ssl = None, cl_flags = XFIREDB_SOCK_STREAM\<rparr>"

definition empty_heap :: cheap where
  "empty_heap = \<lparr>ch_blk = Map.empty, ch_next = 1\<rparr>"

lemma sample_reads: "reads_stream sample_recv io_in" "io_in io = frame vals @ rest \<Longrightarrow> arrives sample_recv vals io"
proof -
  have "take n s = take (min n (length s)) s" "drop n s = drop (min n (length s)) s" for n and s :: string
    by (simp_all add: min_def)
  then show "reads_stream sample_recv io_in"
    by (simp add: reads_stream_def sample_recv_def)
  have after: "io_in (after sample_recv n io) = drop n (io_in io)" for n io
    by (induction n arbitrary: io) (simp_all add: sample_recv_def drop_Suc drop_tl)
  have whole: "whole_reads sample_recv vals io" if "io_in io = concat (map (\<lambda>v. v @ [CHR 0x0A]) vals) @ rest" for vals io
    using that by (induction vals arbitrary: io) (simp_all add: sample_recv_def)
  show "arrives sample_recv vals io" if "io_in io = frame vals @ rest"
    unfolding arrives_def by (rule whole) (use that in \<open>simp only: after\<close>, simp add: frame_def)
qed

lemma sample_conn: "conn_of sample_net sample_client = Some (sample_send, sample_recv)"
  by (simp add: conn_of_def sample_net_def sample_client_def xdb_defs)

lemma sample_heap_ok: "heap_ok empty_heap"
  by (simp add: heap_ok_def empty_heap_def)

text \<open>
  C29: \<^verbatim>\<open>xfiredb_query\<close>, over plain sockets or TLS, decodes the reply of the server: when
  the peer answers the query with a line of sizes and the values, and in this run each value arrives in one read, the client
  returns one result per value with what the value stands for, and reads exactly the bytes of the reply. Freeing the results
  restores the heap if the line of sizes is shorter than 1022 characters; otherwise one buffer of \<^verbatim>\<open>query_readline\<close> is left for
  every 1022 characters of the line.
\<close>

theorem query_decodes_reply:
  assumes "conn_of net cl = Some (wr, rd)" "reads_stream rd pend"
    and "wr (q @ [CHR 0x0A]) io = (num, io1)" "0 < num" "pend io1 = frame vals @ rest" "arrives rd vals io1"
    and "vals \<noteq> []" "\<forall>v\<in>set vals. cstr v \<and> length v + 1 < 2 ^ 31 \<and> decodable v"
    and "heap_ok h" "ch_next h + length (size_line vals) div 1022 + 1 + 2 * length vals < 2 ^ 64" "2 \<le> a"
  shows "\<exists>rs h' h'' io'. xfiredb_query a net (Some cl) (Some q) h io = Some (Some rs, h', io') \<and> pend io' = rest \<and>
    list_all2 (shows_reply h') rs (map decode vals) \<and> xfiredb_result_free rs h' = Some h'' \<and>
    leaks h (length (size_line vals) div 1022) h'' \<and> (length (size_line vals) < 1022 \<longrightarrow> ch_blk h'' = ch_blk h)"
  using query_ok [OF assms] leaks_0 by (metis div_less)

theorem query_decodes_reply_witness:
  "\<exists>rs h' h'' io'. xfiredb_query 4096 sample_net (Some sample_client) (Some ''GET k'') empty_heap
      \<lparr>io_in = [], io_replies = [frame [''+hello'', ''OK'']], io_out = []\<rparr> = Some (Some rs, h', io') \<and> io_in io' = [] \<and>
    list_all2 (shows_reply h') rs [ReplyString ''hello'', ReplyOk] \<and> xfiredb_result_free rs h' = Some h'' \<and>
    ch_blk h'' = Map.empty"
proof -
  let ?io = "\<lparr>io_in = [], io_replies = [frame [''+hello'', ''OK'']], io_out = []\<rparr>"
  let ?io1 = "\<lparr>io_in = frame [''+hello'', ''OK''], io_replies = [], io_out = ''GET k'' @ [CHR 0x0A]\<rparr>"
  have s: "sample_send (''GET k'' @ [CHR 0x0A]) ?io = (6, ?io1)" "(0::int) < 6" "io_in ?io1 = frame [''+hello'', ''OK''] @ []"
    by (simp_all add: sample_send_def)
  have v: "[''+hello'', ''OK''] \<noteq> []"
      "\<forall>v\<in>set [''+hello'', ''OK'']. cstr v \<and> length v + 1 < 2 ^ 31 \<and> decodable v"
    by (simp_all add: cstr_def decodable_def)
  have line: "size_line [''+hello'', ''OK''] = ''7 3''"
    by code_simp
  have h: "ch_next empty_heap + length (size_line [''+hello'', ''OK'']) div 1022 + 1 + 2 * length [''+hello'', ''OK''] < 2 ^ 64"
      "2 \<le> (4096 :: nat)"
    by (simp_all add: empty_heap_def line)
  have d: "map decode [''+hello'', ''OK''] = [ReplyString ''hello'', ReplyOk]" "ch_blk empty_heap = Map.empty"
    by (simp_all add: decode_def empty_heap_def)
  have len: "length (size_line [''+hello'', ''OK'']) < 1022"
    by (simp add: line)
  show ?thesis
    using query_decodes_reply [of sample_net sample_client sample_send sample_recv io_in "''GET k''" ?io 6 ?io1
      "[''+hello'', ''OK'']" "[]" empty_heap 4096, OF sample_conn sample_reads(1) s sample_reads(2) [OF s(3)] v sample_heap_ok h]
      len unfolding d by blast
qed

text \<open>
  C33: when the server has closed the connection or answers with an empty list, the line of sizes is empty
  and the assertion in \<^verbatim>\<open>str_split\<close> aborts the client, although a failed query is to return the null pointer, as
  it does when the query cannot be sent.
\<close>

theorem query_aborts_on_close:
  assumes "conn_of net cl = Some (wr, rd)" "reads_stream rd pend" "wr (q @ [CHR 0x0A]) io = (num, io1)" "2 \<le> a"
  shows "(num \<le> 0 \<longrightarrow> xfiredb_query a net (Some cl) (Some q) h io = Some (None, h, io1)) \<and>
    (0 < num \<and> (pend io1 = [] \<or> (\<exists>rest. pend io1 = frame [] @ rest)) \<longrightarrow> xfiredb_query a net (Some cl) (Some q) h io = None)"
proof -
  have "\<exists>io2. query_readline net cl h io1 = Some (of_nat (ch_next h), snd (c_strdup [] h), io2)"
    if "pend io1 = [] \<or> (\<exists>rest. pend io1 = frame [] @ rest)"
    by (rule query_readline_empty [OF assms(1,2), where rest = "tl (pend io1)"])
      (use that in \<open>auto simp: frame_def size_line_def\<close>)
  moreover have "ch_blk (snd (c_strdup [] h)) (of_nat (ch_next h)) = Some []"
    by (simp add: c_strdup_def)
  moreover have "str_split a [] (CHR '' '') = None"
    using assms(4) by (simp add: str_split_aborts_iff)
  ultimately show ?thesis
    using assms(3) by (auto simp: query_conn [OF assms(1)] exchange_def)
qed

theorem query_aborts_on_close_witness:
  "xfiredb_query 4096 sample_net (Some sample_client) (Some ''GET k'') empty_heap
     \<lparr>io_in = [], io_replies = [], io_out = []\<rparr> = None"
proof -
  have s: "reads_stream sample_recv io_in" "2 \<le> (4096 :: nat)"
    using sample_reads(1) by simp_all
  have "sample_send (''GET k'' @ [CHR 0x0A]) \<lparr>io_in = [], io_replies = [], io_out = []\<rparr> =
      (6, \<lparr>io_in = [], io_replies = [], io_out = ''GET k'' @ [CHR 0x0A]\<rparr>)"
    by (simp add: sample_send_def)
  then show ?thesis
    using query_aborts_on_close [OF sample_conn s(1) _ s(2)] by simp
qed

text \<open>
  A read that returns fewer bytes than asked for, as sockets do, cuts the value short, and what is left of it
  is read as the line of sizes of the next query.
\<close>

definition slow_recv :: "nat \<Rightarrow> line_io \<Rightarrow> int \<times> string \<times> line_io" where
  "slow_recv n io = sample_recv (min n 4) io"

definition slow_net :: "line_io net" where
  "slow_net = sample_net\<lparr>n_recv := (\<lambda>_. slow_recv)\<rparr>"

lemma short_read_truncates:
  "map_option (\<lambda>(rs, h, io). (map_option (map (\<lambda>r. ch_blk h (rs_data r))) rs, io_in io))
     (xfiredb_query 4096 slow_net (Some sample_client) (Some ''GET k'') empty_heap
        \<lparr>io_in = [], io_replies = [frame [''+hello'']], io_out = []\<rparr>) =
   Some (Some [Some ''he''], ''lo'' @ [CHR 0x0A])"
  by code_simp

end
