(* ===== verification/ClientConnect.thy ===== *)
theory ClientConnect
  imports ClientQuery
begin

text \<open>
  Connections of the C client (\<^verbatim>\<open>clients/c/connect.c\<close>), in the configuration for Unix. The environment of
  the queries is extended by the calls that make and end a connection. The state keeps, beside that of
  the environment, the sockets and the handles of the TLS library that are open.
\<close>

section \<open>Environment\<close>

text \<open>
  \<open>n_host\<close> is \<^verbatim>\<open>gethostbyname\<close> with the list of addresses; a handle 0 is a null pointer. \<open>n_connect\<close> gets the
  address and the port of the peer.
\<close>

record 'io os = "'io net" +
  n_host :: "string \<Rightarrow> 'io \<Rightarrow> u32 list option \<times> 'io"
  n_socket :: "'io \<Rightarrow> int \<times> 'io"
  n_connect :: "int \<Rightarrow> u32 \<Rightarrow> u16 \<Rightarrow> 'io \<Rightarrow> int \<times> 'io"
  n_close :: "int \<Rightarrow> 'io \<Rightarrow> 'io"
  n_CTX_new :: "'io \<Rightarrow> nat \<times> 'io"
  n_SSL_new :: "nat \<Rightarrow> 'io \<Rightarrow> nat \<times> 'io"
  n_SSL_connect :: "nat \<Rightarrow> int \<Rightarrow> 'io \<Rightarrow> int \<times> 'io"

record 'io conns =
  k_io :: 'io
  k_socks :: "int list"
  k_ctxs :: "nat list"
  k_ssls :: "nat list"

definition k_call :: "('io \<Rightarrow> 'a \<times> 'io) \<Rightarrow> 'io conns \<Rightarrow> 'a \<times> 'io conns" where
  "k_call f k = (case f (k_io k) of (r, io) \<Rightarrow> (r, k\<lparr>k_io := io\<rparr>))"

definition c_socket :: "'io os \<Rightarrow> 'io conns \<Rightarrow> int \<times> 'io conns" where
  "c_socket os k = (case k_call (n_socket os) k of (s, k) \<Rightarrow> (s, if s < 0 then k else k\<lparr>k_socks := s # k_socks k\<rparr>))"

definition c_close :: "'io os \<Rightarrow> int \<Rightarrow> 'io conns \<Rightarrow> 'io conns" where
  "c_close os s k = k\<lparr>k_io := n_close os s (k_io k), k_socks := remove1 s (k_socks k)\<rparr>"

definition CTX_free :: "nat \<Rightarrow> 'io conns \<Rightarrow> 'io conns" where
  "CTX_free c k = k\<lparr>k_ctxs := remove1 c (k_ctxs k)\<rparr>"

definition SSL_free :: "nat \<Rightarrow> 'io conns \<Rightarrow> 'io conns" where
  "SSL_free s k = k\<lparr>k_ssls := remove1 s (k_ssls k)\<rparr>"

section \<open>Addresses\<close>

text \<open>\<^verbatim>\<open>inet_ntoa\<close>: the bytes of an address in the order of the network, the first in the lowest byte.\<close>

definition inet_ntoa :: "u32 \<Rightarrow> string" where
  "inet_ntoa a = join_with (CHR ''.'') (map (\<lambda>i. show_nat (unat (drop_bit (8 * i) a AND 255))) [0, 1, 2, 3])"

text \<open>\<^verbatim>\<open>hostname_to_ip\<close>: the buffer stays unwritten (\<^const>\<open>None\<close>) when the list of addresses is empty.\<close>

definition hostname_to_ip :: "'io os \<Rightarrow> string \<Rightarrow> 'io conns \<Rightarrow> int \<times> string option \<times> 'io conns" where
  "hostname_to_ip os host k =
     (case k_call (n_host os host) k of
        (None, k) \<Rightarrow> (- XFIREDB_ERR, None, k)
      | (Some [], k) \<Rightarrow> (- XFIREDB_OK, None, k)
      | (Some (a # _), k) \<Rightarrow> (- XFIREDB_OK, Some (inet_ntoa a), k))"

section \<open>Connecting\<close>

text \<open>\<^verbatim>\<open>xfiredb_ssl_init\<close> aborts without a context.\<close>

definition xfiredb_ssl_init :: "'io os \<Rightarrow> 'io conns \<Rightarrow> (nat \<times> 'io conns) option" where
  "xfiredb_ssl_init os k =
     (case k_call (n_CTX_new os) k of (ctx, k) \<Rightarrow> if ctx = 0 then None else Some (ctx, k\<lparr>k_ctxs := ctx # k_ctxs k\<rparr>))"

text \<open>The first address of a host; \<^verbatim>\<open>h_addr\<close> of an empty list is a null pointer.\<close>

definition first_addr :: "u32 list \<Rightarrow> u32 option" where
  "first_addr as = (case as of [] \<Rightarrow> None | a # _ \<Rightarrow> Some a)"

definition xfiredb_ssl_connect ::
  "'io os \<Rightarrow> string \<Rightarrow> int \<Rightarrow> u64 \<Rightarrow> 'io conns \<Rightarrow> (xfiredb_client option \<times> 'io conns) option" where
  "xfiredb_ssl_connect os hostname port flags k = do {
     (ctx, k) \<leftarrow> xfiredb_ssl_init os k;
     let (host, k) = k_call (n_host os hostname) k;
     case host of
       None \<Rightarrow> Some (None, k)
     | Some as \<Rightarrow> do {
         let (sock, k) = c_socket os k;
         a \<leftarrow> first_addr as;
         let (rc, k) = k_call (n_connect os sock a (word_of_int port)) k;
         if rc \<noteq> 0 then Some (None, c_close os sock k)
         else do {
           let (ssl, k) = k_call (n_SSL_new os ctx) k;
           let k = k\<lparr>k_ssls := ssl # k_ssls k\<rparr>;
           let (rc, k) = k_call (n_SSL_connect os ssl sock) k;
           if rc = -1 then Some (None, CTX_free ctx (c_close os sock k))
           else Some (Some \<lparr>cl_socket = sock, cl_serv = 0, cl_ssl = Some (ctx, ssl), cl_flags = flags\<rparr>, k)
         }
       }
   }"

definition plain_connect ::
  "'io os \<Rightarrow> string \<Rightarrow> int \<Rightarrow> u64 \<Rightarrow> 'io conns \<Rightarrow> (xfiredb_client option \<times> 'io conns) option" where
  "plain_connect os hostname port flags k = do {
     let (sock, k) = c_socket os k;
     if sock < 0 then Some (None, k)
     else do {
       let (serv, k) = k_call (n_host os hostname) k;
       case serv of
         None \<Rightarrow> Some (None, c_close os sock k)
       | Some as \<Rightarrow> do {
           a \<leftarrow> first_addr as;
           let (rc, k) = k_call (n_connect os sock a (word_of_int port)) k;
           if rc < 0 then Some (None, c_close os sock k)
           else Some (Some \<lparr>cl_socket = sock, cl_serv = 0, cl_ssl = None, cl_flags = flags\<rparr>, k)
         }
     }
   }"

definition XFIREDB_STREAM_COMMAND :: string where
  "XFIREDB_STREAM_COMMAND = ''STREAM'' @ [CHR 0x0A]"

text \<open>A write on the connection of a client whose result is not looked at.\<close>

definition put_line :: "'io os \<Rightarrow> xfiredb_client \<Rightarrow> string \<Rightarrow> 'io conns \<Rightarrow> 'io conns option" where
  "put_line os client s k =
     (if cl_flags client AND XFIREDB_SSL \<noteq> 0
      then (case cl_ssl client of None \<Rightarrow> None | Some (_, ssl) \<Rightarrow> Some (snd (k_call (n_SSL_write os ssl s) k)))
      else Some (snd (k_call (n_send os (cl_socket client) s) k)))"

definition xfiredb_connect ::
  "'io os \<Rightarrow> string \<Rightarrow> int \<Rightarrow> u64 \<Rightarrow> 'io conns \<Rightarrow> (xfiredb_client option \<times> 'io conns) option" where
  "xfiredb_connect os host port flags k = do {
     (rc, ip, k) \<leftarrow> Some (if flags AND XFIREDB_SOCK_RESOLV \<noteq> 0 then hostname_to_ip os host k else (- XFIREDB_OK, Some host, k));
     if rc \<noteq> - XFIREDB_OK then Some (None, k)
     else do {
       host \<leftarrow> ip;
       (client, k) \<leftarrow> (if flags AND XFIREDB_SSL \<noteq> 0 then xfiredb_ssl_connect os host port flags k
                       else plain_connect os host port flags k);
       case client of
         None \<Rightarrow> Some (None, k)
       | Some cl \<Rightarrow>
           if flags AND (XFIREDB_SOCK_STREAM OR XFIREDB_AUTH) = XFIREDB_SOCK_STREAM
           then map_option (\<lambda>k. (Some cl, k)) (put_line os cl XFIREDB_STREAM_COMMAND k)
           else Some (Some cl, k)
     }
   }"

section \<open>Authentication\<close>

text \<open>
  The loop that reads the answer byte by byte. The buffer is zeroed; a read that fails leaves its byte as it
  is, and the loop goes on.
\<close>

fun auth_loop :: "'io os \<Rightarrow> int \<Rightarrow> nat \<Rightarrow> string \<Rightarrow> 'io conns \<Rightarrow> string \<times> 'io conns" where
  "auth_loop os sock 0 tmp k = (tmp, k)"
| "auth_loop os sock (Suc n) tmp k =
     (case k_call (\<lambda>io. case n_recv os sock 1 io of (num, c, io) \<Rightarrow> ((num, c), io)) k of
        ((num, c), k) \<Rightarrow>
          let c = (if num \<le> 0 then [CHR 0x00] else c) in
          if c = [CHR 0x0A] then (tmp @ c, k) else auth_loop os sock n (tmp @ c) k)"

definition xfiredb_auth_client :: "'io os \<Rightarrow> xfiredb_client \<Rightarrow> string \<Rightarrow> string \<Rightarrow> 'io conns \<Rightarrow> (int \<times> 'io conns) option" where
  "xfiredb_auth_client os client username password k = do {
     let query = ''AUTH '' @ username @ '' '' @ password @ [CHR 0x0A];
     k \<leftarrow> put_line os client query k;
     (tmp, k) \<leftarrow>
       (if cl_flags client AND XFIREDB_SSL \<noteq> 0
        then (case cl_ssl client of
                None \<Rightarrow> None
              | Some (_, ssl) \<Rightarrow>
                  (case k_call (\<lambda>io. case n_SSL_read os ssl 1024 io of (num, buf, io) \<Rightarrow> ((num, buf), io)) k of
                     ((num, buf), k) \<Rightarrow> Some (if num \<le> 0 then [] else buf, k)))
        else Some (auth_loop os (cl_socket client) 1024 [] k));
     if c_str tmp \<noteq> ''OK'' @ [CHR 0x0A] then Some (- XFIREDB_ERR, k)
     else do {
       k \<leftarrow> (if cl_flags client AND XFIREDB_SOCK_STREAM \<noteq> 0 then put_line os client XFIREDB_STREAM_COMMAND k else Some k);
       Some (- XFIREDB_OK, k)
     }
   }"

section \<open>Disconnecting\<close>

definition xfiredb_disconnect :: "'io os \<Rightarrow> xfiredb_client option \<Rightarrow> 'io conns \<Rightarrow> 'io conns" where
  "xfiredb_disconnect os client k =
     (case client of
        None \<Rightarrow> k
      | Some cl \<Rightarrow>
          let k = (case (cl_flags cl AND XFIREDB_SSL \<noteq> 0, cl_ssl cl) of
                     (True, Some (ctx, ssl)) \<Rightarrow> CTX_free ctx (SSL_free ssl k)
                   | _ \<Rightarrow> k)
          in c_close os (cl_socket cl) k)"

section \<open>Resources\<close>

text \<open>The open sockets and handles of a state.\<close>

definition open_res :: "'io conns \<Rightarrow> int list \<times> nat list \<times> nat list" where
  "open_res k = (k_socks k, k_ctxs k, k_ssls k)"

lemma k_call_open: "k_call f k = (r, k') \<Longrightarrow> open_res k' = open_res k"
  by (auto simp: k_call_def open_res_def split: prod.splits)

lemma put_line_open: "put_line os cl s k = Some k' \<Longrightarrow> open_res k' = open_res k"
  by (auto simp: put_line_def k_call_def open_res_def split: if_splits option.splits prod.splits)

lemma hostname_open: "hostname_to_ip os host k = (rc, ip, k') \<Longrightarrow> open_res k' = open_res k"
  by (auto simp: hostname_to_ip_def split: prod.splits option.splits list.splits dest: k_call_open)

lemma c_socket_open:
  "c_socket os k = (s, k') \<Longrightarrow> open_res k' = (if s < 0 then k_socks k else s # k_socks k, k_ctxs k, k_ssls k)"
  by (auto simp: c_socket_def k_call_def open_res_def split: prod.splits if_splits)

lemma c_close_open: "open_res (c_close os s k) = (remove1 s (k_socks k), k_ctxs k, k_ssls k)"
  by (simp add: c_close_def open_res_def)

lemma open_resD: "open_res k = (a, b, c) \<Longrightarrow> k_socks k = a \<and> k_ctxs k = b \<and> k_ssls k = c"
  by (simp add: open_res_def)

text \<open>A socket that was refused is not among the open ones.\<close>

definition socks_ok :: "'io conns \<Rightarrow> bool" where
  "socks_ok k \<longleftrightarrow> (\<forall>s\<in>set (k_socks k). 0 \<le> s)"

lemma close_fresh: "socks_ok k \<Longrightarrow> remove1 s (if s < 0 then k_socks k else s # k_socks k) = k_socks k"
  using remove1_idem [of s "k_socks k"] by (fastforce simp: socks_ok_def)

text \<open>The outcome of a connection: a client whose disconnection closes what was opened, or no client.\<close>

definition connected :: "'io os \<Rightarrow> u64 \<Rightarrow> 'io conns \<Rightarrow> xfiredb_client option \<Rightarrow> 'io conns \<Rightarrow> bool" where
  "connected os flags k client k' \<longleftrightarrow>
     (case client of
        Some cl \<Rightarrow> cl_flags cl = flags \<and> (\<forall>k2. open_res k2 = open_res k' \<longrightarrow> open_res (xfiredb_disconnect os client k2) = open_res k)
      | None \<Rightarrow> k_socks k' = k_socks k \<and> (flags AND XFIREDB_SSL = 0 \<longrightarrow> open_res k' = open_res k))"

lemma plain_connect_ok:
  assumes "plain_connect os host port flags k = Some (client, k')" "flags AND XFIREDB_SSL = 0" "socks_ok k"
  shows "connected os flags k client k'"
proof -
  obtain sock k1 where s: "c_socket os k = (sock, k1)"
    by (cases "c_socket os k") auto
  note o1 = c_socket_open [OF s]
  show ?thesis
  proof (cases "sock < 0")
    case True
    then show ?thesis
      using assms(1) s o1 by (simp add: plain_connect_def connected_def open_res_def)
  next
    case False
    obtain serv k2 where h: "k_call (n_host os host) k1 = (serv, k2)"
      by (cases "k_call (n_host os host) k1") auto
    have o2: "open_res k2 = (sock # k_socks k, k_ctxs k, k_ssls k)"
      using k_call_open [OF h] o1 False by simp
    show ?thesis
    proof (cases serv)
      case None
      then show ?thesis
        using assms(1) s h False o2 by (auto simp: plain_connect_def connected_def open_res_def c_close_def)
    next
      case (Some as)
      then obtain a where a: "first_addr as = Some a"
        using assms(1) s h False by (cases "first_addr as") (simp_all add: plain_connect_def)
      obtain rc k3 where c: "k_call (n_connect os sock a (word_of_int port)) k2 = (rc, k3)"
        by (cases "k_call (n_connect os sock a (word_of_int port)) k2") auto
      have o3: "open_res k3 = (sock # k_socks k, k_ctxs k, k_ssls k)"
        using k_call_open [OF c] o2 by simp
      show ?thesis
        using assms(1,2) s h False Some a c o3
        by (auto simp: plain_connect_def connected_def xfiredb_disconnect_def open_res_def c_close_def split: if_splits)
    qed
  qed
qed

lemma ssl_connect_ok:
  assumes "xfiredb_ssl_connect os host port flags k = Some (client, k')" "flags AND XFIREDB_SSL \<noteq> 0" "socks_ok k"
  shows "connected os flags k client k'"
proof -
  obtain ctx k1 where i: "xfiredb_ssl_init os k = Some (ctx, k1)"
    using assms(1) by (cases "xfiredb_ssl_init os k") (auto simp: xfiredb_ssl_connect_def)
  have o1: "open_res k1 = (k_socks k, ctx # k_ctxs k, k_ssls k)"
    using i by (auto simp: xfiredb_ssl_init_def k_call_def open_res_def split: prod.splits if_splits)
  obtain h k2 where h: "k_call (n_host os host) k1 = (h, k2)"
    by (cases "k_call (n_host os host) k1") auto
  have o2: "open_res k2 = (k_socks k, ctx # k_ctxs k, k_ssls k)"
    using k_call_open [OF h] o1 by simp
  show ?thesis
  proof (cases h)
    case None
    then show ?thesis
      using assms(1,2) i h o2 by (auto simp: xfiredb_ssl_connect_def connected_def open_res_def)
  next
    case (Some as)
    obtain sock k3 where s: "c_socket os k2 = (sock, k3)"
      by (cases "c_socket os k2") auto
    have o3: "open_res k3 = (if sock < 0 then k_socks k else sock # k_socks k, ctx # k_ctxs k, k_ssls k)"
      using c_socket_open [OF s] o2 by (simp add: open_res_def)
    obtain a where a: "first_addr as = Some a"
      using assms(1) i h Some s by (cases "first_addr as") (simp_all add: xfiredb_ssl_connect_def)
    obtain rc k4 where c: "k_call (n_connect os sock a (word_of_int port)) k3 = (rc, k4)"
      by (cases "k_call (n_connect os sock a (word_of_int port)) k3") auto
    have o4: "open_res k4 = open_res k3"
      using k_call_open [OF c] .
    show ?thesis
    proof (cases "rc = 0")
      case False
      then show ?thesis
        using assms(1,2) i h Some s a c o3 o4 close_fresh [OF assms(3), of sock]
        by (auto simp: xfiredb_ssl_connect_def connected_def open_res_def c_close_def)
    next
      case True
      obtain ssl k5 where n: "k_call (n_SSL_new os ctx) k4 = (ssl, k5)"
        by (cases "k_call (n_SSL_new os ctx) k4") auto
      let ?k = "k5\<lparr>k_ssls := ssl # k_ssls k5\<rparr>"
      obtain rc' k6 where d: "k_call (n_SSL_connect os ssl sock) ?k = (rc', k6)"
        by (cases "k_call (n_SSL_connect os ssl sock) ?k") auto
      have o6: "open_res k6 = (if sock < 0 then k_socks k else sock # k_socks k, ctx # k_ctxs k, ssl # k_ssls k)"
        using k_call_open [OF d] k_call_open [OF n] o3 o4 by (simp add: open_res_def)
      have res: "(client, k') = (if rc' = -1 then (None, CTX_free ctx (c_close os sock k6))
          else (Some \<lparr>cl_socket = sock, cl_serv = 0, cl_ssl = Some (ctx, ssl), cl_flags = flags\<rparr>, k6))"
        using assms(1) i h Some s a c True n d by (simp add: xfiredb_ssl_connect_def split: if_splits)
      show ?thesis
        using res o6 assms(2) close_fresh [OF assms(3), of sock]
        by (auto simp: connected_def xfiredb_disconnect_def open_res_def c_close_def CTX_free_def SSL_free_def split: if_splits)
    qed
  qed
qed

lemma connect_ok:
  assumes "xfiredb_connect os host port flags k = Some (client, k')" "socks_ok k"
  shows "connected os flags k client k'"
proof -
  obtain rc ip k1 where r: "(if flags AND XFIREDB_SOCK_RESOLV \<noteq> 0 then hostname_to_ip os host k else (- XFIREDB_OK, Some host, k)) = (rc, ip, k1)"
    by (metis prod_cases3)
  have o1: "open_res k1 = open_res k"
    using r hostname_open [of os host k] by (auto split: if_splits)
  show ?thesis
  proof (cases "rc = - XFIREDB_OK")
    case False
    then show ?thesis
      using assms(1) r o1 by (auto simp: xfiredb_connect_def connected_def open_res_def)
  next
    case True
    then obtain h cl k2 where c: "ip = Some h" "(if flags AND XFIREDB_SSL \<noteq> 0 then xfiredb_ssl_connect os h port flags k1
          else plain_connect os h port flags k1) = Some (cl, k2)"
        "(case cl of None \<Rightarrow> Some (None, k2) | Some cl \<Rightarrow>
           if flags AND (XFIREDB_SOCK_STREAM OR XFIREDB_AUTH) = XFIREDB_SOCK_STREAM
           then map_option (\<lambda>k. (Some cl, k)) (put_line os cl XFIREDB_STREAM_COMMAND k2) else Some (Some cl, k2)) = Some (client, k')"
      using assms(1) r by (auto simp: xfiredb_connect_def bind_eq_Some_conv)
    have "socks_ok k1"
      using assms(2) o1 by (simp add: socks_ok_def open_res_def)
    then have con: "connected os flags k1 cl k2"
      using c(2) plain_connect_ok ssl_connect_ok by (auto split: if_splits)
    have "client = cl" "open_res k' = open_res k2"
      using c(3) put_line_open by (auto split: option.splits if_splits)
    then show ?thesis
      using con o1 by (auto simp: connected_def open_res_def split: option.splits)
  qed
qed

section \<open>The answer to an authentication\<close>

lemma auth_loop_ok:
  assumes "reads_stream (n_recv os sock) pend" "pend (k_io k) = line @ CHR 0x0A # rest" "CHR 0x0A \<notin> set line" "length line < n"
  shows "\<exists>k'. auth_loop os sock n tmp k = (tmp @ line @ [CHR 0x0A], k') \<and> pend (k_io k') = rest \<and> open_res k' = open_res k"
  using assms(2-)
proof (induction n arbitrary: line tmp k)
  case (Suc n)
  show ?case
  proof (cases line)
    case Nil
    then obtain io' where "n_recv os sock 1 (k_io k) = (1, [CHR 0x0A], io')" "pend io' = rest"
      using stream_char(1) [OF assms(1), of "k_io k" "CHR 0x0A" rest] Suc.prems(1) by auto
    then show ?thesis
      using Nil by (simp add: k_call_def open_res_def)
  next
    case (Cons c cs)
    then obtain io1 where io1: "n_recv os sock 1 (k_io k) = (1, [c], io1)" "pend io1 = cs @ CHR 0x0A # rest"
      using stream_char(1) [OF assms(1), of "k_io k" c] Suc.prems(1) by auto
    then have "\<exists>k'. auth_loop os sock n (tmp @ [c]) (k\<lparr>k_io := io1\<rparr>) = ((tmp @ [c]) @ cs @ [CHR 0x0A], k') \<and>
        pend (k_io k') = rest \<and> open_res k' = open_res (k\<lparr>k_io := io1\<rparr>)"
      using Suc.IH [of "k\<lparr>k_io := io1\<rparr>" cs "tmp @ [c]"] Suc.prems(2,3) Cons by simp
    then show ?thesis
      using io1(1) Suc.prems(2) Cons by (auto simp: k_call_def open_res_def)
  qed
qed simp

lemma c_str_line: "CHR 0x0A \<notin> set line \<Longrightarrow> c_str (line @ [CHR 0x0A]) = ''OK'' @ [CHR 0x0A] \<longleftrightarrow> line = ''OK''"
proof (cases "cstr line")
  case True
  then have "cstr (line @ [CHR 0x0A])"
    by (simp add: cstr_def)
  then show ?thesis
    by auto
next
  case False
  then have "CHR 0x00 \<in> set line"
    by (simp add: cstr_def)
  then have "c_str (line @ [CHR 0x0A]) = c_str line"
    by (simp add: c_str_def takeWhile_append1)
  moreover assume "CHR 0x0A \<notin> set line"
  moreover have "set (c_str line) \<subseteq> set line"
    by (auto simp: c_str_def dest: set_takeWhileD)
  ultimately have "c_str (line @ [CHR 0x0A]) \<noteq> ''OK'' @ [CHR 0x0A]"
    by auto
  moreover have "line \<noteq> ''OK''"
    using False by (auto simp: cstr_def)
  ultimately show ?thesis
    by blast
qed

section \<open>Properties\<close>

text \<open>
  C31: connecting and disconnecting are balanced: whatever \<^verbatim>\<open>xfiredb_connect\<close> has opened for a client that it
  returns is closed by \<^verbatim>\<open>xfiredb_disconnect\<close>; when it returns no client, no socket stays open, and without TLS
  nothing at all stays open.
\<close>

theorem connect_disconnect_balanced:
  assumes "xfiredb_connect os host port flags k = Some (client, k')" "socks_ok k"
  shows "case client of
      Some cl \<Rightarrow> cl_flags cl = flags \<and> open_res (xfiredb_disconnect os client k') = open_res k
    | None \<Rightarrow> k_socks k' = k_socks k \<and> (flags AND XFIREDB_SSL = 0 \<longrightarrow> open_res k' = open_res k)"
  using connect_ok [OF assms] by (auto simp: connected_def split: option.split)

definition sample_os :: "line_io os" where
  "sample_os = net.extend sample_net
     \<lparr>n_host = (\<lambda>h io. (if h = ''nowhere'' then None else Some [0x0100007F], io)), n_socket = (\<lambda>io. (5, io)),
      n_connect = (\<lambda>_ _ _ io. (0, io)), n_close = (\<lambda>_ io. io), n_CTX_new = (\<lambda>io. (1, io)), n_SSL_new = (\<lambda>_ io. (1, io)),
      n_SSL_connect = (\<lambda>_ _ io. (1, io))\<rparr>"

definition sample_conns :: "string list \<Rightarrow> line_io conns" where
  "sample_conns replies = \<lparr>k_io = \<lparr>io_in = [], io_replies = replies, io_out = []\<rparr>, k_socks = [], k_ctxs = [], k_ssls = []\<rparr>"

lemma sample_connect:
  "xfiredb_connect sample_os ''localhost'' 7357 (XFIREDB_SOCK_STREAM OR XFIREDB_SSL) (sample_conns []) =
     Some (Some \<lparr>cl_socket = 5, cl_serv = 0, cl_ssl = Some (1, 1), cl_flags = XFIREDB_SOCK_STREAM OR XFIREDB_SSL\<rparr>,
       \<lparr>k_io = \<lparr>io_in = [], io_replies = [], io_out = XFIREDB_STREAM_COMMAND\<rparr>, k_socks = [5], k_ctxs = [1], k_ssls = [1]\<rparr>)"
  by (simp add: xfiredb_connect_def xfiredb_ssl_connect_def xfiredb_ssl_init_def c_socket_def k_call_def first_addr_def put_line_def
    sample_os_def net.defs sample_net_def sample_conns_def sample_send_def xdb_defs)

theorem connect_disconnect_balanced_witness:
  "\<exists>cl k. xfiredb_connect sample_os ''localhost'' 7357 (XFIREDB_SOCK_STREAM OR XFIREDB_SSL) (sample_conns []) = Some (Some cl, k) \<and>
    open_res (xfiredb_disconnect sample_os (Some cl) k) = ([], [], [])"
  using connect_disconnect_balanced [OF sample_connect] sample_connect
  by (simp add: socks_ok_def) (simp add: sample_conns_def open_res_def)

text \<open>A connection over TLS to an unknown host leaves the context of the TLS library allocated.\<close>

lemma ssl_connect_leaks:
  "xfiredb_connect sample_os ''nowhere'' 7357 XFIREDB_SSL (sample_conns []) = Some (None, (sample_conns [])\<lparr>k_ctxs := [1]\<rparr>)"
  by (simp add: xfiredb_connect_def xfiredb_ssl_connect_def xfiredb_ssl_init_def k_call_def sample_os_def net.defs sample_net_def
    sample_conns_def xdb_defs)

text \<open>
  \<^verbatim>\<open>xfiredb_auth_client\<close> on a plain socket succeeds exactly when the line that the server answers with is
  \<^verbatim>\<open>OK\<close>; it reads that line and nothing behind it, however the bytes arrive.
\<close>

theorem auth_accepts_ok:
  assumes "cl_flags cl AND XFIREDB_SSL = 0" "cl_flags cl AND XFIREDB_SOCK_STREAM = 0" "reads_stream (n_recv os (cl_socket cl)) pend"
    and "n_send os (cl_socket cl) (''AUTH '' @ user @ '' '' @ pass @ [CHR 0x0A]) (k_io k) = (num, io1)"
    and "pend io1 = line @ CHR 0x0A # rest" "CHR 0x0A \<notin> set line" "length line < 1024"
  shows "\<exists>k'. xfiredb_auth_client os cl user pass k = Some (if line = ''OK'' then 0 else -1, k') \<and> pend (k_io k') = rest"
proof -
  obtain k' where k': "auth_loop os (cl_socket cl) 1024 [] (k\<lparr>k_io := io1\<rparr>) = (line @ [CHR 0x0A], k')" "pend (k_io k') = rest"
    using auth_loop_ok [OF assms(3) _ assms(6,7), of "k\<lparr>k_io := io1\<rparr>" rest "[]"] assms(5) by auto
  have put: "put_line os cl (''AUTH '' @ user @ '' '' @ pass @ [CHR 0x0A]) k = Some (k\<lparr>k_io := io1\<rparr>)"
    using assms(1,4) by (simp add: put_line_def k_call_def)
  have "xfiredb_auth_client os cl user pass k = Some (if line = ''OK'' then 0 else -1, k')"
    unfolding xfiredb_auth_client_def Let_def put using assms(1,2) k'(1) c_str_line [OF assms(6)] by simp
  then show ?thesis
    using k'(2) by blast
qed

theorem auth_accepts_ok_witness:
  "\<exists>k'. xfiredb_auth_client sample_os (sample_client\<lparr>cl_flags := 0\<rparr>) ''me'' ''secret'' (sample_conns [''OK'' @ [CHR 0x0A]]) = Some (0, k') \<and>
    io_in (k_io k') = []"
proof -
  let ?cl = "sample_client\<lparr>cl_flags := 0\<rparr>" and ?k = "sample_conns [''OK'' @ [CHR 0x0A]]"
  let ?q = "''AUTH '' @ ''me'' @ '' '' @ ''secret'' @ [CHR 0x0A]"
  let ?io = "\<lparr>io_in = ''OK'' @ [CHR 0x0A], io_replies = [], io_out = ?q\<rparr>"
  have "cl_flags ?cl AND XFIREDB_SSL = 0" "cl_flags ?cl AND XFIREDB_SOCK_STREAM = 0"
    by simp_all
  moreover have "reads_stream (n_recv sample_os (cl_socket ?cl)) io_in"
    using sample_reads(1) by (simp add: sample_os_def net.defs sample_net_def)
  moreover have "n_send sample_os (cl_socket ?cl) ?q (k_io ?k) = (int (length ?q), ?io)"
    by (simp add: sample_os_def net.defs sample_net_def sample_send_def sample_conns_def)
  moreover have "io_in ?io = ''OK'' @ CHR 0x0A # []" "CHR 0x0A \<notin> set ''OK''" "length ''OK'' < 1024"
    by simp_all
  ultimately show ?thesis
    using auth_accepts_ok [of ?cl sample_os io_in "''me''" "''secret''" ?k "int (length ?q)" ?io "''OK''" "[]"] by simp
qed

end
