(* ===== verification/Cli.thy ===== *)
theory Cli
  imports ClientConnect
begin

text \<open>
  The command line client (\<^verbatim>\<open>clients/cli/cli.c\<close>): connecting, and the loop that reads a query, sends it
  and prints the results. Standard input is the list of the characters that are left to read, and the
  output is the text that was printed.
\<close>

section \<open>Model\<close>

text \<open>\<^verbatim>\<open>cli_connect\<close>: no client means that the program has ended with an error.\<close>

definition cli_connect ::
  "'io os \<Rightarrow> string \<Rightarrow> int \<Rightarrow> string \<Rightarrow> string \<Rightarrow> bool \<Rightarrow> bool \<Rightarrow> 'io conns \<Rightarrow> (xfiredb_client option \<times> 'io conns) option" where
  "cli_connect os host port user pass ssl auth k = do {
     let flags = XFIREDB_SOCK_STREAM OR XFIREDB_SOCK_RESOLV;
     let flags = (if auth then flags OR XFIREDB_AUTH else flags);
     let flags = (if ssl then flags OR XFIREDB_SSL else flags);
     (client, k) \<leftarrow> xfiredb_connect os host port flags k;
     case client of
       None \<Rightarrow> Some (None, k)
     | Some cl \<Rightarrow>
         if auth then do {
           (rc, k) \<leftarrow> xfiredb_auth_client os cl user pass k;
           if rc \<noteq> - XFIREDB_OK then Some (None, xfiredb_disconnect os (Some cl) k)
           else Some (Some cl, k)
         } else Some (Some cl, k)
   }"






section \<open>Printing\<close>





section \<open>A session\<close>






section \<open>Property\<close>






end
