(* ===== verification/DictIter.thy ===== *)
theory DictIter
  imports DictRefine
begin

text \<open>
  The iterators of \<^verbatim>\<open>storage/dict.c\<close>. A pointer to an entry is represented by the key of the
  entry, which identifies it as long as it is in the dictionary; \<open>entry_chain\<close> finds the
  chain the entry is in now, so a pointer kept by an iterator follows an entry that a rehash
  moves. Following the pointer of an entry that is gone gives \<^const>\<open>None\<close>.
\<close>

section \<open>Model\<close>

record dict_iterator =
  it_table :: nat
  it_idx :: int
  it_safe :: bool
  it_e :: "string option"
  it_e_next :: "string option"

definition dict_create_iterator :: dict_iterator where
  "dict_create_iterator =
     \<lparr>it_table = 0, it_idx = -1, it_safe = False, it_e = None, it_e_next = None\<rparr>"

definition dict_get_safe_iterator :: "dict \<Rightarrow> dict_iterator \<times> dict" where
  "dict_get_safe_iterator d =
     (dict_create_iterator\<lparr>it_safe := True\<rparr>, d\<lparr>iterators := iterators d + 1\<rparr>)"

definition dict_get_iterator :: "dict \<Rightarrow> dict_iterator" where
  "dict_get_iterator d = dict_create_iterator\<lparr>it_safe := False\<rparr>"

definition dict_iterator_free :: "dict_iterator \<Rightarrow> dict \<Rightarrow> dict" where
  "dict_iterator_free it d = (if it_safe it then d\<lparr>iterators := iterators d - 1\<rparr> else d)"

text \<open>Head of a chain, and the \<^verbatim>\<open>next\<close> field of the entry with a given key.\<close>

definition chain_head :: "chain \<Rightarrow> string option" where
  "chain_head ch = (case ch of [] \<Rightarrow> None | e # _ \<Rightarrow> Some (e_key e))"

fun chain_next :: "string \<Rightarrow> chain \<Rightarrow> string option option" where
  "chain_next k [] = None"
| "chain_next k (e # ch) = (if e_key e = k then Some (chain_head ch) else chain_next k ch)"

definition entry_chain :: "dict \<Rightarrow> string \<Rightarrow> chain option" where
  "entry_chain d k =
     find (chain_has k)
       ((case m_array (primary d) of None \<Rightarrow> [] | Some bs \<Rightarrow> bs) @
        (case m_array (rehash d) of None \<Rightarrow> [] | Some bs \<Rightarrow> bs))"

definition entry_next :: "dict \<Rightarrow> string \<Rightarrow> string option option" where
  "entry_next d k = (case entry_chain d k of None \<Rightarrow> None | Some ch \<Rightarrow> chain_next k ch)"

text \<open>The tail of one turn of the loop: the entry found is returned, or the loop goes on.\<close>

partial_function (option) dict_iterator_next ::
  "dict \<Rightarrow> dict_iterator \<Rightarrow> (string option \<times> dict_iterator) option" where
  [code]: "dict_iterator_next d it =
     (if it_e it = None then
        let it = it\<lparr>it_idx := it_idx it + 1\<rparr>;
            past = it_idx it \<ge> m_size (dict_table (it_table it) d)
        in if past \<and> \<not> (rehashing d \<and> it_table it = 0) then Some (None, it)
           else
             let it = (if past then it\<lparr>it_table := it_table it + 1, it_idx := 0\<rparr> else it) in
             case bucket (dict_table (it_table it) d) (it_idx it) of
               None \<Rightarrow> None
             | Some ch \<Rightarrow>
                 let it = it\<lparr>it_e := chain_head ch\<rparr> in
                 (case it_e it of
                    None \<Rightarrow> dict_iterator_next d it
                  | Some k \<Rightarrow>
                      (case entry_next d k of
                         None \<Rightarrow> None
                       | Some nx \<Rightarrow> Some (Some k, it\<lparr>it_e_next := nx\<rparr>)))
      else
        let it = it\<lparr>it_e := it_e_next it\<rparr> in
        case it_e it of
          None \<Rightarrow> dict_iterator_next d it
        | Some k \<Rightarrow>
            (case entry_next d k of
               None \<Rightarrow> None
             | Some nx \<Rightarrow> Some (Some k, it\<lparr>it_e_next := nx\<rparr>)))"

text \<open>\<^verbatim>\<open>entry_prev\<close>: the entry before a given one in a chain.\<close>

fun entry_prev :: "chain \<Rightarrow> string \<Rightarrow> string option" where
  "entry_prev [] k = None"
| "entry_prev [e] k = None"
| "entry_prev (e # e' # ch) k =
     (if e_key e = k then None
      else if e_key e' = k then Some (e_key e) else entry_prev (e' # ch) k)"

partial_function (option) dict_iterator_prev ::
  "dict \<Rightarrow> dict_iterator \<Rightarrow> (string option \<times> dict_iterator) option" where
  [code]: "dict_iterator_prev d it =
     (case it_e it of
        None \<Rightarrow>
          let idx = it_idx it - 1;
              idx = (if idx = -2 then m_size (dict_table (it_table it) d) - 1 else idx);
              it = it\<lparr>it_idx := idx\<rparr>;
              out = (idx \<le> -1 \<or> idx \<ge> m_size (dict_table (it_table it) d))
          in if out \<and> \<not> (rehashing d \<and> it_table it = 0) then Some (None, it)
             else
               let it = (if out then it\<lparr>it_table := it_table it + 1, it_idx := m_size (rehash d) - 1\<rparr>
                         else it)
               in case bucket (dict_table (it_table it) d) (it_idx it) of
                    None \<Rightarrow> None
                  | Some [] \<Rightarrow> dict_iterator_prev d (it\<lparr>it_e := None\<rparr>)
                  | Some (e # ch) \<Rightarrow>
                      Some (Some (e_key (last (e # ch))), it\<lparr>it_e := Some (e_key (last (e # ch)))\<rparr>)
      | Some k \<Rightarrow>
          (case bucket (dict_table (it_table it) d) (it_idx it) of
             None \<Rightarrow> None
           | Some ch \<Rightarrow>
               let e = (if chain_head ch = Some k then None else entry_prev ch k);
                   it = it\<lparr>it_e := e\<rparr>
               in (case e of None \<Rightarrow> dict_iterator_prev d it | Some k' \<Rightarrow> Some (Some k', it))))"

text \<open>The keys that a loop over an iterator sees, with a bound on the number of calls.\<close>

primrec iterate ::
  "(dict_iterator \<Rightarrow> (string option \<times> dict_iterator) option) \<Rightarrow> nat \<Rightarrow> dict_iterator \<Rightarrow>
   string list option" where
  "iterate nxt 0 it = None"
| "iterate nxt (Suc n) it =
     (case nxt it of
        None \<Rightarrow> None
      | Some (None, _) \<Rightarrow> Some []
      | Some (Some k, it) \<Rightarrow> map_option (\<lambda>ks. k # ks) (iterate nxt n it))"

section \<open>A full traversal\<close>

definition buckets :: "dict \<Rightarrow> nat \<Rightarrow> chain list" where
  "buckets d t = (case m_array (dict_table t d) of None \<Rightarrow> [] | Some bs \<Rightarrow> bs)"

text \<open>What is still to be visited from bucket \<open>i\<close> of table \<open>t\<close> on.\<close>

definition ahead :: "dict \<Rightarrow> nat \<Rightarrow> nat \<Rightarrow> dict_entry list" where
  "ahead d t i =
     concat (drop i (buckets d t)) @ (if t = 0 \<and> rehashing d then concat (buckets d 1) else [])"

lemma bucket_buckets: "bucket (dict_table t d) (int i) = (if i < length (buckets d t) then Some (buckets d t ! i) else None)"
  by (auto simp: bucket_def buckets_def split: option.splits)

lemma size_buckets: "dict_ok d \<Longrightarrow> m_size (dict_table t d) = int (length (buckets d t))"
  using dict_table_ok(1) [of d t] map_ok_size [of "dict_table t d"] map_ok_size_0 [of "dict_table t d"]
  by (auto simp: buckets_def split: option.splits)

lemma concat_buckets: "concat (buckets d t) = entries_of (dict_table t d)"
  by (simp add: buckets_def entries_of_def split: option.splits)

lemma distinct_concat_same:
  "distinct (map f (concat xss)) \<Longrightarrow> a \<in> set xss \<Longrightarrow> b \<in> set xss \<Longrightarrow> x \<in> set a \<Longrightarrow> y \<in> set b \<Longrightarrow>
   f x = f y \<Longrightarrow> a = b"
  by (induction xss) (force simp: image_iff)+

lemma chain_next_append:
  "distinct (map e_key (pre @ e # post)) \<Longrightarrow> chain_next (e_key e) (pre @ e # post) = Some (chain_head post)"
  by (induction pre) auto

lemma distinct_concat_mem:
  "distinct (map f (concat xss)) \<Longrightarrow> a \<in> set xss \<Longrightarrow> distinct (map f a)"
  by (induction xss) auto

lemma entry_chain_ok:
  assumes ok: "dict_ok d" and t: "t \<le> 1" and ch: "ch \<in> set (buckets d t)" and e: "e \<in> set ch"
  shows "entry_chain d (e_key e) = Some ch" "distinct (map e_key ch)"
proof -
  let ?all = "buckets d 0 @ buckets d 1"
  have dist: "distinct (map e_key (concat ?all))"
    using ok by (simp add: dict_ok_def entries_def concat_buckets)
  have mem: "ch \<in> set ?all"
    using ch t by (cases "t = 0") (auto simp: le_Suc_eq)
  then have "\<exists>ch'. find (chain_has (e_key e)) ?all = Some ch'"
    using e by (metis (no_types, lifting) chain_has_iff find_None_iff2 image_eqI not_None_eq)
  then obtain ch' where f: "find (chain_has (e_key e)) ?all = Some ch'"
    by blast
  then have "ch' \<in> set ?all" "chain_has (e_key e) ch'"
    by (metis find_Some_iff nth_mem)+
  then obtain e' where "e' \<in> set ch'" "e_key e' = e_key e"
    by (auto simp: chain_has_iff)
  then have "ch' = ch"
    using distinct_concat_same [OF dist \<open>ch' \<in> set ?all\<close> mem, of e' e] e by simp
  moreover have "entry_chain d (e_key e) = find (chain_has (e_key e)) ?all"
    by (simp add: entry_chain_def buckets_def)
  ultimately show "entry_chain d (e_key e) = Some ch"
    using f by simp
  show "distinct (map e_key ch)"
    using distinct_concat_mem [OF dist mem] .
qed

lemma entry_next_ok:
  assumes ok: "dict_ok d" and t: "t \<le> 1" and j: "j < length (buckets d t)"
    and ch: "buckets d t ! j = pre @ e # post"
  shows "entry_next d (e_key e) = Some (chain_head post)"
proof -
  have "pre @ e # post \<in> set (buckets d t)"
    using j ch nth_mem by metis
  from entry_chain_ok [OF ok t this, of e] show ?thesis
    using chain_next_append by (simp add: entry_next_def)
qed

text \<open>The iterator is at the first entry of the list, and the others are still to come.\<close>

definition it_at :: "dict \<Rightarrow> dict_iterator \<Rightarrow> dict_entry list \<Rightarrow> bool" where
  "it_at d it es \<longleftrightarrow>
     (\<exists>j pre e post. it_table it \<le> 1 \<and> (it_table it = 1 \<longrightarrow> rehashing d) \<and> it_idx it = int j \<and> j < length (buckets d (it_table it)) \<and>
        buckets d (it_table it) ! j = pre @ e # post \<and> it_e it = Some (e_key e) \<and>
        it_e_next it = chain_head post \<and> es = e # post @ ahead d (it_table it) (Suc j))"

definition finds :: "dict \<Rightarrow> dict_iterator \<Rightarrow> dict_entry list \<Rightarrow> bool" where
  "finds d it es \<longleftrightarrow>
     (\<exists>it'. case es of [] \<Rightarrow> dict_iterator_next d it = Some (None, it')
        | e # _ \<Rightarrow> dict_iterator_next d it = Some (Some (e_key e), it') \<and> it_at d it' es)"

lemma finds_cong:
  "dict_iterator_next d it = dict_iterator_next d it' \<Longrightarrow> finds d it' es \<Longrightarrow> finds d it es"
  by (cases es) (simp_all add: finds_def)

lemma ahead_unfold:
  "i < length (buckets d t) \<Longrightarrow> ahead d t i = buckets d t ! i @ ahead d t (Suc i)"
  by (simp add: ahead_def Cons_nth_drop_Suc [symmetric])

text \<open>One turn of the loop at an existing bucket.\<close>

lemma next_bucket:
  assumes ok: "dict_ok d" and t: "t \<le> 1" "t = 1 \<longrightarrow> rehashing d" and j: "j < length (buckets d t)"
    and it: "it_e it = None" "it_table it1 = t" "it_idx it1 = int j"
    and next_eq: "dict_iterator_next d it =
      (case bucket (dict_table t d) (int j) of
         None \<Rightarrow> None
       | Some ch \<Rightarrow>
           let it = it1\<lparr>it_e := chain_head ch\<rparr> in
           (case it_e it of
              None \<Rightarrow> dict_iterator_next d it
            | Some k \<Rightarrow>
                (case entry_next d k of None \<Rightarrow> None | Some nx \<Rightarrow> Some (Some k, it\<lparr>it_e_next := nx\<rparr>))))"
    and rec: "finds d (it1\<lparr>it_e := None\<rparr>) (ahead d t (Suc j))"
  shows "finds d it (ahead d t j)"
proof (cases "buckets d t ! j")
  case Nil
  then have "dict_iterator_next d it = dict_iterator_next d (it1\<lparr>it_e := None\<rparr>)"
    using next_eq j by (simp add: bucket_buckets chain_head_def)
  then show ?thesis
    using finds_cong [OF _ rec] Nil j by (simp add: ahead_unfold)
next
  case (Cons e post)
  then have "entry_next d (e_key e) = Some (chain_head post)"
    using entry_next_ok [OF ok t(1) j, of "[]"] by simp
  moreover have "chain_head (buckets d t ! j) = Some (e_key e)"
    using Cons by (simp add: chain_head_def)
  ultimately have "dict_iterator_next d it =
      Some (Some (e_key e), it1\<lparr>it_e := Some (e_key e), it_e_next := chain_head post\<rparr>)"
    using next_eq j by (simp add: bucket_buckets)
  then show ?thesis
    using Cons j it t by (auto simp: finds_def ahead_unfold it_at_def intro!: exI [of _ "[]"])
qed

lemma next_scan:
  assumes "dict_ok d" "it_e it = None" "it_table it \<le> 1" "it_table it = 1 \<longrightarrow> rehashing d"
    and "it_idx it = int i - 1" "i \<le> length (buckets d (it_table it))"
  shows "finds d it (ahead d (it_table it) i)"
  using assms(2-)
proof (induction "(length (buckets d (it_table it)) - i) +
    (if it_table it = 0 then Suc (length (buckets d 1)) else 0)" arbitrary: it i rule: less_induct)
  case less
  let ?t = "it_table it" let ?it1 = "it\<lparr>it_idx := int i\<rparr>"
  note ok = assms(1)
  have sz: "m_size (dict_table t d) = int (length (buckets d t))" for t
    by (rule size_buckets [OF ok])
  show ?case
  proof (cases "i < length (buckets d ?t)")
    case True
    show ?thesis
    proof (rule next_bucket [OF ok less.prems(2,3) True less.prems(1), of ?it1])
      show "finds d (?it1\<lparr>it_e := None\<rparr>) (ahead d ?t (Suc i))"
        using less.hyps [of "?it1\<lparr>it_e := None\<rparr>" "Suc i"] less.prems True by simp
      show "dict_iterator_next d it =
        (case bucket (dict_table ?t d) (int i) of
           None \<Rightarrow> None
         | Some ch \<Rightarrow>
             let it = ?it1\<lparr>it_e := chain_head ch\<rparr> in
             (case it_e it of
                None \<Rightarrow> dict_iterator_next d it
              | Some k \<Rightarrow>
                  (case entry_next d k of None \<Rightarrow> None | Some nx \<Rightarrow> Some (Some k, it\<lparr>it_e_next := nx\<rparr>))))"
        using less.prems True sz [of ?t] by (subst dict_iterator_next.simps) (simp add: Let_def)
    qed simp_all
  next
    case False
    then have i: "i = length (buckets d ?t)"
      using less.prems by simp
    show ?thesis
    proof (cases "rehashing d \<and> ?t = 0")
      case False
      then have "dict_iterator_next d it = Some (None, it\<lparr>it_idx := it_idx it + 1\<rparr>)"
        using less.prems i sz [of ?t] by (subst dict_iterator_next.simps) (simp add: Let_def)
      moreover have "ahead d ?t i = []"
        using False i less.prems by (auto simp: ahead_def)
      ultimately show ?thesis
        by (simp add: finds_def)
    next
      case True
      let ?it1 = "it\<lparr>it_table := Suc 0, it_idx := 0\<rparr>"
      have pos: "0 < length (buckets d 1)"
        using True ok dict_table_ok(1) [OF ok, of 1] hidx_less [of "rehash d"]
        by (auto simp: dict_ok_def buckets_def split: option.splits)
      have "finds d it (ahead d 1 0)"
      proof (rule next_bucket [OF ok _ _ pos less.prems(1), of ?it1])
        show "finds d (?it1\<lparr>it_e := None\<rparr>) (ahead d 1 (Suc 0))"
          using less.hyps [of "?it1\<lparr>it_e := None\<rparr>" "Suc 0"] True pos by (simp add: Suc_le_eq)
        show "dict_iterator_next d it =
          (case bucket (dict_table 1 d) (int 0) of
             None \<Rightarrow> None
           | Some ch \<Rightarrow>
               let it = ?it1\<lparr>it_e := chain_head ch\<rparr> in
               (case it_e it of
                  None \<Rightarrow> dict_iterator_next d it
                | Some k \<Rightarrow>
                    (case entry_next d k of None \<Rightarrow> None | Some nx \<Rightarrow> Some (Some k, it\<lparr>it_e_next := nx\<rparr>))))"
          using less.prems True sz [of 0] i by (subst dict_iterator_next.simps) (simp add: Let_def)
      qed (use True in simp_all)
      then show ?thesis
        using i True by (simp add: ahead_def)
    qed
  qed
qed

lemma next_at:
  assumes ok: "dict_ok d" and at: "it_at d it (e # es)"
  shows "finds d it es"
proof -
  obtain j pre post where reh: "it_table it = 1 \<longrightarrow> rehashing d" and j: "it_table it \<le> 1" "it_idx it = int j" "j < length (buckets d (it_table it))"
      "buckets d (it_table it) ! j = pre @ e # post" "it_e it = Some (e_key e)"
      "it_e_next it = chain_head post" "es = post @ ahead d (it_table it) (Suc j)"
    using at by (auto simp: it_at_def)
  show ?thesis
  proof (cases post)
    case Nil
    let ?it = "it\<lparr>it_e := None\<rparr>"
    have "dict_iterator_next d it = dict_iterator_next d ?it"
      using j Nil by (subst dict_iterator_next.simps) (simp add: chain_head_def)
    moreover have "finds d ?it (ahead d (it_table ?it) (Suc j))"
      using j reh by (intro next_scan [OF ok]) simp_all
    ultimately show ?thesis
      using finds_cong j Nil by simp
  next
    case (Cons e' post')
    have "entry_next d (e_key e') = Some (chain_head post')"
      using entry_next_ok [OF ok j(1,3), of "pre @ [e]" e' post'] j(4) Cons by simp
    then have "dict_iterator_next d it = Some (Some (e_key e'),
        it\<lparr>it_e := Some (e_key e'), it_e_next := chain_head post'\<rparr>)"
      using j Cons by (subst dict_iterator_next.simps) (simp add: chain_head_def)
    then show ?thesis
      using reh j Cons by (auto simp: finds_def it_at_def intro!: exI [of _ "pre @ [e]"])
  qed
qed

lemma iterate_finds:
  assumes "dict_ok d" "finds d it es"
  shows "iterate (dict_iterator_next d) (Suc (length es)) it = Some (map e_key es)"
  using assms(2)
proof (induction es arbitrary: it)
  case (Cons e es)
  then obtain it' where it': "dict_iterator_next d it = Some (Some (e_key e), it')" "it_at d it' (e # es)"
    by (auto simp: finds_def)
  then show ?case
    using Cons.IH [OF next_at [OF assms(1) it'(2)]] by simp
qed (auto simp: finds_def)

lemma ahead_0: "dict_ok d \<Longrightarrow> ahead d 0 0 = entries d"
  by (auto simp: ahead_def entries_def concat_buckets dict_ok_def entries_of_None)

lemma finds_all:
  assumes "dict_ok d"
  shows "finds d (dict_get_iterator d) (entries d)"
proof -
  have "finds d (dict_get_iterator d) (ahead d (it_table (dict_get_iterator d)) 0)"
    by (rule next_scan [OF assms]) (simp_all add: dict_get_iterator_def dict_create_iterator_def)
  then show ?thesis
    using assms by (simp add: ahead_0 dict_get_iterator_def dict_create_iterator_def)
qed

text \<open>A safe iterator finds the same entries; only the count of safe iterators of the dictionary changes.\<close>

lemma iterators_other [simp]:
  "entries (d\<lparr>iterators := n\<rparr>) = entries d" "dict_ok (d\<lparr>iterators := n\<rparr>) = dict_ok d" "dmap (d\<lparr>iterators := n\<rparr>) = dmap d"
  by (simp_all add: entries_def dict_ok_def dmap_def)

lemma finds_all_safe:
  assumes "dict_ok d" "dict_get_safe_iterator d = (it, d')"
  shows "d' = d\<lparr>iterators := iterators d + 1\<rparr>" "finds d' it (entries d)"
proof -
  show d': "d' = d\<lparr>iterators := iterators d + 1\<rparr>"
    using assms(2) by (simp add: dict_get_safe_iterator_def)
  have "finds d' it (ahead d' (it_table it) 0)"
    by (rule next_scan) (use assms in \<open>auto simp: dict_get_safe_iterator_def dict_create_iterator_def\<close>)
  then show "finds d' it (entries d)"
    using assms ahead_0 [of d'] by (auto simp: dict_get_safe_iterator_def dict_create_iterator_def)
qed

text \<open>
  C40: a loop over a new iterator of an unchanged dictionary ends, and it visits every entry of
  the two tables exactly once, in the middle of a rehash as well.
\<close>

theorem dict_iterator_visits_all:
  assumes "dict_ok d"
  shows "iterate (dict_iterator_next d) (Suc (length (entries d))) (dict_get_iterator d) =
    Some (map e_key (entries d)) \<and> distinct (map e_key (entries d))"
  using iterate_finds [OF assms finds_all [OF assms]] assms by (simp add: dict_ok_def)

theorem dict_iterator_visits_all_witness:
  "iterate (dict_iterator_next (sample_dict sample_ops)) (Suc (length (entries (sample_dict sample_ops))))
     (dict_get_iterator (sample_dict sample_ops)) =
   Some (map e_key (entries (sample_dict sample_ops))) \<and>
   distinct (map e_key (entries (sample_dict sample_ops)))"
  by (rule dict_iterator_visits_all [OF sample_dict_facts(1)])

section \<open>A safe iterator and the worker\<close>

text \<open>
  The worker does not look at the count of safe iterators: \<^verbatim>\<open>dict_rehash\<close> moves entries while one
  is running. The loop below takes the first entry, lets the worker run, and goes on.
\<close>

definition safe_iteration :: "int list \<Rightarrow> dict \<Rightarrow> nat \<Rightarrow> string list option" where
  "safe_iteration clock d n =
     (let (it, d) = dict_get_safe_iterator d in
      case dict_iterator_next d it of
        Some (Some k, it) \<Rightarrow>
          (case dict_rehash_worker clock d of
             None \<Rightarrow> None
           | Some (_, d) \<Rightarrow> map_option (\<lambda>ks. k # ks) (iterate (dict_iterator_next d) n it))
      | _ \<Rightarrow> None)"

text \<open>
  In the sample dictionary the loop then misses the entry \<open>c\<close> and sees others several times.
\<close>

lemma safe_iteration_sample:
  "safe_iteration [0, 5] (sample_dict sample_ops) 20 =
     Some [''o'', ''m'', ''o'', ''b'', ''m'', ''o'', ''e'']"
  "dmap (sample_dict sample_ops) ''c'' = Some (7, 8)"
  by code_simp+

end
