(* ===== verification/Jobs.thy ===== *)
theory Jobs
  imports Database DictIter "HOL-Library.Monad_Syntax"
begin

text \<open>
  The background jobs of \<^verbatim>\<open>os/bg.c\<close>: a dictionary from names to jobs, each with a thread that waits for a signal
  and runs a handler. A job lives in a heap of jobs; its thread is a program counter in the loop of
  \<^verbatim>\<open>job_processor\<close>. Whether the system can create a thread is an argument. The handler of a job returns; the
  number of its runs is counted.
\<close>

section \<open>A job and its thread\<close>

text \<open>
  The thread: before the test of \<^verbatim>\<open>done\<close>, waiting, before the handler, before the second test of \<^verbatim>\<open>done\<close>, and left.
\<close>

datatype run_pc = RunLoop | RunWait | RunHandle | RunTest | RunExit

record job =
  j_name :: string
  j_done :: bool
  j_handle :: nat
  j_arg :: ptr
  j_tp :: bool
  j_pc :: run_pc
  j_runs :: nat

text \<open>One step of \<^verbatim>\<open>job_processor\<close>; a waiting thread and one that has left make no step.\<close>

definition job_processor :: "job \<Rightarrow> job option" where
  "job_processor j =
     (case j_pc j of
        RunLoop \<Rightarrow> Some (j\<lparr>j_pc := if j_done j then RunHandle else RunWait\<rparr>)
      | RunWait \<Rightarrow> None
      | RunHandle \<Rightarrow> Some (j\<lparr>j_runs := j_runs j + 1, j_pc := RunTest\<rparr>)
      | RunTest \<Rightarrow> Some (j\<lparr>j_pc := if j_done j then RunExit else RunLoop\<rparr>)
      | RunExit \<Rightarrow> None)"

text \<open>\<^verbatim>\<open>xfiredb_cond_signal\<close> wakes the thread if it waits.\<close>

definition job_signal :: "job \<Rightarrow> job" where
  "job_signal j = (if j_pc j = RunWait then j\<lparr>j_pc := RunHandle\<rparr> else j)"

text \<open>\<^verbatim>\<open>xfiredb_thread_join\<close> returns when the thread has left its loop; the handle must not be null.\<close>

partial_function (option) await_exit :: "job \<Rightarrow> job option" where
  [code]: "await_exit j = (if j_pc j = RunExit then Some j else do { j \<leftarrow> job_processor j; await_exit j })"

definition xfiredb_thread_join :: "job \<Rightarrow> job option" where
  "xfiredb_thread_join j = (if j_tp j then await_exit j else None)"

section \<open>The table of jobs\<close>

record jobs =
  jb_db :: dict
  jb_job :: "ptr \<rightharpoonup> job"
  jb_next :: nat
  jb_stack :: u64

text \<open>The loop of \<^verbatim>\<open>bg_processes_init\<close> that doubles the stack size up to \<^verbatim>\<open>XFIREDB_STACK_SIZE\<close>.\<close>

partial_function (option) stack_loop :: "u64 \<Rightarrow> u64 \<Rightarrow> u64 option" where
  [code]: "stack_loop limit stack = (if stack < limit then stack_loop limit (stack * 2) else Some stack)"

definition bg_processes_init :: "u64 \<Rightarrow> u64 \<Rightarrow> jobs option" where
  "bg_processes_init limit stack = do {
     stack \<leftarrow> stack_loop limit (if stack = 0 then 1 else stack);
     Some \<lparr>jb_db = dict_alloc, jb_job = Map.empty, jb_next = 1, jb_stack = stack\<rparr>
   }"

definition new_job :: "string \<Rightarrow> nat \<Rightarrow> ptr \<Rightarrow> bool \<Rightarrow> job" where
  "new_job name handle arg created =
     \<lparr>j_name = name, j_done = False, j_handle = handle, j_arg = arg, j_tp = created, j_pc = RunLoop, j_runs = 0\<rparr>"

text \<open>\<^verbatim>\<open>bg_process_create\<close> does not look at the result of \<^verbatim>\<open>dict_add\<close>.\<close>

definition bg_process_create ::
  "dict_conf \<Rightarrow> (ptr \<Rightarrow> u64) \<Rightarrow> bool \<Rightarrow> string \<Rightarrow> nat \<Rightarrow> ptr \<Rightarrow> jobs \<Rightarrow> (ptr \<times> jobs) option" where
  "bg_process_create g mem created name handle arg st = do {
     let p = of_nat (jb_next st);
     (rc, d) \<leftarrow> dict_add g mem (jb_db st) name p DICT_PTR;
     let st = st\<lparr>jb_db := d, jb_next := jb_next st + 1, jb_job := (jb_job st)(p \<mapsto> new_job name handle arg created)\<rparr>;
     Some (if created then p else 0, st)
   }"

definition bg_process_signal :: "string \<Rightarrow> jobs \<Rightarrow> (int \<times> jobs) option" where
  "bg_process_signal name st = do {
     (rc, data, d) \<leftarrow> dict_lookup (jb_db st) (Some name);
     let st = st\<lparr>jb_db := d\<rparr>;
     if rc \<noteq> 0 then Some (- XFIREDB_ERR, st)
     else do {
       p \<leftarrow> map_option fst data;
       if p = 0 then Some (- XFIREDB_ERR, st)
       else do {
         j \<leftarrow> jb_job st p;
         Some (- XFIREDB_OK, st\<lparr>jb_job := (jb_job st)(p \<mapsto> job_signal j)\<rparr>)
       }
     }
   }"

text \<open>\<^verbatim>\<open>__bg_process_stop\<close>.\<close>

definition raw_bg_process_stop :: "ptr \<Rightarrow> jobs \<Rightarrow> (int \<times> jobs) option" where
  "raw_bg_process_stop p st =
     (if p = 0 then Some (- XFIREDB_ERR, st)
      else do {
        j \<leftarrow> jb_job st p;
        _ \<leftarrow> xfiredb_thread_join (job_signal (j\<lparr>j_done := True\<rparr>));
        Some (- XFIREDB_OK, st\<lparr>jb_job := (jb_job st)(p := None)\<rparr>)
      })"

definition bg_process_stop :: "string \<Rightarrow> jobs \<Rightarrow> (int \<times> jobs) option" where
  "bg_process_stop name st = do {
     (rc, data, d) \<leftarrow> dict_delete (jb_db st) (Some name) False;
     let st = st\<lparr>jb_db := d\<rparr>;
     if rc \<noteq> 0 then Some (- XFIREDB_ERR, st)
     else do { p \<leftarrow> data; raw_bg_process_stop p st }
   }"

text \<open>The loop of \<^verbatim>\<open>bg_processes_exit\<close>; a \<^verbatim>\<open>continue\<close> comes back to the same entry.\<close>

partial_function (option) exit_loop :: "dict_iterator \<Rightarrow> string option \<Rightarrow> jobs \<Rightarrow> jobs option" where
  [code]: "exit_loop it e st =
     (case e of
        None \<Rightarrow> Some st
      | Some k \<Rightarrow> do {
          (rv, data, d) \<leftarrow> dict_delete (jb_db st) (Some k) False;
          let st = st\<lparr>jb_db := d\<rparr>;
          if rv \<noteq> 0 then exit_loop it e st
          else do {
            p \<leftarrow> data;
            if p = 0 then exit_loop it e st
            else do {
              (_, st) \<leftarrow> raw_bg_process_stop p st;
              (e, it) \<leftarrow> dict_iterator_next (jb_db st) it;
              exit_loop it e st
            }
          }
        })"

definition bg_processes_exit :: "jobs \<Rightarrow> jobs option" where
  "bg_processes_exit st = do {
     (e, it) \<leftarrow> dict_iterator_next (jb_db st) (dict_get_iterator (jb_db st));
     st \<leftarrow> exit_loop it e st;
     Some (st\<lparr>jb_db := snd (dict_free (jb_db st))\<rparr>)
   }"

section \<open>The stack size\<close>

text \<open>The loop ends at the first doubling that is large enough.\<close>

lemma stack_loop_ok:
  assumes "0 < s" "l \<le> 2 ^ 63"
  shows "\<exists>r. stack_loop l s = Some r \<and> l \<le> r \<and> s \<le> r \<and> (s < l \<longrightarrow> unat r < 2 * unat l)"
  using assms(1)
proof (induction "unat l - unat s" arbitrary: s rule: less_induct)
  case less
  show ?case
  proof (cases "s < l")
    case False
    then show ?thesis
      by (subst stack_loop.simps) auto
  next
    case True
    have l: "unat l \<le> 2 ^ 63"
      using assms(2) by (simp add: word_le_nat_alt)
    have s: "0 < unat s" "unat s < unat l"
      using less.prems True by (simp_all add: word_less_nat_alt unat_gt_0)
    then have d: "unat (s * 2) = 2 * unat s"
      using l by (simp add: unat_word_ariths)
    then have "unat l - unat (s * 2) < unat l - unat s" "0 < s * 2"
      using s by (simp_all add: word_less_nat_alt)
    then obtain r where r: "stack_loop l (s * 2) = Some r" "l \<le> r" "s * 2 \<le> r" "s * 2 < l \<longrightarrow> unat r < 2 * unat l"
      using less.hyps by blast
    have "unat r < 2 * unat l"
    proof (cases "s * 2 < l")
      case True
      then show ?thesis using r(4) by simp
    next
      case False
      then have "r = s * 2"
        using r(1) by (subst (asm) stack_loop.simps) simp
      then show ?thesis
        using d s by simp
    qed
    moreover have "s \<le> r"
      using r(3) d s by (simp add: word_le_nat_alt)
    ultimately show ?thesis
      using r True by (subst stack_loop.simps) auto
  qed
qed

section \<open>Stopping a thread\<close>

text \<open>After \<^verbatim>\<open>done\<close> is set under the lock and the signal is sent, the thread leaves whatever it was doing.\<close>

lemma await_exit_ok:
  assumes "j_done j" "j_pc j \<noteq> RunWait"
  shows "\<exists>j'. await_exit j = Some j' \<and> j_pc j' = RunExit \<and> j_done j' \<and>
    j_runs j' = j_runs j + (if j_pc j \<in> {RunLoop, RunHandle} then 1 else 0)"
  using assms by (cases "j_pc j") (simp_all add: await_exit.simps job_processor_def)

lemma thread_join_ok:
  assumes "j_tp j"
  shows "\<exists>j'. xfiredb_thread_join (job_signal (j\<lparr>j_done := True\<rparr>)) = Some j' \<and> j_pc j' = RunExit \<and>
    j_runs j' = j_runs j + (if j_pc j \<in> {RunTest, RunExit} then 0 else 1)"
  using await_exit_ok [of "job_signal (j\<lparr>j_done := True\<rparr>)"] assms
  by (cases "j_pc j") (auto simp: xfiredb_thread_join_def job_signal_def)

section \<open>The table refines a map from names to jobs\<close>

definition jobmap :: "jobs \<Rightarrow> string \<rightharpoonup> ptr" where
  "jobmap st = map_option fst \<circ> dmap (jb_db st)"

definition job_table :: "jobs \<Rightarrow> string \<rightharpoonup> job" where
  "job_table st name = Option.bind (jobmap st name) (jb_job st)"

definition jobs_ok :: "jobs \<Rightarrow> bool" where
  "jobs_ok st \<longleftrightarrow> dict_ok (jb_db st) \<and> 1 \<le> jb_next st \<and> jb_next st \<le> 2 ^ 64 \<and>
     (\<forall>p j. jb_job st p = Some j \<longrightarrow> (\<exists>m. 1 \<le> m \<and> m < jb_next st \<and> p = of_nat m)) \<and>
     (\<forall>name p. jobmap st name = Some p \<longrightarrow> (\<exists>j. jb_job st p = Some j \<and> j_name j = name))"

lemma jobs_okD:
  assumes "jobs_ok st"
  shows "dict_ok (jb_db st)"
    and "jb_job st p = Some j \<Longrightarrow> p \<noteq> 0"
    and "jb_next st < 2 ^ 64 \<Longrightarrow> jb_job st (of_nat (jb_next st)) = None"
    and "jobmap st name = Some p \<Longrightarrow> \<exists>j. jb_job st p = Some j \<and> j_name j = name"
    and "jb_job st p = Some j \<Longrightarrow> \<exists>m. 1 \<le> m \<and> m < jb_next st \<and> p = of_nat m"
proof -
  show "dict_ok (jb_db st)" "jobmap st name = Some p \<Longrightarrow> \<exists>j. jb_job st p = Some j \<and> j_name j = name"
    using assms by (auto simp: jobs_ok_def)
  have num: "\<exists>m. 1 \<le> m \<and> m < jb_next st \<and> p = of_nat m" if "jb_job st p = Some j" for p j
    using assms that by (auto simp: jobs_ok_def)
  then show "jb_job st p = Some j \<Longrightarrow> \<exists>m. 1 \<le> m \<and> m < jb_next st \<and> p = of_nat m" .
  have "jb_next st \<le> 2 ^ 64"
    using assms by (simp add: jobs_ok_def)
  then show "p \<noteq> 0" if "jb_job st p = Some j"
    using num [OF that] by (auto simp: word_unat_eq_iff take_bit_nat_eq_self unat_of_nat)
  show "jb_job st (of_nat (jb_next st)) = None" if "jb_next st < 2 ^ 64"
  proof (rule ccontr)
    assume "jb_job st (of_nat (jb_next st)) \<noteq> None"
    then obtain m where "m < jb_next st" "(of_nat (jb_next st) :: ptr) = of_nat m"
      using num by auto
    then show False
      using that by (auto simp: word_unat_eq_iff unat_of_nat)
  qed
qed

lemma jobmap_inj: "jobs_ok st \<Longrightarrow> jobmap st a = Some p \<Longrightarrow> jobmap st b = Some p \<Longrightarrow> a = b"
  using jobs_okD(4) [of st] by (metis option.inject)

lemma job_table_None: "jobs_ok st \<Longrightarrow> job_table st name = None \<longleftrightarrow> jobmap st name = None"
  using jobs_okD(4) [of st name] by (cases "jobmap st name") (auto simp: job_table_def)

text \<open>A dictionary with the same contents, and a changed or removed job.\<close>

lemma jobs_ok_dict:
  assumes "jobs_ok st" "dict_ok d" "dmap d = dmap (jb_db st)"
  shows "jobs_ok (st\<lparr>jb_db := d\<rparr>)" "jobmap (st\<lparr>jb_db := d\<rparr>) = jobmap st" "job_table (st\<lparr>jb_db := d\<rparr>) = job_table st"
proof -
  show m: "jobmap (st\<lparr>jb_db := d\<rparr>) = jobmap st"
    using assms(3) by (simp add: jobmap_def)
  then show "jobs_ok (st\<lparr>jb_db := d\<rparr>)" "job_table (st\<lparr>jb_db := d\<rparr>) = job_table st"
    using assms(1,2) by (simp_all add: jobs_ok_def job_table_def fun_eq_iff)
qed

lemma jobs_ok_change:
  assumes ok: "jobs_ok st" and p: "jobmap st name = Some p" "jb_job st p = Some j" and n: "j_name j' = j_name j"
  shows "jobs_ok (st\<lparr>jb_job := (jb_job st)(p \<mapsto> j')\<rparr>)"
    and "job_table (st\<lparr>jb_job := (jb_job st)(p \<mapsto> j')\<rparr>) = (job_table st)(name \<mapsto> j')"
proof -
  let ?st = "st\<lparr>jb_job := (jb_job st)(p \<mapsto> j')\<rparr>"
  have m: "jobmap ?st = jobmap st"
    by (simp add: jobmap_def)
  show "jobs_ok ?st"
    unfolding jobs_ok_def m
  proof (intro conjI allI impI)
    show "\<exists>x. jb_job ?st q = Some x \<and> j_name x = a" if a: "jobmap st a = Some q" for a q
      using jobs_okD(4) [OF ok a] p(2) n by (cases "q = p") auto
    show "\<exists>m. 1 \<le> m \<and> m < jb_next ?st \<and> q = of_nat m" if q: "jb_job ?st q = Some x" for q x
      using jobs_okD(5) [OF ok, of q] p(2) q by (cases "q = p") auto
  qed (use ok in \<open>simp_all add: jobs_ok_def\<close>)
  show "job_table ?st = (job_table st)(name \<mapsto> j')"
  proof
    fix a
    show "job_table ?st a = ((job_table st)(name \<mapsto> j')) a"
    proof (cases "a = name")
      case False
      then have "jobmap st a \<noteq> Some p"
        using jobmap_inj [OF ok p(1)] by auto
      then show ?thesis
        using False by (cases "jobmap st a") (simp_all add: job_table_def m)
    qed (use p in \<open>simp add: job_table_def m\<close>)
  qed
qed

lemma jobs_ok_remove:
  assumes ok: "jobs_ok st" and p: "jobmap st name = Some p" and d: "dict_ok d" "dmap d = (dmap (jb_db st))(name := None)"
  shows "jobs_ok (st\<lparr>jb_db := d, jb_job := (jb_job st)(p := None)\<rparr>)"
    and "job_table (st\<lparr>jb_db := d, jb_job := (jb_job st)(p := None)\<rparr>) = (job_table st)(name := None)"
proof -
  let ?st = "st\<lparr>jb_db := d, jb_job := (jb_job st)(p := None)\<rparr>"
  have m: "jobmap ?st = (jobmap st)(name := None)"
    using d(2) by (simp add: jobmap_def fun_eq_iff)
  have ne: "jobmap st a \<noteq> Some p" if "a \<noteq> name" for a
    using jobmap_inj [OF ok p] that by auto
  show "jobs_ok ?st"
    using ok d(1) ne unfolding jobs_ok_def m by (auto split: if_splits)
  show "job_table ?st = (job_table st)(name := None)"
  proof
    fix a
    show "job_table ?st a = ((job_table st)(name := None)) a"
      using ne [of a] by (cases "jobmap st a") (auto simp: job_table_def m)
  qed
qed

lemma bg_process_signal_ok:
  assumes ok: "jobs_ok st"
  shows "\<exists>st'. bg_process_signal name st = Some (if job_table st name = None then -1 else 0, st') \<and> jobs_ok st' \<and>
    job_table st' = (job_table st)(name := map_option job_signal (job_table st name))"
proof -
  obtain d where d: "dict_lookup (jb_db st) (Some name) =
      Some (case dmap (jb_db st) name of None \<Rightarrow> (- XFIREDB_ERR, None, d) | Some v \<Rightarrow> (- XFIREDB_OK, Some v, d))"
      "dict_ok d" "dmap d = dmap (jb_db st)"
    using dict_lookup_ok [OF jobs_okD(1) [OF ok]] by blast
  note st = jobs_ok_dict [OF ok d(2,3)]
  show ?thesis
  proof (cases "jobmap st name")
    case None
    then have "dmap (jb_db st) name = None" "job_table st name = None"
      using job_table_None [OF ok] by (simp_all add: jobmap_def)
    then show ?thesis
      using d(1) st by (auto simp: bg_process_signal_def fun_upd_idem)
  next
    case (Some p)
    then obtain j where j: "jb_job st p = Some j" "j_name j = name"
      using jobs_okD(4) [OF ok] by blast
    obtain l where l: "dmap (jb_db st) name = Some (p, l)"
      using Some by (auto simp: jobmap_def)
    have t: "job_table st name = Some j"
      using Some j by (simp add: job_table_def)
    have "p \<noteq> 0" "j_name (job_signal j) = j_name j"
      using jobs_okD(2) [OF ok j(1)] by (simp_all add: job_signal_def)
    then show ?thesis
      using d(1) l j(1) t jobs_ok_change [OF st(1), of name p j "job_signal j"] st(2,3) Some
      by (auto simp: bg_process_signal_def)
  qed
qed

lemma bg_process_stop_ok:
  assumes ok: "jobs_ok st" and p: "jobmap st name = Some p" and j: "jb_job st p = Some j" "j_tp j"
  shows "\<exists>st'. bg_process_stop name st = Some (0, st') \<and> jobs_ok st' \<and> job_table st' = (job_table st)(name := None) \<and>
    jb_job st' = (jb_job st)(p := None)"
proof -
  obtain l where l: "dmap (jb_db st) name = Some (p, l)"
    using p by (auto simp: jobmap_def)
  then obtain d where d: "dict_delete (jb_db st) (Some name) False = Some (- XFIREDB_OK, Some p, d)" "dict_ok d"
      "dmap d = (dmap (jb_db st))(name := None)"
    using dict_delete_ok [OF jobs_okD(1) [OF ok], of name False] by auto
  have "p \<noteq> 0" "\<exists>j'. xfiredb_thread_join (job_signal (j\<lparr>j_done := True\<rparr>)) = Some j'"
    using jobs_okD(2) [OF ok j(1)] thread_join_ok [OF j(2)] by auto
  then show ?thesis
    using d(1) j(1) jobs_ok_remove [OF ok p d(2,3)] by (auto simp: bg_process_stop_def raw_bg_process_stop_def)
qed

lemma bg_process_stop_absent:
  assumes ok: "jobs_ok st" and p: "jobmap st name = None"
  shows "\<exists>st'. bg_process_stop name st = Some (-1, st') \<and> jobs_ok st' \<and> job_table st' = job_table st"
proof -
  have l: "dmap (jb_db st) name = None"
    using p by (simp add: jobmap_def)
  then obtain d where d: "dict_delete (jb_db st) (Some name) False = Some (- XFIREDB_ERR, None, d)" "dict_ok d" "dmap d = dmap (jb_db st)"
    using dict_delete_ok [OF jobs_okD(1) [OF ok], of name False] by (auto simp: fun_upd_idem)
  then show ?thesis
    using jobs_ok_dict [OF ok d(2,3)] by (auto simp: bg_process_stop_def)
qed

text \<open>A new job at the next address, entered under its name unless the name is taken.\<close>

lemma jobs_ok_add:
  assumes ok: "jobs_ok st" and room: "jb_next st < 2 ^ 64" and d: "dict_ok d"
    and st': "st' = st\<lparr>jb_db := d, jb_next := jb_next st + 1, jb_job := (jb_job st)(of_nat (jb_next st) \<mapsto> j)\<rparr>" and j: "j_name j = name"
    and m: "jobmap st' = (if jobmap st name = None then (jobmap st)(name \<mapsto> of_nat (jb_next st)) else jobmap st)"
  shows "jobs_ok st'" "job_table st' = (if job_table st name = None then (job_table st)(name \<mapsto> j) else job_table st)"
proof -
  let ?p = "of_nat (jb_next st) :: ptr"
  have new: "jb_job st ?p = None"
    using jobs_okD(3) [OF ok room] .
  have heap: "\<exists>m. 1 \<le> m \<and> m < jb_next st' \<and> q = of_nat m" if h: "jb_job st' q = Some x" for q x
  proof (cases "q = ?p")
    case True
    then show ?thesis
      using ok st' by (intro exI [of _ "jb_next st"]) (simp add: jobs_ok_def)
  next
    case False
    then obtain m where "1 \<le> m" "m < jb_next st" "q = of_nat m"
      using h st' jobs_okD(5) [OF ok, of q x] by auto
    then show ?thesis
      using st' by (intro exI [of _ m]) simp
  qed
  have named: "\<exists>x. jb_job st' q = Some x \<and> j_name x = a" if "jobmap st' a = Some q" for a q
  proof (cases "jobmap st a = Some q")
    case True
    then show ?thesis
      using jobs_okD(4) [OF ok True] new st' by (cases "q = ?p") auto
  next
    case False
    then have "a = name" "q = ?p"
      using that unfolding m by (auto split: if_splits)
    then show ?thesis
      using j st' by simp
  qed
  show "jobs_ok st'"
    unfolding jobs_ok_def using d room heap named st' by auto
  show "job_table st' = (if job_table st name = None then (job_table st)(name \<mapsto> j) else job_table st)"
  proof
    fix a
    have "jobmap st a \<noteq> Some ?p"
      using jobs_okD(4) [OF ok, of a ?p] new by (metis option.distinct(1))
    then have "Option.bind (jobmap st a) ((jb_job st)(?p \<mapsto> j)) = job_table st a"
      by (cases "jobmap st a") (auto simp: job_table_def)
    moreover have "job_table st' a = Option.bind (jobmap st' a) ((jb_job st)(?p \<mapsto> j))"
      using st' by (simp add: job_table_def)
    ultimately show "job_table st' a = (if job_table st name = None then (job_table st)(name \<mapsto> j) else job_table st) a"
      unfolding m by (auto simp: job_table_None [OF ok])
  qed
qed

lemma bg_process_create_ok:
  assumes ok: "jobs_ok st" and room: "has_room (jb_db st)" "jb_next st < 2 ^ 64"
  shows "\<exists>p st'. bg_process_create g mem c name h arg st = Some (if c then p else 0, st') \<and> jobs_ok st' \<and> p \<noteq> 0 \<and>
    jb_job st p = None \<and> jb_job st' = (jb_job st)(p \<mapsto> new_job name h arg c) \<and>
    job_table st' = (if job_table st name = None then (job_table st)(name \<mapsto> new_job name h arg c) else job_table st)"
proof -
  let ?p = "of_nat (jb_next st) :: ptr" and ?j = "new_job name h arg c"
  obtain d where d: "dict_add g mem (jb_db st) name ?p DICT_PTR = Some (if jobmap st name = None then - XFIREDB_OK else - XFIREDB_ERR, d)"
      "dict_ok d" "map_option fst \<circ> dmap d = (if jobmap st name = None then (jobmap st)(name \<mapsto> ?p) else jobmap st)"
    using raw_dict_add_ok [OF jobs_okD(1) [OF ok] room(1), of g mem name ?p DICT_PTR "dict_get_entry_length DICT_PTR"]
    by (cases "dmap (jb_db st) name") (auto simp: dict_add_def jobmap_def stored_value_def fun_eq_iff)
  let ?st = "st\<lparr>jb_db := d, jb_next := jb_next st + 1, jb_job := (jb_job st)(?p \<mapsto> ?j)\<rparr>"
  have "jobmap ?st = (if jobmap st name = None then (jobmap st)(name \<mapsto> ?p) else jobmap st)" "j_name ?j = name"
    using d(3) by (simp_all add: jobmap_def new_job_def)
  note st' = jobs_ok_add [OF ok room(2) d(2) refl this(2,1)]
  have "?p \<noteq> 0"
    using jobs_okD(2) [OF st'(1), of ?p] by simp
  then show ?thesis
    using d(1) st' jobs_okD(3) [OF ok room(2)] by (intro exI [of _ ?p] exI [of _ ?st]) (simp add: bg_process_create_def Let_def)
qed

section \<open>The life of a job\<close>

text \<open>
  C23: the background jobs are a map from names to jobs. Creating a job under a new name enters it with its thread
  before the first test; a second job under the same name is never entered. A signal reports whether
  the job exists and wakes its thread if it waits. Stopping a job returns at whatever point its thread is, removes the name
  and frees the job; the thread has left its loop, after one more run of the handler unless it was past it.
\<close>

theorem bg_jobs_refine_map:
  assumes "jobs_ok st" "has_room (jb_db st)" "jb_next st < 2 ^ 64"
  shows "(\<exists>p st'. bg_process_create g mem True name h arg st = Some (p, st') \<and> jobs_ok st' \<and> p \<noteq> 0 \<and>
      jb_job st' p = Some (new_job name h arg True) \<and>
      job_table st' = (if job_table st name = None then (job_table st)(name \<mapsto> new_job name h arg True) else job_table st)) \<and>
    (\<exists>st'. bg_process_signal name st = Some (if job_table st name = None then -1 else 0, st') \<and> jobs_ok st' \<and>
      job_table st' = (job_table st)(name := map_option job_signal (job_table st name))) \<and>
    (case job_table st name of
       None \<Rightarrow> \<exists>st'. bg_process_stop name st = Some (-1, st') \<and> jobs_ok st' \<and> job_table st' = job_table st
     | Some j \<Rightarrow> j_tp j \<longrightarrow>
         (\<exists>p j' st'. jobmap st name = Some p \<and> bg_process_stop name st = Some (0, st') \<and> jobs_ok st' \<and>
           job_table st' = (job_table st)(name := None) \<and> jb_job st' = (jb_job st)(p := None) \<and>
           xfiredb_thread_join (job_signal (j\<lparr>j_done := True\<rparr>)) = Some j' \<and> j_pc j' = RunExit \<and>
           j_runs j' = j_runs j + (if j_pc j \<in> {RunTest, RunExit} then 0 else 1)))"
proof (intro conjI)
  show "\<exists>p st'. bg_process_create g mem True name h arg st = Some (p, st') \<and> jobs_ok st' \<and> p \<noteq> 0 \<and>
      jb_job st' p = Some (new_job name h arg True) \<and>
      job_table st' = (if job_table st name = None then (job_table st)(name \<mapsto> new_job name h arg True) else job_table st)"
    using bg_process_create_ok [OF assms, of g mem True name h arg] by (metis fun_upd_same)
  show "\<exists>st'. bg_process_signal name st = Some (if job_table st name = None then -1 else 0, st') \<and> jobs_ok st' \<and>
      job_table st' = (job_table st)(name := map_option job_signal (job_table st name))"
    by (rule bg_process_signal_ok [OF assms(1)])
  show "case job_table st name of
       None \<Rightarrow> \<exists>st'. bg_process_stop name st = Some (-1, st') \<and> jobs_ok st' \<and> job_table st' = job_table st
     | Some j \<Rightarrow> j_tp j \<longrightarrow>
         (\<exists>p j' st'. jobmap st name = Some p \<and> bg_process_stop name st = Some (0, st') \<and> jobs_ok st' \<and>
           job_table st' = (job_table st)(name := None) \<and> jb_job st' = (jb_job st)(p := None) \<and>
           xfiredb_thread_join (job_signal (j\<lparr>j_done := True\<rparr>)) = Some j' \<and> j_pc j' = RunExit \<and>
           j_runs j' = j_runs j + (if j_pc j \<in> {RunTest, RunExit} then 0 else 1))"
  proof (cases "job_table st name")
    case None
    then have "jobmap st name = None"
      by (simp add: job_table_None [OF assms(1)])
    then show ?thesis
      using bg_process_stop_absent [OF assms(1)] None by simp
  next
    case (Some j)
    then obtain p where p: "jobmap st name = Some p" "jb_job st p = Some j"
      by (auto simp: job_table_def bind_eq_Some_conv)
    show ?thesis
      using Some p bg_process_stop_ok [OF assms(1) p] thread_join_ok [of j] by auto
  qed
qed

lemma bg_processes_init_ok:
  assumes "limit \<le> 2 ^ 63"
  shows "\<exists>st. bg_processes_init limit stack = Some st \<and> jobs_ok st \<and> job_table st = Map.empty \<and> has_room (jb_db st) \<and>
    jb_next st = 1 \<and> limit \<le> jb_stack st \<and> stack \<le> jb_stack st"
proof -
  obtain r where r: "stack_loop limit (if stack = 0 then 1 else stack) = Some r" "limit \<le> r" "(if stack = 0 then 1 else stack) \<le> r"
    using stack_loop_ok [of 1 limit] stack_loop_ok [of stack limit] assms by (cases "stack = 0") (auto simp: word_gt_0)
  then have "stack \<le> r"
    by (cases "stack = 0") simp_all
  then show ?thesis
    using r(1,2) dict_alloc_ok by (auto simp: bg_processes_init_def jobs_ok_def jobmap_def job_table_def dmap_empty has_room_def fun_eq_iff)
qed

theorem bg_jobs_refine_map_witness:
  "\<exists>st p st'. bg_processes_init 65536 0 = Some st \<and>
     bg_process_create default_conf (\<lambda>_. 0) True ''bio-worker'' 1 64 st = Some (p, st') \<and> jobs_ok st' \<and>
     job_table st' = [''bio-worker'' \<mapsto> new_job ''bio-worker'' 1 64 True]"
proof -
  obtain st where st: "bg_processes_init 65536 0 = Some st" "jobs_ok st" "job_table st = Map.empty" "has_room (jb_db st)" "jb_next st = 1"
    using bg_processes_init_ok [of 65536 0] by auto
  then show ?thesis
    using bg_jobs_refine_map [of st default_conf "\<lambda>_. 0" "''bio-worker''" 1 64] by auto
qed

text \<open>The engine stops its only job before it leaves the module: the table is empty then, and the loop ends at once.\<close>

lemma bg_processes_exit_empty:
  assumes "jobs_ok st" "job_table st = Map.empty"
  shows "bg_processes_exit st = Some (st\<lparr>jb_db := snd (dict_free (jb_db st))\<rparr>)"
proof -
  have ok: "dict_ok (jb_db st)"
    using jobs_okD(1) [OF assms(1)] .
  have "dmap (jb_db st) a = None" for a
    using job_table_None [OF assms(1), of a] assms(2) by (simp add: jobmap_def)
  then have "dom (dmap (jb_db st)) = {}"
    by auto
  then have "entries (jb_db st) = []"
    using dmap_dom [of _ "jb_db st"] by (metis empty_iff image_eqI list.set_intros(1) neq_Nil_conv)
  then obtain it where "dict_iterator_next (jb_db st) (dict_get_iterator (jb_db st)) = Some (None, it)"
    using finds_all [OF ok] by (auto simp: finds_def)
  then show ?thesis
    by (simp add: bg_processes_exit_def exit_loop.simps)
qed

text \<open>A job whose thread could not be created stays in the table, and stopping it reads through the null handle.\<close>

lemma bg_stop_without_thread:
  assumes "jobs_ok st" "has_room (jb_db st)" "jb_next st < 2 ^ 64" "job_table st name = None"
  shows "\<exists>st'. bg_process_create g mem False name h arg st = Some (0, st') \<and> bg_process_stop name st' = None"
proof -
  obtain st' where st': "bg_process_create g mem False name h arg st = Some (0, st')" "jobs_ok st'"
      "job_table st' name = Some (new_job name h arg False)"
    using bg_process_create_ok [OF assms(1-3), of g mem False name h arg] assms(4) by auto
  then obtain p where p: "jobmap st' name = Some p" "jb_job st' p = Some (new_job name h arg False)"
    by (auto simp: job_table_def bind_eq_Some_conv)
  then obtain l where "dmap (jb_db st') name = Some (p, l)"
    by (auto simp: jobmap_def)
  then obtain d where "dict_delete (jb_db st') (Some name) False = Some (- XFIREDB_OK, Some p, d)"
    using dict_delete_ok [OF jobs_okD(1) [OF st'(2)], of name False] by auto
  then have "bg_process_stop name st' = None"
    using p(2) jobs_okD(2) [OF st'(2) p(2)]
    by (simp add: bg_process_stop_def raw_bg_process_stop_def xfiredb_thread_join_def job_signal_def new_job_def)
  then show ?thesis
    using st'(1) by blast
qed

end
