(* ===== verification/RbModel.thy ===== *)
theory RbModel
  imports Engine
begin

text \<open>
  The Ruby binding of the engine (\<^verbatim>\<open>ext/xfiredb-serv\<close>), through which the server reads and changes the
  database. Ruby objects wrap entries, each a container with its key and the state of its object; an
  entry and its container have the same address. The garbage collector calls the release function of an
  object that is not referenced any more.
\<close>

section \<open>State\<close>

datatype rclass = CString | CList | CHashmap | CSet

text \<open>Ruby values as far as the binding looks at them; a wrapped structure is known by its object.\<close>

datatype rval = Qfalse | Qnil | Qtrue | RText string | RNum int | RObj nat

record db_entry_container =
  en_key :: "string option"
  en_intree :: bool
  en_released :: bool
  en_obj :: rval
  en_type :: rclass

text \<open>
  The engine with the database of the Ruby object and the heap of containers, the entries, the object
  table of the Ruby machine and its next object.
\<close>

record rb =
  rb_eng :: engine
  rb_ent :: "ptr \<rightharpoonup> db_entry_container"
  rb_obj :: "nat \<rightharpoonup> ptr"
  rb_next :: nat

text \<open>\<^verbatim>\<open>Data_Get_Struct\<close> and the access to the entry; a freed entry must not be accessed.\<close>

definition rb_entry :: "nat \<Rightarrow> rb \<Rightarrow> (ptr \<times> db_entry_container) option" where
  "rb_entry self st = do { p \<leftarrow> rb_obj st self; en \<leftarrow> rb_ent st p; Some (p, en) }"

text \<open>\<^verbatim>\<open>Data_Wrap_Struct\<close>.\<close>

definition rb_wrap :: "ptr \<Rightarrow> rb \<Rightarrow> nat \<times> rb" where
  "rb_wrap p st = (rb_next st, st\<lparr>rb_obj := (rb_obj st)(rb_next st \<mapsto> p), rb_next := rb_next st + 1\<rparr>)"

definition rb_set_entry :: "ptr \<Rightarrow> db_entry_container \<Rightarrow> rb \<Rightarrow> rb" where
  "rb_set_entry p en st = st\<lparr>rb_ent := (rb_ent st)(p \<mapsto> en)\<rparr>"

text \<open>\<^verbatim>\<open>container_destroy\<close>, and the release of the key and of the entry.\<close>

definition rb_entry_free :: "ptr \<Rightarrow> rb \<Rightarrow> rb" where
  "rb_entry_free p st = st\<lparr>rb_eng := e_free p (rb_eng st), rb_ent := (rb_ent st)(p := None)\<rparr>"

text \<open>A change of the disk is announced for an entry that has a key.\<close>

definition rb_notice ::
  "econf \<Rightarrow> db_entry_container \<Rightarrow> string option \<Rightarrow> string option \<Rightarrow> bio_operation \<Rightarrow> engine \<Rightarrow> engine option" where
  "rb_notice x en arg data op e =
     (case en_key en of None \<Rightarrow> Some e | Some key \<Rightarrow> xfiredb_notice_disk x (Some key) arg data op e)"

definition rb_alloc :: "rclass \<Rightarrow> container_type \<Rightarrow> rb \<Rightarrow> ptr \<times> nat \<times> rb" where
  "rb_alloc klass type st =
     (let (p, e) = e_alloc (container_init type) (rb_eng st);
          (v, st) = rb_wrap p (st\<lparr>rb_eng := e\<rparr>)
      in (p, v, rb_set_entry p \<lparr>en_key = None, en_intree = False, en_released = False, en_obj = Qfalse, en_type = klass\<rparr> st))"

section \<open>Lists\<close>

definition rb_list_alloc :: "rb \<Rightarrow> nat \<times> rb" where
  "rb_list_alloc st =
     (let (p, v, st) = rb_alloc CList CONTAINER_LIST st
      in (v, st\<lparr>rb_ent := (rb_ent st)(p := map_option (\<lambda>en. en\<lparr>en_obj := RObj v\<rparr>) (rb_ent st p))\<rparr>))"

definition rb_list_push :: "econf \<Rightarrow> nat \<Rightarrow> string \<Rightarrow> rb \<Rightarrow> (rval \<times> rb) option" where
  "rb_list_push x self data st = do {
     let (s, e) = e_string_alloc data (rb_eng st);
     (p, en) \<leftarrow> rb_entry self st;
     e \<leftarrow> rb_notice x en None (Some data) LIST_ADD e;
     c \<leftarrow> e_cont e p;
     lh \<leftarrow> get_list c;
     e \<leftarrow> e_put p (DList (list_rpush lh s)) e;
     Some (RObj self, st\<lparr>rb_eng := e\<rparr>)
   }"

text \<open>The loop of \<^verbatim>\<open>raw_rb_list_clear\<close> with \<^verbatim>\<open>list_for_each_safe\<close>.\<close>

partial_function (option) rb_list_clear_loop ::
  "econf \<Rightarrow> db_entry_container \<Rightarrow> list_head \<Rightarrow> nat \<Rightarrow> nat \<Rightarrow> engine \<Rightarrow> (list_head \<times> engine) option" where
  [code]: "rb_list_clear_loop x en lh c s e =
     (if c = 0 then Some (lh, e)
      else do {
        let lh = list_del lh c;
        data \<leftarrow> str_at (e_strs e) c;
        e \<leftarrow> rb_notice x en (Some data) None LIST_DEL e;
        rb_list_clear_loop x en lh s (nxt lh s) (e_string_free c e)
      })"

definition raw_rb_list_clear :: "econf \<Rightarrow> ptr \<Rightarrow> db_entry_container \<Rightarrow> engine \<Rightarrow> engine option" where
  "raw_rb_list_clear x p en e = do {
     c \<leftarrow> e_cont e p;
     lh \<leftarrow> get_list c;
     (lh, e) \<leftarrow> rb_list_clear_loop x en lh (nxt lh 0) (nxt lh (nxt lh 0)) e;
     e_put p (DList lh) e
   }"

definition rb_list_clear :: "econf \<Rightarrow> nat \<Rightarrow> rb \<Rightarrow> (rval \<times> rb) option" where
  "rb_list_clear x self st = do {
     (p, en) \<leftarrow> rb_entry self st;
     e \<leftarrow> raw_rb_list_clear x p en (rb_eng st);
     Some (RObj self, st\<lparr>rb_eng := e\<rparr>)
   }"

definition rb_list_length :: "nat \<Rightarrow> rb \<Rightarrow> rval option" where
  "rb_list_length self st = do {
     (p, en) \<leftarrow> rb_entry self st;
     c \<leftarrow> e_cont (rb_eng st) p;
     lh \<leftarrow> get_list c;
     Some (RNum (list_length lh))
   }"

fun ref_loop :: "int \<Rightarrow> int \<Rightarrow> nat list \<Rightarrow> nat option" where
  "ref_loop idx counter [] = None"
| "ref_loop idx counter (c # cs) = (if counter = idx then Some c else ref_loop idx (counter + 1) cs)"

definition list_ref :: "list_head \<Rightarrow> int \<Rightarrow> nat option option" where
  "list_ref lh idx = do { cs \<leftarrow> list_for_each lh; Some (ref_loop idx 0 cs) }"

definition rb_list_set :: "econf \<Rightarrow> nat \<Rightarrow> int \<Rightarrow> string \<Rightarrow> rb \<Rightarrow> (rval \<times> rb) option" where
  "rb_list_set x self idx data st = do {
     (p, en) \<leftarrow> rb_entry self st;
     let e = rb_eng st;
     c \<leftarrow> e_cont e p;
     lh \<leftarrow> get_list c;
     carriage \<leftarrow> list_ref lh idx;
     case carriage of
       None \<Rightarrow> Some (Qnil, st)
     | Some n \<Rightarrow> do {
         s \<leftarrow> e_strs e n;
         tmp \<leftarrow> string_get s;
         e \<leftarrow> rb_notice x en (Some tmp) (Some data) LIST_UPDATE e;
         Some (RText data, st\<lparr>rb_eng := e\<lparr>e_strs := (e_strs e)(n \<mapsto> string_set s data)\<rparr>\<rparr>)
       }
   }"

definition rb_list_pop :: "econf \<Rightarrow> nat \<Rightarrow> int \<Rightarrow> rb \<Rightarrow> (rval \<times> rb) option" where
  "rb_list_pop x self idx st = do {
     (p, en) \<leftarrow> rb_entry self st;
     let e = rb_eng st;
     c \<leftarrow> e_cont e p;
     lh \<leftarrow> get_list c;
     carriage \<leftarrow> list_ref lh idx;
     case carriage of
       None \<Rightarrow> Some (Qnil, st)
     | Some n \<Rightarrow> do {
         e \<leftarrow> e_put p (DList (list_del lh n)) e;
         data \<leftarrow> str_at (e_strs e) n;
         e \<leftarrow> rb_notice x en (Some data) None LIST_DEL e;
         Some (RText data, st\<lparr>rb_eng := e_string_free n e\<rparr>)
       }
   }"

definition rb_list_ref :: "nat \<Rightarrow> int \<Rightarrow> rb \<Rightarrow> rval option" where
  "rb_list_ref self idx st = do {
     (p, en) \<leftarrow> rb_entry self st;
     c \<leftarrow> e_cont (rb_eng st) p;
     lh \<leftarrow> get_list c;
     carriage \<leftarrow> list_ref lh idx;
     case carriage of
       None \<Rightarrow> Some Qnil
     | Some n \<Rightarrow> map_option RText (str_at (e_strs (rb_eng st)) n)
   }"

text \<open>\<^verbatim>\<open>rb_list_each\<close> with a block that does not change the list: the values passed to the block.\<close>

partial_function (option) list_each_loop :: "nat \<Rightarrow> int \<Rightarrow> rb \<Rightarrow> rval list option" where
  [code]: "list_each_loop self i st = do {
     len \<leftarrow> rb_list_length self st;
     if len = RNum i \<or> (case len of RNum n \<Rightarrow> n < i | _ \<Rightarrow> True) then Some []
     else do {
       v \<leftarrow> rb_list_ref self i st;
       vs \<leftarrow> list_each_loop self (i + 1) st;
       Some (v # vs)
     }
   }"

definition rb_list_each :: "nat \<Rightarrow> rb \<Rightarrow> rval list option" where
  "rb_list_each self st = list_each_loop self 0 st"

section \<open>Hash maps\<close>

definition rb_hashmap_alloc :: "rb \<Rightarrow> nat \<times> rb" where
  "rb_hashmap_alloc st =
     (let (p, v, st) = rb_alloc CHashmap CONTAINER_HASHMAP st
      in (v, st\<lparr>rb_ent := (rb_ent st)(p := map_option (\<lambda>en. en\<lparr>en_obj := RObj v\<rparr>) (rb_ent st p))\<rparr>))"

definition obj_to_map :: "nat \<Rightarrow> rb \<Rightarrow> hashmap option" where
  "obj_to_map self st = do { (p, en) \<leftarrow> rb_entry self st; c \<leftarrow> e_cont (rb_eng st) p; get_map c }"

definition rb_hashmap_size :: "nat \<Rightarrow> rb \<Rightarrow> rval option" where
  "rb_hashmap_size self st = do { m \<leftarrow> obj_to_map self st; Some (RNum (hashmap_size m)) }"

text \<open>The loop of \<^verbatim>\<open>rb_hashmap_remove\<close>; the keys of the nodes are not released.\<close>

partial_function (option) rb_hashmap_remove_loop ::
  "econf \<Rightarrow> db_entry_container \<Rightarrow> hashmap \<Rightarrow> skiplist_iterator \<Rightarrow> engine \<Rightarrow> (hashmap \<times> engine) option" where
  [code]: "rb_hashmap_remove_loop x en m it e = do {
     (node, it) \<leftarrow> hashmap_iterator_next m it;
     if node = NULL then Some (m, e)
     else do {
       key \<leftarrow> h_key m node;
       e \<leftarrow> rb_notice x en (Some key) None HM_DEL e;
       (_, it, m) \<leftarrow> hashmap_iterator_delete m it;
       rb_hashmap_remove_loop x en m it (e_string_free node e)
     }
   }"

definition rb_hashmap_remove :: "econf \<Rightarrow> ptr \<Rightarrow> db_entry_container \<Rightarrow> engine \<Rightarrow> engine option" where
  "rb_hashmap_remove x p en e = do {
     c \<leftarrow> e_cont e p;
     m \<leftarrow> get_map c;
     (m, e) \<leftarrow> rb_hashmap_remove_loop x en m (hashmap_new_iterator m) e;
     e_put p (DMap m) e
   }"

definition rb_hashmap_clear :: "econf \<Rightarrow> nat \<Rightarrow> rb \<Rightarrow> (rval \<times> rb) option" where
  "rb_hashmap_clear x self st = do {
     (p, en) \<leftarrow> rb_entry self st;
     e \<leftarrow> rb_hashmap_remove x p en (rb_eng st);
     Some (RObj self, st\<lparr>rb_eng := e\<rparr>)
   }"

text \<open>\<^verbatim>\<open>rb_hashmap_delete\<close> without a block.\<close>

definition rb_hashmap_delete :: "econf \<Rightarrow> nat \<Rightarrow> string \<Rightarrow> rb \<Rightarrow> (rval \<times> rb) option" where
  "rb_hashmap_delete x self keyval st = do {
     (p, en) \<leftarrow> rb_entry self st;
     m \<leftarrow> obj_to_map self st;
     (node, m) \<leftarrow> hashmap_remove m keyval;
     e \<leftarrow> e_put p (DMap m) (rb_eng st);
     if node = NULL then Some (Qnil, st\<lparr>rb_eng := e\<rparr>)
     else do {
       data \<leftarrow> str_at (e_strs e) node;
       key \<leftarrow> h_key m node;
       e \<leftarrow> rb_notice x en (Some key) None HM_DEL e;
       e \<leftarrow> e_put p (DMap (hashmap_node_destroy node m)) e;
       Some (RText data, st\<lparr>rb_eng := e_string_free node e\<rparr>)
     }
   }"

definition rb_hashmap_ref :: "nat \<Rightarrow> string \<Rightarrow> rb \<Rightarrow> rval option" where
  "rb_hashmap_ref self keyval st = do {
     m \<leftarrow> obj_to_map self st;
     node \<leftarrow> hashmap_find m keyval;
     if node = NULL then Some Qnil
     else map_option RText (str_at (e_strs (rb_eng st)) node)
   }"

definition rb_hashmap_store :: "econf \<Rightarrow> nat \<Rightarrow> string \<Rightarrow> string \<Rightarrow> rb \<Rightarrow> (rval \<times> rb) option" where
  "rb_hashmap_store x self tmp_key tmp_data st = do {
     m \<leftarrow> obj_to_map self st;
     node \<leftarrow> hashmap_find m tmp_key;
     (p, en) \<leftarrow> rb_entry self st;
     let e = rb_eng st;
     if node = NULL
     then do {
       let (s, e) = e_string_alloc tmp_data e;
       (_, m) \<leftarrow> hashmap_add (x_coins x) m tmp_key s;
       e \<leftarrow> e_put p (DMap m) e;
       e \<leftarrow> rb_notice x en (Some tmp_key) (Some tmp_data) HM_ADD e;
       Some (RText tmp_data, st\<lparr>rb_eng := e\<rparr>)
     }
     else do {
       s \<leftarrow> e_strs e node;
       let e = e\<lparr>e_strs := (e_strs e)(node \<mapsto> string_set s tmp_data)\<rparr>;
       e \<leftarrow> rb_notice x en (Some tmp_key) (Some tmp_data) HM_UPDATE e;
       Some (RText tmp_data, st\<lparr>rb_eng := e\<rparr>)
     }
   }"

text \<open>\<^verbatim>\<open>rb_hashmap_each\<close> with a block that does not change the map: the pairs passed to the block.\<close>

partial_function (option) map_each_loop ::
  "strings \<Rightarrow> hashmap \<Rightarrow> skiplist_iterator \<Rightarrow> (string \<times> string) list option" where
  [code]: "map_each_loop strs m it = do {
     (node, it) \<leftarrow> hashmap_iterator_next m it;
     if node = NULL then Some []
     else do {
       v \<leftarrow> str_at strs node;
       key \<leftarrow> h_key m node;
       kvs \<leftarrow> map_each_loop strs m it;
       Some ((key, v) # kvs)
     }
   }"

definition rb_hashmap_each :: "nat \<Rightarrow> rb \<Rightarrow> (string \<times> string) list option" where
  "rb_hashmap_each self st = do {
     m \<leftarrow> obj_to_map self st;
     map_each_loop (e_strs (rb_eng st)) m (hashmap_new_iterator m)
   }"

section \<open>Sets\<close>

definition rb_set_alloc :: "rb \<Rightarrow> nat \<times> rb" where
  "rb_set_alloc st = (let (p, v, st) = rb_alloc CSet CONTAINER_SET st in (v, st))"

definition obj_to_set :: "nat \<Rightarrow> rb \<Rightarrow> sset option" where
  "obj_to_set self st = do { (p, en) \<leftarrow> rb_entry self st; c \<leftarrow> e_cont (rb_eng st) p; get_set c }"

definition rb_set_add :: "econf \<Rightarrow> nat \<Rightarrow> string \<Rightarrow> rb \<Rightarrow> (rval \<times> rb) option" where
  "rb_set_add x self key st = do {
     let e = rb_eng st;
     let (k, e) = (e_fresh e, e\<lparr>e_fresh := e_fresh e + 1\<rparr>);
     (p, en) \<leftarrow> rb_entry self st;
     s \<leftarrow> obj_to_set self st;
     (rc, s) \<leftarrow> set_add (x_coins x) s key k;
     e \<leftarrow> e_put p (DSet s) e;
     if rc = - XFIREDB_OK
     then do {
       kkey \<leftarrow> set_key s k;
       e \<leftarrow> rb_notice x en (Some kkey) None SET_ADD e;
       Some (RText key, st\<lparr>rb_eng := e\<rparr>)
     }
     else Some (Qnil, st\<lparr>rb_eng := e\<rparr>)
   }"

definition rb_set_remove_key :: "econf \<Rightarrow> nat \<Rightarrow> string \<Rightarrow> rb \<Rightarrow> (rval \<times> rb) option" where
  "rb_set_remove_key x self key st = do {
     (p, en) \<leftarrow> rb_entry self st;
     s \<leftarrow> obj_to_set self st;
     (k, s) \<leftarrow> set_remove s key;
     e \<leftarrow> e_put p (DSet s) (rb_eng st);
     if k = NULL then Some (Qnil, st\<lparr>rb_eng := e\<rparr>)
     else do {
       kkey \<leftarrow> set_key s k;
       e \<leftarrow> rb_notice x en (Some kkey) None SET_DEL e;
       e \<leftarrow> e_put p (DSet (set_key_destroy k s)) e;
       Some (RText key, st\<lparr>rb_eng := e\<rparr>)
     }
   }"

definition rb_set_include :: "nat \<Rightarrow> string \<Rightarrow> rb \<Rightarrow> rval option" where
  "rb_set_include self key st = do {
     s \<leftarrow> obj_to_set self st;
     b \<leftarrow> set_contains s key;
     Some (if b then Qtrue else Qfalse)
   }"

definition rb_set_size :: "nat \<Rightarrow> rb \<Rightarrow> rval option" where
  "rb_set_size self st = do { s \<leftarrow> obj_to_set self st; Some (RNum (set_size s)) }"

text \<open>The loop of \<^verbatim>\<open>rb_set_remove\<close> that announces the removal of every key.\<close>

partial_function (option) set_notice_loop ::
  "econf \<Rightarrow> db_entry_container \<Rightarrow> sset \<Rightarrow> skiplist_iterator \<Rightarrow> engine \<Rightarrow> engine option" where
  [code]: "set_notice_loop x en s it e = do {
     (k, it) \<leftarrow> set_iterator_next s it;
     if k = NULL then Some e
     else do {
       key \<leftarrow> set_key s k;
       e \<leftarrow> rb_notice x en (Some key) None SET_DEL e;
       set_notice_loop x en s it e
     }
   }"

definition rb_set_remove :: "econf \<Rightarrow> ptr \<Rightarrow> db_entry_container \<Rightarrow> engine \<Rightarrow> engine option" where
  "rb_set_remove x p en e = do {
     c \<leftarrow> e_cont e p;
     s \<leftarrow> get_set c;
     e \<leftarrow> (if en_key en \<noteq> None then set_notice_loop x en s (set_iterator_new s) e else Some e);
     (_, _, s) \<leftarrow> set_clear s;
     e_put p (DSet s) e
   }"

definition rb_set_clear :: "econf \<Rightarrow> nat \<Rightarrow> rb \<Rightarrow> (rval \<times> rb) option" where
  "rb_set_clear x self st = do {
     (p, en) \<leftarrow> rb_entry self st;
     e \<leftarrow> rb_set_remove x p en (rb_eng st);
     Some (RObj self, st\<lparr>rb_eng := e\<rparr>)
   }"

text \<open>\<^verbatim>\<open>rb_set_each\<close> with a block that does not change the set: the keys passed to the block.\<close>

partial_function (option) set_each_loop :: "sset \<Rightarrow> skiplist_iterator \<Rightarrow> string list option" where
  [code]: "set_each_loop s it = do {
     (k, it) \<leftarrow> set_iterator_next s it;
     if k = NULL then Some []
     else do {
       key \<leftarrow> set_key s k;
       keys \<leftarrow> set_each_loop s it;
       Some (key # keys)
     }
   }"

definition rb_set_each :: "nat \<Rightarrow> rb \<Rightarrow> string list option" where
  "rb_set_each self st = do { s \<leftarrow> obj_to_set self st; set_each_loop s (set_iterator_new s) }"

section \<open>Release and removal\<close>

text \<open>The content of an entry is removed by the function of its class.\<close>

definition rb_empty :: "econf \<Rightarrow> ptr \<Rightarrow> db_entry_container \<Rightarrow> engine \<Rightarrow> engine option" where
  "rb_empty x p en e =
     (case en_type en of
        CList \<Rightarrow> raw_rb_list_clear x p en e
      | CHashmap \<Rightarrow> rb_hashmap_remove x p en e
      | CSet \<Rightarrow> rb_set_remove x p en e
      | CString \<Rightarrow> Some e)"

text \<open>
  \<^verbatim>\<open>rb_list_release\<close>, \<^verbatim>\<open>rb_hashmap_release\<close> and \<^verbatim>\<open>rb_set_release\<close>, called by the garbage collector for the object
  \<open>v\<close>: the entry is released unless it is in the database.
\<close>

definition rb_release :: "econf \<Rightarrow> nat \<Rightarrow> rb \<Rightarrow> rb option" where
  "rb_release x v st = do {
     (p, en) \<leftarrow> rb_entry v st;
     let en = en\<lparr>en_released := True\<rparr>;
     let st = rb_set_entry p en (st\<lparr>rb_obj := (rb_obj st)(v := None)\<rparr>);
     if \<not> en_intree en
     then do {
       e \<leftarrow> rb_empty x p en (rb_eng st);
       Some (rb_entry_free p (st\<lparr>rb_eng := e\<rparr>))
     }
     else Some st
   }"

text \<open>\<^verbatim>\<open>rb_list_free\<close>, \<^verbatim>\<open>rb_hashmap_free\<close> and \<^verbatim>\<open>rb_set_free\<close>: the entry is freed when its object is gone already.\<close>

definition rb_free :: "econf \<Rightarrow> ptr \<Rightarrow> rb \<Rightarrow> rb option" where
  "rb_free x p st = do {
     en \<leftarrow> rb_ent st p;
     e \<leftarrow> rb_empty x p en (rb_eng st);
     let st = st\<lparr>rb_eng := e\<rparr>;
     Some (if en_released en \<and> \<not> en_intree en then rb_entry_free p st else st)
   }"

text \<open>\<^verbatim>\<open>raw_rb_db_delete\<close>; the object is reset in the entry that may have been freed.\<close>

definition raw_rb_db_delete :: "econf \<Rightarrow> ptr \<Rightarrow> rb \<Rightarrow> rb option" where
  "raw_rb_db_delete x p st = do {
     en \<leftarrow> rb_ent st p;
     let en = en\<lparr>en_intree := False\<rparr>;
     let st = rb_set_entry p en st;
     if en_type en = CString
     then do {
       e \<leftarrow> xfiredb_notice_disk x (en_key en) None None STRING_DEL (rb_eng st);
       Some (rb_entry_free p (st\<lparr>rb_eng := e\<rparr>))
     }
     else do {
       st \<leftarrow> rb_free x p st;
       en \<leftarrow> rb_ent st p;
       Some (rb_set_entry p (en\<lparr>en_obj := Qnil\<rparr>) st)
     }
   }"

section \<open>Database\<close>

definition rb_container_to_obj :: "ptr \<Rightarrow> rb \<Rightarrow> (rval \<times> rb) option" where
  "rb_container_to_obj p st = do {
     en \<leftarrow> rb_ent st p;
     if en_released en
     then (let (v, st) = rb_wrap p st in Some (RObj v, rb_set_entry p (en\<lparr>en_obj := RObj v, en_released := False\<rparr>) st))
     else Some (en_obj en, st)
   }"

text \<open>The Ruby value of an entry: the text of a string, or the object of the entry.\<close>

definition rb_entry_value :: "ptr \<Rightarrow> rb \<Rightarrow> (rval \<times> rb) option" where
  "rb_entry_value p st = do {
     en \<leftarrow> rb_ent st p;
     if en_type en \<noteq> CString then rb_container_to_obj p st
     else do {
       c \<leftarrow> e_cont (rb_eng st) p;
       s \<leftarrow> get_string c;
       tmp \<leftarrow> string_get s;
       Some (RText tmp, st)
     }
   }"

definition rb_db_ref :: "string \<Rightarrow> rb \<Rightarrow> (rval \<times> rb) option" where
  "rb_db_ref key st = do {
     (rc, dbdata, e) \<leftarrow> e_lookup key (rb_eng st);
     let st = st\<lparr>rb_eng := e\<rparr>;
     if rc \<noteq> - XFIREDB_OK then Some (Qnil, st)
     else do { p \<leftarrow> dbdata; rb_entry_value p st }
   }"

definition rb_db_size :: "rb \<Rightarrow> rval" where
  "rb_db_size st = RNum (db_get_size (e_db (rb_eng st)))"

definition rb_db_delete :: "econf \<Rightarrow> string \<Rightarrow> rb \<Rightarrow> (rval \<times> rb) option" where
  "rb_db_delete x key st = do {
     (rc, dbdata, e) \<leftarrow> e_delete key (rb_eng st);
     let st = st\<lparr>rb_eng := e\<rparr>;
     if rc \<noteq> - XFIREDB_OK then Some (Qnil, st)
     else do {
       p \<leftarrow> dbdata;
       st \<leftarrow> raw_rb_db_delete x p st;
       Some (RText key, st)
     }
   }"

text \<open>
  The second half of \<^verbatim>\<open>rb_db_store\<close>: the entry of the value, stored under the key. A value is the text of a
  Ruby string or an object of one of the three classes.
\<close>

definition store_entry :: "econf \<Rightarrow> string \<Rightarrow> rval \<Rightarrow> rb \<Rightarrow> (rval \<times> rb) option" where
  "store_entry x tmp data st = do {
     (p, en, st) \<leftarrow>
       (case data of
          RText s \<Rightarrow> do {
            let (p, e) = e_alloc (container_init CONTAINER_STRING) (rb_eng st);
            c \<leftarrow> e_cont e p;
            xs \<leftarrow> get_string c;
            e \<leftarrow> e_put p (DString (string_set xs s)) e;
            Some (p, \<lparr>en_key = None, en_intree = False, en_released = False, en_obj = Qnil, en_type = CString\<rparr>, st\<lparr>rb_eng := e\<rparr>)
          }
        | RObj v \<Rightarrow> do {
            (p, en) \<leftarrow> rb_entry v st;
            Some (p, en\<lparr>en_obj := data, en_intree := True\<rparr>, st)
          }
        | _ \<Rightarrow> None);
     let en = en\<lparr>en_key := Some tmp\<rparr>;
     (rc, e) \<leftarrow> e_store x tmp p (rb_eng st);
     if rc \<noteq> - XFIREDB_OK then Some (Qnil, rb_set_entry p (en\<lparr>en_intree := False\<rparr>) (st\<lparr>rb_eng := e\<rparr>))
     else do {
       c \<leftarrow> e_cont e p;
       e \<leftarrow> xfiredb_store_container x tmp c e;
       Some (data, rb_set_entry p en (st\<lparr>rb_eng := e\<rparr>))
     }
   }"

definition rb_db_store :: "econf \<Rightarrow> string \<Rightarrow> rval \<Rightarrow> rb \<Rightarrow> (rval \<times> rb) option" where
  "rb_db_store x tmp data st = do {
     (rc, dbdata, e) \<leftarrow> e_delete tmp (rb_eng st);
     let st = st\<lparr>rb_eng := e\<rparr>;
     if rc = - XFIREDB_OK
     then do {
       p \<leftarrow> dbdata;
       en \<leftarrow> rb_ent st p;
       if en_obj en \<noteq> data
       then (case data of
               RText s \<Rightarrow>
                 if en_type en = CString
                 then do {
                   c \<leftarrow> e_cont e p;
                   xs \<leftarrow> get_string c;
                   e \<leftarrow> e_put p (DString (string_set xs s)) e;
                   e \<leftarrow> xfiredb_notice_disk x (Some tmp) None (Some s) STRING_UPDATE e;
                   (rc, e) \<leftarrow> e_store x tmp p e;
                   Some (if rc = - XFIREDB_OK then data else Qnil, st\<lparr>rb_eng := e\<rparr>)
                 }
                 else do { st \<leftarrow> raw_rb_db_delete x p st; store_entry x tmp data st }
             | _ \<Rightarrow> do { st \<leftarrow> raw_rb_db_delete x p st; store_entry x tmp data st })
       else store_entry x tmp data st
     }
     else store_entry x tmp data st
   }"

section \<open>Engine\<close>

text \<open>The hook of \<^verbatim>\<open>rb_se_load\<close> and \<^verbatim>\<open>rb_se_load_key\<close>: the cells of a row as an array of four strings.\<close>

fun rb_load_hook :: "string list \<Rightarrow> string list list \<Rightarrow> string list list option" where
  "rb_load_hook [] ary = Some ary"
| "rb_load_hook (key # hash # type # data # rows) ary = rb_load_hook rows (ary @ [[key, hash, type, data]])"
| "rb_load_hook _ ary = None"

definition rb_se_load :: "'db sqlite \<Rightarrow> 'db disk \<Rightarrow> ('db disk \<times> string list list) option" where
  "rb_se_load sql d = xfiredb_raw_load sql rb_load_hook d []"

definition rb_se_load_key :: "'db sqlite \<Rightarrow> string \<Rightarrow> 'db disk \<Rightarrow> ('db disk \<times> string list list) option" where
  "rb_se_load_key sql k d = xfiredb_load_key sql k rb_load_hook d []"

definition rb_se_set_loadstate :: "rval \<Rightarrow> rb \<Rightarrow> rval \<times> rb" where
  "rb_se_set_loadstate state st = (state, st\<lparr>rb_eng := xfiredb_set_loadstate (state = Qtrue) (rb_eng st)\<rparr>)"

definition rb_se_get_loadstate :: "rb \<Rightarrow> rval" where
  "rb_se_get_loadstate st = (if xfiredb_loadstate (rb_eng st) then Qtrue else Qfalse)"

end
