(* ===== verification/RbRep.thy ===== *)
theory RbRep
  imports RbModel EngineMap EngineList
begin

text \<open>
  What the objects of the Ruby binding stand for. The relation \<open>rb_rep\<close> gives every entry the nodes it
  owns and its value, whether it is bound to a key of the database or not, and says how objects, entries
  and keys belong together. The counter of an emptied hash map or set is wrong, so a value is related to
  a container without its counter.
\<close>

section \<open>Values without counters\<close>

fun recount :: "nat list \<Rightarrow> cdata \<Rightarrow> cdata" where
  "recount ns (DMap m) = DMap (m\<lparr>h_num := of_nat (length ns)\<rparr>)"
| "recount ns (DSet s) = DSet (s\<lparr>set_num := of_nat (length ns)\<rparr>)"
| "recount ns d = d"

definition obj_val :: "strings \<Rightarrow> container \<Rightarrow> nat list \<Rightarrow> val \<Rightarrow> bool" where
  "obj_val strs c ns v \<longleftrightarrow> is_val strs (c\<lparr>c_data := recount ns (c_data c)\<rparr>) ns v"

text \<open>The counter of a hash map or set is the number of its entries.\<close>

definition counted :: "container \<Rightarrow> nat list \<Rightarrow> bool" where
  "counted c ns \<longleftrightarrow> recount ns (c_data c) = c_data c"

lemma obj_val_frame:
  "obj_val strs c ns v \<Longrightarrow> (\<And>n. n \<in> set ns \<Longrightarrow> strs' n = strs n) \<Longrightarrow> obj_val strs' c ns v"
  unfolding obj_val_def by (rule is_val_frame)

lemma obj_val_type: "obj_val strs c ns v \<Longrightarrow> c_type c = type_of v"
  by (simp add: obj_val_def is_val_def)

lemma obj_val_string:
  "obj_val strs c ns (VString s) \<longleftrightarrow>
   (\<exists>d. get_string c = Some d \<and> c = \<lparr>c_type = CONTAINER_STRING, c_data = DString d\<rparr> \<and> ns = [] \<and> string_get d = Some s)"
  by (cases c; cases "c_data c") (auto simp: obj_val_def is_val_def get_string_def container_get_data_def)

lemma obj_val_list:
  "obj_val strs c ns (VList xs) \<longleftrightarrow>
   (\<exists>l. get_list c = Some l \<and> c = \<lparr>c_type = CONTAINER_LIST, c_data = DList l\<rparr> \<and> is_list l ns \<and>
      map (str_at strs) ns = map Some xs)"
  by (cases c; cases "c_data c") (auto simp: obj_val_def is_val_def get_list_def container_get_data_def)

lemma obj_val_map:
  "obj_val strs c ns (VMap f) \<longleftrightarrow>
   (\<exists>m. get_map c = Some m \<and> c = \<lparr>c_type = CONTAINER_HASHMAP, c_data = DMap m\<rparr> \<and>
      hm_ok (m\<lparr>h_num := of_nat (length ns)\<rparr>) ns \<and> set ns \<subseteq> dom (str_at strs) \<and> f = map_val strs m ns)"
  by (cases c; cases "c_data c")
    (auto simp: obj_val_def is_val_def get_map_def container_get_data_def map_val_def hmap_def)

lemma obj_val_set:
  "obj_val strs c ns (VSet X) \<longleftrightarrow>
   (\<exists>s. get_set c = Some s \<and> c = \<lparr>c_type = CONTAINER_SET, c_data = DSet s\<rparr> \<and>
      set_ok (s\<lparr>set_num := of_nat (length ns)\<rparr>) ns \<and> X = members s ns)"
  by (cases c; cases "c_data c")
    (auto simp: obj_val_def is_val_def get_set_def container_get_data_def members_def)

section \<open>Objects, entries and keys\<close>

fun class_type :: "rclass \<Rightarrow> container_type" where
  "class_type CString = CONTAINER_STRING"
| "class_type CList = CONTAINER_LIST"
| "class_type CHashmap = CONTAINER_HASHMAP"
| "class_type CSet = CONTAINER_SET"

type_synonym objs = "ptr \<rightharpoonup> nat list \<times> val"

definition obj_rep :: "engine \<Rightarrow> nat list \<Rightarrow> ptr \<Rightarrow> val \<Rightarrow> bool" where
  "obj_rep e ns p v \<longleftrightarrow> (\<exists>m < e_next e. p = of_nat m) \<and> (\<forall>n\<in>set ns. 2 \<le> n \<and> n < e_fresh e) \<and>
     (\<exists>c. e_cont e p = Some c \<and> obj_val (e_strs e) c ns v)"

text \<open>The heap: every entry has a value in nodes of its own.\<close>

definition rb_heap_ok :: "engine \<Rightarrow> (ptr \<rightharpoonup> db_entry_container) \<Rightarrow> objs \<Rightarrow> bool" where
  "rb_heap_ok e E D \<longleftrightarrow> 2 \<le> e_fresh e \<and> e_next e \<le> 2 ^ 64 \<and> dom E = dom D \<and>
     (\<forall>p ns v. D p = Some (ns, v) \<longrightarrow> obj_rep e ns p v) \<and>
     (\<forall>p q ns ms v w. D p = Some (ns, v) \<longrightarrow> D q = Some (ms, w) \<longrightarrow> p \<noteq> q \<longrightarrow> set ns \<inter> set ms = {})"

text \<open>The value of an entry has the type of its class.\<close>

definition typed_ok :: "(ptr \<rightharpoonup> db_entry_container) \<Rightarrow> objs \<Rightarrow> bool" where
  "typed_ok E D \<longleftrightarrow> (\<forall>p en ns v. E p = Some en \<longrightarrow> D p = Some (ns, v) \<longrightarrow> type_of v = class_type (en_type en))"

text \<open>The database: a bound entry knows its key, so that no entry is bound twice, and is marked.\<close>

definition bound_at :: "(string \<rightharpoonup> ptr) \<Rightarrow> ptr \<Rightarrow> db_entry_container option \<Rightarrow> bool" where
  "bound_at B p eo \<longleftrightarrow>
     (\<forall>k. B k = Some p \<longrightarrow> (\<exists>en. eo = Some en \<and> en_key en = Some k \<and> (en_intree en \<or> en_type en = CString))) \<and>
     (\<forall>en. eo = Some en \<longrightarrow> (en_intree en \<longrightarrow> (\<exists>k. B k = Some p)) \<and>
        (en_type en = CString \<longrightarrow> en_obj en = Qnil \<and> \<not> en_released en \<and> \<not> en_intree en \<and> (\<exists>k. B k = Some p)))"

definition bound_ok :: "(string \<rightharpoonup> ptr) \<Rightarrow> (ptr \<rightharpoonup> db_entry_container) \<Rightarrow> bool" where
  "bound_ok B E \<longleftrightarrow> (\<forall>p. bound_at B p (E p))"

text \<open>The objects: an entry has at most one, and none after its release.\<close>

definition obj_at :: "(nat \<rightharpoonup> ptr) \<Rightarrow> nat \<Rightarrow> ptr \<Rightarrow> db_entry_container option \<Rightarrow> bool" where
  "obj_at W n p eo \<longleftrightarrow>
     (\<forall>v. W v = Some p \<longrightarrow> v < n \<and> (\<exists>en. eo = Some en \<and> \<not> en_released en \<and> en_type en \<noteq> CString)) \<and>
     (\<forall>v w. W v = Some p \<longrightarrow> W w = Some p \<longrightarrow> v = w) \<and>
     (\<forall>en. eo = Some en \<longrightarrow> (en_intree en \<longrightarrow> \<not> en_released en \<longrightarrow> (\<exists>v. en_obj en = RObj v \<and> W v = Some p)) \<and>
        (en_released en \<longrightarrow> en_intree en))"

definition objs_ok :: "(nat \<rightharpoonup> ptr) \<Rightarrow> nat \<Rightarrow> (ptr \<rightharpoonup> db_entry_container) \<Rightarrow> bool" where
  "objs_ok W n E \<longleftrightarrow> (\<forall>p. obj_at W n p (E p))"

definition rb_bind :: "rb \<Rightarrow> string \<rightharpoonup> ptr" where
  "rb_bind st = dbmap (e_db (rb_eng st))"

definition rb_rep :: "rb \<Rightarrow> objs \<Rightarrow> bool" where
  "rb_rep st D \<longleftrightarrow> db_ok (e_db (rb_eng st)) \<and> rb_heap_ok (rb_eng st) (rb_ent st) D \<and> typed_ok (rb_ent st) D \<and>
     bound_ok (rb_bind st) (rb_ent st) \<and> objs_ok (rb_obj st) (rb_next st) (rb_ent st)"

text \<open>The database as a map from keys to values.\<close>

definition rb_map :: "rb \<Rightarrow> objs \<Rightarrow> string \<rightharpoonup> val" where
  "rb_map st D k = Option.bind (rb_bind st k) (\<lambda>p. map_option snd (D p))"

lemma obj_rep_only:
  assumes "obj_rep e ns q v" "only e e' F p" "q \<noteq> p" "set ns \<inter> F = {}"
  shows "obj_rep e' ns q v"
proof -
  obtain c m where c: "e_cont e q = Some c" "obj_val (e_strs e) c ns v" "q = of_nat m" "m < e_next e"
    using assms(1) by (auto simp: obj_rep_def)
  have ns: "2 \<le> n \<and> n < e_fresh e" if "n \<in> set ns" for n
    using assms(1) that by (auto simp: obj_rep_def)
  have "obj_val (e_strs e') c ns v"
    by (rule obj_val_frame [OF c(2)]) (use ns assms(2,4) in \<open>auto simp: only_def\<close>)
  moreover have "e_cont e' q = Some c" "m < e_next e'" "\<forall>n\<in>set ns. 2 \<le> n \<and> n < e_fresh e'"
    using assms(2,3) c ns by (auto simp: only_def dest: order.strict_trans2)
  ultimately show ?thesis
    using c(3) by (auto simp: obj_rep_def)
qed

lemma rb_heap_okD:
  assumes "rb_heap_ok e E D"
  shows "D p = Some (ns, v) \<Longrightarrow> obj_rep e ns p v" "2 \<le> e_fresh e" "e_next e \<le> 2 ^ 64" "dom E = dom D"
    "D p = Some (ns, v) \<Longrightarrow> D q = Some (ms, w) \<Longrightarrow> p \<noteq> q \<Longrightarrow> set ns \<inter> set ms = {}"
  using assms unfolding rb_heap_ok_def by blast+

text \<open>One entry changes, appears or disappears.\<close>

lemma rb_heap_ok_put:
  assumes h: "rb_heap_ok e E D" and o: "only e e' F p" and next_le: "e_next e' \<le> 2 ^ 64"
    and F: "\<And>q ms w. D q = Some (ms, w) \<Longrightarrow> q \<noteq> p \<Longrightarrow> set ms \<inter> F = {}"
    and new: "obj_rep e' ns p v" "\<forall>n\<in>set ns. n \<in> F \<or> e_fresh e \<le> n"
  shows "rb_heap_ok e' (E(p \<mapsto> en)) (D(p \<mapsto> (ns, v)))"
proof -
  note D = rb_heap_okD [OF h]
  have other: "obj_rep e' ms q w" if "D q = Some (ms, w)" "q \<noteq> p" for q ms w
    by (rule obj_rep_only [OF D(1) [OF that(1)] o that(2) F [OF that]])
  have disj: "set ms \<inter> set ns = {}" if q: "D q = Some (ms, w)" "q \<noteq> p" for q ms w
  proof -
    have "\<forall>n\<in>set ms. n < e_fresh e"
      using D(1) [OF q(1)] by (simp add: obj_rep_def)
    then show ?thesis
      using new(2) F [OF q] by fastforce
  qed
  have fresh: "2 \<le> e_fresh e'"
    using o D(2) by (simp add: only_def)
  have reps: "obj_rep e' ms q w" if "(D(p \<mapsto> (ns, v))) q = Some (ms, w)" for q ms w
    using that other new(1) by (cases "q = p") auto
  have pair: "set ms \<inter> set ls = {}"
    if q: "(D(p \<mapsto> (ns, v))) q = Some (ms, w)" "(D(p \<mapsto> (ns, v))) r = Some (ls, u)" "q \<noteq> r" for q r ms ls w u
  proof -
    consider "q \<noteq> p" "r \<noteq> p" | "q = p" "r \<noteq> p" | "q \<noteq> p" "r = p"
      using q(3) by blast
    then show ?thesis
    proof cases
      case 1
      then show ?thesis
        using q D(5) [of q ms w r ls u] by simp
    next
      case 2
      then show ?thesis
        using q disj [of r ls u] by auto
    next
      case 3
      then show ?thesis
        using q disj [of q ms w] by auto
    qed
  qed
  show ?thesis
    unfolding rb_heap_ok_def using fresh next_le reps pair D(4) by (simp add: fun_upd_def dom_if)
qed

lemma rb_heap_ok_drop:
  assumes h: "rb_heap_ok e E D" and o: "only e e' F p" and next_le: "e_next e' \<le> 2 ^ 64"
    and F: "\<And>q ms w. D q = Some (ms, w) \<Longrightarrow> q \<noteq> p \<Longrightarrow> set ms \<inter> F = {}"
  shows "rb_heap_ok e' (E(p := None)) (D(p := None))"
proof -
  note D = rb_heap_okD [OF h]
  have other: "obj_rep e' ms q w" if "(D(p := None)) q = Some (ms, w)" for q ms w
    using that obj_rep_only [OF D(1) o _ F] by (auto split: if_splits)
  have pair: "set ms \<inter> set ls = {}"
    if "(D(p := None)) q = Some (ms, w)" "(D(p := None)) r = Some (ls, u)" "q \<noteq> r" for q r ms ls w u
    using that D(5) [of q ms w r ls u] by (simp split: if_splits)
  have fresh: "2 \<le> e_fresh e'"
    using o D(2) by (simp add: only_def)
  show ?thesis
    unfolding rb_heap_ok_def using fresh next_le other pair D(4) by (simp add: dom_def fun_upd_def) blast
qed

section \<open>Changing one entry\<close>

lemma bound_okD:
  assumes "bound_ok B E"
  shows "B k = Some p \<Longrightarrow> \<exists>en. E p = Some en \<and> en_key en = Some k \<and> (en_intree en \<or> en_type en = CString)"
    "E p = Some en \<Longrightarrow> en_intree en \<Longrightarrow> \<exists>k. B k = Some p"
    "E p = Some en \<Longrightarrow> en_type en = CString \<Longrightarrow> en_obj en = Qnil \<and> \<not> en_released en \<and> \<not> en_intree en \<and> (\<exists>k. B k = Some p)"
  using assms unfolding bound_ok_def bound_at_def by blast+

lemma objs_okD:
  assumes "objs_ok W n E"
  shows "W v = Some p \<Longrightarrow> v < n \<and> (\<exists>en. E p = Some en \<and> \<not> en_released en \<and> en_type en \<noteq> CString)"
    "W v = Some p \<Longrightarrow> W w = Some p \<Longrightarrow> v = w"
    "E p = Some en \<Longrightarrow> en_intree en \<Longrightarrow> \<not> en_released en \<Longrightarrow> \<exists>v. en_obj en = RObj v \<and> W v = Some p"
    "E p = Some en \<Longrightarrow> en_released en \<Longrightarrow> en_intree en"
  using assms unfolding objs_ok_def obj_at_def by blast+

lemma bound_ok_upd:
  assumes "bound_ok B E" "\<And>q k. q \<noteq> p \<Longrightarrow> B' k = Some q \<longleftrightarrow> B k = Some q" "bound_at B' p eo"
  shows "bound_ok B' (E(p := eo))"
proof -
  have "bound_at B' q (E q)" if "q \<noteq> p" for q
    using assms(1) that assms(2) [OF that] unfolding bound_ok_def bound_at_def by simp
  then show ?thesis
    using assms(3) by (simp add: bound_ok_def)
qed

lemma objs_ok_upd:
  assumes "objs_ok W n E" "\<And>q v. q \<noteq> p \<Longrightarrow> W' v = Some q \<longleftrightarrow> W v = Some q" "n \<le> n'" "obj_at W' n' p eo"
  shows "objs_ok W' n' (E(p := eo))"
proof -
  have "obj_at W' n' q (E q)" if "q \<noteq> p" for q
  proof -
    have "obj_at W' n q (E q)"
      using assms(1) that assms(2) [OF that] unfolding objs_ok_def obj_at_def by simp
    then show ?thesis
      using assms(3) unfolding obj_at_def by (meson less_le_trans)
  qed
  then show ?thesis
    using assms(4) by (simp add: objs_ok_def)
qed

lemma rb_heap_ok_ent:
  assumes "rb_heap_ok e E D" "E p = Some en"
  shows "rb_heap_ok e (E(p \<mapsto> en')) D"
proof -
  have "dom (E(p \<mapsto> en')) = dom E"
    using assms(2) by auto
  then show ?thesis
    using assms(1) by (simp add: rb_heap_ok_def)
qed

lemma typed_ok_ent: "typed_ok E D \<Longrightarrow> E p = Some en \<Longrightarrow> en_type en' = en_type en \<Longrightarrow> typed_ok (E(p \<mapsto> en')) D"
  by (auto simp: typed_ok_def)

lemma typed_ok_put: "typed_ok E D \<Longrightarrow> type_of v = class_type (en_type en) \<Longrightarrow> typed_ok (E(p \<mapsto> en)) (D(p \<mapsto> (ns, v)))"
  by (auto simp: typed_ok_def)

lemma typed_ok_drop: "typed_ok E D \<Longrightarrow> typed_ok (E(p := None)) (D(p := None))"
  by (auto simp: typed_ok_def)

text \<open>An entry that is not bound, and one that is.\<close>

lemma not_bound:
  assumes "bound_ok B E" "E p = Some en" "\<not> en_intree en" "en_type en \<noteq> CString"
  shows "B k \<noteq> Some p"
  using bound_okD(1) [OF assms(1), of k p] assms(2-4) by auto

lemma bound_once:
  assumes "bound_ok B E" "B k = Some p" "B k' = Some p"
  shows "k' = k"
  using bound_okD(1) [OF assms(1,2)] bound_okD(1) [OF assms(1,3)] by auto

end
