(* ===== verification/RbOps.thy ===== *)
theory RbOps
  imports RbRep
begin

text \<open>
  The methods of lists, hash maps and sets refine operations on values: a method changes the value of
  its object only, and announces its change to the disk when the object has a key and the engine has
  been loaded.
\<close>

section \<open>Method calls\<close>

datatype rcall =
    LPush string | LPop int | LRef int | LSet int string | LLength | LClear
  | MapStore string string | MapRef string | MapDelete string | MapSize | MapClear
  | SetAdd string | SetRemove string | SetInclude string | SetSize | SetClear

fun rb_call :: "econf \<Rightarrow> nat \<Rightarrow> rcall \<Rightarrow> rb \<Rightarrow> (rval \<times> rb) option" where
  "rb_call x self (LPush s) st = rb_list_push x self s st"
| "rb_call x self (LPop i) st = rb_list_pop x self i st"
| "rb_call x self (LRef i) st = map_option (\<lambda>r. (r, st)) (rb_list_ref self i st)"
| "rb_call x self (LSet i s) st = rb_list_set x self i s st"
| "rb_call x self LLength st = map_option (\<lambda>r. (r, st)) (rb_list_length self st)"
| "rb_call x self LClear st = rb_list_clear x self st"
| "rb_call x self (MapStore k s) st = rb_hashmap_store x self k s st"
| "rb_call x self (MapRef k) st = map_option (\<lambda>r. (r, st)) (rb_hashmap_ref self k st)"
| "rb_call x self (MapDelete k) st = rb_hashmap_delete x self k st"
| "rb_call x self MapSize st = map_option (\<lambda>r. (r, st)) (rb_hashmap_size self st)"
| "rb_call x self MapClear st = rb_hashmap_clear x self st"
| "rb_call x self (SetAdd k) st = rb_set_add x self k st"
| "rb_call x self (SetRemove k) st = rb_set_remove_key x self k st"
| "rb_call x self (SetInclude k) st = map_option (\<lambda>r. (r, st)) (rb_set_include self k st)"
| "rb_call x self SetSize st = map_option (\<lambda>r. (r, st)) (rb_set_size self st)"
| "rb_call x self SetClear st = rb_set_clear x self st"

type_synonym notice = "string option \<times> string option \<times> bio_operation"

text \<open>The result, the new value and the announced changes of a method.\<close>

definition in_range :: "int \<Rightarrow> 'a list \<Rightarrow> bool" where
  "in_range i xs \<longleftrightarrow> 0 \<le> i \<and> i < int (length xs)"

definition opt_text :: "string option \<Rightarrow> rval" where
  "opt_text s = (case s of None \<Rightarrow> Qnil | Some s \<Rightarrow> RText s)"

fun spec_list :: "nat \<Rightarrow> rcall \<Rightarrow> string list \<Rightarrow> rval \<times> string list \<times> notice multiset" where
  "spec_list self (LPush s) xs = (RObj self, xs @ [s], {#(None, Some s, LIST_ADD)#})"
| "spec_list self (LPop i) xs =
     (if in_range i xs
      then (RText (xs ! nat i), take (nat i) xs @ drop (Suc (nat i)) xs, {#(Some (xs ! nat i), None, LIST_DEL)#})
      else (Qnil, xs, {#}))"
| "spec_list self (LRef i) xs = (if in_range i xs then RText (xs ! nat i) else Qnil, xs, {#})"
| "spec_list self (LSet i s) xs =
     (if in_range i xs then (RText s, xs[nat i := s], {#(Some (xs ! nat i), Some s, LIST_UPDATE)#}) else (Qnil, xs, {#}))"
| "spec_list self LClear xs = (RObj self, [], image_mset (\<lambda>s. (Some s, None, LIST_DEL)) (mset xs))"
| "spec_list self _ xs = (RNum (int (length xs)), xs, {#})"

fun spec_hash :: "nat \<Rightarrow> rcall \<Rightarrow> (string \<rightharpoonup> string) \<Rightarrow> rval \<times> (string \<rightharpoonup> string) \<times> notice multiset" where
  "spec_hash self (MapStore k s) f = (RText s, f(k \<mapsto> s), {#(Some k, Some s, if f k = None then HM_ADD else HM_UPDATE)#})"
| "spec_hash self (MapRef k) f = (opt_text (f k), f, {#})"
| "spec_hash self (MapDelete k) f = (opt_text (f k), f(k := None), if f k = None then {#} else {#(Some k, None, HM_DEL)#})"
| "spec_hash self MapClear f = (RObj self, Map.empty, image_mset (\<lambda>k. (Some k, None, HM_DEL)) (mset_set (dom f)))"
| "spec_hash self _ f = (RNum (int (card (dom f))), f, {#})"

fun spec_set :: "nat \<Rightarrow> rcall \<Rightarrow> string set \<Rightarrow> rval \<times> string set \<times> notice multiset" where
  "spec_set self (SetAdd k) X = (if k \<in> X then Qnil else RText k, insert k X, if k \<in> X then {#} else {#(Some k, None, SET_ADD)#})"
| "spec_set self (SetRemove k) X = (if k \<in> X then RText k else Qnil, X - {k}, if k \<in> X then {#(Some k, None, SET_DEL)#} else {#})"
| "spec_set self (SetInclude k) X = (if k \<in> X then Qtrue else Qfalse, X, {#})"
| "spec_set self SetClear X = (RObj self, {}, image_mset (\<lambda>k. (Some k, None, SET_DEL)) (mset_set X))"
| "spec_set self _ X = (RNum (int (card X)), X, {#})"

definition spec_call :: "nat \<Rightarrow> rcall \<Rightarrow> val \<Rightarrow> rval \<times> val \<times> notice multiset" where
  "spec_call self c v =
     (case v of
        VList xs \<Rightarrow> (case spec_list self c xs of (r, ys, ns) \<Rightarrow> (r, VList ys, ns))
      | VMap f \<Rightarrow> (case spec_hash self c f of (r, g, ns) \<Rightarrow> (r, VMap g, ns))
      | VSet X \<Rightarrow> (case spec_set self c X of (r, Y, ns) \<Rightarrow> (r, VSet Y, ns))
      | VString s \<Rightarrow> (Qnil, v, {#}))"

text \<open>
  The conditions of a call: the method belongs to the class of the object; keys do not collide with the
  hash of another key; lengths are in the range of the counter, and a size is asked only while the
  counter is exact.
\<close>

fun collides_not :: "val \<Rightarrow> string \<Rightarrow> bool" where
  "collides_not (VMap f) k \<longleftrightarrow> no_collision f k"
| "collides_not (VSet X) k \<longleftrightarrow> no_collision (\<lambda>t. if t \<in> X then Some [] else None) k"
| "collides_not _ k \<longleftrightarrow> True"

fun call_type :: "rcall \<Rightarrow> container_type" where
  "call_type (LPush s) = CONTAINER_LIST"
| "call_type (LPop i) = CONTAINER_LIST"
| "call_type (LRef i) = CONTAINER_LIST"
| "call_type (LSet i s) = CONTAINER_LIST"
| "call_type LLength = CONTAINER_LIST"
| "call_type LClear = CONTAINER_LIST"
| "call_type (MapStore k s) = CONTAINER_HASHMAP"
| "call_type (MapRef k) = CONTAINER_HASHMAP"
| "call_type (MapDelete k) = CONTAINER_HASHMAP"
| "call_type MapSize = CONTAINER_HASHMAP"
| "call_type MapClear = CONTAINER_HASHMAP"
| "call_type _ = CONTAINER_SET"

fun call_key :: "rcall \<Rightarrow> string option" where
  "call_key (MapStore k s) = Some k"
| "call_key (MapRef k) = Some k"
| "call_key (MapDelete k) = Some k"
| "call_key (SetAdd k) = Some k"
| "call_key (SetRemove k) = Some k"
| "call_key (SetInclude k) = Some k"
| "call_key _ = None"

definition call_ok :: "rcall \<Rightarrow> container \<Rightarrow> nat list \<Rightarrow> val \<Rightarrow> bool" where
  "call_ok c ct ns v \<longleftrightarrow> type_of v = call_type c \<and> (\<forall>k. call_key c = Some k \<longrightarrow> collides_not v k) \<and>
     (c \<in> {LLength, MapSize, SetSize} \<longrightarrow> counted ct ns \<and> length ns < 2 ^ 31)"

section \<open>Announcing\<close>

definition told :: "bool \<Rightarrow> db_entry_container \<Rightarrow> notice multiset \<Rightarrow> bio_item multiset" where
  "told ld en notes =
     (case en_key en of
        None \<Rightarrow> {#}
      | Some k \<Rightarrow> if ld then image_mset (\<lambda>(arg, data, op). (Some k, arg, data, op)) notes else {#})"

lemma told_add: "told ld en (add_mset n N) = told ld en {#n#} + told ld en N"
  by (auto simp: told_def split: option.split)

lemma told_empty [simp]: "told ld en {#} = {#}"
  by (simp add: told_def split: option.split)

lemma rb_notice_ok:
  assumes "e_io x e Q"
  obtains b items where "rb_notice x en arg data op e = Some (e\<lparr>e_bio := b\<rparr>)" "e_io x (e\<lparr>e_bio := b\<rparr>) (Q @ items)"
    "mset items = told (e_load e) en {#(arg, data, op)#}"
proof (cases "\<exists>k. en_key en = Some k \<and> e_load e")
  case True
  then obtain k where k: "en_key en = Some k" "e_load e"
    by blast
  obtain b where "e_queue x (Some k, arg, data, op) e = Some (e\<lparr>e_bio := b\<rparr>)"
      "e_io x (e\<lparr>e_bio := b\<rparr>) (Q @ [(Some k, arg, data, op)])"
    using e_queueE [OF assms] .
  then show thesis
    using that [of b "[(Some k, arg, data, op)]"] k by (simp add: rb_notice_def xfiredb_notice_disk_def told_def)
next
  case False
  then have "rb_notice x en arg data op e = Some (e\<lparr>e_bio := e_bio e\<rparr>)" "told (e_load e) en {#(arg, data, op)#} = {#}"
    by (auto simp: rb_notice_def xfiredb_notice_disk_def told_def split: option.split)
  then show thesis
    using that [of "e_bio e" "[]"] assms by simp
qed

section \<open>Changing one object\<close>

lemma rb_repD:
  assumes "rb_rep st D"
  shows "db_ok (e_db (rb_eng st))" "rb_heap_ok (rb_eng st) (rb_ent st) D" "typed_ok (rb_ent st) D"
    "bound_ok (rb_bind st) (rb_ent st)" "objs_ok (rb_obj st) (rb_next st) (rb_ent st)"
  using assms by (simp_all add: rb_rep_def)

lemma rb_entry_iff: "rb_entry self st = Some (p, en) \<longleftrightarrow> rb_obj st self = Some p \<and> rb_ent st p = Some en"
  by (auto simp: rb_entry_def Option.bind_eq_Some_conv)

lemma rb_entryE:
  assumes "rb_rep st D" "rb_entry self st = Some (p, en)"
  obtains ns v c where "D p = Some (ns, v)" "obj_rep (rb_eng st) ns p v" "e_cont (rb_eng st) p = Some c"
    "obj_val (e_strs (rb_eng st)) c ns v" "type_of v = class_type (en_type en)"
proof -
  have p: "p \<in> dom (rb_ent st)" "rb_ent st p = Some en"
    using assms(2) by (auto simp: rb_entry_iff)
  then obtain ns v where d: "D p = Some (ns, v)"
    using rb_heap_okD(4) [OF rb_repD(2) [OF assms(1)]] by auto
  note rep = rb_heap_okD(1) [OF rb_repD(2) [OF assms(1)] d]
  then show thesis
    using that [OF d rep] rb_repD(3) [OF assms(1)] p(2) d by (auto simp: obj_rep_def typed_ok_def)
qed

lemma rb_rep_put:
  assumes rep: "rb_rep st D" and d: "D p = Some (ns, v)" and o: "only (rb_eng st) e' (set ns) p"
    and e': "e_db e' = e_db (rb_eng st)" "e_next e' = e_next (rb_eng st)"
    and new: "obj_rep e' ns' p v'" "\<forall>n\<in>set ns'. n \<in> set ns \<or> e_fresh (rb_eng st) \<le> n" "type_of v' = type_of v"
  shows "rb_rep (st\<lparr>rb_eng := e'\<rparr>) (D(p \<mapsto> (ns', v')))"
proof -
  note R = rb_repD [OF rep]
  note H = rb_heap_okD [OF R(2)]
  obtain en where en: "rb_ent st p = Some en"
    using H(4) d by (metis domD domI)
  have "rb_heap_ok e' ((rb_ent st)(p \<mapsto> en)) (D(p \<mapsto> (ns', v')))"
    by (rule rb_heap_ok_put [OF R(2) o _ _ new(1,2)]) (use H(3) H(5) [OF d] e'(2) in \<open>auto\<close>)
  then have "rb_heap_ok e' (rb_ent st) (D(p \<mapsto> (ns', v')))"
    using en by (simp add: fun_upd_idem)
  moreover have "typed_ok (rb_ent st) (D(p \<mapsto> (ns', v')))"
    using R(3) d new(3) by (auto simp: typed_ok_def)
  ultimately show ?thesis
    using R e'(1) by (simp add: rb_rep_def rb_bind_def)
qed

text \<open>\<open>becomes\<close>: the result of a method on the object at \<open>p\<close> whose value becomes \<open>v\<close>.\<close>

definition becomes :: "econf \<Rightarrow> rb \<Rightarrow> objs \<Rightarrow> bio_item list \<Rightarrow> ptr \<Rightarrow> db_entry_container \<Rightarrow>
    (rval \<times> rb) option \<Rightarrow> rval \<times> val \<times> notice multiset \<Rightarrow> bool" where
  "becomes x st D Q p en res spec \<longleftrightarrow>
     (case spec of (r, v, notes) \<Rightarrow>
        \<exists>e' ns' items. res = Some (r, st\<lparr>rb_eng := e'\<rparr>) \<and> rb_rep (st\<lparr>rb_eng := e'\<rparr>) (D(p \<mapsto> (ns', v))) \<and>
          e_io x e' (Q @ items) \<and> mset items = told (e_load (rb_eng st)) en notes \<and>
          e_db e' = e_db (rb_eng st) \<and> e_load e' = e_load (rb_eng st) \<and> e_next e' = e_next (rb_eng st))"

lemma becomesI:
  assumes "rb_rep st D" "D p = Some (ns, v)" "only (rb_eng st) e' (set ns) p"
    "e_db e' = e_db (rb_eng st)" "e_next e' = e_next (rb_eng st)" "e_load e' = e_load (rb_eng st)"
    "obj_rep e' ns' p v'" "\<forall>n\<in>set ns'. n \<in> set ns \<or> e_fresh (rb_eng st) \<le> n" "type_of v' = type_of v"
    "res = Some (r, st\<lparr>rb_eng := e'\<rparr>)" "e_io x e' (Q @ items)" "mset items = told (e_load (rb_eng st)) en notes"
  shows "becomes x st D Q p en res (r, v', notes)"
  using rb_rep_put [OF assms(1-5,7-9)] assms(4-6,10-12) unfolding becomes_def by auto

lemma becomes_same:
  assumes "rb_rep st D" "D p = Some (ns, v)" "res = Some (r, st)" "e_io x (rb_eng st) Q"
  shows "becomes x st D Q p en res (r, v, {#})"
proof -
  have "rb_rep (st\<lparr>rb_eng := rb_eng st\<rparr>) (D(p \<mapsto> (ns, v)))" "e_io x (rb_eng st) (Q @ [])"
    using assms by (simp_all add: fun_upd_idem)
  then show ?thesis
    unfolding becomes_def using assms(3) by (auto intro!: exI [of _ "rb_eng st"] exI [of _ ns] exI [of _ "[] :: bio_item list"])
qed

section \<open>Emptying an object\<close>

fun no_val :: "val \<Rightarrow> val" where
  "no_val (VString s) = VString s"
| "no_val (VList xs) = VList []"
| "no_val (VMap f) = VMap Map.empty"
| "no_val (VSet X) = VSet {}"

fun drops :: "val \<Rightarrow> notice multiset" where
  "drops (VString s) = {#}"
| "drops (VList xs) = image_mset (\<lambda>s. (Some s, None, LIST_DEL)) (mset xs)"
| "drops (VMap f) = image_mset (\<lambda>k. (Some k, None, HM_DEL)) (mset_set (dom f))"
| "drops (VSet X) = image_mset (\<lambda>k. (Some k, None, SET_DEL)) (mset_set X)"

text \<open>The step from \<open>e\<close> to \<open>e'\<close> removes the content \<open>v\<close> of the container at \<open>p\<close>.\<close>

definition emptied :: "econf \<Rightarrow> engine \<Rightarrow> db_entry_container \<Rightarrow> ptr \<Rightarrow> nat list \<Rightarrow> val \<Rightarrow> bio_item list \<Rightarrow> engine \<Rightarrow> bool" where
  "emptied x e en p ns v Q e' \<longleftrightarrow> only e e' (set ns) p \<and> e_db e' = e_db e \<and> e_next e' = e_next e \<and> e_load e' = e_load e \<and>
     obj_rep e' [] p (no_val v) \<and> (\<exists>items. e_io x e' (Q @ items) \<and> mset items = told (e_load e) en (drops v))"

lemma type_no_val [simp]: "type_of (no_val v) = type_of v"
  by (cases v) simp_all

lemma emptied_becomes:
  assumes rep: "rb_rep st D" and d: "D p = Some (ns, v)" and e: "emptied x (rb_eng st) en p ns v Q e'"
    and r: "res = Some (r, st\<lparr>rb_eng := e'\<rparr>)"
  shows "becomes x st D Q p en res (r, no_val v, drops v)"
proof -
  obtain items where "e_io x e' (Q @ items)" "mset items = told (e_load (rb_eng st)) en (drops v)"
    using e by (auto simp: emptied_def)
  then show ?thesis
    by (intro becomesI [OF rep d, where e' = e' and ns' = "[]" and items = items]) (use e r in \<open>auto simp: emptied_def\<close>)
qed

end
