(* ===== verification/RbList.thy ===== *)
theory RbList
  imports RbOps
begin

text \<open>The methods of \<^verbatim>\<open>XFireDB::List\<close> (\<^verbatim>\<open>ext/xfiredb-serv/list.c\<close>).\<close>

lemma rb_list_push_ok:
  assumes rep: "rb_rep st D" and io: "e_io x (rb_eng st) Q" and en: "rb_entry self st = Some (p, en)"
    and d: "D p = Some (ns, VList xs)"
  shows "becomes x st D Q p en (rb_list_push x self s st) (RObj self, VList (xs @ [s]), {#(None, Some s, LIST_ADD)#})"
proof -
  let ?e = "rb_eng st"
  let ?n = "e_fresh ?e" and ?strs = "(e_strs ?e)(e_fresh ?e \<mapsto> string_alloc s)"
  obtain c where c: "e_cont ?e p = Some c" "obj_rep ?e ns p (VList xs)" "obj_val (e_strs ?e) c ns (VList xs)"
    using rb_entryE [OF rep en] d by (metis option.inject prod.inject)
  obtain l where l: "get_list c = Some l" "c = \<lparr>c_type = CONTAINER_LIST, c_data = DList l\<rparr>" "is_list l ns"
      "map (str_at (e_strs ?e)) ns = map Some xs"
    using c(3) obj_val_list by metis
  let ?e1 = "?e\<lparr>e_strs := ?strs, e_fresh := ?n + 1\<rparr>"
  have "e_io x ?e1 Q"
    using io by simp
  then obtain b items where b: "rb_notice x en None (Some s) LIST_ADD ?e1 = Some (?e1\<lparr>e_bio := b\<rparr>)"
      "e_io x (?e1\<lparr>e_bio := b\<rparr>) (Q @ items)" "mset items = told (e_load ?e1) en {#(None, Some s, LIST_ADD)#}"
    using rb_notice_ok [of x ?e1 Q en None "Some s" LIST_ADD] by metis
  let ?c = "\<lparr>c_type = CONTAINER_LIST, c_data = DList (list_rpush l ?n)\<rparr>"
  let ?e2 = "?e1\<lparr>e_bio := b, e_cont := (e_cont ?e)(p \<mapsto> ?c)\<rparr>"
  have n: "?n \<noteq> 0" "?n \<notin> set ns" "2 \<le> ?n"
    using rb_heap_okD(2) [OF rb_repD(2) [OF rep]] c(2) by (auto simp: obj_rep_def)
  have "is_val ?strs ?c (ns @ [?n]) (VList (xs @ [s]))"
    using list_val_push [OF l(3,4) n(2,1), of s False] by simp
  then have "obj_rep ?e2 (ns @ [?n]) p (VList (xs @ [s]))"
    using c(2) n by (auto simp: obj_rep_def obj_val_def)
  moreover have "rb_list_push x self s st = Some (RObj self, st\<lparr>rb_eng := ?e2\<rparr>)"
    using en b(1) c(1) l(1,2) by (simp add: rb_list_push_def e_string_alloc_def e_put_def)
  ultimately show ?thesis
    by (intro becomesI [OF rep d, where e' = ?e2 and ns' = "ns @ [?n]" and items = items])
      (use b(2,3) in \<open>auto simp: only_def\<close>)
qed

text \<open>The structure behind a list object.\<close>

lemma rb_listE:
  assumes rep: "rb_rep st D" and en: "rb_entry self st = Some (p, en)" and d: "D p = Some (ns, VList xs)"
  obtains c l where "e_cont (rb_eng st) p = Some c" "obj_rep (rb_eng st) ns p (VList xs)" "get_list c = Some l"
    "c = \<lparr>c_type = CONTAINER_LIST, c_data = DList l\<rparr>" "is_list l ns"
    "map (str_at (e_strs (rb_eng st))) ns = map Some xs" "length ns = length xs"
proof -
  obtain c where c: "e_cont (rb_eng st) p = Some c" "obj_rep (rb_eng st) ns p (VList xs)"
      "obj_val (e_strs (rb_eng st)) c ns (VList xs)"
    using rb_entryE [OF rep en] d by (metis option.inject prod.inject)
  obtain l where l: "get_list c = Some l" "c = \<lparr>c_type = CONTAINER_LIST, c_data = DList l\<rparr>" "is_list l ns"
      "map (str_at (e_strs (rb_eng st))) ns = map Some xs"
    using c(3) obj_val_list by metis
  have "length ns = length xs"
    using arg_cong [OF l(4), of length] by simp
  then show thesis
    using that c(1,2) l by blast
qed

lemma ref_loop_ok:
  "ref_loop idx i cs = (if i \<le> idx \<and> idx < i + int (length cs) then Some (cs ! nat (idx - i)) else None)"
proof (induction cs arbitrary: i)
  case (Cons c cs)
  have "nat (idx - i) = Suc (nat (idx - (i + 1)))" if "i < idx"
    using that by simp
  then show ?case
    using Cons.IH [of "i + 1"] by (auto simp: nth_Cons')
qed simp

lemma list_ref_ok:
  "is_list l ns \<Longrightarrow> list_ref l idx = Some (if in_range idx ns then Some (ns ! nat idx) else None)"
  by (simp add: list_ref_def list_for_each_ok(1) ref_loop_ok in_range_def)

lemma list_ref_miss: "is_list l ns \<Longrightarrow> length ns = length xs \<Longrightarrow> \<not> in_range idx xs \<Longrightarrow> list_ref l idx = Some None"
  using list_ref_ok [of l ns idx] by (auto simp: in_range_def)

lemma nth_strs:
  assumes "map (str_at strs) ns = map Some xs" "in_range idx xs"
  obtains st where "strs (ns ! nat idx) = Some st" "string_get st = Some (xs ! nat idx)" "nat idx < length ns"
    "str_at strs (ns ! nat idx) = Some (xs ! nat idx)" "in_range idx ns"
proof -
  have len: "length ns = length xs"
    using arg_cong [OF assms(1), of length] by simp
  then have i: "nat idx < length ns"
    using assms(2) by (auto simp: in_range_def)
  then have "str_at strs (ns ! nat idx) = Some (xs ! nat idx)"
    using arg_cong [OF assms(1), of "\<lambda>z. z ! nat idx"] len by simp
  then show thesis
    using that i assms(2) len by (auto simp: str_at_def in_range_def Option.bind_eq_Some_conv)
qed

lemma rb_list_ref_ok:
  assumes rep: "rb_rep st D" and en: "rb_entry self st = Some (p, en)" and d: "D p = Some (ns, VList xs)"
  shows "rb_list_ref self idx st = Some (if in_range idx xs then RText (xs ! nat idx) else Qnil)"
proof -
  obtain c l where l: "e_cont (rb_eng st) p = Some c" "get_list c = Some l" "is_list l ns"
      "map (str_at (e_strs (rb_eng st))) ns = map Some xs" "length ns = length xs"
    using rb_listE [OF rep en d] by metis
  show ?thesis
  proof (cases "in_range idx xs")
    case True
    then show ?thesis
      using nth_strs [OF l(4) True] en l list_ref_ok [OF l(3), of idx] by (auto simp: rb_list_ref_def)
  next
    case False
    then show ?thesis
      using en l(1,2) list_ref_miss [OF l(3,5)] by (simp add: rb_list_ref_def)
  qed
qed

lemma rb_list_length_ok:
  assumes rep: "rb_rep st D" and en: "rb_entry self st = Some (p, en)" and d: "D p = Some (ns, VList xs)"
    and len: "length xs < 2 ^ 31"
  shows "rb_list_length self st = Some (RNum (int (length xs)))"
proof -
  obtain c l where l: "e_cont (rb_eng st) p = Some c" "get_list c = Some l" "is_list l ns" "length ns = length xs"
    using rb_listE [OF rep en d] by metis
  then show ?thesis
    using en len list_length_ok [OF l(3)] by (simp add: rb_list_length_def)
qed

lemma rb_list_set_ok:
  assumes rep: "rb_rep st D" and io: "e_io x (rb_eng st) Q" and en: "rb_entry self st = Some (p, en)"
    and d: "D p = Some (ns, VList xs)"
  shows "becomes x st D Q p en (rb_list_set x self idx s st)
    (if in_range idx xs then (RText s, VList (xs[nat idx := s]), {#(Some (xs ! nat idx), Some s, LIST_UPDATE)#})
     else (Qnil, VList xs, {#}))"
proof -
  let ?e = "rb_eng st"
  obtain c l where l: "e_cont ?e p = Some c" "obj_rep ?e ns p (VList xs)" "get_list c = Some l"
      "c = \<lparr>c_type = CONTAINER_LIST, c_data = DList l\<rparr>" "is_list l ns"
      "map (str_at (e_strs ?e)) ns = map Some xs" "length ns = length xs"
    using rb_listE [OF rep en d] .
  show ?thesis
  proof (cases "in_range idx xs")
    case True
    let ?n = "ns ! nat idx"
    obtain t where t: "e_strs ?e ?n = Some t" "string_get t = Some (xs ! nat idx)" "nat idx < length ns" "in_range idx ns"
      using nth_strs [OF l(6) True] .
    obtain b items where b: "rb_notice x en (Some (xs ! nat idx)) (Some s) LIST_UPDATE ?e = Some (?e\<lparr>e_bio := b\<rparr>)"
        "e_io x (?e\<lparr>e_bio := b\<rparr>) (Q @ items)"
        "mset items = told (e_load ?e) en {#(Some (xs ! nat idx), Some s, LIST_UPDATE)#}"
      using rb_notice_ok [OF io] .
    let ?strs = "(e_strs ?e)(?n \<mapsto> string_set t s)"
    let ?e2 = "?e\<lparr>e_bio := b, e_strs := ?strs\<rparr>"
    have r: "rb_list_set x self idx s st = Some (RText s, st\<lparr>rb_eng := ?e2\<rparr>)"
      using en l(1,3) list_ref_ok [OF l(5), of idx] t b(1) by (simp add: rb_list_set_def)
    have "str_at ?strs ?n = Some s"
      by (simp add: str_at_def string_set_def string_get_def Let_def)
    then have "map (str_at ?strs) ns = map Some (xs[nat idx := s])"
      using list_val_update [OF l(5,6) t(3), of ?strs s] by simp
    then have "obj_val ?strs c ns (VList (xs[nat idx := s]))"
      using l(3-5) obj_val_list by blast
    then have "obj_rep ?e2 ns p (VList (xs[nat idx := s]))"
      using l(1,2) by (auto simp: obj_rep_def)
    moreover have "?n \<in> set ns"
      using t(3) by simp
    ultimately have "becomes x st D Q p en (rb_list_set x self idx s st)
        (RText s, VList (xs[nat idx := s]), {#(Some (xs ! nat idx), Some s, LIST_UPDATE)#})"
      by (intro becomesI [OF rep d, where e' = ?e2 and ns' = ns and items = items]) (use r b(2,3) in \<open>auto simp: only_def\<close>)
    then show ?thesis
      using True by simp
  next
    case False
    then have "rb_list_set x self idx s st = Some (Qnil, st)"
      using en l(1,3) list_ref_miss [OF l(5,7)] by (simp add: rb_list_set_def)
    then show ?thesis
      using becomes_same [OF rep d _ io] False by simp
  qed
qed

lemma rb_list_pop_ok:
  assumes rep: "rb_rep st D" and io: "e_io x (rb_eng st) Q" and en: "rb_entry self st = Some (p, en)"
    and d: "D p = Some (ns, VList xs)"
  shows "becomes x st D Q p en (rb_list_pop x self idx st)
    (if in_range idx xs
     then (RText (xs ! nat idx), VList (take (nat idx) xs @ drop (Suc (nat idx)) xs), {#(Some (xs ! nat idx), None, LIST_DEL)#})
     else (Qnil, VList xs, {#}))"
proof -
  let ?e = "rb_eng st"
  obtain c l where l: "e_cont ?e p = Some c" "obj_rep ?e ns p (VList xs)" "get_list c = Some l"
      "c = \<lparr>c_type = CONTAINER_LIST, c_data = DList l\<rparr>" "is_list l ns"
      "map (str_at (e_strs ?e)) ns = map Some xs" "length ns = length xs"
    using rb_listE [OF rep en d] .
  show ?thesis
  proof (cases "in_range idx xs")
    case True
    let ?i = "nat idx"
    let ?n = "ns ! ?i" and ?ns = "take ?i ns @ drop (Suc ?i) ns" and ?xs = "take ?i xs @ drop (Suc ?i) xs"
    obtain t where t: "e_strs ?e ?n = Some t" "string_get t = Some (xs ! ?i)" "?i < length ns"
        "str_at (e_strs ?e) ?n = Some (xs ! ?i)" "in_range idx ns"
      using nth_strs [OF l(6) True] .
    have split: "ns = take ?i ns @ ?n # drop (Suc ?i) ns"
      using t(3) by (rule id_take_nth_drop)
    have del: "is_list (list_del l ?n) ?ns"
      using list_del_ok l(5) split by metis
    have dist: "?n \<notin> set ?ns"
      using l(5) split by (metis distinct_append distinct.simps(2) is_list_def not_distinct_conv_prefix Un_iff set_append)
    have sub: "set ?ns \<subseteq> set ns"
      using set_take_subset set_drop_subset by fastforce
    let ?e1 = "?e\<lparr>e_cont := (e_cont ?e)(p \<mapsto> \<lparr>c_type = CONTAINER_LIST, c_data = DList (list_del l ?n)\<rparr>)\<rparr>"
    have "e_io x ?e1 Q"
      using io by simp
    then obtain b items where b: "rb_notice x en (Some (xs ! ?i)) None LIST_DEL ?e1 = Some (?e1\<lparr>e_bio := b\<rparr>)"
        "e_io x (?e1\<lparr>e_bio := b\<rparr>) (Q @ items)" "mset items = told (e_load ?e1) en {#(Some (xs ! ?i), None, LIST_DEL)#}"
      by (rule rb_notice_ok)
    let ?strs = "(e_strs ?e)(?n := None)"
    let ?e2 = "?e1\<lparr>e_bio := b, e_strs := ?strs\<rparr>"
    have r: "rb_list_pop x self idx st = Some (RText (xs ! ?i), st\<lparr>rb_eng := ?e2\<rparr>)"
      using en l(1,3,4) list_ref_ok [OF l(5), of idx] t b(1) by (simp add: rb_list_pop_def e_put_def e_string_free_def Let_def)
    have "map (str_at ?strs) ?ns = map (str_at (e_strs ?e)) ?ns"
      by (rule map_str_frame) (use dist in auto)
    also have "\<dots> = map Some ?xs"
      using l(6) by (metis drop_map map_append take_map)
    finally have "obj_val ?strs \<lparr>c_type = CONTAINER_LIST, c_data = DList (list_del l ?n)\<rparr> ?ns (VList ?xs)"
      using del by (simp add: obj_val_def is_val_def)
    then have "obj_rep ?e2 ?ns p (VList ?xs)"
      using l(2) sub by (auto simp: obj_rep_def)
    moreover have "?n \<in> set ns"
      using t(3) by simp
    ultimately have "becomes x st D Q p en (rb_list_pop x self idx st)
        (RText (xs ! ?i), VList ?xs, {#(Some (xs ! ?i), None, LIST_DEL)#})"
      by (intro becomesI [OF rep d, where e' = ?e2 and ns' = ?ns and items = items]) (use r b(2,3) sub in \<open>auto simp: only_def\<close>)
    then show ?thesis
      using True by simp
  next
    case False
    then have "rb_list_pop x self idx st = Some (Qnil, st)"
      using en l(1,3) list_ref_miss [OF l(5,7)] by (simp add: rb_list_pop_def)
    then show ?thesis
      using becomes_same [OF rep d _ io] False by simp
  qed
qed

section \<open>Clearing\<close>

lemma rb_list_clear_loop_ok:
  assumes "is_list lh ns" "map (str_at (e_strs e)) ns = map Some xs" "e_io x e Q"
    and "c = nxt lh 0" "s = nxt lh c"
  shows "\<exists>lh' b items. rb_list_clear_loop x en lh c s e =
      Some (lh', e\<lparr>e_bio := b, e_strs := (e_strs e) |` (- set ns)\<rparr>) \<and> is_list lh' [] \<and>
    e_io x (e\<lparr>e_bio := b\<rparr>) (Q @ items) \<and>
    mset items = told (e_load e) en (image_mset (\<lambda>s. (Some s, None, LIST_DEL)) (mset xs))"
  using assms
proof (induction ns arbitrary: lh e xs Q c s)
  case Nil
  then have "c = 0" "xs = []"
    by (simp_all add: is_list_def linked_Cons_Cons)
  then show ?case
    using Nil.prems by (intro exI [of _ lh] exI [of _ "e_bio e"] exI [of _ "[]"])
      (subst rb_list_clear_loop.simps, simp add: restrict_map_def)
next
  case (Cons n ns)
  obtain y ys where xs: "xs = y # ys" "str_at (e_strs e) n = Some y" "map (str_at (e_strs e)) ns = map Some ys"
    using Cons.prems(2) by (cases xs) auto
  have d: "n \<noteq> 0" "n \<notin> set ns" "c = n" "is_list (list_del lh n) ns"
    using Cons.prems list_del_ok [of lh "[]" n ns] by (auto simp: is_list_def linked_Cons_Cons)
  have s: "s = nxt (list_del lh n) 0"
    using Cons.prems(1,4,5) d by (cases ns) (auto simp: is_list_def linked_Cons_Cons)
  obtain b i1 where b: "rb_notice x en (Some y) None LIST_DEL e = Some (e\<lparr>e_bio := b\<rparr>)"
      "e_io x (e\<lparr>e_bio := b\<rparr>) (Q @ i1)" "mset i1 = told (e_load e) en {#(Some y, None, LIST_DEL)#}"
    using rb_notice_ok [OF Cons.prems(3)] .
  let ?e = "e_string_free n (e\<lparr>e_bio := b\<rparr>)"
  have "map (str_at (e_strs ?e)) ns = map (str_at (e_strs e)) ns"
    by (rule map_str_frame) (use d(2) in \<open>auto simp: e_string_free_def\<close>)
  then have m: "map (str_at (e_strs ?e)) ns = map Some ys"
    using xs(3) by simp
  have io: "e_io x ?e (Q @ i1)"
    using b(2) by (simp add: e_string_free_def)
  obtain lh' b' items where IH: "rb_list_clear_loop x en (list_del lh n) s (nxt (list_del lh n) s) ?e =
      Some (lh', ?e\<lparr>e_bio := b', e_strs := (e_strs ?e) |` (- set ns)\<rparr>)" "is_list lh' []"
      "e_io x (?e\<lparr>e_bio := b'\<rparr>) ((Q @ i1) @ items)"
      "mset items = told (e_load ?e) en (image_mset (\<lambda>s. (Some s, None, LIST_DEL)) (mset ys))"
    using Cons.IH [OF d(4) m io s refl] by blast
  have strs: "(e_strs e)(n := None) |` (- set ns) = e_strs e |` (- set (n # ns))"
    by (auto simp: restrict_map_def)
  have "rb_list_clear_loop x en lh c s e = Some (lh', e\<lparr>e_bio := b', e_strs := (e_strs e) |` (- set (n # ns))\<rparr>)"
    using b(1) xs(2) d(1,3) IH(1) strs
    by (subst rb_list_clear_loop.simps) (simp add: e_string_free_def del: restrict_fun_upd)
  moreover have "mset (i1 @ items) = told (e_load e) en (image_mset (\<lambda>s. (Some s, None, LIST_DEL)) (mset xs))"
    using IH(4) b(3) xs(1)
      told_add [of "e_load e" en "(Some y, None, LIST_DEL)" "image_mset (\<lambda>s. (Some s, None, LIST_DEL)) (mset ys)"]
    by (simp add: e_string_free_def)
  ultimately show ?case
    using IH(2,3) by (intro exI [of _ lh'] exI [of _ b'] exI [of _ "i1 @ items"]) (simp add: e_string_free_def e_io_def)
qed

lemma raw_rb_list_clear_ok:
  assumes rep: "obj_rep e ns p (VList xs)" and io: "e_io x e Q"
  obtains e' where "raw_rb_list_clear x p en e = Some e'" "emptied x e en p ns (VList xs) Q e'"
proof -
  obtain c where c: "e_cont e p = Some c" "obj_val (e_strs e) c ns (VList xs)"
    using rep by (auto simp: obj_rep_def)
  obtain l where l: "get_list c = Some l" "c = \<lparr>c_type = CONTAINER_LIST, c_data = DList l\<rparr>" "is_list l ns"
      "map (str_at (e_strs e)) ns = map Some xs"
    using c(2) obj_val_list by metis
  obtain l' b items where lp: "rb_list_clear_loop x en l (nxt l 0) (nxt l (nxt l 0)) e =
      Some (l', e\<lparr>e_bio := b, e_strs := (e_strs e) |` (- set ns)\<rparr>)" "is_list l' []"
      "e_io x (e\<lparr>e_bio := b\<rparr>) (Q @ items)"
      "mset items = told (e_load e) en (image_mset (\<lambda>s. (Some s, None, LIST_DEL)) (mset xs))"
    using rb_list_clear_loop_ok [OF l(3,4) io refl refl] by blast
  let ?e = "e\<lparr>e_bio := b, e_strs := (e_strs e) |` (- set ns),
    e_cont := (e_cont e)(p \<mapsto> \<lparr>c_type = CONTAINER_LIST, c_data = DList l'\<rparr>)\<rparr>"
  have "raw_rb_list_clear x p en e = Some ?e"
    using c(1) l(1,2) lp(1) by (simp add: raw_rb_list_clear_def e_put_def)
  moreover have "obj_val (e_strs ?e) \<lparr>c_type = CONTAINER_LIST, c_data = DList l'\<rparr> [] (VList [])"
    using lp(2) by (simp add: obj_val_def is_val_def)
  then have "emptied x e en p ns (VList xs) Q ?e"
    using rep lp(3,4) by (auto simp: emptied_def obj_rep_def only_def)
  ultimately show thesis
    by (rule that)
qed

lemma rb_list_clear_ok:
  assumes rep: "rb_rep st D" and io: "e_io x (rb_eng st) Q" and en: "rb_entry self st = Some (p, en)"
    and d: "D p = Some (ns, VList xs)"
  shows "becomes x st D Q p en (rb_list_clear x self st) (RObj self, VList [], drops (VList xs))"
proof -
  have "obj_rep (rb_eng st) ns p (VList xs)"
    using rb_heap_okD(1) [OF rb_repD(2) [OF rep] d] .
  then obtain e' where "raw_rb_list_clear x p en (rb_eng st) = Some e'" "emptied x (rb_eng st) en p ns (VList xs) Q e'"
    using raw_rb_list_clear_ok io by blast
  then show ?thesis
    using emptied_becomes [OF rep d, where r = "RObj self"] en by (simp add: rb_list_clear_def)
qed

end
