(* ===== verification/RbMap.thy ===== *)
theory RbMap
  imports RbOps
begin

text \<open>The methods of \<^verbatim>\<open>XFireDB::Hashmap\<close> (\<^verbatim>\<open>ext/xfiredb-serv/hashmap.c\<close>).\<close>

section \<open>Operations and the counter\<close>

lemma map_val_num [simp]: "map_val strs (m\<lparr>h_num := z\<rparr>) ns = map_val strs m ns"
  by (simp add: map_val_def hmap_def)

lemma hmap_num [simp]: "hmap (m\<lparr>h_num := z\<rparr>) ns = hmap m ns"
  by (simp add: hmap_def)

lemma hashmap_find_num [simp]: "hashmap_find (m\<lparr>h_num := z\<rparr>) k = hashmap_find m k"
  by (simp add: hashmap_find_def)

lemma hm_ok_recount: "hm_ok m ns \<Longrightarrow> m\<lparr>h_num := of_nat (length ns)\<rparr> = m"
  by (simp add: hm_ok_def)

lemma hashmap_add_num:
  assumes "hashmap_add coins (m\<lparr>h_num := z\<rparr>) k n = Some (0, m')"
  shows "hashmap_add coins m k n = Some (0, m'\<lparr>h_num := h_num m + 1\<rparr>)"
  using assms by (auto simp: hashmap_add_def Let_def atomic_defs split: option.splits if_splits)

lemma hashmap_remove_num:
  assumes "hashmap_remove (m\<lparr>h_num := z\<rparr>) k = Some (n, m')"
  shows "\<exists>w. hashmap_remove m k = Some (n, m'\<lparr>h_num := w\<rparr>) \<and> w = h_num m + (h_num m' - z)"
  using assms by (auto simp: hashmap_remove_def atomic_defs split: option.splits if_splits)

lemma rb_mapE:
  assumes rep: "rb_rep st D" and en: "rb_entry self st = Some (p, en)" and d: "D p = Some (ns, VMap f)"
  obtains c m where "e_cont (rb_eng st) p = Some c" "obj_rep (rb_eng st) ns p (VMap f)" "get_map c = Some m"
    "c = \<lparr>c_type = CONTAINER_HASHMAP, c_data = DMap m\<rparr>" "hm_ok (m\<lparr>h_num := of_nat (length ns)\<rparr>) ns"
    "set ns \<subseteq> dom (str_at (e_strs (rb_eng st)))" "f = map_val (e_strs (rb_eng st)) m ns" "obj_to_map self st = Some m"
proof -
  obtain c where c: "e_cont (rb_eng st) p = Some c" "obj_rep (rb_eng st) ns p (VMap f)"
      "obj_val (e_strs (rb_eng st)) c ns (VMap f)"
    using rb_entryE [OF rep en] d by (metis option.inject prod.inject)
  obtain m where m: "get_map c = Some m" "c = \<lparr>c_type = CONTAINER_HASHMAP, c_data = DMap m\<rparr>"
      "hm_ok (m\<lparr>h_num := of_nat (length ns)\<rparr>) ns" "set ns \<subseteq> dom (str_at (e_strs (rb_eng st)))"
      "f = map_val (e_strs (rb_eng st)) m ns"
    using c(3) obj_val_map by metis
  then show thesis
    using that c(1,2) m en by (simp add: obj_to_map_def)
qed

text \<open>Finding a key in the structure behind an object.\<close>

lemma map_find:
  assumes ok: "hm_ok (m\<lparr>h_num := z\<rparr>) ns" "set ns \<subseteq> dom (str_at strs)" and c: "no_collision (map_val strs m ns) k"
  shows "hashmap_find m k = Some (case hmap m ns k of None \<Rightarrow> NULL | Some n \<Rightarrow> n)"
  using hashmap_find_ok [OF ok(1) map_val_good [OF ok]] c by simp

lemma map_hit:
  assumes ok: "hm_ok (m\<lparr>h_num := z\<rparr>) ns" "set ns \<subseteq> dom (str_at strs)" and k: "map_val strs m ns k = Some s"
  obtains n t where "hmap m ns k = Some n" "n \<in> set ns" "n \<noteq> NULL" "strs n = Some t" "str_at strs n = Some s"
proof -
  obtain n where n: "hmap m ns k = Some n" "str_at strs n = Some s"
    using k by (auto simp: map_val_def Option.bind_eq_Some_conv)
  then show thesis
    using that hmap_node [OF ok(1), of k n] by (auto simp: str_at_def Option.bind_eq_Some_conv)
qed

lemma map_miss:
  assumes "hm_ok (m\<lparr>h_num := z\<rparr>) ns" "set ns \<subseteq> dom (str_at strs)" "map_val strs m ns k = None"
  shows "hmap m ns k = None"
  using map_val_None [OF assms(1,2), of k] assms(3) by simp

section \<open>Reading\<close>

lemma rb_hashmap_ref_ok:
  assumes rep: "rb_rep st D" and en: "rb_entry self st = Some (p, en)" and d: "D p = Some (ns, VMap f)"
    and c: "no_collision f k"
  shows "rb_hashmap_ref self k st = Some (opt_text (f k))"
proof -
  obtain ct m where m: "hm_ok (m\<lparr>h_num := of_nat (length ns)\<rparr>) ns" "set ns \<subseteq> dom (str_at (e_strs (rb_eng st)))"
      "f = map_val (e_strs (rb_eng st)) m ns" "obj_to_map self st = Some m"
    using rb_mapE [OF rep en d] by metis
  have find: "hashmap_find m k = Some (case hmap m ns k of None \<Rightarrow> NULL | Some n \<Rightarrow> n)"
    using map_find [OF m(1,2)] c m(3) by simp
  show ?thesis
  proof (cases "f k")
    case None
    then show ?thesis
      using find map_miss [OF m(1,2)] m(3,4) by (simp add: rb_hashmap_ref_def opt_text_def)
  next
    case (Some s)
    then obtain n t where "hmap m ns k = Some n" "n \<noteq> NULL" "str_at (e_strs (rb_eng st)) n = Some s"
      using map_hit [OF m(1,2)] m(3) by metis
    then show ?thesis
      using find m(4) Some by (simp add: rb_hashmap_ref_def opt_text_def)
  qed
qed

lemma rb_hashmap_size_ok:
  assumes rep: "rb_rep st D" and en: "rb_entry self st = Some (p, en)" and d: "D p = Some (ns, VMap f)"
    and c: "e_cont (rb_eng st) p = Some c" "counted c ns" "length ns < 2 ^ 31"
  shows "rb_hashmap_size self st = Some (RNum (int (card (dom f))))"
proof -
  obtain m where m: "c = \<lparr>c_type = CONTAINER_HASHMAP, c_data = DMap m\<rparr>" "hm_ok (m\<lparr>h_num := of_nat (length ns)\<rparr>) ns"
      "set ns \<subseteq> dom (str_at (e_strs (rb_eng st)))" "f = map_val (e_strs (rb_eng st)) m ns" "obj_to_map self st = Some m"
    using rb_mapE [OF rep en d] c(1) by (metis option.inject)
  then have "hm_ok m ns"
    using c(2) by (simp add: counted_def)
  then show ?thesis
    using hashmap_size_ok [OF _ c(3)] map_val_dom [of m ns "e_strs (rb_eng st)"] m(3-5) by (simp add: rb_hashmap_size_def hmap_def)
qed

section \<open>Storing\<close>

lemma rb_hashmap_store_new:
  assumes rep: "rb_rep st D" and io: "e_io x (rb_eng st) Q" and en: "rb_entry self st = Some (p, en)"
    and d: "D p = Some (ns, VMap f)" and c: "no_collision f k" and new: "f k = None"
  shows "becomes x st D Q p en (rb_hashmap_store x self k s st) (RText s, VMap (f(k \<mapsto> s)), {#(Some k, Some s, HM_ADD)#})"
proof -
  let ?e = "rb_eng st"
  let ?n = "e_fresh ?e" and ?strs = "(e_strs ?e)(e_fresh ?e \<mapsto> string_alloc s)"
  obtain ct m where m: "e_cont ?e p = Some ct" "obj_rep ?e ns p (VMap f)"
      "ct = \<lparr>c_type = CONTAINER_HASHMAP, c_data = DMap m\<rparr>" "hm_ok (m\<lparr>h_num := of_nat (length ns)\<rparr>) ns"
      "set ns \<subseteq> dom (str_at (e_strs ?e))" "f = map_val (e_strs ?e) m ns" "obj_to_map self st = Some m"
    using rb_mapE [OF rep en d] by metis
  have n: "2 \<le> ?n" "?n \<notin> set ns"
    using rb_heap_okD(2) [OF rb_repD(2) [OF rep]] m(2) by (auto simp: obj_rep_def)
  have find: "hashmap_find m k = Some NULL"
    using map_find [OF m(4,5)] map_miss [OF m(4,5)] c new m(6) by simp
  obtain m' ns' where a: "hashmap_add (x_coins x) (m\<lparr>h_num := of_nat (length ns)\<rparr>) k ?n = Some (0, m')" "hm_ok m' ns'"
      "set ns' = insert ?n (set ns)" "set ns' \<subseteq> dom (str_at ?strs)" "map_val ?strs m' ns' = f(k \<mapsto> s)"
    by (rule map_val_add [OF m(4,5) _ _ n, where sk = k and coins = "x_coins x" and s = s]) (use c new m(6) in auto)
  let ?m = "m'\<lparr>h_num := h_num m + 1\<rparr>"
  let ?ct = "\<lparr>c_type = CONTAINER_HASHMAP, c_data = DMap ?m\<rparr>"
  have add: "hashmap_add (x_coins x) m k ?n = Some (0, ?m)"
    by (rule hashmap_add_num [OF a(1)])
  let ?e1 = "?e\<lparr>e_strs := ?strs, e_fresh := ?n + 1, e_cont := (e_cont ?e)(p \<mapsto> ?ct)\<rparr>"
  have "e_io x ?e1 Q"
    using io by simp
  then obtain b items where b: "rb_notice x en (Some k) (Some s) HM_ADD ?e1 = Some (?e1\<lparr>e_bio := b\<rparr>)"
      "e_io x (?e1\<lparr>e_bio := b\<rparr>) (Q @ items)" "mset items = told (e_load ?e1) en {#(Some k, Some s, HM_ADD)#}"
    by (rule rb_notice_ok)
  let ?e2 = "?e1\<lparr>e_bio := b\<rparr>"
  have r: "rb_hashmap_store x self k s st = Some (RText s, st\<lparr>rb_eng := ?e2\<rparr>)"
    using m(1,3,7) find en add b(1) by (simp add: rb_hashmap_store_def e_string_alloc_def e_put_def Let_def)
  have "obj_val ?strs ?ct ns' (VMap (f(k \<mapsto> s)))"
    using a(2,4,5) hm_ok_recount [OF a(2)] by (simp add: obj_val_map get_map_def container_get_data_def)
  then have "obj_rep ?e2 ns' p (VMap (f(k \<mapsto> s)))"
    using m(2) a(3) n(1) by (auto simp: obj_rep_def)
  then show ?thesis
    by (intro becomesI [OF rep d, where e' = ?e2 and ns' = ns' and items = items]) (use r b(2,3) a(3) in \<open>auto simp: only_def\<close>)
qed

lemma rb_hashmap_store_old:
  assumes rep: "rb_rep st D" and io: "e_io x (rb_eng st) Q" and en: "rb_entry self st = Some (p, en)"
    and d: "D p = Some (ns, VMap f)" and c: "no_collision f k" and old: "f k = Some t"
  shows "becomes x st D Q p en (rb_hashmap_store x self k s st) (RText s, VMap (f(k \<mapsto> s)), {#(Some k, Some s, HM_UPDATE)#})"
proof -
  let ?e = "rb_eng st"
  obtain ct m where m: "e_cont ?e p = Some ct" "obj_rep ?e ns p (VMap f)" "get_map ct = Some m"
      "ct = \<lparr>c_type = CONTAINER_HASHMAP, c_data = DMap m\<rparr>" "hm_ok (m\<lparr>h_num := of_nat (length ns)\<rparr>) ns"
      "set ns \<subseteq> dom (str_at (e_strs ?e))" "f = map_val (e_strs ?e) m ns" "obj_to_map self st = Some m"
    using rb_mapE [OF rep en d] .
  obtain n u where n: "hmap m ns k = Some n" "n \<in> set ns" "n \<noteq> NULL" "e_strs ?e n = Some u"
    using map_hit [OF m(5,6)] old m(7) by metis
  have find: "hashmap_find m k = Some n"
    using map_find [OF m(5,6)] c m(7) n(1) by simp
  let ?strs = "(e_strs ?e)(n \<mapsto> string_set u s)"
  let ?e1 = "?e\<lparr>e_strs := ?strs\<rparr>"
  have "e_io x ?e1 Q"
    using io by simp
  then obtain b items where b: "rb_notice x en (Some k) (Some s) HM_UPDATE ?e1 = Some (?e1\<lparr>e_bio := b\<rparr>)"
      "e_io x (?e1\<lparr>e_bio := b\<rparr>) (Q @ items)" "mset items = told (e_load ?e1) en {#(Some k, Some s, HM_UPDATE)#}"
    by (rule rb_notice_ok)
  let ?e2 = "?e1\<lparr>e_bio := b\<rparr>"
  have r: "rb_hashmap_store x self k s st = Some (RText s, st\<lparr>rb_eng := ?e2\<rparr>)"
    using m(8) find en n(3,4) b(1) by (simp add: rb_hashmap_store_def Let_def)
  have s: "str_at ?strs n = Some s"
    by (simp add: str_at_def string_set_def string_get_def Let_def)
  have "map_val ?strs (m\<lparr>h_num := of_nat (length ns)\<rparr>) ns = (map_val (e_strs ?e) (m\<lparr>h_num := of_nat (length ns)\<rparr>) ns)(k \<mapsto> s)"
    by (rule map_val_set [OF m(5) _ s]) (use n(1) in auto)
  moreover have "set ns \<subseteq> dom (str_at ?strs)"
    using m(6) s by (auto simp: str_at_def)
  ultimately have "obj_val ?strs ct ns (VMap (f(k \<mapsto> s)))"
    using m(3-5,7) by (simp add: obj_val_map)
  then have "obj_rep ?e2 ns p (VMap (f(k \<mapsto> s)))"
    using m(1,2) by (auto simp: obj_rep_def)
  then show ?thesis
    by (intro becomesI [OF rep d, where e' = ?e2 and ns' = ns and items = items]) (use r b(2,3) n(2) in \<open>auto simp: only_def\<close>)
qed

section \<open>Deleting\<close>

lemma rb_hashmap_delete_miss:
  assumes rep: "rb_rep st D" and io: "e_io x (rb_eng st) Q" and en: "rb_entry self st = Some (p, en)"
    and d: "D p = Some (ns, VMap f)" and c: "no_collision f k" and none: "f k = None"
  shows "becomes x st D Q p en (rb_hashmap_delete x self k st) (Qnil, VMap f, {#})"
proof -
  let ?e = "rb_eng st"
  obtain ct m where m: "e_cont ?e p = Some ct" "ct = \<lparr>c_type = CONTAINER_HASHMAP, c_data = DMap m\<rparr>"
      "hm_ok (m\<lparr>h_num := of_nat (length ns)\<rparr>) ns" "set ns \<subseteq> dom (str_at (e_strs ?e))" "f = map_val (e_strs ?e) m ns"
      "obj_to_map self st = Some m"
    using rb_mapE [OF rep en d] by metis
  have "sl_ok (h_list m) ns" "good_key (h_list m) ns k" "smap (h_list m) ns k = None"
    using m(3) map_val_good [OF m(3,4)] map_miss [OF m(3,4)] c none m(5) by (simp_all add: hm_defs)
  then have rm: "hashmap_remove m k = Some (NULL, m)"
    using sk.search_law [of "h_list m" ns k] sk.del_miss [of "h_list m" ns k] by (simp add: hashmap_remove_def)
  have "e_put p (DMap m) ?e = Some ?e"
    using m(1,2) by (simp add: e_put_def fun_upd_idem)
  then have "rb_hashmap_delete x self k st = Some (Qnil, st)"
    using en m(6) rm by (simp add: rb_hashmap_delete_def)
  then show ?thesis
    using becomes_same [OF rep d _ io] by simp
qed

lemma rb_hashmap_delete_hit:
  assumes rep: "rb_rep st D" and io: "e_io x (rb_eng st) Q" and en: "rb_entry self st = Some (p, en)"
    and d: "D p = Some (ns, VMap f)" and c: "no_collision f k" and hit: "f k = Some s"
  shows "becomes x st D Q p en (rb_hashmap_delete x self k st) (RText s, VMap (f(k := None)), {#(Some k, None, HM_DEL)#})"
proof -
  let ?e = "rb_eng st"
  obtain ct m where m: "e_cont ?e p = Some ct" "obj_rep ?e ns p (VMap f)"
      "ct = \<lparr>c_type = CONTAINER_HASHMAP, c_data = DMap m\<rparr>" "hm_ok (m\<lparr>h_num := of_nat (length ns)\<rparr>) ns"
      "set ns \<subseteq> dom (str_at (e_strs ?e))" "f = map_val (e_strs ?e) m ns" "obj_to_map self st = Some m"
    using rb_mapE [OF rep en d] by metis
  let ?m = "m\<lparr>h_num := of_nat (length ns)\<rparr>"
  obtain n t where n: "hmap m ns k = Some n" "n \<in> set ns" "n \<noteq> NULL" "str_at (e_strs ?e) n = Some s"
    using map_hit [OF m(4,5)] hit m(6) by metis
  obtain m1 ns' where rm: "hashmap_remove ?m k = Some (n, m1)" "hm_ok m1 ns'" "hmap m1 ns' = (hmap ?m ns)(k := None)"
      "set ns' = set ns - {n}"
    using hashmap_remove_ok [OF m(4) map_val_good [OF m(4,5), of k]] c m(6) n(1) by auto
  obtain w where w: "hashmap_remove m k = Some (n, m1\<lparr>h_num := w\<rparr>)"
    using hashmap_remove_num [OF rm(1)] by blast
  have "h_key m1 = h_key m"
    using rm(1) by (auto simp: hashmap_remove_def split: option.splits if_splits)
  moreover have "h_key m n = Some k"
    using m(4) n(1) by (simp add: hm_ok_def keyed_def hmap_def)
  ultimately have key: "h_key (m1\<lparr>h_num := w\<rparr>) n = Some k"
    by simp
  let ?m2 = "hashmap_node_destroy n (m1\<lparr>h_num := w\<rparr>)"
  let ?ct = "\<lambda>m. \<lparr>c_type = CONTAINER_HASHMAP, c_data = DMap m\<rparr>"
  let ?e1 = "?e\<lparr>e_cont := (e_cont ?e)(p \<mapsto> ?ct (m1\<lparr>h_num := w\<rparr>))\<rparr>"
  have "e_io x ?e1 Q"
    using io by simp
  then obtain b items where b: "rb_notice x en (Some k) None HM_DEL ?e1 = Some (?e1\<lparr>e_bio := b\<rparr>)"
      "e_io x (?e1\<lparr>e_bio := b\<rparr>) (Q @ items)" "mset items = told (e_load ?e1) en {#(Some k, None, HM_DEL)#}"
    by (rule rb_notice_ok)
  let ?strs = "(e_strs ?e)(n := None)"
  let ?e2 = "?e\<lparr>e_cont := (e_cont ?e)(p \<mapsto> ?ct ?m2), e_bio := b, e_strs := ?strs\<rparr>"
  have r: "rb_hashmap_delete x self k st = Some (RText s, st\<lparr>rb_eng := ?e2\<rparr>)"
    using en m(1,3,7) w n(3,4) key b(1) by (simp add: rb_hashmap_delete_def e_put_def e_string_free_def)
  have nn: "n \<notin> set ns'" "n \<noteq> HEADER"
    using rm(4) m(2) n(2) by (auto simp: obj_rep_def HEADER_def)
  have h: "hm_ok (hashmap_node_destroy n m1) ns'" "hmap (hashmap_node_destroy n m1) ns' = (hmap ?m ns)(k := None)"
    using hashmap_node_destroy_ok [OF rm(2) nn] rm(3) by simp_all
  have v: "map_val ?strs (hashmap_node_destroy n m1) ns' = f(k := None)"
    using map_val_remove [OF m(4,5) _ h rm(4)] n(1) m(6) by simp
  have "hashmap_node_destroy n m1 = ?m2\<lparr>h_num := of_nat (length ns')\<rparr>"
    using hm_ok_recount [OF h(1)] by (simp add: hashmap_node_destroy_def)
  then have "hm_ok (?m2\<lparr>h_num := of_nat (length ns')\<rparr>) ns'" "map_val ?strs ?m2 ns' = f(k := None)"
    using h(1) v map_val_num [where m = ?m2 and z = "of_nat (length ns')"] by simp_all
  moreover have "str_at ?strs a = str_at (e_strs ?e) a" if "a \<noteq> n" for a
    using that by (simp add: str_at_def)
  then have "set ns' \<subseteq> dom (str_at ?strs)"
    using m(5) rm(4) by (auto simp: dom_def)
  ultimately have "obj_val ?strs (?ct ?m2) ns' (VMap (f(k := None)))"
    by (simp add: obj_val_map get_map_def container_get_data_def)
  then have "obj_rep ?e2 ns' p (VMap (f(k := None)))"
    using m(2) rm(4) by (auto simp: obj_rep_def)
  then show ?thesis
    by (intro becomesI [OF rep d, where e' = ?e2 and ns' = ns' and items = items])
      (use r b(2,3) rm(4) n(2) in \<open>auto simp: only_def e_io_def\<close>)
qed

section \<open>Clearing\<close>

text \<open>The loop removes every node once; the counter and the fields \<^verbatim>\<open>key\<close> stay as they are.\<close>

lemma rb_hashmap_remove_loop_ok:
  assumes "sl_ok (h_list m) xs" "keyed (h_list m) xs (h_key m)" "it_current it = HEADER" "e_io x e Q"
  shows "\<exists>m' b items. rb_hashmap_remove_loop x en m it e = Some (m', e\<lparr>e_bio := b, e_strs := (e_strs e) |` (- set xs)\<rparr>) \<and>
    sl_ok (h_list m') [] \<and> h_num m' = h_num m \<and> e_io x (e\<lparr>e_bio := b\<rparr>) (Q @ items) \<and>
    mset items = told (e_load e) en (image_mset (\<lambda>k. (Some k, None, HM_DEL)) (mset_set (dom (smap (h_list m) xs))))"
  using assms
proof (induction "length xs" arbitrary: m xs it e Q)
  case 0
  then have "hashmap_iterator_next m it = Some (NULL, \<lparr>it_prev = HEADER, it_current = NULL\<rparr>)"
    using iterator_at_end [of "h_list m" it] by (simp add: hashmap_iterator_next_def)
  then show ?case
    using 0 by (intro exI [of _ m] exI [of _ "e_bio e"] exI [of _ "[]"])
      (subst rb_hashmap_remove_loop.simps, simp add: restrict_map_def smap_def)
next
  case (Suc j)
  then obtain y ys where xs: "xs = y # ys"
    by (cases xs) auto
  let ?it = "\<lparr>it_prev = HEADER, it_current = HEADER\<rparr>"
  obtain sk l' xs' where d: "skiplist_iterator_next (h_list m) it = Some (y, \<lparr>it_prev = HEADER, it_current = y\<rparr>)"
      "y \<noteq> HEADER" "y \<noteq> NULL" "smap (h_list m) xs sk = Some y"
      "skiplist_iterator_delete (h_list m) \<lparr>it_prev = HEADER, it_current = y\<rparr> = Some (HEADER, ?it, l')"
      "sl_ok l' xs'" "set xs' = set ys" "y \<notin> set ys" "smap l' xs' = (smap (h_list m) xs)(sk := None)"
      "length xs' = length ys"
    using iterator_drop_first [OF Suc.prems(1) [unfolded xs] Suc.prems(3)] unfolding xs .
  have sk: "h_key m y = Some sk"
    using Suc.prems(2) d(4) by (simp add: keyed_def)
  obtain b i1 where b: "rb_notice x en (Some sk) None HM_DEL e = Some (e\<lparr>e_bio := b\<rparr>)"
      "e_io x (e\<lparr>e_bio := b\<rparr>) (Q @ i1)" "mset i1 = told (e_load e) en {#(Some sk, None, HM_DEL)#}"
    using rb_notice_ok [OF Suc.prems(4)] .
  let ?e = "e_string_free y (e\<lparr>e_bio := b\<rparr>)" and ?m = "m\<lparr>h_list := l'\<rparr>"
  have ok: "sl_ok (h_list ?m) xs'" "keyed (h_list ?m) xs' (h_key ?m)"
    using d(6) keyed_remove [OF Suc.prems(2) d(9)] by simp_all
  have io: "e_io x ?e (Q @ i1)"
    using b(2) by (simp add: e_string_free_def)
  have len: "j = length xs'" "it_current ?it = HEADER"
    using Suc.hyps(2) xs d(10) by simp_all
  obtain m' b' items where IH: "rb_hashmap_remove_loop x en ?m ?it ?e =
        Some (m', ?e\<lparr>e_bio := b', e_strs := (e_strs ?e) |` (- set xs')\<rparr>)"
      "sl_ok (h_list m') []" "h_num m' = h_num ?m" "e_io x (?e\<lparr>e_bio := b'\<rparr>) ((Q @ i1) @ items)"
      "mset items = told (e_load ?e) en (image_mset (\<lambda>k. (Some k, None, HM_DEL)) (mset_set (dom (smap (h_list ?m) xs'))))"
    using Suc.hyps(1) [OF len(1) ok len(2) io] by blast
  have strs: "(e_strs ?e) |` (- set xs') = (e_strs e) |` (- set xs)"
    using d(7) xs by (auto simp: e_string_free_def restrict_map_def fun_eq_iff)
  have lp: "rb_hashmap_remove_loop x en m it e = Some (m', e\<lparr>e_bio := b', e_strs := (e_strs e) |` (- set xs)\<rparr>)"
    using d(1,3,5) sk b(1) IH(1) strs
    by (subst rb_hashmap_remove_loop.simps) (simp add: hashmap_iterator_next_def hashmap_iterator_delete_def e_string_free_def)
  have "finite (dom (smap (h_list m) xs))" "sk \<in> dom (smap (h_list m) xs)"
    using smap_dom [OF Suc.prems(1)] d(4) by auto
  then have "mset_set (dom (smap (h_list m) xs)) = add_mset sk (mset_set (dom (smap l' xs')))"
    using d(9) mset_set.remove [of "dom (smap (h_list m) xs)" sk] by simp
  then have "mset (i1 @ items) = told (e_load e) en (image_mset (\<lambda>k. (Some k, None, HM_DEL)) (mset_set (dom (smap (h_list m) xs))))"
    using IH(5) b(3) told_add [of "e_load e" en "(Some sk, None, HM_DEL)"
        "image_mset (\<lambda>k. (Some k, None, HM_DEL)) (mset_set (dom (smap l' xs')))"]
    by (simp add: e_string_free_def)
  then show ?case
    using lp IH(2-4) by (intro exI [of _ m'] exI [of _ b'] exI [of _ "i1 @ items"]) (simp add: e_string_free_def e_io_def)
qed

lemma rb_hashmap_remove_ok:
  assumes rep: "obj_rep e ns p (VMap f)" and io: "e_io x e Q"
  obtains e' where "rb_hashmap_remove x p en e = Some e'" "emptied x e en p ns (VMap f) Q e'"
proof -
  obtain c where c: "e_cont e p = Some c" "obj_val (e_strs e) c ns (VMap f)"
    using rep by (auto simp: obj_rep_def)
  obtain m where m: "get_map c = Some m" "c = \<lparr>c_type = CONTAINER_HASHMAP, c_data = DMap m\<rparr>"
      "hm_ok (m\<lparr>h_num := of_nat (length ns)\<rparr>) ns" "set ns \<subseteq> dom (str_at (e_strs e))" "f = map_val (e_strs e) m ns"
    using c(2) obj_val_map by metis
  have sl: "sl_ok (h_list m) ns" "keyed (h_list m) ns (h_key m)" "it_current (hashmap_new_iterator m) = HEADER"
    using m(3) by (simp_all add: hm_ok_def hashmap_new_iterator_def skiplist_iterator_new_def)
  have dom: "dom (smap (h_list m) ns) = dom f"
    using map_val_dom [OF m(3,4)] m(5) by simp
  obtain m' b items where lp: "rb_hashmap_remove_loop x en m (hashmap_new_iterator m) e =
      Some (m', e\<lparr>e_bio := b, e_strs := (e_strs e) |` (- set ns)\<rparr>)" "sl_ok (h_list m') []"
      "e_io x (e\<lparr>e_bio := b\<rparr>) (Q @ items)" "mset items = told (e_load e) en (drops (VMap f))"
    using rb_hashmap_remove_loop_ok [OF sl io, of en] unfolding dom drops.simps by blast
  let ?ct = "\<lparr>c_type = CONTAINER_HASHMAP, c_data = DMap m'\<rparr>"
  let ?e = "e\<lparr>e_bio := b, e_strs := (e_strs e) |` (- set ns), e_cont := (e_cont e)(p \<mapsto> ?ct)\<rparr>"
  have "rb_hashmap_remove x p en e = Some ?e"
    using c(1) m(1,2) lp(1) by (simp add: rb_hashmap_remove_def e_put_def)
  moreover have "hm_ok (m'\<lparr>h_num := of_nat (length [])\<rparr>) []" "map_val (e_strs ?e) m' [] = Map.empty"
    using lp(2) by (auto simp: hm_ok_def keyed_def smap_def map_val_def hmap_def)
  then have "obj_val (e_strs ?e) ?ct [] (VMap Map.empty)"
    by (simp add: obj_val_map get_map_def container_get_data_def)
  then have "emptied x e en p ns (VMap f) Q ?e"
    using rep lp(3,4) by (auto simp: emptied_def obj_rep_def only_def e_io_def)
  ultimately show thesis
    by (rule that)
qed

lemma rb_hashmap_clear_ok:
  assumes rep: "rb_rep st D" and io: "e_io x (rb_eng st) Q" and en: "rb_entry self st = Some (p, en)"
    and d: "D p = Some (ns, VMap f)"
  shows "becomes x st D Q p en (rb_hashmap_clear x self st) (RObj self, VMap Map.empty, drops (VMap f))"
proof -
  have "obj_rep (rb_eng st) ns p (VMap f)"
    using rb_heap_okD(1) [OF rb_repD(2) [OF rep] d] .
  then obtain e' where "rb_hashmap_remove x p en (rb_eng st) = Some e'" "emptied x (rb_eng st) en p ns (VMap f) Q e'"
    using rb_hashmap_remove_ok io by blast
  then show ?thesis
    using emptied_becomes [OF rep d, where r = "RObj self"] en by (simp add: rb_hashmap_clear_def)
qed

end
