(* ===== verification/RbSet.thy ===== *)
theory RbSet
  imports RbOps
begin

text \<open>The methods of \<^verbatim>\<open>XFireDB::Set\<close> (\<^verbatim>\<open>ext/xfiredb-serv/set.c\<close>).\<close>

section \<open>Operations and the counter\<close>

lemma members_num [simp]: "members (s\<lparr>set_num := z\<rparr>) ns = members s ns"
  by (simp add: members_def)

lemma set_contains_num [simp]: "set_contains (s\<lparr>set_num := z\<rparr>) k = set_contains s k"
  by (simp add: set_contains_def)

lemma set_ok_recount: "set_ok s ns \<Longrightarrow> s\<lparr>set_num := of_nat (length ns)\<rparr> = s"
  by (simp add: set_ok_def)

lemma set_add_num:
  assumes "set_add coins (s\<lparr>set_num := z\<rparr>) k n = Some (rc, s')"
  shows "set_add coins s k n = Some (rc, s'\<lparr>set_num := set_num s + (set_num s' - z)\<rparr>)"
  using assms by (auto simp: set_add_def Let_def atomic_defs split: option.splits if_splits bool.splits)

lemma set_remove_num:
  assumes "set_remove (s\<lparr>set_num := z\<rparr>) k = Some (n, s')"
  shows "set_remove s k = Some (n, s'\<lparr>set_num := set_num s + (set_num s' - z)\<rparr>)"
  using assms by (auto simp: set_remove_def atomic_defs split: option.splits if_splits)

abbreviation in_set :: "string set \<Rightarrow> string \<rightharpoonup> string" where
  "in_set X \<equiv> \<lambda>t. if t \<in> X then Some [] else None"

lemma set_collision_good:
  assumes ok: "set_ok s ns" and c: "no_collision (in_set (members s ns)) k"
  shows "set_good s ns k"
  unfolding set_good_def
proof (rule good_key_dom)
  show "k' = k" if "k' \<in> dom (smap (set_list s) ns)" "key_hash k' = key_hash k" for k'
    using c that by (auto simp: no_collision_def members_def)
qed (use ok c in \<open>simp_all add: set_ok_def no_collision_def\<close>)

lemma rb_setE:
  assumes rep: "rb_rep st D" and en: "rb_entry self st = Some (p, en)" and d: "D p = Some (ns, VSet X)"
  obtains c s where "e_cont (rb_eng st) p = Some c" "obj_rep (rb_eng st) ns p (VSet X)" "get_set c = Some s"
    "c = \<lparr>c_type = CONTAINER_SET, c_data = DSet s\<rparr>" "set_ok (s\<lparr>set_num := of_nat (length ns)\<rparr>) ns"
    "X = members s ns" "obj_to_set self st = Some s"
proof -
  obtain c where c: "e_cont (rb_eng st) p = Some c" "obj_rep (rb_eng st) ns p (VSet X)"
      "obj_val (e_strs (rb_eng st)) c ns (VSet X)"
    using rb_entryE [OF rep en] d by (metis option.inject prod.inject)
  obtain s where s: "get_set c = Some s" "c = \<lparr>c_type = CONTAINER_SET, c_data = DSet s\<rparr>"
      "set_ok (s\<lparr>set_num := of_nat (length ns)\<rparr>) ns" "X = members s ns"
    using c(3) obj_val_set by metis
  then show thesis
    using that c(1,2) s en by (simp add: obj_to_set_def)
qed

section \<open>Reading\<close>

lemma rb_set_include_ok:
  assumes rep: "rb_rep st D" and en: "rb_entry self st = Some (p, en)" and d: "D p = Some (ns, VSet X)"
    and c: "no_collision (in_set X) k"
  shows "rb_set_include self k st = Some (if k \<in> X then Qtrue else Qfalse)"
proof -
  obtain s where s: "set_ok (s\<lparr>set_num := of_nat (length ns)\<rparr>) ns" "X = members s ns" "obj_to_set self st = Some s"
    using rb_setE [OF rep en d] by metis
  have "set_contains s k = Some (k \<in> X)"
    using set_contains_ok [OF s(1) set_collision_good [OF s(1)]] c s(2) by simp
  then show ?thesis
    using s(3) by (simp add: rb_set_include_def)
qed

lemma rb_set_size_ok:
  assumes rep: "rb_rep st D" and en: "rb_entry self st = Some (p, en)" and d: "D p = Some (ns, VSet X)"
    and c: "e_cont (rb_eng st) p = Some c" "counted c ns" "length ns < 2 ^ 31"
  shows "rb_set_size self st = Some (RNum (int (card X)))"
proof -
  obtain s where s: "c = \<lparr>c_type = CONTAINER_SET, c_data = DSet s\<rparr>" "set_ok (s\<lparr>set_num := of_nat (length ns)\<rparr>) ns"
      "X = members s ns" "obj_to_set self st = Some s"
    using rb_setE [OF rep en d] c(1) by (metis option.inject)
  then have "set_ok s ns"
    using c(2) by (simp add: counted_def)
  then show ?thesis
    using set_size_ok [OF _ c(3)] s(3,4) by (simp add: rb_set_size_def)
qed

section \<open>Adding and removing\<close>

lemma rb_set_add_ok:
  assumes rep: "rb_rep st D" and io: "e_io x (rb_eng st) Q" and en: "rb_entry self st = Some (p, en)"
    and d: "D p = Some (ns, VSet X)" and c: "no_collision (in_set X) k"
  shows "becomes x st D Q p en (rb_set_add x self k st)
    (if k \<in> X then Qnil else RText k, VSet (insert k X), if k \<in> X then {#} else {#(Some k, None, SET_ADD)#})"
proof -
  let ?e = "rb_eng st"
  let ?n = "e_fresh ?e" and ?ct = "\<lambda>s. \<lparr>c_type = CONTAINER_SET, c_data = DSet s\<rparr>"
  obtain ct s where s: "e_cont ?e p = Some ct" "obj_rep ?e ns p (VSet X)" "get_set ct = Some s" "ct = ?ct s"
      "set_ok (s\<lparr>set_num := of_nat (length ns)\<rparr>) ns" "X = members s ns" "obj_to_set self st = Some s"
    using rb_setE [OF rep en d] .
  let ?s = "s\<lparr>set_num := of_nat (length ns)\<rparr>"
  have n: "?n \<noteq> HEADER \<and> ?n \<noteq> NULL" "?n \<notin> set ns" "2 \<le> ?n"
    using rb_heap_okD(2) [OF rb_repD(2) [OF rep]] s(2) by (auto simp: obj_rep_def xdb_defs)
  have good: "set_good ?s ns k"
    using set_collision_good [OF s(5)] c s(6) by simp
  show ?thesis
  proof (cases "k \<in> X")
    case True
    have "set_add (x_coins x) s k ?n = Some (- XFIREDB_ERR, s)"
      using set_contains_ok [OF s(5) good] True s(6) by (simp add: set_add_def)
    moreover let ?e2 = "?e\<lparr>e_fresh := ?n + 1\<rparr>"
    have "e_put p (DSet s) ?e2 = Some ?e2"
      using s(1,4) by (simp add: e_put_def fun_upd_idem)
    ultimately have r: "rb_set_add x self k st = Some (Qnil, st\<lparr>rb_eng := ?e2\<rparr>)"
      using en s(7) by (simp add: rb_set_add_def Let_def)
    have "obj_rep ?e2 ns p (VSet X)"
      using s(2) by (auto simp: obj_rep_def)
    then have "becomes x st D Q p en (rb_set_add x self k st) (Qnil, VSet X, {#})"
      by (intro becomesI [OF rep d, where e' = ?e2 and ns' = ns and items = "[]"]) (use r io in \<open>auto simp: only_def\<close>)
    then show ?thesis
      using True by (simp add: insert_absorb)
  next
    case False
    then have new: "k \<notin> members ?s ns"
      using s(6) by simp
    obtain s1 ns' where a: "set_add (x_coins x) ?s k ?n = Some (- XFIREDB_OK, s1)" "set_ok s1 ns'"
        "members s1 ns' = insert k (members ?s ns)" "set ns' = insert ?n (set ns)" "set_key s1 ?n = Some k"
      using set_add_new [OF s(5) good n(1,2) new] .
    obtain w where w: "set_add (x_coins x) s k ?n = Some (- XFIREDB_OK, s1\<lparr>set_num := w\<rparr>)"
      using set_add_num [OF a(1)] by blast
    let ?e1 = "?e\<lparr>e_fresh := ?n + 1, e_cont := (e_cont ?e)(p \<mapsto> ?ct (s1\<lparr>set_num := w\<rparr>))\<rparr>"
    have "e_io x ?e1 Q"
      using io by simp
    then obtain b items where b: "rb_notice x en (Some k) None SET_ADD ?e1 = Some (?e1\<lparr>e_bio := b\<rparr>)"
        "e_io x (?e1\<lparr>e_bio := b\<rparr>) (Q @ items)" "mset items = told (e_load ?e1) en {#(Some k, None, SET_ADD)#}"
      by (rule rb_notice_ok)
    let ?e2 = "?e1\<lparr>e_bio := b\<rparr>"
    have r: "rb_set_add x self k st = Some (RText k, st\<lparr>rb_eng := ?e2\<rparr>)"
      using en s(1,4,7) w a(5) b(1) by (simp add: rb_set_add_def Let_def e_put_def)
    have "obj_val (e_strs ?e2) (?ct (s1\<lparr>set_num := w\<rparr>)) ns' (VSet (insert k X))"
      using a(2,3) s(6) set_ok_recount [OF a(2)] by (simp add: obj_val_set get_set_def container_get_data_def)
    then have "obj_rep ?e2 ns' p (VSet (insert k X))"
      using s(2) a(4) n(3) by (auto simp: obj_rep_def)
    then have "becomes x st D Q p en (rb_set_add x self k st) (RText k, VSet (insert k X), {#(Some k, None, SET_ADD)#})"
      by (intro becomesI [OF rep d, where e' = ?e2 and ns' = ns' and items = items]) (use r b(2,3) a(4) in \<open>auto simp: only_def\<close>)
    then show ?thesis
      using False by simp
  qed
qed

lemma rb_set_remove_key_ok:
  assumes rep: "rb_rep st D" and io: "e_io x (rb_eng st) Q" and en: "rb_entry self st = Some (p, en)"
    and d: "D p = Some (ns, VSet X)" and c: "no_collision (in_set X) k"
  shows "becomes x st D Q p en (rb_set_remove_key x self k st)
    (if k \<in> X then RText k else Qnil, VSet (X - {k}), if k \<in> X then {#(Some k, None, SET_DEL)#} else {#})"
proof -
  let ?e = "rb_eng st" and ?ct = "\<lambda>s. \<lparr>c_type = CONTAINER_SET, c_data = DSet s\<rparr>"
  obtain ct s where s: "e_cont ?e p = Some ct" "obj_rep ?e ns p (VSet X)" "get_set ct = Some s" "ct = ?ct s"
      "set_ok (s\<lparr>set_num := of_nat (length ns)\<rparr>) ns" "X = members s ns" "obj_to_set self st = Some s"
    using rb_setE [OF rep en d] .
  let ?s = "s\<lparr>set_num := of_nat (length ns)\<rparr>"
  have good: "set_good ?s ns k"
    using set_collision_good [OF s(5)] c s(6) by simp
  show ?thesis
  proof (cases "k \<in> X")
    case True
    then have mem: "k \<in> members ?s ns"
      using s(6) by simp
    obtain n s1 ns' where a: "set_remove ?s k = Some (n, s1)" "n \<noteq> NULL" "n \<in> set ns" "n \<notin> set ns'" "set_key s1 n = Some k"
        "set_ok s1 ns'" "members s1 ns' = members ?s ns - {k}" "set ns' \<subseteq> set ns"
      using set_remove_present [OF s(5) good mem] .
    obtain w where w: "set_remove s k = Some (n, s1\<lparr>set_num := w\<rparr>)"
      using set_remove_num [OF a(1)] by blast
    let ?e1 = "?e\<lparr>e_cont := (e_cont ?e)(p \<mapsto> ?ct (s1\<lparr>set_num := w\<rparr>))\<rparr>"
    have "e_io x ?e1 Q"
      using io by simp
    then obtain b items where b: "rb_notice x en (Some k) None SET_DEL ?e1 = Some (?e1\<lparr>e_bio := b\<rparr>)"
        "e_io x (?e1\<lparr>e_bio := b\<rparr>) (Q @ items)" "mset items = told (e_load ?e1) en {#(Some k, None, SET_DEL)#}"
      by (rule rb_notice_ok)
    let ?s2 = "set_key_destroy n (s1\<lparr>set_num := w\<rparr>)"
    let ?e2 = "?e\<lparr>e_cont := (e_cont ?e)(p \<mapsto> ?ct ?s2), e_bio := b\<rparr>"
    have r: "rb_set_remove_key x self k st = Some (RText k, st\<lparr>rb_eng := ?e2\<rparr>)"
      using en s(1,4,7) w a(2,5) b(1) by (simp add: rb_set_remove_key_def e_put_def)
    have "n \<noteq> HEADER"
      using s(2) a(3) by (auto simp: obj_rep_def HEADER_def)
    then have h: "set_ok (set_key_destroy n s1) ns'" "members (set_key_destroy n s1) ns' = X - {k}"
      using set_key_destroy_ok [OF a(6,4)] a(7) s(6) by simp_all
    have "set_key_destroy n s1 = ?s2\<lparr>set_num := of_nat (length ns')\<rparr>"
      using set_ok_recount [OF h(1)] by (simp add: set_key_destroy_def)
    then have "set_ok (?s2\<lparr>set_num := of_nat (length ns')\<rparr>) ns'" "members ?s2 ns' = X - {k}"
      using h members_num [where s = ?s2 and z = "of_nat (length ns')"] by simp_all
    then have "obj_val (e_strs ?e2) (?ct ?s2) ns' (VSet (X - {k}))"
      by (simp add: obj_val_set get_set_def container_get_data_def)
    then have "obj_rep ?e2 ns' p (VSet (X - {k}))"
      using s(2) a(8) by (auto simp: obj_rep_def)
    then have "becomes x st D Q p en (rb_set_remove_key x self k st) (RText k, VSet (X - {k}), {#(Some k, None, SET_DEL)#})"
      by (intro becomesI [OF rep d, where e' = ?e2 and ns' = ns' and items = items])
        (use r b(2,3) a(8) in \<open>auto simp: only_def e_io_def\<close>)
    then show ?thesis
      using True by simp
  next
    case False
    then have "k \<notin> members ?s ns"
      using s(6) by simp
    then have "set_remove ?s k = Some (NULL, ?s)"
      by (rule set_remove_absent [OF s(5) good])
    then have rm: "set_remove s k = Some (NULL, s)"
      using set_remove_num [of "of_nat (length ns)" s k NULL ?s] by simp
    have "e_put p (DSet s) ?e = Some ?e"
      using s(1,4) by (simp add: e_put_def fun_upd_idem)
    then have "rb_set_remove_key x self k st = Some (Qnil, st)"
      using en s(7) rm by (simp add: rb_set_remove_key_def)
    then show ?thesis
      using becomes_same [OF rep d _ io] False by simp
  qed
qed

section \<open>Clearing\<close>

text \<open>The loop that announces the keys.\<close>

lemma set_notice_loop_ok:
  assumes "chain (\<lambda>a. fwd (s_heap (set_list s)) a 1) (it_current it # ys @ [HEADER])" "HEADER \<notin> set ys" "NULL \<notin> set ys"
    and "\<And>y. y \<in> set ys \<Longrightarrow> set_key s y = Some (kf y)" "e_io x e Q"
  shows "\<exists>b items. set_notice_loop x en s it e = Some (e\<lparr>e_bio := b\<rparr>) \<and> e_io x (e\<lparr>e_bio := b\<rparr>) (Q @ items) \<and>
    mset items = told (e_load e) en (image_mset (\<lambda>k. (Some k, None, SET_DEL)) (image_mset kf (mset ys)))"
  using assms
proof (induction ys arbitrary: it e Q)
  case Nil
  then show ?case
    by (intro exI [of _ "e_bio e"] exI [of _ "[]"])
      (subst set_notice_loop.simps, simp add: set_iterator_next_def skiplist_iterator_next_def chain_def xdb_defs)
next
  case (Cons y ys)
  let ?it = "\<lparr>it_prev = it_current it, it_current = y\<rparr>"
  have nx: "set_iterator_next s it = Some (y, ?it)" "y \<noteq> NULL"
    using Cons.prems(1-3) by (auto simp: set_iterator_next_def skiplist_iterator_next_def chain_def)
  obtain b i1 where b: "rb_notice x en (Some (kf y)) None SET_DEL e = Some (e\<lparr>e_bio := b\<rparr>)"
      "e_io x (e\<lparr>e_bio := b\<rparr>) (Q @ i1)" "mset i1 = told (e_load e) en {#(Some (kf y), None, SET_DEL)#}"
    using rb_notice_ok [OF Cons.prems(5)] .
  have ch: "chain (\<lambda>a. fwd (s_heap (set_list s)) a 1) (it_current ?it # ys @ [HEADER])"
    using Cons.prems(1) by (simp add: chain_def)
  obtain b' items where IH: "set_notice_loop x en s ?it (e\<lparr>e_bio := b\<rparr>) = Some (e\<lparr>e_bio := b'\<rparr>)"
      "e_io x (e\<lparr>e_bio := b'\<rparr>) ((Q @ i1) @ items)"
      "mset items = told (e_load e) en (image_mset (\<lambda>k. (Some k, None, SET_DEL)) (image_mset kf (mset ys)))"
    using Cons.IH [OF ch _ _ _ b(2)] Cons.prems(2-4) by auto
  have "set_notice_loop x en s it e = Some (e\<lparr>e_bio := b'\<rparr>)"
    using nx Cons.prems(4) [of y] b(1) IH(1) by (subst set_notice_loop.simps) simp
  moreover have "mset (i1 @ items) = told (e_load e) en (image_mset (\<lambda>k. (Some k, None, SET_DEL)) (image_mset kf (mset (y # ys))))"
    using IH(3) b(3) told_add [of "e_load e" en "(Some (kf y), None, SET_DEL)"
        "image_mset (\<lambda>k. (Some k, None, SET_DEL)) (image_mset kf (mset ys))"] by simp
  ultimately show ?case
    using IH(2) by (intro exI [of _ b'] exI [of _ "i1 @ items"]) simp
qed

text \<open>The keys of the nodes of a set, each once.\<close>

lemma set_keys_mset:
  assumes "sl_ok l ns" "keyed l ns keys"
  shows "\<And>y. y \<in> set ns \<Longrightarrow> keys y = Some (the (keys y))" "image_mset (\<lambda>y. the (keys y)) (mset ns) = mset_set (dom (smap l ns))"
proof -
  have key: "keys y = Some (the (nkey (s_heap l) y))" if "y \<in> set ns" for y
    using keyed_node [OF assms that] .
  then show "keys y = Some (the (keys y))" if "y \<in> set ns" for y
    using that by simp
  have eq: "the (keys y) = the (nkey (s_heap l) y)" if "y \<in> set ns" for y
    using key [OF that] by simp
  have "image_mset (\<lambda>y. the (keys y)) (mset ns) = image_mset (\<lambda>y. the (nkey (s_heap l) y)) (mset ns)"
    by (rule image_mset_cong) (use eq in simp)
  also have "\<dots> = image_mset (\<lambda>y. the (nkey (s_heap l) y)) (mset_set (set ns))"
    using sl_ok_distinct [OF assms(1)] by (simp add: mset_set_set)
  also have "\<dots> = mset_set ((\<lambda>y. the (nkey (s_heap l) y)) ` set ns)"
    using sl_inj_key [OF assms(1)] by (rule image_mset_mset_set)
  finally show "image_mset (\<lambda>y. the (keys y)) (mset ns) = mset_set (dom (smap l ns))"
    by (simp add: smap_dom [OF assms(1)])
qed

lemma rb_set_remove_ok:
  assumes rep: "obj_rep e ns p (VSet X)" and io: "e_io x e Q"
  obtains e' where "rb_set_remove x p en e = Some e'" "emptied x e en p ns (VSet X) Q e'"
proof -
  obtain c where c: "e_cont e p = Some c" "obj_val (e_strs e) c ns (VSet X)"
    using rep by (auto simp: obj_rep_def)
  obtain s where s: "get_set c = Some s" "c = \<lparr>c_type = CONTAINER_SET, c_data = DSet s\<rparr>"
      "set_ok (s\<lparr>set_num := of_nat (length ns)\<rparr>) ns" "X = members s ns"
    using c(2) obj_val_set by metis
  have sl: "sl_ok (set_list s) ns" "keyed (set_list s) ns (set_key s)" "it_current (set_iterator_new s) = HEADER"
    using s(3) by (simp_all add: set_ok_def set_iterator_new_def skiplist_iterator_new_def)
  have ch: "chain (\<lambda>a. fwd (s_heap (set_list s)) a 1) (it_current (set_iterator_new s) # ns @ [HEADER])"
      "HEADER \<notin> set ns" "NULL \<notin> set ns"
    using sl_chain_1 [OF sl(1)] sl(1,3) by (auto simp: sl_ok_def)
  have X: "image_mset (\<lambda>y. the (set_key s y)) (mset ns) = mset_set X"
    using set_keys_mset(2) [OF sl(1,2)] s(4) by (simp add: members_def)
  obtain b items where nt: "(if en_key en \<noteq> None then set_notice_loop x en s (set_iterator_new s) e else Some e) = Some (e\<lparr>e_bio := b\<rparr>)"
      "e_io x (e\<lparr>e_bio := b\<rparr>) (Q @ items)" "mset items = told (e_load e) en (drops (VSet X))"
  proof (cases "en_key en")
    case None
    then show thesis
      using that [of "e_bio e" "[]"] io by (simp add: told_def)
  next
    case (Some k)
    then show thesis
      using that set_notice_loop_ok [OF ch set_keys_mset(1) [OF sl(1,2)] io, of en] unfolding X drops.simps by auto
  qed
  obtain l' freed where cl: "set_clear_loop (set_list s) (skiplist_iterator_new (set_list s)) = Some (l', freed)" "sl_ok l' []"
    using set_clear_loop_ok [OF sl(1), of "skiplist_iterator_new (set_list s)"] by (auto simp: skiplist_iterator_new_def)
  let ?s = "s\<lparr>set_list := l', set_key := (set_key s) |` (- set freed)\<rparr>"
  let ?ct = "\<lparr>c_type = CONTAINER_SET, c_data = DSet ?s\<rparr>"
  let ?e = "e\<lparr>e_bio := b, e_cont := (e_cont e)(p \<mapsto> ?ct)\<rparr>"
  have "rb_set_remove x p en e = Some ?e"
    using c(1) s(1,2) nt(1) cl(1) by (auto simp: rb_set_remove_def set_clear_def e_put_def)
  moreover have "obj_val (e_strs ?e) ?ct [] (VSet {})"
    using cl(2) by (simp add: obj_val_set get_set_def container_get_data_def set_ok_def keyed_def members_def smap_def)
  then have "emptied x e en p ns (VSet X) Q ?e"
    using rep nt(2,3) by (auto simp: emptied_def obj_rep_def only_def e_io_def)
  ultimately show thesis
    by (rule that)
qed

lemma rb_set_clear_ok:
  assumes rep: "rb_rep st D" and io: "e_io x (rb_eng st) Q" and en: "rb_entry self st = Some (p, en)"
    and d: "D p = Some (ns, VSet X)"
  shows "becomes x st D Q p en (rb_set_clear x self st) (RObj self, VSet {}, drops (VSet X))"
proof -
  have "obj_rep (rb_eng st) ns p (VSet X)"
    using rb_heap_okD(1) [OF rb_repD(2) [OF rep] d] .
  then obtain e' where "rb_set_remove x p en (rb_eng st) = Some e'" "emptied x (rb_eng st) en p ns (VSet X) Q e'"
    using rb_set_remove_ok io by blast
  then show ?thesis
    using emptied_becomes [OF rep d, where r = "RObj self"] en by (simp add: rb_set_clear_def)
qed

end
