(* ===== verification/RbObject.thy ===== *)
theory RbObject
  imports RbList RbMap RbSet
begin

text \<open>
  Objects of the Ruby binding: all their methods, their allocation and their release by the garbage
  collector.
\<close>

section \<open>Methods\<close>

lemma rb_list_call_ok:
  assumes rep: "rb_rep st D" and io: "e_io x (rb_eng st) Q" and en: "rb_entry self st = Some (p, en)"
    and d: "D p = Some (ns, VList xs)" and ct: "e_cont (rb_eng st) p = Some ct" and ok: "call_ok c ct ns (VList xs)"
  shows "becomes x st D Q p en (rb_call x self c st) (spec_call self c (VList xs))"
proof -
  have len: "length ns = length xs"
    using rb_listE [OF rep en d] by metis
  show ?thesis
  proof (cases c)
    case LLength
    then have "rb_list_length self st = Some (RNum (int (length xs)))"
      using rb_list_length_ok [OF rep en d] ok len by (simp add: call_ok_def)
    then show ?thesis
      using becomes_same [OF rep d _ io] LLength by (simp add: spec_call_def)
  next
    case (LRef i)
    then show ?thesis
      using becomes_same [OF rep d _ io] rb_list_ref_ok [OF rep en d, of i] by (simp add: spec_call_def)
  next
    case (LPop i)
    then show ?thesis
      using rb_list_pop_ok [OF rep io en d, of i] by (simp add: spec_call_def split: if_splits)
  next
    case (LSet i s)
    then show ?thesis
      using rb_list_set_ok [OF rep io en d, of i s] by (simp add: spec_call_def split: if_splits)
  qed (use ok rb_list_push_ok [OF rep io en d] rb_list_clear_ok [OF rep io en d] in \<open>simp_all add: spec_call_def call_ok_def\<close>)
qed

lemma rb_map_call_ok:
  assumes rep: "rb_rep st D" and io: "e_io x (rb_eng st) Q" and en: "rb_entry self st = Some (p, en)"
    and d: "D p = Some (ns, VMap f)" and ct: "e_cont (rb_eng st) p = Some ct" and ok: "call_ok c ct ns (VMap f)"
  shows "becomes x st D Q p en (rb_call x self c st) (spec_call self c (VMap f))"
proof (cases c)
  case (MapStore k s)
  then have "no_collision f k"
    using ok by (simp add: call_ok_def)
  then show ?thesis
    using rb_hashmap_store_new [OF rep io en d] rb_hashmap_store_old [OF rep io en d] MapStore
    by (cases "f k") (simp_all add: spec_call_def)
next
  case (MapRef k)
  then have "rb_hashmap_ref self k st = Some (opt_text (f k))"
    using rb_hashmap_ref_ok [OF rep en d] ok by (simp add: call_ok_def)
  then show ?thesis
    using becomes_same [OF rep d _ io] MapRef by (simp add: spec_call_def)
next
  case (MapDelete k)
  then have "no_collision f k"
    using ok by (simp add: call_ok_def)
  then show ?thesis
    using rb_hashmap_delete_miss [OF rep io en d] rb_hashmap_delete_hit [OF rep io en d] MapDelete
    by (cases "f k") (simp_all add: spec_call_def opt_text_def fun_upd_idem)
next
  case MapSize
  then have "rb_hashmap_size self st = Some (RNum (int (card (dom f))))"
    using rb_hashmap_size_ok [OF rep en d ct] ok by (simp add: call_ok_def)
  then show ?thesis
    using becomes_same [OF rep d _ io] MapSize by (simp add: spec_call_def)
qed (use ok rb_hashmap_clear_ok [OF rep io en d] in \<open>simp_all add: spec_call_def call_ok_def\<close>)

lemma rb_set_call_ok:
  assumes rep: "rb_rep st D" and io: "e_io x (rb_eng st) Q" and en: "rb_entry self st = Some (p, en)"
    and d: "D p = Some (ns, VSet X)" and ct: "e_cont (rb_eng st) p = Some ct" and ok: "call_ok c ct ns (VSet X)"
  shows "becomes x st D Q p en (rb_call x self c st) (spec_call self c (VSet X))"
proof (cases c)
  case (SetInclude k)
  then have "rb_set_include self k st = Some (if k \<in> X then Qtrue else Qfalse)"
    using rb_set_include_ok [OF rep en d] ok by (simp add: call_ok_def)
  then show ?thesis
    using becomes_same [OF rep d _ io] SetInclude by (simp add: spec_call_def)
next
  case SetSize
  then have "rb_set_size self st = Some (RNum (int (card X)))"
    using rb_set_size_ok [OF rep en d ct] ok by (simp add: call_ok_def)
  then show ?thesis
    using becomes_same [OF rep d _ io] SetSize by (simp add: spec_call_def)
next
  case (SetAdd k)
  then show ?thesis
    using rb_set_add_ok [OF rep io en d, of k] ok by (simp add: call_ok_def spec_call_def)
next
  case (SetRemove k)
  then show ?thesis
    using rb_set_remove_key_ok [OF rep io en d, of k] ok by (simp add: call_ok_def spec_call_def)
qed (use ok rb_set_clear_ok [OF rep io en d] in \<open>simp_all add: spec_call_def call_ok_def\<close>)

lemma rb_call_ok:
  assumes rep: "rb_rep st D" and io: "e_io x (rb_eng st) Q" and en: "rb_entry self st = Some (p, en)"
    and d: "D p = Some (ns, v)" and ct: "e_cont (rb_eng st) p = Some ct" and ok: "call_ok c ct ns v"
  shows "becomes x st D Q p en (rb_call x self c st) (spec_call self c v)"
proof (cases v)
  case (VString s)
  then have False
    using ok by (cases c) (simp_all add: call_ok_def)
  then show ?thesis ..
qed (use assms rb_list_call_ok [OF rep io en] rb_map_call_ok [OF rep io en] rb_set_call_ok [OF rep io en] in \<open>simp_all\<close>)

end
