(* ===== verification/RbGc.thy ===== *)
theory RbGc
  imports RbObject
begin

text \<open>Allocation of objects and their release by the garbage collector.\<close>

section \<open>Allocation\<close>

fun new_val :: "rclass \<Rightarrow> val" where
  "new_val CString = VString []"
| "new_val CList = VList []"
| "new_val CHashmap = VMap Map.empty"
| "new_val CSet = VSet {}"

lemma new_val_rep:
  assumes "klass \<noteq> CString"
  shows "obj_val strs (container_init (class_type klass)) [] (new_val klass)" "type_of (new_val klass) = class_type klass"
proof -
  have "is_val strs (container_init (class_type klass)) [] (new_val klass)"
    using assms container_alloc_is [of strs] by (cases klass) (simp_all add: container_alloc_def)
  moreover have "recount [] (c_data (container_init (class_type klass))) = c_data (container_init (class_type klass))"
    by (cases klass) (simp_all add: container_init_def hashmap_init_def set_init_def)
  ultimately show "obj_val strs (container_init (class_type klass)) [] (new_val klass)"
    by (simp add: obj_val_def)
  show "type_of (new_val klass) = class_type klass"
    by (cases klass) simp_all
qed

lemma fresh_ptr:
  assumes "rb_heap_ok e E D" "e_next e < 2 ^ 64"
  shows "D (of_nat (e_next e)) = None"
proof (rule ccontr)
  assume "D (of_nat (e_next e)) \<noteq> None"
  then obtain ns v where "D (of_nat (e_next e)) = Some (ns, v)"
    by auto
  from rb_heap_okD(1) [OF assms(1) this] obtain m where m: "m < e_next e" "(of_nat (e_next e) :: ptr) = of_nat m"
    by (auto simp: obj_rep_def)
  have "unat (of_nat (e_next e) :: ptr) = e_next e" "unat (of_nat m :: ptr) = m"
    using m(1) assms(2) by (simp_all add: unat_of_nat take_bit_nat_eq_self)
  then show False
    using m by simp
qed

definition rb_new :: "rclass \<Rightarrow> rb \<Rightarrow> nat \<times> rb" where
  "rb_new klass st =
     (case klass of CList \<Rightarrow> rb_list_alloc st | CHashmap \<Rightarrow> rb_hashmap_alloc st | _ \<Rightarrow> rb_set_alloc st)"

lemma rb_new_def2:
  assumes "klass \<noteq> CString"
  shows "rb_new klass st = (rb_next st,
    st\<lparr>rb_eng := snd (e_alloc (container_init (class_type klass)) (rb_eng st)),
       rb_obj := (rb_obj st)(rb_next st \<mapsto> of_nat (e_next (rb_eng st))), rb_next := rb_next st + 1,
       rb_ent := (rb_ent st)(of_nat (e_next (rb_eng st)) \<mapsto>
         \<lparr>en_key = None, en_intree = False, en_released = False,
           en_obj = (if klass = CSet then Qfalse else RObj (rb_next st)), en_type = klass\<rparr>)\<rparr>)"
  using assms
  by (cases klass) (simp_all add: rb_new_def rb_list_alloc_def rb_hashmap_alloc_def rb_set_alloc_def rb_alloc_def rb_wrap_def
      rb_set_entry_def e_alloc_def Let_def)

lemma rb_new_ok:
  assumes rep: "rb_rep st D" and klass: "klass \<noteq> CString" and room: "e_next (rb_eng st) < 2 ^ 64"
  obtains p st' where "rb_new klass st = (rb_next st, st')" "D p = None" "rb_obj st' (rb_next st) = Some p"
    "rb_rep st' (D(p \<mapsto> ([], new_val klass)))" "rb_bind st' = rb_bind st" "e_bio (rb_eng st') = e_bio (rb_eng st)"
    "rb_map st' (D(p \<mapsto> ([], new_val klass))) = rb_map st D" "e_load (rb_eng st') = e_load (rb_eng st)"
    "e_next (rb_eng st') = e_next (rb_eng st) + 1"
proof -
  let ?e = "rb_eng st" and ?p = "of_nat (e_next (rb_eng st)) :: ptr"
  let ?en = "\<lambda>ob. \<lparr>en_key = None, en_intree = False, en_released = False, en_obj = ob, en_type = klass\<rparr>"
  let ?e' = "snd (e_alloc (container_init (class_type klass)) ?e)" and ?D = "D(?p \<mapsto> ([], new_val klass))"
  note R = rb_repD [OF rep]
  note H = rb_heap_okD [OF R(2)]
  let ?ob = "if klass = CSet then Qfalse else RObj (rb_next st)"
  have new: "rb_new klass st = (rb_next st, st\<lparr>rb_eng := ?e', rb_obj := (rb_obj st)(rb_next st \<mapsto> ?p),
      rb_next := rb_next st + 1, rb_ent := (rb_ent st)(?p \<mapsto> ?en ?ob)\<rparr>)"
    using rb_new_def2 [OF klass] .
  have p: "D ?p = None" "rb_ent st ?p = None"
    using fresh_ptr [OF R(2) room] H(4) by auto
  have "obj_rep ?e' [] ?p (new_val klass)"
    using new_val_rep [OF klass] by (auto simp: obj_rep_def e_alloc_def)
  then have heap: "rb_heap_ok ?e' ((rb_ent st)(?p \<mapsto> ?en ?ob)) ?D"
    by (intro rb_heap_ok_put [OF R(2), where F = "{}"]) (use room in \<open>auto simp: only_def e_alloc_def\<close>)
  have typed: "typed_ok ((rb_ent st)(?p \<mapsto> ?en ?ob)) ?D"
    by (rule typed_ok_put [OF R(3)]) (simp add: new_val_rep(2) [OF klass])
  have nb: "rb_bind st k \<noteq> Some ?p" for k
    using bound_okD(1) [OF R(4), of k ?p] p(2) by auto
  have bound: "bound_ok (rb_bind st) ((rb_ent st)(?p \<mapsto> ?en ?ob))"
    by (rule bound_ok_upd [OF R(4)]) (use nb klass in \<open>simp_all add: bound_at_def\<close>)
  have nw: "rb_obj st w \<noteq> Some ?p" "rb_obj st (rb_next st) = None" for w
    using objs_okD(1) [OF R(5), of w ?p] objs_okD(1) [OF R(5), of "rb_next st"] p(2) by force+
  have objs: "objs_ok ((rb_obj st)(rb_next st \<mapsto> ?p)) (rb_next st + 1) ((rb_ent st)(?p \<mapsto> ?en ?ob))"
    by (rule objs_ok_upd [OF R(5)]) (use nw klass in \<open>auto simp: obj_at_def\<close>)
  show thesis
  proof (rule that [OF new p(1)])
    show "rb_map (st\<lparr>rb_eng := ?e', rb_obj := (rb_obj st)(rb_next st \<mapsto> ?p), rb_next := rb_next st + 1,
        rb_ent := (rb_ent st)(?p \<mapsto> ?en ?ob)\<rparr>) ?D = rb_map st D"
      using nb by (auto simp: rb_map_def rb_bind_def e_alloc_def fun_eq_iff intro!: bind_option_cong)
  qed (use heap typed bound objs R(1) in \<open>simp_all add: rb_rep_def rb_bind_def e_alloc_def\<close>)
qed

section \<open>Release\<close>

lemma rb_empty_ok:
  assumes rep: "obj_rep e ns p v" and t: "type_of v = class_type (en_type en)" "en_type en \<noteq> CString" and io: "e_io x e Q"
  obtains e' where "rb_empty x p en e = Some e'" "emptied x e en p ns v Q e'"
proof (cases v)
  case (VString s)
  then have False
    using t by (cases "en_type en") simp_all
  then show thesis ..
next
  case (VList xs)
  then have "en_type en = CList"
    using t by (cases "en_type en") simp_all
  then show thesis
    using raw_rb_list_clear_ok [OF rep [unfolded VList] io, of en] that VList by (auto simp: rb_empty_def)
next
  case (VMap f)
  then have "en_type en = CHashmap"
    using t by (cases "en_type en") simp_all
  then show thesis
    using rb_hashmap_remove_ok [OF rep [unfolded VMap] io, of en] that VMap by (auto simp: rb_empty_def)
next
  case (VSet X)
  then have "en_type en = CSet"
    using t by (cases "en_type en") simp_all
  then show thesis
    using rb_set_remove_ok [OF rep [unfolded VSet] io, of en] that VSet by (auto simp: rb_empty_def)
qed

end
