(* ===== verification/RbRelease.thy ===== *)
theory RbRelease
  imports RbGc
begin

text \<open>The garbage collector takes an object, and a key is deleted from the database.\<close>

lemma heap_entry:
  assumes "rb_rep st D" "rb_ent st p = Some en"
  obtains ns v where "D p = Some (ns, v)" "obj_rep (rb_eng st) ns p v" "type_of v = class_type (en_type en)"
proof -
  note R = rb_repD [OF assms(1)]
  obtain ns v where "D p = Some (ns, v)"
    using rb_heap_okD(4) [OF R(2)] assms(2) by (metis domD domI surj_pair)
  then show thesis
    using that rb_heap_okD(1) [OF R(2)] R(3) assms(2) by (auto simp: typed_ok_def)
qed

lemma heap_disjoint:
  assumes "rb_heap_ok e E D" "D p = Some (ns, v)" "D q = Some (ms, w)" "q \<noteq> p"
  shows "set ms \<inter> set ns = {}"
  using rb_heap_okD(5) [OF assms(1,3,2,4)] .

text \<open>The content of an entry is removed and its memory released.\<close>

lemma rb_heap_ok_free:
  assumes h: "rb_heap_ok e E D" and d: "D p = Some (ns, v)" and m: "only e e' (set ns) p" "e_next e' = e_next e"
  shows "rb_heap_ok (e_free p e') (E(p := None)) (D(p := None))"
proof (rule rb_heap_ok_drop [OF h])
  show "only e (e_free p e') (set ns) p"
    using m(1) by (simp add: only_def e_free_def)
  show "set ms \<inter> set ns = {}" if "D q = Some (ms, w)" "q \<noteq> p" for q ms w
    using heap_disjoint [OF h d that] .
qed (use m(2) rb_heap_okD(3) [OF h] in \<open>simp add: e_free_def\<close>)

lemma rb_map_eq:
  assumes "rb_bind st' = rb_bind st" "\<And>k p. rb_bind st k = Some p \<Longrightarrow> map_option snd (D' p) = map_option snd (D p)"
  shows "rb_map st' D' = rb_map st D"
proof
  fix k
  show "rb_map st' D' k = rb_map st D k"
    using assms(1) assms(2) [of k] by (cases "rb_bind st k") (simp_all add: rb_map_def)
qed

text \<open>Entries without an object, and an entry that leaves the database.\<close>

lemma obj_at_no_obj:
  assumes "\<And>v. W v \<noteq> Some p" "\<And>en. eo = Some en \<Longrightarrow> en_released en \<longleftrightarrow> en_intree en"
  shows "obj_at W n p eo"
  using assms unfolding obj_at_def by blast

lemma obj_at_detach: "obj_at W n p (Some en) \<Longrightarrow> \<not> en_released en \<Longrightarrow> obj_at W n p (Some (en\<lparr>en_intree := False, en_obj := ob\<rparr>))"
  by (simp add: obj_at_def)

lemma removed_object:
  assumes "objs_ok W n E" "W v = Some p"
  shows "(W(v := None)) w \<noteq> Some p" "q \<noteq> p \<Longrightarrow> (W(v := None)) w = Some q \<longleftrightarrow> W w = Some q"
proof -
  show "(W(v := None)) w \<noteq> Some p"
  proof (cases "w = v")
    case False
    then show ?thesis
      using objs_okD(2) [OF assms(1) assms(2), of w] by force
  qed simp
  show "(W(v := None)) w = Some q \<longleftrightarrow> W w = Some q" if "q \<noteq> p"
    using that assms(2) by (cases "w = v") simp_all
qed

lemma bound_at_unbound:
  assumes "\<And>k. B k \<noteq> Some p" "\<And>en. eo = Some en \<Longrightarrow> \<not> en_intree en \<and> en_type en \<noteq> CString"
  shows "bound_at B p eo"
  using assms unfolding bound_at_def by blast

lemma removed_key:
  assumes "bound_ok B E" "B k = Some p"
  shows "(B(k := None)) k' \<noteq> Some p" "q \<noteq> p \<Longrightarrow> (B(k := None)) k' = Some q \<longleftrightarrow> B k' = Some q"
proof -
  show "(B(k := None)) k' \<noteq> Some p"
  proof (cases "k' = k")
    case False
    then show ?thesis
      using bound_once [OF assms, of k'] by force
  qed simp
  show "(B(k := None)) k' = Some q \<longleftrightarrow> B k' = Some q" if "q \<noteq> p"
    using that assms(2) by (cases "k' = k") simp_all
qed

section \<open>Release of an object\<close>

lemma rb_release_bound:
  assumes rep: "rb_rep st D" and en: "rb_entry v st = Some (p, en)" and tree: "en_intree en"
  obtains st' where "rb_release x v st = Some st'" "rb_rep st' D" "rb_bind st' = rb_bind st" "rb_eng st' = rb_eng st"
    "rb_obj st' = (rb_obj st)(v := None)" "rb_next st' = rb_next st"
proof -
  note R = rb_repD [OF rep]
  have e: "rb_obj st v = Some p" "rb_ent st p = Some en"
    using en by (simp_all add: rb_entry_iff)
  let ?en = "en\<lparr>en_released := True\<rparr>"
  let ?st = "rb_set_entry p ?en (st\<lparr>rb_obj := (rb_obj st)(v := None)\<rparr>)"
  have t: "en_type en \<noteq> CString"
    using objs_okD(1) [OF R(5) e(1)] e(2) by auto
  have "bound_at (rb_bind st) p (Some en)"
    using R(4) e(2) by (metis bound_ok_def)
  then have bound: "bound_ok (rb_bind st) ((rb_ent st)(p \<mapsto> ?en))"
    by (intro bound_ok_upd [OF R(4)]) (use t tree in \<open>auto simp: bound_at_def\<close>)
  have objs: "objs_ok ((rb_obj st)(v := None)) (rb_next st) ((rb_ent st)(p \<mapsto> ?en))"
    by (rule objs_ok_upd [OF R(5) removed_object(2) [OF R(5) e(1)]])
      (use tree in \<open>auto intro!: obj_at_no_obj removed_object(1) [OF R(5) e(1)] simp del: fun_upd_apply\<close>)
  show thesis
  proof (rule that [of ?st])
    show "rb_release x v st = Some ?st"
      using en tree by (simp add: rb_release_def)
    show "rb_rep ?st D"
      using R(1) rb_heap_ok_ent [OF R(2) e(2)] typed_ok_ent [OF R(3) e(2)] bound objs
      by (simp add: rb_rep_def rb_set_entry_def rb_bind_def)
  qed (simp_all add: rb_set_entry_def rb_bind_def)
qed

lemma rb_release_free:
  assumes rep: "rb_rep st D" and io: "e_io x (rb_eng st) Q" and en: "rb_entry v st = Some (p, en)"
    and d: "D p = Some (ns, w)" and tree: "\<not> en_intree en"
  obtains st' items where "rb_release x v st = Some st'" "rb_rep st' (D(p := None))" "rb_bind st' = rb_bind st"
    "rb_obj st' = (rb_obj st)(v := None)" "e_io x (rb_eng st') (Q @ items)" "mset items = told (e_load (rb_eng st)) en (drops w)"
    "rb_map st' (D(p := None)) = rb_map st D" "e_load (rb_eng st') = e_load (rb_eng st)" "e_next (rb_eng st') = e_next (rb_eng st)"
proof -
  note R = rb_repD [OF rep]
  have e: "rb_obj st v = Some p" "rb_ent st p = Some en"
    using en by (simp_all add: rb_entry_iff)
  have t: "en_type en \<noteq> CString"
    using objs_okD(1) [OF R(5) e(1)] e(2) by auto
  have nb: "rb_bind st k \<noteq> Some p" for k
    using not_bound [OF R(4) e(2) tree t] .
  have w: "obj_rep (rb_eng st) ns p w" "type_of w = class_type (en_type (en\<lparr>en_released := True\<rparr>))"
    using heap_entry [OF rep e(2)] d by auto
  obtain e' where em: "rb_empty x p (en\<lparr>en_released := True\<rparr>) (rb_eng st) = Some e'"
      "emptied x (rb_eng st) (en\<lparr>en_released := True\<rparr>) p ns w Q e'"
    using rb_empty_ok [OF w _ io] t by auto
  obtain items where items: "e_io x e' (Q @ items)" "mset items = told (e_load (rb_eng st)) en (drops w)"
    using em(2) by (auto simp: emptied_def told_def)
  let ?st = "st\<lparr>rb_obj := (rb_obj st)(v := None), rb_eng := e_free p e', rb_ent := (rb_ent st)(p := None)\<rparr>"
  have bound: "bound_ok (rb_bind st) ((rb_ent st)(p := None))"
    by (rule bound_ok_upd [OF R(4)]) (use nb in \<open>auto simp: bound_at_def\<close>)
  have objs: "objs_ok ((rb_obj st)(v := None)) (rb_next st) ((rb_ent st)(p := None))"
    by (rule objs_ok_upd [OF R(5) removed_object(2) [OF R(5) e(1)]])
      (use tree in \<open>auto intro!: obj_at_no_obj removed_object(1) [OF R(5) e(1)] simp del: fun_upd_apply\<close>)
  have heap: "rb_heap_ok (e_free p e') ((rb_ent st)(p := None)) (D(p := None))"
    by (rule rb_heap_ok_free [OF R(2) d]) (use em(2) in \<open>simp_all add: emptied_def\<close>)
  have bind: "rb_bind ?st = rb_bind st"
    using em(2) by (simp add: rb_bind_def e_free_def emptied_def)
  show thesis
  proof (rule that [of ?st])
    show "rb_release x v st = Some ?st"
      using en tree em(1) by (simp add: rb_release_def rb_entry_free_def rb_set_entry_def)
    show "rb_rep ?st (D(p := None))"
      using R(1) heap typed_ok_drop [OF R(3)] bound objs bind em(2)
      by (simp add: rb_rep_def e_free_def emptied_def)
    show "rb_map ?st (D(p := None)) = rb_map st D"
      by (rule rb_map_eq [OF bind]) (use nb in auto)
  qed (use bind items em(2) in \<open>simp_all add: e_free_def emptied_def\<close>)
qed

section \<open>Deleting a key\<close>

definition removes :: "val \<Rightarrow> notice multiset" where
  "removes v = (case v of VString s \<Rightarrow> {#(None, None, STRING_DEL)#} | _ \<Rightarrow> drops v)"

definition left_over :: "objs \<Rightarrow> ptr \<Rightarrow> val \<Rightarrow> objs" where
  "left_over D p v = (case v of VString s \<Rightarrow> D(p := None) | _ \<Rightarrow> D(p \<mapsto> ([], no_val v)))"

text \<open>\<^verbatim>\<open>raw_rb_db_delete\<close> on the entry of a key that has just been taken out of the database.\<close>

lemma raw_rb_db_delete_string:
  assumes rep: "rb_rep st D" and io: "e_io x (rb_eng st) Q" and k: "rb_bind st k = Some p" "rb_ent st p = Some en"
    and d: "D p = Some (ns, VString s)" and db: "db_ok db" "dbmap db = (rb_bind st)(k := None)"
  obtains st' items where "raw_rb_db_delete x p (st\<lparr>rb_eng := (rb_eng st)\<lparr>e_db := db\<rparr>\<rparr>) = Some st'" "rb_rep st' (D(p := None))"
    "rb_bind st' = (rb_bind st)(k := None)" "rb_obj st' = rb_obj st" "e_io x (rb_eng st') (Q @ items)"
    "mset items = told (e_load (rb_eng st)) en {#(None, None, STRING_DEL)#}"
    "e_load (rb_eng st') = e_load (rb_eng st)" "e_next (rb_eng st') = e_next (rb_eng st)"
    "\<And>q. q \<noteq> p \<Longrightarrow> rb_ent st' q = rb_ent st q"
proof -
  note R = rb_repD [OF rep]
  have "CONTAINER_STRING = class_type (en_type en)"
    using heap_entry [OF rep k(2)] d by auto
  then have t: "en_type en = CString"
    by (cases "en_type en") simp_all
  have key: "en_key en = Some k"
    using bound_okD(1) [OF R(4) k(1)] k(2) by auto
  let ?e = "(rb_eng st)\<lparr>e_db := db\<rparr>"
  have io': "e_io x ?e Q"
    using io by simp
  obtain b items where b: "rb_notice x en None None STRING_DEL ?e = Some (?e\<lparr>e_bio := b\<rparr>)" "e_io x (?e\<lparr>e_bio := b\<rparr>) (Q @ items)"
      "mset items = told (e_load ?e) en {#(None, None, STRING_DEL)#}"
    using rb_notice_ok [OF io'] .
  let ?st = "st\<lparr>rb_eng := e_free p (?e\<lparr>e_bio := b\<rparr>), rb_ent := (rb_ent st)(p := None)\<rparr>"
  have heap: "rb_heap_ok (e_free p (?e\<lparr>e_bio := b\<rparr>)) ((rb_ent st)(p := None)) (D(p := None))"
    by (rule rb_heap_ok_free [OF R(2) d]) (simp_all add: only_def)
  have bound: "bound_ok ((rb_bind st)(k := None)) ((rb_ent st)(p := None))"
    by (rule bound_ok_upd [OF R(4) removed_key(2) [OF R(4) k(1)]])
      (auto intro!: bound_at_unbound removed_key(1) [OF R(4) k(1)] simp del: fun_upd_apply)
  have no_obj: "rb_obj st v \<noteq> Some p" for v
    using objs_okD(1) [OF R(5), of v p] k(2) t by auto
  have objs: "objs_ok (rb_obj st) (rb_next st) ((rb_ent st)(p := None))"
    by (rule objs_ok_upd [OF R(5)]) (use no_obj in \<open>auto intro!: obj_at_no_obj\<close>)
  show thesis
  proof (rule that [of ?st])
    show "raw_rb_db_delete x p (st\<lparr>rb_eng := ?e\<rparr>) = Some ?st"
      using k(2) t b(1) key by (simp add: raw_rb_db_delete_def rb_set_entry_def rb_entry_free_def rb_notice_def)
    show "rb_rep ?st (D(p := None))"
      using db heap typed_ok_drop [OF R(3)] bound objs by (simp add: rb_rep_def e_free_def rb_bind_def)
  qed (use db b in \<open>simp_all add: rb_bind_def e_free_def\<close>)
qed

lemma raw_rb_db_delete_object:
  assumes rep: "rb_rep st D" and io: "e_io x (rb_eng st) Q" and k: "rb_bind st k = Some p" "rb_ent st p = Some en"
    and d: "D p = Some (ns, v)" and t: "en_type en \<noteq> CString" "\<not> en_released en"
    and db: "db_ok db" "dbmap db = (rb_bind st)(k := None)"
  obtains st' items where "raw_rb_db_delete x p (st\<lparr>rb_eng := (rb_eng st)\<lparr>e_db := db\<rparr>\<rparr>) = Some st'"
    "rb_rep st' (D(p \<mapsto> ([], no_val v)))"
    "rb_bind st' = (rb_bind st)(k := None)" "rb_obj st' = rb_obj st" "e_io x (rb_eng st') (Q @ items)"
    "mset items = told (e_load (rb_eng st)) en (drops v)"
    "e_load (rb_eng st') = e_load (rb_eng st)" "e_next (rb_eng st') = e_next (rb_eng st)"
    "\<And>q. q \<noteq> p \<Longrightarrow> rb_ent st' q = rb_ent st q"
proof -
  note R = rb_repD [OF rep]
  let ?e = "(rb_eng st)\<lparr>e_db := db\<rparr>" and ?en = "en\<lparr>en_intree := False\<rparr>"
  have v: "obj_rep ?e ns p v" "type_of v = class_type (en_type ?en)"
    using heap_entry [OF rep k(2)] d by (auto simp: obj_rep_def)
  have io': "e_io x ?e Q"
    using io by simp
  obtain e' where em: "rb_empty x p ?en ?e = Some e'" "emptied x ?e ?en p ns v Q e'"
    using rb_empty_ok [OF v _ io'] t(1) by auto
  obtain items where items: "e_io x e' (Q @ items)" "mset items = told (e_load (rb_eng st)) en (drops v)"
    using em(2) by (auto simp: emptied_def told_def)
  let ?en2 = "?en\<lparr>en_obj := Qnil\<rparr>"
  let ?st = "st\<lparr>rb_eng := e', rb_ent := (rb_ent st)(p \<mapsto> ?en2)\<rparr>"
  have heap: "rb_heap_ok e' ((rb_ent st)(p \<mapsto> ?en2)) (D(p \<mapsto> ([], no_val v)))"
  proof (rule rb_heap_ok_put [OF R(2)])
    show "only (rb_eng st) e' (set ns) p"
      using em(2) by (simp add: emptied_def only_def)
    show "set ms \<inter> set ns = {}" if "D q = Some (ms, w)" "q \<noteq> p" for q ms w
      using heap_disjoint [OF R(2) d that] .
  qed (use em(2) rb_heap_okD(3) [OF R(2)] in \<open>simp_all add: emptied_def\<close>)
  have typed: "typed_ok ((rb_ent st)(p \<mapsto> ?en2)) (D(p \<mapsto> ([], no_val v)))"
    by (rule typed_ok_put [OF R(3)]) (use v(2) in simp)
  have bound: "bound_ok ((rb_bind st)(k := None)) ((rb_ent st)(p \<mapsto> ?en2))"
    by (rule bound_ok_upd [OF R(4) removed_key(2) [OF R(4) k(1)]])
      (use t in \<open>auto intro!: bound_at_unbound removed_key(1) [OF R(4) k(1)] simp del: fun_upd_apply\<close>)
  have "obj_at (rb_obj st) (rb_next st) p (Some en)"
    using R(5) k(2) by (metis objs_ok_def)
  then have objs: "objs_ok (rb_obj st) (rb_next st) ((rb_ent st)(p \<mapsto> ?en2))"
    by (intro objs_ok_upd [OF R(5)]) (use t(2) in \<open>simp_all add: obj_at_detach\<close>)
  show thesis
  proof (rule that [of ?st])
    show "raw_rb_db_delete x p (st\<lparr>rb_eng := ?e\<rparr>) = Some ?st"
      using k(2) t em(1) by (simp add: raw_rb_db_delete_def rb_set_entry_def rb_free_def)
    show "rb_rep ?st (D(p \<mapsto> ([], no_val v)))"
      using db heap typed bound objs em(2) by (simp add: rb_rep_def rb_bind_def emptied_def)
  qed (use db items em(2) in \<open>simp_all add: rb_bind_def emptied_def\<close>)
qed

text \<open>Both cases together; the entry of an object must not have been released.\<close>

definition deletable :: "rb \<Rightarrow> string \<Rightarrow> bool" where
  "deletable st k \<longleftrightarrow> (case Option.bind (rb_bind st k) (rb_ent st) of None \<Rightarrow> True | Some en \<Rightarrow> \<not> en_released en)"

lemma raw_rb_db_delete_ok:
  assumes rep: "rb_rep st D" and io: "e_io x (rb_eng st) Q" and k: "rb_bind st k = Some p" "rb_ent st p = Some en"
    and d: "D p = Some (ns, v)" and del: "deletable st k" and db: "db_ok db" "dbmap db = (rb_bind st)(k := None)"
  obtains st' items where "raw_rb_db_delete x p (st\<lparr>rb_eng := (rb_eng st)\<lparr>e_db := db\<rparr>\<rparr>) = Some st'"
    "rb_rep st' (left_over D p v)" "rb_bind st' = (rb_bind st)(k := None)" "rb_obj st' = rb_obj st"
    "e_io x (rb_eng st') (Q @ items)" "mset items = told (e_load (rb_eng st)) en (removes v)"
    "e_load (rb_eng st') = e_load (rb_eng st)" "e_next (rb_eng st') = e_next (rb_eng st)"
    "\<And>q. q \<noteq> p \<Longrightarrow> rb_ent st' q = rb_ent st q"
proof (cases "type_of v = CONTAINER_STRING")
  case True
  then obtain s where v: "v = VString s"
    by (cases v) simp_all
  have "left_over D p v = D(p := None)" "removes v = {#(None, None, STRING_DEL)#}"
    by (simp_all add: v left_over_def removes_def)
  then show thesis
    by (metis (no_types, lifting) raw_rb_db_delete_string [OF rep io k d [unfolded v] db] that)
next
  case False
  have "type_of v = class_type (en_type en)"
    using heap_entry [OF rep k(2)] d by auto
  then have t: "en_type en \<noteq> CString" "\<not> en_released en"
    using False del k by (auto simp: deletable_def)
  have "left_over D p v = D(p \<mapsto> ([], no_val v))" "removes v = drops v"
    using False by (cases v; simp add: left_over_def removes_def)+
  then show thesis
    by (metis (no_types, lifting) raw_rb_db_delete_object [OF rep io k d t db] that)
qed

lemma bound_entry:
  assumes "rb_rep st D" "rb_bind st k = Some p"
  obtains en ns v where "rb_ent st p = Some en" "en_key en = Some k" "D p = Some (ns, v)" "obj_rep (rb_eng st) ns p v"
    "type_of v = class_type (en_type en)" "rb_map st D k = Some v"
proof -
  obtain en where en: "rb_ent st p = Some en" "en_key en = Some k"
    using bound_okD(1) [OF rb_repD(4) [OF assms(1)] assms(2)] by blast
  show thesis
    by (rule heap_entry [OF assms(1) en(1)]) (rule that [OF en], simp_all add: rb_map_def assms(2))
qed

text \<open>The other keys keep their values.\<close>

lemma rb_map_delete:
  assumes "rb_rep st D" "rb_bind st k = Some p" "rb_bind st' = (rb_bind st)(k := None)" "\<And>q. q \<noteq> p \<Longrightarrow> D' q = D q"
  shows "rb_map st' D' = (rb_map st D)(k := None)"
proof
  fix k'
  show "rb_map st' D' k' = ((rb_map st D)(k := None)) k'"
  proof (cases "rb_bind st k'")
    case (Some q)
    show ?thesis
    proof (cases "k' = k")
      case False
      then have "D' q = D q"
        using assms(4) [of q] bound_once [OF rb_repD(4) [OF assms(1)] assms(2), of k'] Some by fastforce
      then show ?thesis
        using False Some assms(3) by (simp add: rb_map_def)
    qed (simp add: rb_map_def assms(3))
  qed (use assms(3) in \<open>simp add: rb_map_def\<close>)
qed

lemma left_over_other: "q \<noteq> p \<Longrightarrow> left_over D p v q = D q"
  by (cases v) (simp_all add: left_over_def)

lemma e_delete_bind:
  assumes "rb_rep st D"
  obtains db where "e_delete k (rb_eng st) = Some (if rb_bind st k = None then -1 else 0, rb_bind st k, (rb_eng st)\<lparr>e_db := db\<rparr>)"
    "db_ok db" "dbmap db = (rb_bind st)(k := None)"
  using e_delete_ok [OF rb_repD(1) [OF assms], of k] by (auto simp: rb_bind_def)

text \<open>A step of the dictionary that leaves the map as it is.\<close>

lemma rb_heap_ok_db [simp]: "rb_heap_ok (e\<lparr>e_db := db\<rparr>) = rb_heap_ok e"
  by (simp add: fun_eq_iff rb_heap_ok_def obj_rep_def)

lemma rb_rep_db:
  assumes "rb_rep st D" "db_ok db" "dbmap db = rb_bind st"
  shows "rb_rep (st\<lparr>rb_eng := (rb_eng st)\<lparr>e_db := db\<rparr>\<rparr>) D" "rb_bind (st\<lparr>rb_eng := (rb_eng st)\<lparr>e_db := db\<rparr>\<rparr>) = rb_bind st"
    "rb_map (st\<lparr>rb_eng := (rb_eng st)\<lparr>e_db := db\<rparr>\<rparr>) D = rb_map st D"
proof -
  have b: "rb_bind (st\<lparr>rb_eng := (rb_eng st)\<lparr>e_db := db\<rparr>\<rparr>) = rb_bind st"
    using assms(3) by (simp add: rb_bind_def)
  then show "rb_bind (st\<lparr>rb_eng := (rb_eng st)\<lparr>e_db := db\<rparr>\<rparr>) = rb_bind st"
    "rb_map (st\<lparr>rb_eng := (rb_eng st)\<lparr>e_db := db\<rparr>\<rparr>) D = rb_map st D"
    by (simp_all add: rb_map_def fun_eq_iff)
  show "rb_rep (st\<lparr>rb_eng := (rb_eng st)\<lparr>e_db := db\<rparr>\<rparr>) D"
    using assms(1,2) b by (simp add: rb_rep_def)
qed

lemma rb_db_delete_ok:
  assumes rep: "rb_rep st D" and io: "e_io x (rb_eng st) Q" and del: "deletable st k"
  obtains st' D' items where "rb_db_delete x k st = Some (if rb_map st D k = None then Qnil else RText k, st')" "rb_rep st' D'"
    "rb_map st' D' = (rb_map st D)(k := None)" "rb_bind st' = (rb_bind st)(k := None)" "rb_obj st' = rb_obj st"
    "e_io x (rb_eng st') (Q @ items)"
    "mset items = (case rb_map st D k of Some v \<Rightarrow> if e_load (rb_eng st)
       then image_mset (\<lambda>(arg, data, op). (Some k, arg, data, op)) (removes v) else {#} | None \<Rightarrow> {#})"
    "e_next (rb_eng st') = e_next (rb_eng st)"
proof -
  obtain db where db: "e_delete k (rb_eng st) = Some (if rb_bind st k = None then -1 else 0, rb_bind st k, (rb_eng st)\<lparr>e_db := db\<rparr>)"
      "db_ok db" "dbmap db = (rb_bind st)(k := None)"
    using e_delete_bind [OF rep] .
  show thesis
  proof (cases "rb_bind st k")
    case None
    let ?st = "st\<lparr>rb_eng := (rb_eng st)\<lparr>e_db := db\<rparr>\<rparr>"
    have m: "dbmap db = rb_bind st" "rb_map st D k = None"
      using db(3) None by (simp_all add: fun_upd_idem rb_map_def)
    have "rb_db_delete x k st = Some (Qnil, ?st)"
      using db(1) None by (simp add: rb_db_delete_def)
    then show thesis
      using that [of ?st D "[]"] rb_rep_db [OF rep db(2) m(1)] io None m by (simp add: fun_upd_idem)
  next
    case (Some p)
    obtain en ns v where en: "rb_ent st p = Some en" "en_key en = Some k" "D p = Some (ns, v)" "rb_map st D k = Some v"
      using bound_entry [OF rep Some] by metis
    obtain st' items where r: "raw_rb_db_delete x p (st\<lparr>rb_eng := (rb_eng st)\<lparr>e_db := db\<rparr>\<rparr>) = Some st'"
        "rb_rep st' (left_over D p v)" "rb_bind st' = (rb_bind st)(k := None)" "rb_obj st' = rb_obj st"
        "e_io x (rb_eng st') (Q @ items)" "mset items = told (e_load (rb_eng st)) en (removes v)"
        "e_load (rb_eng st') = e_load (rb_eng st)" "e_next (rb_eng st') = e_next (rb_eng st)"
      using raw_rb_db_delete_ok [OF rep io Some en(1,3) del db(2,3)] by metis
    have "rb_db_delete x k st = Some (RText k, st')"
      using db(1) Some r(1) by (simp add: rb_db_delete_def)
    moreover have "rb_map st' (left_over D p v) = (rb_map st D)(k := None)"
      by (rule rb_map_delete [OF rep Some r(3)]) (rule left_over_other)
    ultimately show thesis
      using that [of st' "left_over D p v" items] r en by (simp add: told_def)
  qed
qed

text \<open>
  Deleting a key whose object the garbage collector has taken writes to the entry after it was freed.
\<close>

lemma rb_db_delete_released:
  assumes rep: "rb_rep st D" and io: "e_io x (rb_eng st) Q" and k: "\<not> deletable st k"
  shows "rb_db_delete x k st = None"
proof -
  obtain p en where p: "rb_bind st k = Some p" "rb_ent st p = Some en" "en_released en"
    using k by (auto simp: deletable_def split: option.splits bind_splits)
  note R = rb_repD [OF rep]
  have t: "en_type en \<noteq> CString"
    using bound_okD(3) [OF R(4) p(2)] p(3) by auto
  obtain db where db: "e_delete k (rb_eng st) = Some (0, Some p, (rb_eng st)\<lparr>e_db := db\<rparr>)"
    using e_delete_bind [OF rep, of k] p(1) by auto
  let ?e = "(rb_eng st)\<lparr>e_db := db\<rparr>" and ?en = "en\<lparr>en_intree := False\<rparr>"
  obtain ns v where "obj_rep (rb_eng st) ns p v" "type_of v = class_type (en_type en)"
    using heap_entry [OF rep p(2)] by metis
  then have v: "obj_rep ?e ns p v" "type_of v = class_type (en_type ?en)"
    by (simp_all add: obj_rep_def)
  have io': "e_io x ?e Q"
    using io by simp
  obtain e' where "rb_empty x p ?en ?e = Some e'"
    using rb_empty_ok [OF v _ io'] t by auto
  then show ?thesis
    using db p t by (simp add: rb_db_delete_def raw_rb_db_delete_def rb_set_entry_def rb_free_def rb_entry_free_def)
qed

end
