(* ===== verification/RbDb.thy ===== *)
theory RbDb
  imports RbRelease
begin

text \<open>The database object: reading and storing keys (\<^verbatim>\<open>ext/xfiredb-serv/database.c\<close>).\<close>

section \<open>Writing out a container\<close>

definition adds :: "val \<Rightarrow> notice multiset" where
  "adds v =
     (case v of
        VString s \<Rightarrow> {#(None, Some s, STRING_ADD)#}
      | VList xs \<Rightarrow> image_mset (\<lambda>s. (None, Some s, LIST_ADD)) (mset xs)
      | VMap f \<Rightarrow> image_mset (\<lambda>k. (Some k, f k, HM_ADD)) (mset_set (dom f))
      | VSet X \<Rightarrow> image_mset (\<lambda>k. (Some k, None, SET_ADD)) (mset_set X))"

definition told_key :: "string \<Rightarrow> notice multiset \<Rightarrow> bio_item multiset" where
  "told_key k ns = image_mset (\<lambda>(arg, data, op). (Some k, arg, data, op)) ns"

lemma told_key_add [simp]: "told_key k (add_mset (a, d, op) ns) = add_mset (Some k, a, d, op) (told_key k ns)"
  by (simp add: told_key_def)

lemma told_key_empty [simp]: "told_key k {#} = {#}"
  by (simp add: told_key_def)

lemma store_list_entries_ok:
  assumes "map (str_at (e_strs e)) ns = map Some xs" "e_io x e Q"
  shows "\<exists>b items. store_list_entries x k ns e = Some (e\<lparr>e_bio := b\<rparr>) \<and> e_io x (e\<lparr>e_bio := b\<rparr>) (Q @ items) \<and>
    mset items = told_key k (image_mset (\<lambda>s. (None, Some s, LIST_ADD)) (mset xs))"
  using assms
proof (induction ns arbitrary: xs e Q)
  case Nil
  then show ?case
    by (intro exI [of _ "e_bio e"] exI [of _ "[]"]) simp
next
  case (Cons n ns)
  then obtain y ys where xs: "xs = y # ys" "str_at (e_strs e) n = Some y" "map (str_at (e_strs e)) ns = map Some ys"
    by (cases xs) auto
  let ?item = "(Some k, None, Some y, LIST_ADD)"
  obtain b where b: "e_queue x ?item e = Some (e\<lparr>e_bio := b\<rparr>)" "e_io x (e\<lparr>e_bio := b\<rparr>) (Q @ [?item])"
    using e_queueE [OF Cons.prems(2)] .
  obtain b' items where IH: "store_list_entries x k ns (e\<lparr>e_bio := b\<rparr>) = Some (e\<lparr>e_bio := b'\<rparr>)"
      "e_io x (e\<lparr>e_bio := b'\<rparr>) ((Q @ [?item]) @ items)"
      "mset items = told_key k (image_mset (\<lambda>s. (None, Some s, LIST_ADD)) (mset ys))"
    using Cons.IH [of "e\<lparr>e_bio := b\<rparr>" ys "Q @ [?item]"] xs(3) b(2) by auto
  then show ?case
    using b(1) xs by (intro exI [of _ b'] exI [of _ "?item # items"]) simp
qed

lemma store_map_entries_ok:
  assumes "chain (\<lambda>a. fwd (s_heap (h_list m)) a 1) (it_current it # ys @ [HEADER])" "HEADER \<notin> set ys" "NULL \<notin> set ys"
    and "\<And>y. y \<in> set ys \<Longrightarrow> h_key m y = Some (kf y) \<and> str_at (e_strs e) y = f (kf y) \<and> f (kf y) \<noteq> None" "e_io x e Q"
  shows "\<exists>b items. store_map_entries x k m it e = Some (e\<lparr>e_bio := b\<rparr>) \<and> e_io x (e\<lparr>e_bio := b\<rparr>) (Q @ items) \<and>
    mset items = told_key k (image_mset (\<lambda>j. (Some j, f j, HM_ADD)) (image_mset kf (mset ys)))"
  using assms
proof (induction ys arbitrary: it e Q)
  case Nil
  then show ?case
    by (intro exI [of _ "e_bio e"] exI [of _ "[]"])
      (subst store_map_entries.simps, simp add: hashmap_iterator_next_def skiplist_iterator_next_def chain_def xdb_defs)
next
  case (Cons y ys)
  let ?it = "\<lparr>it_prev = it_current it, it_current = y\<rparr>"
  have nx: "hashmap_iterator_next m it = Some (y, ?it)" "y \<noteq> NULL"
    using Cons.prems(1-3) by (auto simp: hashmap_iterator_next_def skiplist_iterator_next_def chain_def)
  obtain s where s: "h_key m y = Some (kf y)" "str_at (e_strs e) y = Some s" "f (kf y) = Some s"
    using Cons.prems(4) [of y] by auto
  let ?item = "(Some k, Some (kf y), Some s, HM_ADD)"
  obtain b where b: "e_queue x ?item e = Some (e\<lparr>e_bio := b\<rparr>)" "e_io x (e\<lparr>e_bio := b\<rparr>) (Q @ [?item])"
    using e_queueE [OF Cons.prems(5)] .
  have ch: "chain (\<lambda>a. fwd (s_heap (h_list m)) a 1) (it_current ?it # ys @ [HEADER])"
    using Cons.prems(1) by (simp add: chain_def)
  obtain b' items where IH: "store_map_entries x k m ?it (e\<lparr>e_bio := b\<rparr>) = Some (e\<lparr>e_bio := b'\<rparr>)"
      "e_io x (e\<lparr>e_bio := b'\<rparr>) ((Q @ [?item]) @ items)"
      "mset items = told_key k (image_mset (\<lambda>j. (Some j, f j, HM_ADD)) (image_mset kf (mset ys)))"
    using Cons.IH [OF ch _ _ _ b(2)] Cons.prems(2-4) by auto
  have "store_map_entries x k m it e = Some (e\<lparr>e_bio := b'\<rparr>)"
    using nx s b(1) IH(1) by (subst store_map_entries.simps) simp
  then show ?case
    using IH(2,3) s(3) by (intro exI [of _ b'] exI [of _ "?item # items"]) simp
qed

lemma store_set_entries_ok:
  assumes "chain (\<lambda>a. fwd (s_heap (set_list s)) a 1) (it_current it # ys @ [HEADER])" "HEADER \<notin> set ys" "NULL \<notin> set ys"
    and "\<And>y. y \<in> set ys \<Longrightarrow> set_key s y = Some (kf y)" "e_io x e Q"
  shows "\<exists>b items. store_set_entries x k s it e = Some (e\<lparr>e_bio := b\<rparr>) \<and> e_io x (e\<lparr>e_bio := b\<rparr>) (Q @ items) \<and>
    mset items = told_key k (image_mset (\<lambda>j. (Some j, None, SET_ADD)) (image_mset kf (mset ys)))"
  using assms
proof (induction ys arbitrary: it e Q)
  case Nil
  then show ?case
    by (intro exI [of _ "e_bio e"] exI [of _ "[]"])
      (subst store_set_entries.simps, simp add: set_iterator_next_def skiplist_iterator_next_def chain_def xdb_defs)
next
  case (Cons y ys)
  let ?it = "\<lparr>it_prev = it_current it, it_current = y\<rparr>" and ?item = "(Some k, Some (kf y), None, SET_ADD)"
  have nx: "set_iterator_next s it = Some (y, ?it)" "y \<noteq> NULL"
    using Cons.prems(1-3) by (auto simp: set_iterator_next_def skiplist_iterator_next_def chain_def)
  obtain b where b: "e_queue x ?item e = Some (e\<lparr>e_bio := b\<rparr>)" "e_io x (e\<lparr>e_bio := b\<rparr>) (Q @ [?item])"
    using e_queueE [OF Cons.prems(5)] .
  have ch: "chain (\<lambda>a. fwd (s_heap (set_list s)) a 1) (it_current ?it # ys @ [HEADER])"
    using Cons.prems(1) by (simp add: chain_def)
  obtain b' items where IH: "store_set_entries x k s ?it (e\<lparr>e_bio := b\<rparr>) = Some (e\<lparr>e_bio := b'\<rparr>)"
      "e_io x (e\<lparr>e_bio := b'\<rparr>) ((Q @ [?item]) @ items)"
      "mset items = told_key k (image_mset (\<lambda>j. (Some j, None, SET_ADD)) (image_mset kf (mset ys)))"
    using Cons.IH [OF ch _ _ _ b(2)] Cons.prems(2-4) by auto
  have "store_set_entries x k s it e = Some (e\<lparr>e_bio := b'\<rparr>)"
    using nx Cons.prems(4) [of y] b(1) IH(1) by (subst store_set_entries.simps) simp
  then show ?case
    using IH(2,3) by (intro exI [of _ b'] exI [of _ "?item # items"]) simp
qed

lemma map_nodes:
  assumes ok: "hm_ok (m\<lparr>h_num := z\<rparr>) ns" "set ns \<subseteq> dom (str_at strs)" and y: "y \<in> set ns"
  shows "h_key m y = Some (the (h_key m y)) \<and> str_at strs y = map_val strs m ns (the (h_key m y)) \<and>
    map_val strs m ns (the (h_key m y)) \<noteq> None"
proof -
  have sl: "sl_ok (h_list m) ns" "keyed (h_list m) ns (h_key m)"
    using ok(1) by (simp_all add: hm_ok_def)
  obtain k where k: "nkey (s_heap (h_list m)) y = Some k"
    using sl_node_key [OF sl(1) y] by metis
  have n: "smap (h_list m) ns k = Some y"
    using smap_node [OF sl(1) y k] .
  then have "h_key m y = Some k"
    using sl(2) by (simp add: keyed_def)
  then show ?thesis
    using n ok(2) y by (auto simp: map_val_def hmap_def)
qed

lemma xfiredb_store_container_ok:
  assumes v: "obj_val (e_strs e) c ns v" and io: "e_io x e Q"
  obtains b items where "xfiredb_store_container x k c e = Some (e\<lparr>e_bio := b\<rparr>)" "e_io x (e\<lparr>e_bio := b\<rparr>) (Q @ items)"
    "mset items = (if e_load e then told_key k (adds v) else {#})"
proof (cases "e_load e")
  case False
  then show thesis
    using that [of "e_bio e" "[]"] io by (simp add: xfiredb_store_container_def)
next
  case True
  have "\<exists>b items. xfiredb_store_container x k c e = Some (e\<lparr>e_bio := b\<rparr>) \<and> e_io x (e\<lparr>e_bio := b\<rparr>) (Q @ items) \<and>
    mset items = told_key k (adds v)"
  proof (cases v)
    case (VString s)
    then obtain d where d: "get_string c = Some d" "c_type c = CONTAINER_STRING" "string_get d = Some s"
      using v by (auto simp: obj_val_string)
    obtain b where "e_queue x (Some k, None, Some s, STRING_ADD) e = Some (e\<lparr>e_bio := b\<rparr>)"
        "e_io x (e\<lparr>e_bio := b\<rparr>) (Q @ [(Some k, None, Some s, STRING_ADD)])"
      using e_queueE [OF io] .
    then show ?thesis
      using d True VString
      by (intro exI [of _ b] exI [of _ "[(Some k, None, Some s, STRING_ADD)]"]) (simp add: xfiredb_store_container_def adds_def)
  next
    case (VList xs)
    then obtain l where l: "get_list c = Some l" "c_type c = CONTAINER_LIST" "is_list l ns"
        "map (str_at (e_strs e)) ns = map Some xs"
      using v by (auto simp: obj_val_list)
    then show ?thesis
      using store_list_entries_ok [OF l(4) io, of k] True VList list_for_each_ok(1) [OF l(3)]
      by (simp add: xfiredb_store_container_def adds_def)
  next
    case (VMap f)
    then obtain m where m: "get_map c = Some m" "c_type c = CONTAINER_HASHMAP" "hm_ok (m\<lparr>h_num := of_nat (length ns)\<rparr>) ns"
        "set ns \<subseteq> dom (str_at (e_strs e))" "f = map_val (e_strs e) m ns"
      using v by (auto simp: obj_val_map)
    have sl: "sl_ok (h_list m) ns" "keyed (h_list m) ns (h_key m)"
      using m(3) by (simp_all add: hm_ok_def)
    have ch: "chain (\<lambda>a. fwd (s_heap (h_list m)) a 1) (it_current (hashmap_new_iterator m) # ns @ [HEADER])"
        "HEADER \<notin> set ns" "NULL \<notin> set ns"
      using sl_chain_1 [OF sl(1)] sl(1) by (auto simp: sl_ok_def hashmap_new_iterator_def skiplist_iterator_new_def)
    have keys: "image_mset (\<lambda>y. the (h_key m y)) (mset ns) = mset_set (dom f)"
      using set_keys_mset(2) [OF sl] map_val_dom [OF m(3,4)] m(5) by simp
    show ?thesis
      using store_map_entries_ok [OF ch map_nodes [OF m(3,4)] io, of k] True VMap m(1,2) unfolding keys m(5) [symmetric]
      by (simp add: xfiredb_store_container_def adds_def)
  next
    case (VSet X)
    then obtain s where s: "get_set c = Some s" "c_type c = CONTAINER_SET" "set_ok (s\<lparr>set_num := of_nat (length ns)\<rparr>) ns"
        "X = members s ns"
      using v by (auto simp: obj_val_set)
    have sl: "sl_ok (set_list s) ns" "keyed (set_list s) ns (set_key s)"
      using s(3) by (simp_all add: set_ok_def)
    have ch: "chain (\<lambda>a. fwd (s_heap (set_list s)) a 1) (it_current (set_iterator_new s) # ns @ [HEADER])"
        "HEADER \<notin> set ns" "NULL \<notin> set ns"
      using sl_chain_1 [OF sl(1)] sl(1) by (auto simp: sl_ok_def set_iterator_new_def skiplist_iterator_new_def)
    have keys: "image_mset (\<lambda>y. the (set_key s y)) (mset ns) = mset_set X"
      using set_keys_mset(2) [OF sl] s(4) by (simp add: members_def)
    show ?thesis
      using store_set_entries_ok [OF ch set_keys_mset(1) [OF sl] io, of k] True VSet s(1,2) unfolding keys
      by (simp add: xfiredb_store_container_def adds_def)
  qed
  then show thesis
    using that True by auto
qed

section \<open>Reading a key\<close>

lemma e_lookup_bind:
  assumes "rb_rep st D"
  obtains db where "e_lookup k (rb_eng st) = Some (if rb_bind st k = None then -1 else 0, rb_bind st k, (rb_eng st)\<lparr>e_db := db\<rparr>)"
    "db_ok db" "dbmap db = rb_bind st"
  using db.look_law [of "e_db (rb_eng st)" k] rb_repD(1) [OF assms] by (auto simp: e_lookup_def rb_bind_def)

text \<open>A released entry gets a new object.\<close>

lemma rewrap:
  assumes rep: "rb_rep st D" and p: "rb_bind st k = Some p" "rb_ent st p = Some en" and rel: "en_released en"
  obtains st' where "rb_container_to_obj p st = Some (RObj (rb_next st), st')" "rb_rep st' D" "rb_bind st' = rb_bind st"
    "rb_obj st' = (rb_obj st)(rb_next st \<mapsto> p)" "rb_eng st' = rb_eng st"
proof -
  note R = rb_repD [OF rep]
  let ?en = "en\<lparr>en_obj := RObj (rb_next st), en_released := False\<rparr>"
  let ?st = "st\<lparr>rb_obj := (rb_obj st)(rb_next st \<mapsto> p), rb_next := rb_next st + 1, rb_ent := (rb_ent st)(p \<mapsto> ?en)\<rparr>"
  have t: "en_type en \<noteq> CString" "en_intree en"
    using bound_okD(3) [OF R(4) p(2)] objs_okD(4) [OF R(5) p(2)] rel by auto
  have no_obj: "rb_obj st v \<noteq> Some p" for v
    using objs_okD(1) [OF R(5), of v p] p(2) rel by auto
  have new: "rb_obj st (rb_next st) = None"
    using objs_okD(1) [OF R(5), of "rb_next st"] by (cases "rb_obj st (rb_next st)") auto
  have "bound_at (rb_bind st) p (Some en)"
    using R(4) p(2) by (metis bound_ok_def)
  then have bound: "bound_ok (rb_bind st) ((rb_ent st)(p \<mapsto> ?en))"
    by (intro bound_ok_upd [OF R(4)]) (use t in \<open>simp_all add: bound_at_def\<close>)
  have at: "obj_at ((rb_obj st)(rb_next st \<mapsto> p)) (rb_next st + 1) p (Some ?en)"
    using no_obj t by (simp add: obj_at_def)
  have objs: "objs_ok ((rb_obj st)(rb_next st \<mapsto> p)) (rb_next st + 1) ((rb_ent st)(p \<mapsto> ?en))"
  proof (rule objs_ok_upd [OF R(5) _ _ at])
    show "((rb_obj st)(rb_next st \<mapsto> p)) v = Some q \<longleftrightarrow> rb_obj st v = Some q" if "q \<noteq> p" for q v
      using that new by (cases "v = rb_next st") simp_all
  qed simp
  show thesis
  proof (rule that [of ?st])
    show "rb_container_to_obj p st = Some (RObj (rb_next st), ?st)"
      using p(2) rel by (simp add: rb_container_to_obj_def rb_wrap_def rb_set_entry_def)
    show "rb_rep ?st D"
      using R(1) rb_heap_ok_ent [OF R(2) p(2)] typed_ok_ent [OF R(3) p(2)] bound objs by (simp add: rb_rep_def rb_bind_def)
  qed (simp_all add: rb_bind_def)
qed

text \<open>The answer to reading a key: nothing, the text of a string, or an object of the entry of the key.\<close>

definition shows_key :: "rb \<Rightarrow> string \<Rightarrow> val option \<Rightarrow> rval \<Rightarrow> bool" where
  "shows_key st k vo r \<longleftrightarrow>
     (case vo of
        None \<Rightarrow> r = Qnil
      | Some (VString s) \<Rightarrow> r = RText s
      | Some _ \<Rightarrow> \<exists>v p. r = RObj v \<and> rb_obj st v = Some p \<and> rb_bind st k = Some p)"

lemma shows_key_mono:
  "shows_key st k vo r \<Longrightarrow> rb_obj st \<subseteq>\<^sub>m rb_obj st' \<Longrightarrow> rb_bind st' = rb_bind st \<Longrightarrow> shows_key st' k vo r"
  by (auto simp: shows_key_def map_le_def dom_def split: option.splits val.splits)

lemma rb_entry_value_ok:
  assumes rep: "rb_rep st D" and p: "rb_bind st k = Some p"
  obtains r st' where "rb_entry_value p st = Some (r, st')" "rb_rep st' D" "rb_bind st' = rb_bind st" "rb_map st' D = rb_map st D"
    "shows_key st' k (rb_map st D k) r" "rb_obj st \<subseteq>\<^sub>m rb_obj st'" "rb_eng st' = rb_eng st"
proof -
  obtain en ns v where en: "rb_ent st p = Some en" "D p = Some (ns, v)" "obj_rep (rb_eng st) ns p v"
      "type_of v = class_type (en_type en)" "rb_map st D k = Some v"
    using bound_entry [OF rep p] by metis
  show thesis
  proof (cases "en_type en = CString")
    case True
    then obtain s where v: "v = VString s"
      using en(4) by (cases v) simp_all
    obtain c d where "e_cont (rb_eng st) p = Some c" "get_string c = Some d" "string_get d = Some s"
      using en(3) v by (auto simp: obj_rep_def obj_val_string)
    then have "rb_entry_value p st = Some (RText s, st)"
      using en(1) True by (simp add: rb_entry_value_def)
    then show thesis
      using that [of "RText s" st] rep en(5) v by (simp add: shows_key_def)
  next
    case False
    then have v: "shows_key st' k (Some v) r \<longleftrightarrow> (\<exists>w p. r = RObj w \<and> rb_obj st' w = Some p \<and> rb_bind st' k = Some p)" for st' r
      using en(4) by (cases v; cases "en_type en") (simp_all add: shows_key_def)
    have ref: "rb_entry_value p st = rb_container_to_obj p st"
      using en(1) False by (simp add: rb_entry_value_def)
    show thesis
    proof (cases "en_released en")
      case True
      obtain st' where st': "rb_container_to_obj p st = Some (RObj (rb_next st), st')" "rb_rep st' D" "rb_bind st' = rb_bind st"
          "rb_obj st' = (rb_obj st)(rb_next st \<mapsto> p)" "rb_eng st' = rb_eng st"
        using rewrap [OF rep p en(1) True] .
      have "rb_obj st (rb_next st) = None"
        using objs_okD(1) [OF rb_repD(5) [OF rep], of "rb_next st"] by (cases "rb_obj st (rb_next st)") auto
      then have le: "rb_obj st \<subseteq>\<^sub>m rb_obj st'"
        using st'(4) by (auto simp: map_le_def)
      have "rb_map st' D = rb_map st D"
        using st'(3) by (simp add: rb_map_def fun_eq_iff)
      then show thesis
        using that [of "RObj (rb_next st)" st'] ref st' le en(5) v p by simp
    next
      case rel: False
      have "en_intree en"
        using bound_okD(1) [OF rb_repD(4) [OF rep] p] en(1) False by auto
      then obtain w where w: "en_obj en = RObj w" "rb_obj st w = Some p"
        using objs_okD(3) [OF rb_repD(5) [OF rep] en(1) _ rel] by blast
      have "rb_entry_value p st = Some (RObj w, st)"
        using ref en(1) rel w(1) by (simp add: rb_container_to_obj_def)
      then show thesis
        using that [of "RObj w" st] rep en(5) v w(2) p by simp
    qed
  qed
qed

lemma rb_db_ref_ok:
  assumes rep: "rb_rep st D"
  obtains r st' where "rb_db_ref k st = Some (r, st')" "rb_rep st' D" "rb_map st' D = rb_map st D" "rb_bind st' = rb_bind st"
    "shows_key st' k (rb_map st D k) r" "rb_obj st \<subseteq>\<^sub>m rb_obj st'" "e_bio (rb_eng st') = e_bio (rb_eng st)"
    "e_next (rb_eng st') = e_next (rb_eng st)" "e_load (rb_eng st') = e_load (rb_eng st)"
proof -
  obtain db where db: "e_lookup k (rb_eng st) =
      Some (if rb_bind st k = None then -1 else 0, rb_bind st k, (rb_eng st)\<lparr>e_db := db\<rparr>)" "db_ok db" "dbmap db = rb_bind st"
    using e_lookup_bind [OF rep] .
  let ?st = "st\<lparr>rb_eng := (rb_eng st)\<lparr>e_db := db\<rparr>\<rparr>"
  have rep': "rb_rep ?st D" and m: "rb_bind ?st = rb_bind st" "rb_map ?st D = rb_map st D"
    using rb_rep_db [OF rep db(2,3)] by blast+
  show thesis
  proof (cases "rb_bind st k")
    case None
    then have "rb_db_ref k st = Some (Qnil, ?st)" "rb_map st D k = None"
      using db(1) by (simp_all add: rb_db_ref_def rb_map_def)
    then show thesis
      using that [of Qnil ?st] rep' m by (simp add: shows_key_def)
  next
    case (Some p)
    then have ref: "rb_db_ref k st = rb_entry_value p ?st" "rb_bind ?st k = Some p"
      using db(1) m by (simp_all add: rb_db_ref_def)
    obtain r st' where r: "rb_entry_value p ?st = Some (r, st')" "rb_rep st' D" "rb_bind st' = rb_bind ?st" "rb_map st' D = rb_map ?st D"
        "shows_key st' k (rb_map ?st D k) r" "rb_obj ?st \<subseteq>\<^sub>m rb_obj st'" "rb_eng st' = rb_eng ?st"
      using rb_entry_value_ok [OF rep' ref(2)] .
    then show thesis
      using that [of r st'] ref(1) m by simp
  qed
qed

section \<open>Storing a value\<close>

fun data_val :: "rb \<Rightarrow> objs \<Rightarrow> rval \<Rightarrow> val option" where
  "data_val st D (RText s) = Some (VString s)"
| "data_val st D (RObj v) = map_option snd (Option.bind (rb_obj st v) D)"
| "data_val st D _ = None"

lemma rb_map_store:
  assumes "rb_rep st D" "rb_bind st k = None" "rb_bind st' = (rb_bind st)(k \<mapsto> p)" "\<And>q. q \<noteq> p \<Longrightarrow> D' q = D q"
    and "\<And>k. rb_bind st k \<noteq> Some p" "D' p = Some (ns, v)"
  shows "rb_map st' D' = (rb_map st D)(k \<mapsto> v)"
proof
  fix k'
  show "rb_map st' D' k' = ((rb_map st D)(k \<mapsto> v)) k'"
  proof (cases "k' = k")
    case False
    then show ?thesis
      using assms(3) assms(4) assms(5) [of k'] by (cases "rb_bind st k'") (auto simp: rb_map_def)
  qed (simp add: rb_map_def assms(3,6))
qed

lemma e_store_bind:
  assumes "rb_rep st D" "card (dom (rb_bind st)) \<le> 2 ^ 30" "rb_bind st k = None" "e_db e = e_db (rb_eng st)"
  obtains db where "e_store x k p e = Some (0, e\<lparr>e_db := db\<rparr>)" "db_ok db" "dbmap db = (rb_bind st)(k \<mapsto> p)"
  using e_store_ok [of e k x p] assms rb_repD(1) [OF assms(1)] by (auto simp: rb_bind_def)

text \<open>\<open>entered\<close>: a value has been stored under a key that was not bound.\<close>

definition entered :: "econf \<Rightarrow> rb \<Rightarrow> objs \<Rightarrow> bio_item list \<Rightarrow> string \<Rightarrow> rval \<Rightarrow> val \<Rightarrow> (rval \<times> rb) option \<Rightarrow> bool" where
  "entered x st D Q k data v res \<longleftrightarrow>
     (\<exists>st' D' p items. res = Some (data, st') \<and> rb_rep st' D' \<and> rb_bind st' = (rb_bind st)(k \<mapsto> p) \<and>
        rb_map st' D' = (rb_map st D)(k \<mapsto> v) \<and> rb_obj st' = rb_obj st \<and> e_io x (rb_eng st') (Q @ items) \<and>
        mset items = (if e_load (rb_eng st) then told_key k (adds v) else {#}) \<and>
        e_load (rb_eng st') = e_load (rb_eng st) \<and> e_next (rb_eng st') \<le> e_next (rb_eng st) + 1 \<and>
        (\<forall>u. data = RObj u \<longrightarrow> rb_obj st u = Some p))"

lemma enteredI:
  "res = Some (data, st') \<Longrightarrow> rb_rep st' D' \<Longrightarrow> rb_bind st' = (rb_bind st)(k \<mapsto> p) \<Longrightarrow>
   rb_map st' D' = (rb_map st D)(k \<mapsto> v) \<Longrightarrow> rb_obj st' = rb_obj st \<Longrightarrow> e_io x (rb_eng st') (Q @ items) \<Longrightarrow>
   mset items = (if e_load (rb_eng st) then told_key k (adds v) else {#}) \<Longrightarrow>
   e_load (rb_eng st') = e_load (rb_eng st) \<Longrightarrow> e_next (rb_eng st') \<le> e_next (rb_eng st) + 1 \<Longrightarrow>
   (\<And>u. data = RObj u \<Longrightarrow> rb_obj st u = Some p) \<Longrightarrow> entered x st D Q k data v res"
  unfolding entered_def by blast

text \<open>A new string entry.\<close>

lemma store_string_ok:
  assumes rep: "rb_rep st D" and io: "e_io x (rb_eng st) Q" and k: "rb_bind st k = None"
    and room: "card (dom (rb_bind st)) \<le> 2 ^ 30" "e_next (rb_eng st) < 2 ^ 64"
  shows "entered x st D Q k (RText s) (VString s) (store_entry x k (RText s) st)"
proof -
  note R = rb_repD [OF rep]
  let ?e = "rb_eng st" and ?p = "of_nat (e_next (rb_eng st)) :: ptr"
  let ?c = "\<lparr>c_type = CONTAINER_STRING, c_data = DString (string_set string_init s)\<rparr>"
  let ?en = "\<lparr>en_key = Some k, en_intree = False, en_released = False, en_obj = Qnil, en_type = CString\<rparr>"
  let ?e1 = "?e\<lparr>e_next := e_next ?e + 1, e_cont := (e_cont ?e)(?p \<mapsto> ?c)\<rparr>" and ?D = "D(?p \<mapsto> ([], VString s))"
  have p: "D ?p = None" "rb_ent st ?p = None"
    using fresh_ptr [OF R(2) room(2)] rb_heap_okD(4) [OF R(2)] by auto
  have nb: "rb_bind st j \<noteq> Some ?p" for j
    using bound_okD(1) [OF R(4), of j ?p] p(2) by auto
  have no_obj: "rb_obj st v \<noteq> Some ?p" for v
    using objs_okD(1) [OF R(5), of v ?p] p(2) by auto
  obtain db where db: "e_store x k ?p ?e1 = Some (0, ?e1\<lparr>e_db := db\<rparr>)" "db_ok db" "dbmap db = (rb_bind st)(k \<mapsto> ?p)"
    using e_store_bind [OF rep room(1) k, of ?e1 x ?p] by auto
  let ?e2 = "?e1\<lparr>e_db := db\<rparr>"
  have v: "obj_val (e_strs ?e2) ?c [] (VString s)"
    by (simp add: obj_val_def string_val)
  have "e_io x ?e2 Q"
    using io by simp
  then obtain b items where b: "xfiredb_store_container x k ?c ?e2 = Some (?e2\<lparr>e_bio := b\<rparr>)"
      "e_io x (?e2\<lparr>e_bio := b\<rparr>) (Q @ items)"
      "mset items = (if e_load ?e2 then told_key k (adds (VString s)) else {#})"
    using xfiredb_store_container_ok [OF v] by blast
  let ?e3 = "?e2\<lparr>e_bio := b\<rparr>"
  let ?st = "st\<lparr>rb_eng := ?e3, rb_ent := (rb_ent st)(?p \<mapsto> ?en)\<rparr>"
  have "obj_rep ?e3 [] ?p (VString s)"
    using v by (auto simp: obj_rep_def)
  then have heap: "rb_heap_ok ?e3 ((rb_ent st)(?p \<mapsto> ?en)) ?D"
    by (intro rb_heap_ok_put [OF R(2), where F = "{}"]) (use room(2) in \<open>auto simp: only_def\<close>)
  have typed: "typed_ok ((rb_ent st)(?p \<mapsto> ?en)) ?D"
    by (rule typed_ok_put [OF R(3)]) simp
  have bat: "bound_at ((rb_bind st)(k \<mapsto> ?p)) ?p (Some ?en)"
    using nb by (auto simp: bound_at_def split: if_splits)
  have bound: "bound_ok ((rb_bind st)(k \<mapsto> ?p)) ((rb_ent st)(?p \<mapsto> ?en))"
    by (rule bound_ok_upd [OF R(4) _ bat]) (use k in auto)
  have objs: "objs_ok (rb_obj st) (rb_next st) ((rb_ent st)(?p \<mapsto> ?en))"
    by (rule objs_ok_upd [OF R(5)]) (use no_obj in \<open>auto intro!: obj_at_no_obj\<close>)
  show ?thesis
  proof (rule enteredI [where st' = ?st and D' = ?D and p = ?p and items = items])
    show "store_entry x k (RText s) st = Some (RText s, ?st)"
      using db(1) b(1)
      by (simp add: store_entry_def e_alloc_def container_init_def get_string_def container_get_data_def e_put_def rb_set_entry_def Let_def)
    show "rb_rep ?st ?D"
      using db heap typed bound objs by (simp add: rb_rep_def rb_bind_def)
    show "rb_map ?st ?D = (rb_map st D)(k \<mapsto> VString s)"
      by (rule rb_map_store [OF rep k, where p = ?p and ns = "[]"]) (use db(3) nb in \<open>auto simp: rb_bind_def\<close>)
  qed (use db b in \<open>simp_all add: rb_bind_def\<close>)
qed

text \<open>An object that is not bound.\<close>

lemma store_object_ok:
  assumes rep: "rb_rep st D" and io: "e_io x (rb_eng st) Q" and k: "rb_bind st k = None"
    and room: "card (dom (rb_bind st)) \<le> 2 ^ 30" and en: "rb_entry v st = Some (p, en)" "\<not> en_intree en"
    and d: "D p = Some (ns, w)"
  shows "entered x st D Q k (RObj v) w (store_entry x k (RObj v) st)"
proof -
  note R = rb_repD [OF rep]
  have e: "rb_obj st v = Some p" "rb_ent st p = Some en"
    using en(1) by (simp_all add: rb_entry_iff)
  have t: "en_type en \<noteq> CString" "\<not> en_released en"
    using objs_okD(1) [OF R(5) e(1)] e(2) by auto
  have nb: "rb_bind st j \<noteq> Some p" for j
    using not_bound [OF R(4) e(2) en(2) t(1)] .
  obtain db where db: "e_store x k p (rb_eng st) = Some (0, (rb_eng st)\<lparr>e_db := db\<rparr>)" "db_ok db" "dbmap db = (rb_bind st)(k \<mapsto> p)"
    using e_store_bind [OF rep room k refl] .
  let ?e = "(rb_eng st)\<lparr>e_db := db\<rparr>" and ?en = "en\<lparr>en_obj := RObj v, en_intree := True, en_key := Some k\<rparr>"
  obtain c where c: "e_cont ?e p = Some c" "obj_val (e_strs ?e) c ns w"
    using rb_heap_okD(1) [OF R(2) d] by (auto simp: obj_rep_def)
  have "e_io x ?e Q"
    using io by simp
  then obtain b items where b: "xfiredb_store_container x k c ?e = Some (?e\<lparr>e_bio := b\<rparr>)"
      "e_io x (?e\<lparr>e_bio := b\<rparr>) (Q @ items)" "mset items = (if e_load ?e then told_key k (adds w) else {#})"
    using xfiredb_store_container_ok [OF c(2)] by blast
  let ?st = "st\<lparr>rb_eng := ?e\<lparr>e_bio := b\<rparr>, rb_ent := (rb_ent st)(p \<mapsto> ?en)\<rparr>"
  have "rb_heap_ok (?e\<lparr>e_bio := b\<rparr>) (rb_ent st) D"
    using R(2) by (simp add: rb_heap_ok_def obj_rep_def)
  then have heap: "rb_heap_ok (?e\<lparr>e_bio := b\<rparr>) ((rb_ent st)(p \<mapsto> ?en)) D"
    using rb_heap_ok_ent e(2) by blast
  have bat: "bound_at ((rb_bind st)(k \<mapsto> p)) p (Some ?en)"
    using nb t by (auto simp: bound_at_def split: if_splits)
  have bound: "bound_ok ((rb_bind st)(k \<mapsto> p)) ((rb_ent st)(p \<mapsto> ?en))"
    by (rule bound_ok_upd [OF R(4) _ bat]) (use k in auto)
  have "obj_at (rb_obj st) (rb_next st) p (Some en)"
    using R(5) e(2) by (metis objs_ok_def)
  then have oat: "obj_at (rb_obj st) (rb_next st) p (Some ?en)"
    using t e(1) by (simp add: obj_at_def)
  have objs: "objs_ok (rb_obj st) (rb_next st) ((rb_ent st)(p \<mapsto> ?en))"
    by (rule objs_ok_upd [OF R(5) _ _ oat]) simp_all
  show ?thesis
  proof (rule enteredI [where st' = ?st and D' = D and p = p and items = items])
    show "store_entry x k (RObj v) st = Some (RObj v, ?st)"
      using db(1) b(1) c(1) en(1) by (simp add: store_entry_def rb_set_entry_def Let_def)
    show "rb_rep ?st D"
      using db heap typed_ok_ent [OF R(3) e(2), of ?en] bound objs by (simp add: rb_rep_def rb_bind_def)
    show "rb_map ?st D = (rb_map st D)(k \<mapsto> w)"
      by (rule rb_map_store [OF rep k, where p = p and ns = ns]) (use db(3) nb d in \<open>auto simp: rb_bind_def\<close>)
  qed (use db b e(1) in \<open>simp_all add: rb_bind_def\<close>)
qed

lemma finite_dom_bind: "finite (dom (rb_bind st))"
proof -
  have "dom (dbmap db) = e_key ` set (entries (container db))" for db
    using dmap_dom [of _ "container db"] by (force simp: dbmap_def dom_def)
  then show ?thesis
    by (simp add: rb_bind_def)
qed

text \<open>What \<^verbatim>\<open>rb_db_store\<close> needs: an object that is not bound to another key, and a key that can be deleted.\<close>

fun storable_data :: "rb \<Rightarrow> string \<Rightarrow> rval \<Rightarrow> bool" where
  "storable_data st k (RText s) \<longleftrightarrow> deletable st k"
| "storable_data st k (RObj v) \<longleftrightarrow> deletable st k \<and>
     (\<exists>p en. rb_entry v st = Some (p, en) \<and> (\<not> en_intree en \<or> rb_bind st k = Some p))"
| "storable_data st k _ \<longleftrightarrow> False"

text \<open>The announced changes: the old value is removed unless a string replaces a string or the object is the same.\<close>

definition store_notes :: "rb \<Rightarrow> objs \<Rightarrow> string \<Rightarrow> rval \<Rightarrow> notice multiset" where
  "store_notes st D k data =
     (case (rb_map st D k, data_val st D data) of
        (None, Some v) \<Rightarrow> adds v
      | (Some (VString _), Some (VString s)) \<Rightarrow> {#(None, Some s, STRING_UPDATE)#}
      | (Some u, Some v) \<Rightarrow>
          if (\<exists>w. data = RObj w \<and> rb_obj st w = rb_bind st k) then adds v else removes u + adds v
      | _ \<Rightarrow> {#})"

definition stored :: "econf \<Rightarrow> rb \<Rightarrow> objs \<Rightarrow> bio_item list \<Rightarrow> string \<Rightarrow> rval \<Rightarrow> bool" where
  "stored x st D Q k data \<longleftrightarrow>
     (\<exists>st' D' items. rb_db_store x k data st = Some (data, st') \<and> rb_rep st' D' \<and>
        rb_map st' D' = (rb_map st D)(k := data_val st D data) \<and> rb_obj st' = rb_obj st \<and> e_io x (rb_eng st') (Q @ items) \<and>
        mset items = (if e_load (rb_eng st) then told_key k (store_notes st D k data) else {#}) \<and>
        e_load (rb_eng st') = e_load (rb_eng st) \<and> e_next (rb_eng st') \<le> e_next (rb_eng st) + 1 \<and>
        dom (rb_bind st') = insert k (dom (rb_bind st)) \<and> (\<forall>u. data = RObj u \<longrightarrow> rb_bind st' k = rb_obj st u))"

lemma store_entry_ok:
  assumes rep: "rb_rep st D" and io: "e_io x (rb_eng st) Q" and k: "rb_bind st k = None"
    and room: "card (dom (rb_bind st)) \<le> 2 ^ 30" "e_next (rb_eng st) < 2 ^ 64" and data: "storable_data st k data"
  obtains v where "data_val st D data = Some v" "entered x st D Q k data v (store_entry x k data st)"
proof (cases data)
  case (RText s)
  then show thesis
    using that store_string_ok [OF rep io k room] by simp
next
  case (RObj v)
  then obtain p en where en: "rb_entry v st = Some (p, en)" "\<not> en_intree en"
    using data k by auto
  obtain ns w where d: "D p = Some (ns, w)"
    using rb_entryE [OF rep en(1)] by metis
  have "data_val st D data = Some w"
    using en(1) d RObj by (simp add: rb_entry_iff)
  then show thesis
    using that store_object_ok [OF rep io k room(1) en d] RObj by simp
qed (use data in simp_all)

text \<open>The common part of the cases: the value is entered after the old value is gone.\<close>

lemma told_key_union: "told_key k (M + N) = told_key k M + told_key k N"
  by (simp add: told_key_def)

lemma stored_entered:
  assumes r: "rb_db_store x k data st = store_entry x k data st1"
    and ent: "entered x st1 D1 (Q @ i1) k data v (store_entry x k data st1)" "data_val st D data = Some v"
    and m: "rb_map st1 D1 = (rb_map st D)(k := None)" "rb_bind st1 = (rb_bind st)(k := None)" "rb_obj st1 = rb_obj st"
    and e: "e_load (rb_eng st1) = e_load (rb_eng st)" "e_next (rb_eng st1) = e_next (rb_eng st)"
    and i1: "mset i1 = (if e_load (rb_eng st) then told_key k pre else {#})" "store_notes st D k data = pre + adds v"
  shows "stored x st D Q k data"
proof -
  obtain st' D' p items where s: "store_entry x k data st1 = Some (data, st')" "rb_rep st' D'"
      "rb_bind st' = (rb_bind st1)(k \<mapsto> p)" "rb_map st' D' = (rb_map st1 D1)(k \<mapsto> v)" "rb_obj st' = rb_obj st1"
      "e_io x (rb_eng st') ((Q @ i1) @ items)" "mset items = (if e_load (rb_eng st1) then told_key k (adds v) else {#})"
      "e_load (rb_eng st') = e_load (rb_eng st1)" "e_next (rb_eng st') \<le> e_next (rb_eng st1) + 1"
      "\<forall>u. data = RObj u \<longrightarrow> rb_obj st1 u = Some p"
    using ent(1) unfolding entered_def by blast
  have "mset (i1 @ items) = (if e_load (rb_eng st) then told_key k (store_notes st D k data) else {#})"
    using i1 s(7) e(1) by (simp add: told_key_union)
  moreover have "rb_map st' D' = (rb_map st D)(k := data_val st D data)" "dom (rb_bind st') = insert k (dom (rb_bind st))"
    using s(3,4) m(1,2) ent(2) by auto
  ultimately show ?thesis
    unfolding stored_def
    by (intro exI [of _ st'] exI [of _ D'] exI [of _ "i1 @ items"]) (use r s m(3) e in simp)
qed

lemma stored_new:
  assumes rep: "rb_rep st D" and io: "e_io x (rb_eng st) Q" and k: "rb_bind st k = None"
    and room: "card (dom (rb_bind st)) \<le> 2 ^ 30" "e_next (rb_eng st) < 2 ^ 64" and data: "storable_data st k data"
  shows "stored x st D Q k data"
proof -
  obtain db where db: "e_delete k (rb_eng st) = Some (-1, None, (rb_eng st)\<lparr>e_db := db\<rparr>)" "db_ok db" "dbmap db = rb_bind st"
    using e_delete_bind [OF rep, of k] k by (auto simp: fun_upd_idem)
  let ?st = "st\<lparr>rb_eng := (rb_eng st)\<lparr>e_db := db\<rparr>\<rparr>"
  note S = rb_rep_db [OF rep db(2,3)]
  have same: "data_val ?st D data = data_val st D data" "storable_data ?st k data = storable_data st k data"
    by (cases data; simp add: S(2) rb_entry_def deletable_def)+
  have ok: "e_io x (rb_eng ?st) (Q @ [])" "rb_bind ?st k = None" "card (dom (rb_bind ?st)) \<le> 2 ^ 30" "e_next (rb_eng ?st) < 2 ^ 64"
      "storable_data ?st k data"
    using io k room data S(2) same(2) by simp_all
  obtain v where v: "data_val ?st D data = Some v" "entered x ?st D (Q @ []) k data v (store_entry x k data ?st)"
    by (rule store_entry_ok [OF S(1) ok])
  have n: "rb_map st D k = None"
    using k by (simp add: rb_map_def)
  show ?thesis
  proof (rule stored_entered [OF _ v(2), where pre = "{#}"])
    show "rb_db_store x k data st = store_entry x k data ?st"
      using db(1) by (simp add: rb_db_store_def)
  qed (use v(1) same(1) S(2,3) n k in \<open>simp_all add: store_notes_def fun_upd_idem\<close>)
qed

text \<open>Storing an object again under its own key: every part of its value is announced again.\<close>

lemma stored_same:
  assumes rep: "rb_rep st D" and io: "e_io x (rb_eng st) Q" and k: "rb_bind st k = Some p" "rb_ent st p = Some en"
    and room: "card (dom (rb_bind st)) \<le> 2 ^ 30" and v: "rb_obj st v = Some p" "en_obj en = RObj v"
  shows "stored x st D Q k (RObj v)"
proof -
  note R = rb_repD [OF rep]
  obtain db where db: "e_delete k (rb_eng st) = Some (0, Some p, (rb_eng st)\<lparr>e_db := db\<rparr>)" "db_ok db" "dbmap db = (rb_bind st)(k := None)"
    using e_delete_bind [OF rep, of k] k(1) by auto
  let ?st = "st\<lparr>rb_eng := (rb_eng st)\<lparr>e_db := db\<rparr>\<rparr>" and ?en = "en\<lparr>en_intree := False\<rparr>"
  let ?st1 = "rb_set_entry p ?en ?st"
  obtain ns w where d: "D p = Some (ns, w)" "rb_map st D k = Some w" "type_of w = class_type (en_type en)"
    using bound_entry [OF rep k(1)] k(2) by (metis option.inject)
  have t: "en_type en \<noteq> CString" "\<not> en_released en"
    using objs_okD(1) [OF R(5) v(1)] k(2) by auto
  have bound: "bound_ok ((rb_bind st)(k := None)) ((rb_ent st)(p \<mapsto> ?en))"
    by (rule bound_ok_upd [OF R(4) removed_key(2) [OF R(4) k(1)]])
      (use t in \<open>auto intro!: bound_at_unbound removed_key(1) [OF R(4) k(1)] simp del: fun_upd_apply\<close>)
  have "obj_at (rb_obj st) (rb_next st) p (Some en)"
    using R(5) k(2) by (metis objs_ok_def)
  then have objs: "objs_ok (rb_obj st) (rb_next st) ((rb_ent st)(p \<mapsto> ?en))"
    by (intro objs_ok_upd [OF R(5)]) (use t(2) obj_at_detach [of _ _ _ en "en_obj en"] in \<open>simp_all\<close>)
  have bind1: "rb_bind ?st1 = (rb_bind st)(k := None)"
    using db(3) by (simp add: rb_bind_def rb_set_entry_def)
  have rep1: "rb_rep ?st1 D"
    using db(2,3) rb_heap_ok_ent [OF R(2) k(2)] typed_ok_ent [OF R(3) k(2), of ?en] bound objs
    by (simp add: rb_rep_def rb_set_entry_def rb_bind_def)
  have "dom (rb_bind ?st1) \<subseteq> dom (rb_bind st)"
    using bind1 by auto
  then have "card (dom (rb_bind ?st1)) \<le> 2 ^ 30"
    using card_mono [OF finite_dom_bind] room by (meson le_trans)
  moreover have "rb_entry v ?st1 = Some (p, ?en)" "\<not> en_intree ?en" "e_io x (rb_eng ?st1) (Q @ [])" "rb_bind ?st1 k = None"
    using v(1) io bind1 by (simp_all add: rb_entry_iff rb_set_entry_def)
  ultimately have ent: "entered x ?st1 D (Q @ []) k (RObj v) w (store_entry x k (RObj v) ?st1)"
    by (intro store_object_ok [OF rep1 _ _ _ _ _ d(1)])
  have map1: "rb_map ?st1 D = (rb_map st D)(k := None)"
    by (rule rb_map_delete [OF rep k(1) bind1]) simp
  show ?thesis
  proof (rule stored_entered [OF _ ent, where pre = "{#}"])
    have "store_entry x k (RObj v) ?st1 = store_entry x k (RObj v) ?st"
      using v(1) k(2) by (simp add: store_entry_def rb_entry_def rb_set_entry_def Let_def cong: if_cong)
    then show "rb_db_store x k (RObj v) st = store_entry x k (RObj v) ?st1"
      using db(1) k v(2) by (simp add: rb_db_store_def)
    show "store_notes st D k (RObj v) = {#} + adds w"
      using d t v(1) k(1) by (cases w; cases "en_type en") (simp_all add: store_notes_def)
  qed (use map1 bind1 v(1) d(1) in \<open>simp_all add: rb_set_entry_def\<close>)
qed

text \<open>A string replaces a string.\<close>

lemma stored_string:
  assumes rep: "rb_rep st D" and io: "e_io x (rb_eng st) Q" and k: "rb_bind st k = Some p" "rb_ent st p = Some en"
    and room: "card (dom (rb_bind st)) \<le> 2 ^ 30" and t: "en_type en = CString"
  shows "stored x st D Q k (RText s)"
proof -
  note R = rb_repD [OF rep]
  obtain db where db: "e_delete k (rb_eng st) = Some (0, Some p, (rb_eng st)\<lparr>e_db := db\<rparr>)" "db_ok db" "dbmap db = (rb_bind st)(k := None)"
    using e_delete_bind [OF rep, of k] k(1) by auto
  obtain ns u where d: "D p = Some (ns, u)" "rb_map st D k = Some u" "obj_rep (rb_eng st) ns p u" "en_key en = Some k"
      "type_of u = class_type (en_type en)"
    using bound_entry [OF rep k(1)] k(2) by (metis option.inject)
  then obtain old where u: "u = VString old"
    using t by (cases u) simp_all
  obtain c g where c: "e_cont (rb_eng st) p = Some c" "get_string c = Some g" "c = \<lparr>c_type = CONTAINER_STRING, c_data = DString g\<rparr>"
    using d(3) u by (auto simp: obj_rep_def obj_val_string)
  let ?c = "\<lparr>c_type = CONTAINER_STRING, c_data = DString (string_set g s)\<rparr>"
  let ?e1 = "(rb_eng st)\<lparr>e_db := db, e_cont := (e_cont (rb_eng st))(p \<mapsto> ?c)\<rparr>"
  have io1: "e_io x ?e1 Q"
    using io by simp
  obtain b items where b: "rb_notice x en None (Some s) STRING_UPDATE ?e1 = Some (?e1\<lparr>e_bio := b\<rparr>)"
      "e_io x (?e1\<lparr>e_bio := b\<rparr>) (Q @ items)" "mset items = told (e_load ?e1) en {#(None, Some s, STRING_UPDATE)#}"
    using rb_notice_ok [OF io1] .
  let ?e2 = "?e1\<lparr>e_bio := b\<rparr>"
  have "dom (dbmap db) \<subseteq> dom (rb_bind st)"
    using db(3) by auto
  then have "card (dom (dbmap (e_db ?e2))) \<le> 2 ^ 30" "dbmap (e_db ?e2) k = None"
    using card_mono [OF finite_dom_bind, of "dom (dbmap db)" st] room db(3) by simp_all
  moreover have "db_ok (e_db ?e2)"
    using db(2) by simp
  ultimately obtain db2 where s2: "e_store x k p ?e2 = Some (0, ?e2\<lparr>e_db := db2\<rparr>)" "db_ok db2"
      "dbmap db2 = (dbmap (e_db ?e2))(k \<mapsto> p)"
    using e_store_ok by blast
  then have db2: "e_store x k p ?e2 = Some (0, ?e2\<lparr>e_db := db2\<rparr>)" "db_ok db2" "dbmap db2 = rb_bind st"
    using db(3) k(1) by (simp_all add: fun_upd_idem)
  let ?st = "st\<lparr>rb_eng := ?e2\<lparr>e_db := db2\<rparr>\<rparr>" and ?D = "D(p \<mapsto> ([], VString s))"
  have bind: "rb_bind ?st = rb_bind st"
    using db2(3) by (simp add: rb_bind_def)
  have "obj_rep (?e2\<lparr>e_db := db2\<rparr>) [] p (VString s)"
    using d(3) by (auto simp: obj_rep_def obj_val_def string_val)
  then have "rb_heap_ok (?e2\<lparr>e_db := db2\<rparr>) ((rb_ent st)(p \<mapsto> en)) ?D"
    by (intro rb_heap_ok_put [OF R(2), where F = "{}"]) (use rb_heap_okD(3) [OF R(2)] in \<open>auto simp: only_def\<close>)
  then have heap: "rb_heap_ok (?e2\<lparr>e_db := db2\<rparr>) (rb_ent st) ?D"
    using k(2) by (simp add: fun_upd_idem)
  have typed: "typed_ok (rb_ent st) ?D"
    using typed_ok_put [OF R(3), of "VString s" en p "[]"] t k(2) by (simp add: fun_upd_idem)
  have rep': "rb_rep ?st ?D"
    using db2(2) heap typed R(4,5) bind by (simp add: rb_rep_def)
  have r: "rb_db_store x k (RText s) st = Some (RText s, ?st)"
    using db(1) k(2) t bound_okD(3) [OF R(4) k(2) t] c b(1) d(4) db2(1)
    by (simp add: rb_db_store_def e_put_def rb_notice_def)
  have m: "rb_map ?st ?D = (rb_map st D)(k \<mapsto> VString s)"
  proof
    fix k'
    show "rb_map ?st ?D k' = ((rb_map st D)(k \<mapsto> VString s)) k'"
    proof (cases "k' = k")
      case False
      then have "rb_bind st k' \<noteq> Some p"
        using bound_once [OF R(4) k(1), of k'] by blast
      then show ?thesis
        using bind False by (cases "rb_bind st k'") (simp_all add: rb_map_def)
    qed (use bind k(1) in \<open>simp add: rb_map_def\<close>)
  qed
  have "mset items = (if e_load (rb_eng st) then told_key k (store_notes st D k (RText s)) else {#})"
    using b(3) d(2,4) u by (simp add: store_notes_def told_def)
  then show ?thesis
    unfolding stored_def
    by (intro exI [of _ ?st] exI [of _ ?D] exI [of _ items]) (use r rep' m bind b(2) k(1) in \<open>auto simp: e_io_def\<close>)
qed

text \<open>The old value is removed first.\<close>

lemma stored_replace:
  assumes rep: "rb_rep st D" and io: "e_io x (rb_eng st) Q" and k: "rb_bind st k = Some p" "rb_ent st p = Some en"
    and room: "card (dom (rb_bind st)) \<le> 2 ^ 30" "e_next (rb_eng st) < 2 ^ 64" and data: "storable_data st k data"
    and other: "en_obj en \<noteq> data" "\<not> (en_type en = CString \<and> (\<exists>s. data = RText s))"
  shows "stored x st D Q k data"
proof -
  note R = rb_repD [OF rep]
  obtain db where db: "e_delete k (rb_eng st) = Some (0, Some p, (rb_eng st)\<lparr>e_db := db\<rparr>)" "db_ok db" "dbmap db = (rb_bind st)(k := None)"
    using e_delete_bind [OF rep, of k] k(1) by auto
  obtain ns u where d: "D p = Some (ns, u)" "rb_map st D k = Some u" "en_key en = Some k" "type_of u = class_type (en_type en)"
    using bound_entry [OF rep k(1)] k(2) by (metis option.inject)
  have del: "deletable st k"
    using data by (cases data) simp_all
  obtain st1 i1 where s1: "raw_rb_db_delete x p (st\<lparr>rb_eng := (rb_eng st)\<lparr>e_db := db\<rparr>\<rparr>) = Some st1"
      "rb_rep st1 (left_over D p u)" "rb_bind st1 = (rb_bind st)(k := None)" "rb_obj st1 = rb_obj st"
      "e_io x (rb_eng st1) (Q @ i1)" "mset i1 = told (e_load (rb_eng st)) en (removes u)"
      "e_load (rb_eng st1) = e_load (rb_eng st)" "e_next (rb_eng st1) = e_next (rb_eng st)"
      "\<And>q. q \<noteq> p \<Longrightarrow> rb_ent st1 q = rb_ent st q"
    using raw_rb_db_delete_ok [OF rep io k d(1) del db(2,3)] by blast
  have obj: "q \<noteq> p \<and> \<not> en_intree f" if "data = RObj v" "rb_entry v st = Some (q, f)" for v q f
  proof -
    have "q \<noteq> p"
    proof
      assume q: "q = p"
      then have f: "f = en" "rb_obj st v = Some p"
        using that(2) k(2) by (simp_all add: rb_entry_iff)
      have "\<not> en_released en" "en_intree en"
        using objs_okD(1) [OF R(5) f(2)] bound_okD(1) [OF R(4) k(1)] k(2) by auto
      then show False
        using objs_okD(2,3) [OF R(5)] k(2) f(2) other(1) that(1) by metis
    qed
    then show ?thesis
      using data that k(1) by auto
  qed
  have data1: "storable_data st1 k data" "data_val st1 (left_over D p u) data = data_val st D data"
  proof -
    have "data_val st1 (left_over D p u) (RObj v) = data_val st D (RObj v)" "storable_data st1 k (RObj v)" if v: "data = RObj v" for v
    proof -
      obtain q f where q: "rb_entry v st = Some (q, f)" "q \<noteq> p" "\<not> en_intree f"
        using data v obj [OF v] by auto
      then show "data_val st1 (left_over D p u) (RObj v) = data_val st D (RObj v)" "storable_data st1 k (RObj v)"
        using s1(3,4) s1(9) [of q] left_over_other [of q p D u] by (auto simp: rb_entry_iff deletable_def)
    qed
    then show "storable_data st1 k data" "data_val st1 (left_over D p u) data = data_val st D data"
      using data s1(3) by (cases data; simp add: deletable_def)+
  qed
  have "dom (rb_bind st1) \<subseteq> dom (rb_bind st)"
    using s1(3) by auto
  then have room1: "card (dom (rb_bind st1)) \<le> 2 ^ 30" "e_next (rb_eng st1) < 2 ^ 64" "rb_bind st1 k = None"
    using card_mono [OF finite_dom_bind, of "dom (rb_bind st1)" st] room s1(3,8) by simp_all
  obtain v where v: "data_val st1 (left_over D p u) data = Some v" "entered x st1 (left_over D p u) (Q @ i1) k data v (store_entry x k data st1)"
    by (rule store_entry_ok [OF s1(2,5) room1(3,1,2) data1(1)])
  have map1: "rb_map st1 (left_over D p u) = (rb_map st D)(k := None)"
    by (rule rb_map_delete [OF rep k(1) s1(3)]) (rule left_over_other)
  have dv: "data_val st D data = Some v"
    using v(1) data1(2) by simp
  have diff: "\<not> (\<exists>w. data = RObj w \<and> rb_obj st w = rb_bind st k)"
    using obj k by (auto simp: rb_entry_iff)
  have "\<not> (\<exists>old s. u = VString old \<and> v = VString s)"
  proof
    assume "\<exists>old s. u = VString old \<and> v = VString s"
    then obtain old s where v: "u = VString old" "v = VString s"
      by blast
    have "en_type en = CString"
      using d(4) v(1) by (cases "en_type en") simp_all
    then obtain w where w: "data = RObj w"
      using data other(2) by (cases data) auto
    then obtain q f where q: "rb_entry w st = Some (q, f)"
      using data by auto
    have "f_type \<noteq> CString" if "f_type = en_type f" for f_type
      using that objs_okD(1) [OF R(5), of w q] q by (auto simp: rb_entry_iff)
    moreover obtain ms y where "D q = Some (ms, y)" "type_of y = class_type (en_type f)"
      using rb_entryE [OF rep q] by metis
    moreover have "rb_obj st w = Some q"
      using q by (simp add: rb_entry_iff)
    ultimately show False
      using dv w v(2) by (cases "en_type f") auto
  qed
  then have nts: "store_notes st D k data = removes u + adds v"
    using dv d(2) by (cases u; cases v) (simp_all add: store_notes_def diff)
  show ?thesis
  proof (rule stored_entered [OF _ v(2) _ map1 s1(3,4) s1(7,8) _ nts])
    show "rb_db_store x k data st = store_entry x k data st1"
      using db(1) k(2) other s1(1) by (cases data) (simp_all add: rb_db_store_def)
  qed (use v(1) data1(2) s1(6) d(3) in \<open>simp_all add: told_def told_key_def\<close>)
qed

lemma rb_db_store_ok:
  assumes rep: "rb_rep st D" and io: "e_io x (rb_eng st) Q" and room: "card (dom (rb_bind st)) \<le> 2 ^ 30" "e_next (rb_eng st) < 2 ^ 64"
    and data: "storable_data st k data"
  shows "stored x st D Q k data"
proof (cases "rb_bind st k")
  case None
  then show ?thesis
    using stored_new [OF rep io _ room data] by simp
next
  case (Some p)
  note R = rb_repD [OF rep]
  obtain en where en: "rb_ent st p = Some en" "en_intree en \<or> en_type en = CString"
    using bound_okD(1) [OF R(4) Some] by blast
  show ?thesis
  proof (cases "en_obj en = data")
    case True
    have "deletable st k"
      using data by (cases data) simp_all
    then have "en_type en \<noteq> CString" "\<not> en_released en"
      using bound_okD(3) [OF R(4) en(1)] data Some en(1) True by (auto simp: deletable_def)
    then obtain v where "en_obj en = RObj v" "rb_obj st v = Some p"
      using objs_okD(3) [OF R(5) en(1)] en(2) by blast
    then show ?thesis
      using stored_same [OF rep io Some en(1) room(1)] True by simp
  next
    case False
    then show ?thesis
      using stored_string [OF rep io Some en(1) room(1)] stored_replace [OF rep io Some en(1) room data False] by blast
  qed
qed

end
