(* ===== verification/RbEach.thy ===== *)
theory RbEach
  imports RbObject
begin

text \<open>The enumerations \<^verbatim>\<open>each\<close> of lists, hash maps and sets, with blocks that do not change the object.\<close>

lemma list_each_loop_ok:
  assumes rep: "rb_rep st D" and en: "rb_entry self st = Some (p, en)" and d: "D p = Some (ns, VList xs)"
    and len: "length xs < 2 ^ 31" and i: "i \<le> length xs"
  shows "list_each_loop self (int i) st = Some (map RText (drop i xs))"
  using i
proof (induction "length xs - i" arbitrary: i)
  case 0
  then show ?case
    using rb_list_length_ok [OF rep en d len] by (subst list_each_loop.simps) simp
next
  case (Suc m)
  then have "i < length xs" "m = length xs - Suc i"
    by simp_all
  moreover have "drop i xs = xs ! i # drop (Suc i) xs"
    using \<open>i < length xs\<close> by (simp add: Cons_nth_drop_Suc)
  ultimately show ?case
    using Suc.hyps(1) [of "Suc i"] rb_list_length_ok [OF rep en d len] rb_list_ref_ok [OF rep en d, of "int i"]
    by (subst list_each_loop.simps) (simp add: in_range_def add.commute)
qed

lemma map_each_loop_ok:
  assumes "chain (\<lambda>a. fwd (s_heap (h_list m)) a 1) (it_current it # ys @ [HEADER])" "HEADER \<notin> set ys" "NULL \<notin> set ys"
    and "\<And>y. y \<in> set ys \<Longrightarrow> h_key m y = Some (kf y) \<and> str_at strs y = Some (vf y)"
  shows "map_each_loop strs m it = Some (map (\<lambda>y. (kf y, vf y)) ys)"
  using assms
proof (induction ys arbitrary: it)
  case Nil
  then show ?case
    by (subst map_each_loop.simps) (simp add: hashmap_iterator_next_def skiplist_iterator_next_def chain_def xdb_defs)
next
  case (Cons y ys)
  let ?it = "\<lparr>it_prev = it_current it, it_current = y\<rparr>"
  have nx: "hashmap_iterator_next m it = Some (y, ?it)" "y \<noteq> NULL"
    using Cons.prems(1-3) by (auto simp: hashmap_iterator_next_def skiplist_iterator_next_def chain_def)
  have ch: "chain (\<lambda>a. fwd (s_heap (h_list m)) a 1) (it_current ?it # ys @ [HEADER])"
    using Cons.prems(1) by (simp add: chain_def)
  have "map_each_loop strs m ?it = Some (map (\<lambda>y. (kf y, vf y)) ys)"
    using Cons.IH [OF ch] Cons.prems(2-4) by simp
  then show ?case
    using nx Cons.prems(4) [of y] by (subst map_each_loop.simps) simp
qed

lemma set_each_loop_ok:
  assumes "chain (\<lambda>a. fwd (s_heap (set_list s)) a 1) (it_current it # ys @ [HEADER])" "HEADER \<notin> set ys" "NULL \<notin> set ys"
    and "\<And>y. y \<in> set ys \<Longrightarrow> set_key s y = Some (kf y)"
  shows "set_each_loop s it = Some (map kf ys)"
  using assms
proof (induction ys arbitrary: it)
  case Nil
  then show ?case
    by (subst set_each_loop.simps) (simp add: set_iterator_next_def skiplist_iterator_next_def chain_def xdb_defs)
next
  case (Cons y ys)
  let ?it = "\<lparr>it_prev = it_current it, it_current = y\<rparr>"
  have nx: "set_iterator_next s it = Some (y, ?it)" "y \<noteq> NULL"
    using Cons.prems(1-3) by (auto simp: set_iterator_next_def skiplist_iterator_next_def chain_def)
  have ch: "chain (\<lambda>a. fwd (s_heap (set_list s)) a 1) (it_current ?it # ys @ [HEADER])"
    using Cons.prems(1) by (simp add: chain_def)
  have "set_each_loop s ?it = Some (map kf ys)"
    using Cons.IH [OF ch] Cons.prems(2-4) by simp
  then show ?case
    using nx Cons.prems(4) [of y] by (subst set_each_loop.simps) simp
qed

lemma rb_list_each_ok:
  assumes "rb_rep st D" "rb_entry self st = Some (p, en)" "D p = Some (ns, VList xs)" "length xs < 2 ^ 31"
  shows "rb_list_each self st = Some (map RText xs)"
  using list_each_loop_ok [OF assms, of 0] by (simp add: rb_list_each_def)

lemma rb_hashmap_each_ok:
  assumes rep: "rb_rep st D" and en: "rb_entry self st = Some (p, en)" and d: "D p = Some (ns, VMap f)"
  obtains kvs where "rb_hashmap_each self st = Some kvs" "distinct (map fst kvs)" "map_of kvs = f"
proof -
  let ?strs = "e_strs (rb_eng st)"
  obtain m where m: "hm_ok (m\<lparr>h_num := of_nat (length ns)\<rparr>) ns" "set ns \<subseteq> dom (str_at ?strs)" "f = map_val ?strs m ns"
      "obj_to_map self st = Some m"
    using rb_mapE [OF rep en d] by metis
  have sl: "sl_ok (h_list m) ns" "keyed (h_list m) ns (h_key m)"
    using m(1) by (simp_all add: hm_ok_def)
  have ch: "chain (\<lambda>a. fwd (s_heap (h_list m)) a 1) (it_current (hashmap_new_iterator m) # ns @ [HEADER])"
      "HEADER \<notin> set ns" "NULL \<notin> set ns"
    using sl_chain_1 [OF sl(1)] sl(1) by (auto simp: sl_ok_def hashmap_new_iterator_def skiplist_iterator_new_def)
  have node: "h_key m y = Some (the (nkey (s_heap (h_list m)) y)) \<and> str_at ?strs y = Some (the (str_at ?strs y))" if "y \<in> set ns" for y
    using keyed_node [OF sl that] m(2) that by auto
  let ?kvs = "map (\<lambda>y. (the (nkey (s_heap (h_list m)) y), the (str_at ?strs y))) ns"
  have "rb_hashmap_each self st = Some ?kvs"
    using map_each_loop_ok [OF ch node] m(4) by (simp add: rb_hashmap_each_def)
  moreover have dist: "distinct (map fst ?kvs)"
    using sl_inj_key [OF sl(1)] sl_ok_distinct [OF sl(1)] by (simp add: distinct_map comp_def)
  moreover have "map_of ?kvs = f"
  proof
    fix k
    show "map_of ?kvs k = f k"
    proof (cases "smap (h_list m) ns k")
      case None
      then have "k \<notin> fst ` set ?kvs"
        using smap_dom [OF sl(1)] by force
      then have "map_of ?kvs k = None"
        by (simp only: map_of_eq_None_iff not_False_eq_True)
      then show ?thesis
        using None m(3) by (simp add: map_val_def hmap_def)
    next
      case (Some y)
      have y: "y \<in> set ns" "nkey (s_heap (h_list m)) y = Some k"
        using smap_ran [OF sl(1) Some] smap_key [OF sl(1) Some] by simp_all
      then have "(k, the (str_at ?strs y)) \<in> set ?kvs"
        by (force intro!: image_eqI [of _ _ y])
      then have "map_of ?kvs k = Some (the (str_at ?strs y))"
        by (rule map_of_is_SomeI [OF dist])
      then show ?thesis
        using Some m(2,3) y(1) by (auto simp: map_val_def hmap_def)
    qed
  qed
  ultimately show thesis
    by (rule that)
qed

lemma rb_set_each_ok:
  assumes rep: "rb_rep st D" and en: "rb_entry self st = Some (p, en)" and d: "D p = Some (ns, VSet X)"
  obtains ks where "rb_set_each self st = Some ks" "distinct ks" "set ks = X"
proof -
  obtain s where s: "set_ok (s\<lparr>set_num := of_nat (length ns)\<rparr>) ns" "X = members s ns" "obj_to_set self st = Some s"
    using rb_setE [OF rep en d] by metis
  have sl: "sl_ok (set_list s) ns" "keyed (set_list s) ns (set_key s)"
    using s(1) by (simp_all add: set_ok_def)
  have ch: "chain (\<lambda>a. fwd (s_heap (set_list s)) a 1) (it_current (set_iterator_new s) # ns @ [HEADER])"
      "HEADER \<notin> set ns" "NULL \<notin> set ns"
    using sl_chain_1 [OF sl(1)] sl(1) by (auto simp: sl_ok_def set_iterator_new_def skiplist_iterator_new_def)
  let ?key = "\<lambda>y. the (nkey (s_heap (set_list s)) y)"
  have "rb_set_each self st = Some (map ?key ns)"
    using set_each_loop_ok [OF ch keyed_node [OF sl]] s(3) by (simp add: rb_set_each_def)
  moreover have "distinct (map ?key ns)"
    using sl_inj_key [OF sl(1)] sl_ok_distinct [OF sl(1)] by (simp add: distinct_map)
  moreover have "set (map ?key ns) = X"
    using smap_dom [OF sl(1)] s(2) by (simp add: members_def)
  ultimately show thesis
    by (rule that)
qed

end
