(* ===== verification/RbRun.thy ===== *)
theory RbRun
  imports RbDb RbEach EngineProps
begin

text \<open>
  Runs of a Ruby program over the binding: every action of the program and of the garbage collector, and
  the states that they reach.
\<close>

section \<open>Actions\<close>

datatype raction =
    RNew rclass | RCall nat rcall | RRef string | RStore string rval | RDelete string | RGc nat | RLoaded rval

fun rb_act :: "econf \<Rightarrow> raction \<Rightarrow> rb \<Rightarrow> (rval \<times> rb) option" where
  "rb_act x (RNew klass) st = (case rb_new klass st of (v, st') \<Rightarrow> Some (RObj v, st'))"
| "rb_act x (RCall v c) st = rb_call x v c st"
| "rb_act x (RRef k) st = rb_db_ref k st"
| "rb_act x (RStore k data) st = rb_db_store x k data st"
| "rb_act x (RDelete k) st = rb_db_delete x k st"
| "rb_act x (RGc v) st = map_option (\<lambda>st'. (Qnil, st')) (rb_release x v st)"
| "rb_act x (RLoaded r) st = Some (rb_se_set_loadstate r st)"

text \<open>
  What a program has to respect: objects are alive, a method fits its object, an object is bound to one
  key at most, and the entry of a deleted key has an object.
\<close>

fun act_ok :: "rb \<Rightarrow> objs \<Rightarrow> raction \<Rightarrow> bool" where
  "act_ok st D (RNew klass) \<longleftrightarrow> klass \<noteq> CString"
| "act_ok st D (RCall v c) \<longleftrightarrow>
     (\<exists>p en ns w ct. rb_entry v st = Some (p, en) \<and> D p = Some (ns, w) \<and> e_cont (rb_eng st) p = Some ct \<and> call_ok c ct ns w)"
| "act_ok st D (RStore k data) \<longleftrightarrow> storable_data st k data"
| "act_ok st D (RDelete k) \<longleftrightarrow> deletable st k"
| "act_ok st D (RGc v) \<longleftrightarrow> rb_obj st v \<noteq> None"
| "act_ok st D _ \<longleftrightarrow> True"

definition rb_room :: "rb \<Rightarrow> bool" where
  "rb_room st \<longleftrightarrow> card (dom (rb_bind st)) \<le> 2 ^ 30 \<and> e_next (rb_eng st) < 2 ^ 64"

text \<open>The effect of an action on the map from keys to values.\<close>

fun act_map :: "rb \<Rightarrow> objs \<Rightarrow> raction \<Rightarrow> string \<rightharpoonup> val" where
  "act_map st D (RCall v c) =
     (\<lambda>k. if rb_bind st k \<noteq> None \<and> rb_bind st k = rb_obj st v
          then map_option (\<lambda>w. fst (snd (spec_call v c w))) (rb_map st D k) else rb_map st D k)"
| "act_map st D (RStore k data) = (rb_map st D)(k := data_val st D data)"
| "act_map st D (RDelete k) = (rb_map st D)(k := None)"
| "act_map st D _ = rb_map st D"

definition acted :: "econf \<Rightarrow> rb \<Rightarrow> objs \<Rightarrow> bio_item list \<Rightarrow> raction \<Rightarrow> bool" where
  "acted x st D Q a \<longleftrightarrow>
     (\<exists>r st' D' items. rb_act x a st = Some (r, st') \<and> rb_rep st' D' \<and> e_io x (rb_eng st') (Q @ items) \<and>
        rb_map st' D' = act_map st D a)"

lemma actedI:
  "rb_act x a st = Some (r, st') \<Longrightarrow> rb_rep st' D' \<Longrightarrow> e_io x (rb_eng st') (Q @ items) \<Longrightarrow>
   rb_map st' D' = act_map st D a \<Longrightarrow> acted x st D Q a"
  unfolding acted_def by blast

lemma becomes_map:
  assumes rep: "rb_rep st D" and p: "rb_obj st v = Some p" "D p = Some (ns, w)" and e: "e_db e' = e_db (rb_eng st)"
  shows "rb_map (st\<lparr>rb_eng := e'\<rparr>) (D(p \<mapsto> (ns', fst (snd (spec_call v c w))))) = act_map st D (RCall v c)"
proof
  fix k
  have "rb_bind (st\<lparr>rb_eng := e'\<rparr>) = rb_bind st"
    using e by (simp add: rb_bind_def)
  then show "rb_map (st\<lparr>rb_eng := e'\<rparr>) (D(p \<mapsto> (ns', fst (snd (spec_call v c w))))) k = act_map st D (RCall v c) k"
    using p by (cases "rb_bind st k") (auto simp: rb_map_def)
qed

lemma acted_call:
  assumes rep: "rb_rep st D" and io: "e_io x (rb_eng st) Q" and ok: "act_ok st D (RCall v c)"
  shows "acted x st D Q (RCall v c)"
proof -
  obtain p en ns w ct where c: "rb_entry v st = Some (p, en)" "D p = Some (ns, w)" "e_cont (rb_eng st) p = Some ct" "call_ok c ct ns w"
    using ok by auto
  obtain e' ns' items where r: "rb_call x v c st = Some (fst (spec_call v c w), st\<lparr>rb_eng := e'\<rparr>)"
      "rb_rep (st\<lparr>rb_eng := e'\<rparr>) (D(p \<mapsto> (ns', fst (snd (spec_call v c w)))))" "e_io x e' (Q @ items)" "e_db e' = e_db (rb_eng st)"
    using rb_call_ok [OF rep io c] by (auto simp: becomes_def split: prod.splits)
  have "rb_obj st v = Some p"
    using c(1) by (simp add: rb_entry_iff)
  then show ?thesis
    by (intro actedI [OF _ r(2)]) (use r becomes_map [OF rep _ c(2) r(4)] in simp_all)
qed

lemma acted_gc:
  assumes rep: "rb_rep st D" and io: "e_io x (rb_eng st) Q" and v: "rb_obj st v = Some p"
  shows "acted x st D Q (RGc v)"
proof -
  obtain en where "rb_ent st p = Some en"
    using objs_okD(1) [OF rb_repD(5) [OF rep] v] by blast
  then have en: "rb_entry v st = Some (p, en)"
    using v by (simp add: rb_entry_iff)
  obtain ns w where d: "D p = Some (ns, w)"
    using rb_entryE [OF rep en] by metis
  show ?thesis
  proof (cases "en_intree en")
    case True
    obtain st' where s: "rb_release x v st = Some st'" "rb_rep st' D" "rb_bind st' = rb_bind st" "rb_eng st' = rb_eng st"
      using rb_release_bound [OF rep en True] by metis
    have "rb_map st' D = rb_map st D"
      by (rule rb_map_eq [OF s(3)]) simp
    then show ?thesis
      by (intro actedI [OF _ s(2), where items = "[]"]) (use s io in simp_all)
  next
    case False
    obtain st' items where s: "rb_release x v st = Some st'" "rb_rep st' (D(p := None))" "e_io x (rb_eng st') (Q @ items)"
        "rb_map st' (D(p := None)) = rb_map st D"
      using rb_release_free [OF rep io en d False] by metis
    then show ?thesis
      by (intro actedI [OF _ s(2)]) simp_all
  qed
qed

lemma rb_act_ok:
  assumes rep: "rb_rep st D" and io: "e_io x (rb_eng st) Q" and room: "rb_room st" and ok: "act_ok st D a"
  shows "acted x st D Q a"
proof (cases a)
  case (RNew klass)
  have "klass \<noteq> CString" "e_next (rb_eng st) < 2 ^ 64"
    using RNew ok room by (simp_all add: rb_room_def)
  then obtain p st' where n: "rb_new klass st = (rb_next st, st')" "rb_rep st' (D(p \<mapsto> ([], new_val klass)))"
      "e_bio (rb_eng st') = e_bio (rb_eng st)" "rb_map st' (D(p \<mapsto> ([], new_val klass))) = rb_map st D"
    using rb_new_ok [OF rep] by metis
  then have "e_io x (rb_eng st') (Q @ [])"
    using io by (simp add: e_io_def)
  then show ?thesis
    by (intro actedI [OF _ n(2), where items = "[]"]) (use n RNew in simp_all)
next
  case (RCall v c)
  then show ?thesis
    using acted_call [OF rep io] ok by simp
next
  case (RRef k)
  obtain r st' where r: "rb_db_ref k st = Some (r, st')" "rb_rep st' D" "rb_map st' D = rb_map st D" "e_bio (rb_eng st') = e_bio (rb_eng st)"
    using rb_db_ref_ok [OF rep] by metis
  then have "e_io x (rb_eng st') (Q @ [])"
    using io by (simp add: e_io_def)
  then show ?thesis
    by (intro actedI [OF _ r(2), where items = "[]"]) (use r RRef in simp_all)
next
  case (RStore k data)
  then have "stored x st D Q k data"
    using rb_db_store_ok [OF rep io] ok room by (simp add: rb_room_def)
  then show ?thesis
    using RStore by (auto simp: stored_def acted_def)
next
  case (RDelete k)
  then obtain r st' D' items where "rb_db_delete x k st = Some (r, st')" "rb_rep st' D'" "rb_map st' D' = (rb_map st D)(k := None)"
      "e_io x (rb_eng st') (Q @ items)"
    using rb_db_delete_ok [OF rep io, of k] ok by (metis act_ok.simps(4))
  then show ?thesis
    by (intro actedI) (simp_all add: RDelete)
next
  case (RGc v)
  then show ?thesis
    using acted_gc [OF rep io] ok by auto
next
  case (RLoaded r)
  let ?st = "st\<lparr>rb_eng := xfiredb_set_loadstate (r = Qtrue) (rb_eng st)\<rparr>"
  have "rb_rep ?st D" "rb_map ?st D = rb_map st D"
    using rep by (simp_all add: rb_rep_def rb_bind_def rb_map_def xfiredb_set_loadstate_def rb_heap_ok_def obj_rep_def fun_eq_iff)
  moreover have "e_io x (rb_eng ?st) (Q @ [])"
    using io by (simp add: xfiredb_set_loadstate_def e_io_def)
  ultimately show ?thesis
    by (intro actedI [where st' = ?st and items = "[]"]) (simp_all add: RLoaded rb_se_set_loadstate_def)
qed

section \<open>Reachable states\<close>

text \<open>The state after \<^verbatim>\<open>rb_db_new\<close>.\<close>

definition rb_db_new :: rb where
  "rb_db_new = \<lparr>rb_eng = engine_init\<lparr>e_db := db_alloc ''xfire-database''\<rparr>, rb_ent = Map.empty, rb_obj = Map.empty, rb_next = 0\<rparr>"

definition allowed_act :: "rb \<Rightarrow> raction \<Rightarrow> bool" where
  "allowed_act st a \<longleftrightarrow> rb_room st \<and> (\<exists>D. rb_rep st D \<and> act_ok st D a)"

inductive rb_reach :: "econf \<Rightarrow> rb \<Rightarrow> bool" for x :: econf where
  new: "rb_reach x rb_db_new"
| act: "rb_reach x st \<Longrightarrow> allowed_act st a \<Longrightarrow> rb_act x a st = Some (r, st') \<Longrightarrow> rb_reach x st'"

lemma rb_db_new_ok:
  assumes "0 \<le> x_plvl x" "x_plvl x < 3"
  shows "rb_rep rb_db_new Map.empty" "e_io x (rb_eng rb_db_new) []" "rb_room rb_db_new" "rb_map rb_db_new D = Map.empty"
proof -
  have b: "rb_bind rb_db_new = Map.empty"
    using db_alloc_ok [of "''xfire-database''"] by (simp add: rb_bind_def rb_db_new_def)
  show "rb_rep rb_db_new Map.empty"
    using db_alloc_ok [of "''xfire-database''"] b
    by (simp add: rb_rep_def rb_heap_ok_def typed_ok_def bound_ok_def bound_at_def objs_ok_def obj_at_def rb_db_new_def engine_init_def)
  show "e_io x (rb_eng rb_db_new) []"
    using bio_init_holds assms by (simp add: rb_db_new_def e_io_def engine_init_def bio_init_def)
  have "e_next (rb_eng rb_db_new) = 1"
    by (simp add: rb_db_new_def engine_init_def)
  then show "rb_room rb_db_new" "rb_map rb_db_new D = Map.empty"
    using b by (simp_all add: rb_room_def) (simp add: rb_map_def fun_eq_iff)
qed

lemma rb_reach_ok:
  assumes "rb_reach x st" "0 \<le> x_plvl x" "x_plvl x < 3"
  shows "(\<exists>D. rb_rep st D) \<and> (\<exists>Q. e_io x (rb_eng st) Q)"
  using assms(1)
proof (induction rule: rb_reach.induct)
  case new
  then show ?case
    using rb_db_new_ok [OF assms(2,3)] by blast
next
  case (act st a r st')
  then obtain D Q where "rb_rep st D" "act_ok st D a" "rb_room st" "e_io x (rb_eng st) Q"
    by (auto simp: allowed_act_def)
  then have "acted x st D Q a"
    by (intro rb_act_ok)
  then show ?case
    using act.hyps(3) by (auto simp: acted_def)
qed

end
