(* ===== verification/RbPairs.thy ===== *)
theory RbPairs
  imports RbDb DictIter
begin

text \<open>
  \<^verbatim>\<open>rb_db_each_pair\<close> of \<^verbatim>\<open>database.c\<close>: the method \<^verbatim>\<open>each\<close> of a database, a loop over an iterator of its
  dictionary. The block that is called for a pair does not change the database, so the pairs that are passed to it are the
  result of the loop.
\<close>

section \<open>Model\<close>

text \<open>The field \<^verbatim>\<open>value.ptr\<close> of the entry of the dictionary with a given key.\<close>

definition entry_value :: "dict \<Rightarrow> string \<Rightarrow> ptr option" where
  "entry_value d k = do {
     ch \<leftarrow> entry_chain d k;
     e \<leftarrow> find (\<lambda>e. e_key e = k) ch;
     Some (e_value e)
   }"

partial_function (option) pairs_loop :: "dict_iterator \<Rightarrow> rb \<Rightarrow> ((string \<times> rval) list \<times> rb) option" where
  [code]: "pairs_loop it st = do {
     (e, it) \<leftarrow> dict_iterator_next (container (e_db (rb_eng st))) it;
     case e of
       None \<Rightarrow> Some ([], st)
     | Some k \<Rightarrow> do {
         p \<leftarrow> entry_value (container (e_db (rb_eng st))) k;
         (v, st) \<leftarrow> rb_entry_value p st;
         (kvs, st) \<leftarrow> pairs_loop it st;
         Some ((k, v) # kvs, st)
       }
   }"

text \<open>
  The macro \<^verbatim>\<open>db_get_iterator\<close> of \<^verbatim>\<open>database.h\<close> takes a safe iterator, which is counted in the dictionary;
  \<^verbatim>\<open>rb_db_each_pair\<close> does not free it.
\<close>

definition db_get_iterator :: "database \<Rightarrow> dict_iterator \<times> database" where
  "db_get_iterator db = (case dict_get_safe_iterator (container db) of (it, d) \<Rightarrow> (it, with_container db d))"

definition rb_db_each_pair :: "rb \<Rightarrow> ((string \<times> rval) list \<times> rb) option" where
  "rb_db_each_pair st =
     (case db_get_iterator (e_db (rb_eng st)) of (it, db) \<Rightarrow> pairs_loop it (st\<lparr>rb_eng := (rb_eng st)\<lparr>e_db := db\<rparr>\<rparr>))"

section \<open>Lemmas\<close>

lemma find_distinct: "distinct (map f xs) \<Longrightarrow> x \<in> set xs \<Longrightarrow> find (\<lambda>y. f y = f x) xs = Some x"
  by (induction xs) auto

lemma entry_value_ok:
  assumes ok: "dict_ok d" and e: "e \<in> set (entries d)"
  shows "entry_value d (e_key e) = Some (e_value e)"
proof -
  have "e \<in> set (concat (buckets d 0)) \<union> set (concat (buckets d 1))"
    using e by (simp add: entries_def concat_buckets)
  then obtain t ch where "t \<le> 1" "ch \<in> set (buckets d t)" "e \<in> set ch"
    by (metis UN_E UnE le_refl set_concat zero_le_one)
  then show ?thesis
    using entry_chain_ok [OF ok] find_distinct [of e_key ch e] by (simp add: entry_value_def)
qed

lemma entry_bound:
  assumes "rb_rep st D" "e \<in> set (entries (container (e_db (rb_eng st))))"
  shows "rb_bind st (e_key e) = Some (e_value e)" "entry_value (container (e_db (rb_eng st))) (e_key e) = Some (e_value e)"
proof -
  have ok: "dict_ok (container (e_db (rb_eng st)))"
    using rb_repD(1) [OF assms(1)] by (simp add: db_ok_def)
  then show "rb_bind st (e_key e) = Some (e_value e)"
    using dmap_SomeI assms(2) by (simp add: rb_bind_def dbmap_def dict_ok_def)
  show "entry_value (container (e_db (rb_eng st))) (e_key e) = Some (e_value e)"
    using entry_value_ok [OF ok assms(2)] .
qed

lemma pairs_loop_ok:
  assumes "rb_rep st D" "finds (container (e_db (rb_eng st))) it es" "set es \<subseteq> set (entries (container (e_db (rb_eng st))))"
  shows "\<exists>kvs st'. pairs_loop it st = Some (kvs, st') \<and> map fst kvs = map e_key es \<and> rb_rep st' D \<and> rb_eng st' = rb_eng st \<and>
    rb_obj st \<subseteq>\<^sub>m rb_obj st' \<and> rb_map st' D = rb_map st D \<and> (\<forall>(k, r) \<in> set kvs. shows_key st' k (rb_map st D k) r)"
  using assms
proof (induction es arbitrary: it st)
  case Nil
  then show ?case
    by (subst pairs_loop.simps) (auto simp: finds_def)
next
  case (Cons e es)
  let ?d = "container (e_db (rb_eng st))"
  have ok: "dict_ok ?d"
    using rb_repD(1) [OF Cons.prems(1)] by (simp add: db_ok_def)
  have e: "rb_bind st (e_key e) = Some (e_value e)" "entry_value ?d (e_key e) = Some (e_value e)"
    using entry_bound [OF Cons.prems(1)] Cons.prems(3) by simp_all
  obtain it' where it': "dict_iterator_next ?d it = Some (Some (e_key e), it')" "it_at ?d it' (e # es)"
    using Cons.prems(2) by (auto simp: finds_def)
  obtain r s where r: "rb_entry_value (e_value e) st = Some (r, s)" "rb_rep s D" "rb_bind s = rb_bind st" "rb_map s D = rb_map st D"
      "shows_key s (e_key e) (rb_map st D (e_key e)) r" "rb_obj st \<subseteq>\<^sub>m rb_obj s" "rb_eng s = rb_eng st"
    using rb_entry_value_ok [OF Cons.prems(1) e(1)] .
  obtain kvs st' where IH: "pairs_loop it' s = Some (kvs, st')" "map fst kvs = map e_key es" "rb_rep st' D" "rb_eng st' = rb_eng s"
      "rb_obj s \<subseteq>\<^sub>m rb_obj st'" "rb_map st' D = rb_map s D" "\<forall>(k, r) \<in> set kvs. shows_key st' k (rb_map s D k) r"
    using Cons.IH [OF r(2), of it'] next_at [OF ok it'(2)] Cons.prems(3) r(7) by auto
  have "pairs_loop it st = Some ((e_key e, r) # kvs, st')"
    using it'(1) e(2) r(1) IH(1) by (subst pairs_loop.simps) simp
  moreover have "shows_key st' (e_key e) (rb_map st D (e_key e)) r"
    using shows_key_mono [OF r(5) IH(5)] IH(4) by (simp add: rb_bind_def)
  ultimately show ?case
    using IH r(4,6,7) map_le_trans by auto
qed

text \<open>The engine with one more safe iterator of the dictionary of its database.\<close>

definition iterating :: "engine \<Rightarrow> engine" where
  "iterating e = e\<lparr>e_db := (e_db e)\<lparr>container := (container (e_db e))\<lparr>iterators := iterators (container (e_db e)) + 1\<rparr>\<rparr>\<rparr>"

lemma rb_db_each_pair_ok:
  assumes rep: "rb_rep st D"
  obtains kvs st' where "rb_db_each_pair st = Some (kvs, st')" "rb_rep st' D" "rb_map st' D = rb_map st D"
    "rb_eng st' = iterating (rb_eng st)"
    "distinct (map fst kvs)" "fst ` set kvs = dom (rb_map st D)" "\<forall>(k, r) \<in> set kvs. shows_key st' k (rb_map st D k) r"
proof -
  let ?d = "container (e_db (rb_eng st))"
  have ok: "dict_ok ?d"
    using rb_repD(1) [OF rep] by (simp add: db_ok_def)
  obtain it d' where it: "dict_get_safe_iterator ?d = (it, d')"
    by (cases "dict_get_safe_iterator ?d")
  note d' = finds_all_safe [OF ok it]
  let ?db = "with_container (e_db (rb_eng st)) d'"
  let ?s = "st\<lparr>rb_eng := (rb_eng st)\<lparr>e_db := ?db\<rparr>\<rparr>"
  have db: "db_ok ?db" "dbmap ?db = rb_bind st"
    using ok d'(1) by (simp_all add: db_defs rb_bind_def)
  note s = rb_rep_db [OF rep db]
  have es: "finds (container (e_db (rb_eng ?s))) it (entries ?d)" "set (entries ?d) \<subseteq> set (entries (container (e_db (rb_eng ?s))))"
    using d' by (simp_all add: with_container_def)
  obtain kvs st' where kvs: "pairs_loop it ?s = Some (kvs, st')" "map fst kvs = map e_key (entries ?d)" "rb_rep st' D"
      "rb_eng st' = rb_eng ?s" "rb_map st' D = rb_map ?s D" "\<forall>(k, r) \<in> set kvs. shows_key st' k (rb_map ?s D k) r"
    using pairs_loop_ok [OF s(1) es] by blast
  have r: "rb_db_each_pair st = Some (kvs, st')" "rb_eng st' = iterating (rb_eng st)"
    using kvs(1,4) it d'(1) by (simp_all add: rb_db_each_pair_def db_get_iterator_def iterating_def with_container_def)
  have "rb_map st D k \<noteq> None" if "rb_bind st k = Some p" for k p
    using bound_entry [OF rep that] by (metis option.distinct(1))
  then have "dom (rb_map st D) = dom (rb_bind st)"
    by (fastforce simp: rb_map_def dom_def bind_eq_Some_conv)
  also have "\<dots> = e_key ` set (entries ?d)"
    using dmap_dom [of _ ?d] by (force simp: rb_bind_def dbmap_def dom_def)
  also have "\<dots> = fst ` set kvs"
    using kvs(2) by (metis list.set_map)
  finally show thesis
    using that [OF r(1) kvs(3) _ r(2)] kvs(2,5,6) s(3) ok by (simp add: dict_ok_def)
qed

end
