(* ===== verification/Quotearg.thy ===== *)
theory Quotearg
  imports XPrelude
begin

text \<open>
  String escaping: \<^verbatim>\<open>libxfiredbengine/quotearg.c\<close> and its copy in
  \<^verbatim>\<open>clients/c/client.c\<close>. The functions write byte by byte into a buffer whose size is
  fixed before the loop, so the model keeps the capacity: a write outside the buffer, or
  through the null pointer that \<^verbatim>\<open>xfiredb_zalloc(0)\<close> returns, is an error value.

  A memory block is the list of its bytes; a C string in it ends at the first NUL.
\<close>

section \<open>Buffers\<close>

datatype buf_error = NullDeref | OutOfBounds | IntOverflow

text \<open>
  The size of the block for a string, \<open>m\<close> bytes for a character. The length and the product are of type \<^verbatim>\<open>int\<close>: beyond its range
  the program is not defined.
\<close>

definition block_size :: "nat \<Rightarrow> string \<Rightarrow> buf_error + nat" where
  "block_size m src = (if length src * m < 2 ^ 31 then Inr (length src * m) else Inl IntOverflow)"

text \<open>A write cursor: the capacity of the block (0 for the null pointer) and what was written.\<close>

type_synonym wbuf = "nat \<times> string"

definition putc :: "char \<Rightarrow> wbuf \<Rightarrow> buf_error + wbuf" where
  "putc c b = (case b of (cap, w) \<Rightarrow>
     if cap = 0 then Inl NullDeref
     else if length w < cap then Inr (cap, w @ [c]) else Inl OutOfBounds)"

primrec puts :: "string \<Rightarrow> wbuf \<Rightarrow> buf_error + wbuf" where
  "puts [] b = Inr b"
| "puts (c # cs) b = (case putc c b of Inl e \<Rightarrow> Inl e | Inr b' \<Rightarrow> puts cs b')"

text \<open>\<^verbatim>\<open>strlen\<close> of the bytes of a block, and the C string a reader finds there, if any.\<close>

definition block_strlen :: "string \<Rightarrow> nat" where
  "block_strlen w = length (takeWhile (\<lambda>c. c \<noteq> CHR 0x00) w)"

definition block_cstr :: "string \<Rightarrow> string option" where
  "block_cstr w =
     (if CHR 0x00 \<in> set w then Some (takeWhile (\<lambda>c. c \<noteq> CHR 0x00) w) else None)"

section \<open>quotearg.c\<close>

abbreviation bslash :: char where "bslash \<equiv> CHR 0x5C"

text \<open>The \<^verbatim>\<open>switch\<close> of \<^verbatim>\<open>xfiredb_unescape_char\<close>: the byte stored for an escape letter.\<close>

definition xfiredb_unescape_char :: "char \<Rightarrow> char" where
  "xfiredb_unescape_char c =
     (if c = CHR ''a'' then CHR 0x07
      else if c = CHR ''b'' then CHR 0x08
      else if c = CHR ''f'' then CHR 0x0C
      else if c = CHR ''n'' then CHR 0x0A
      else if c = CHR ''r'' then CHR 0x0D
      else if c = CHR ''t'' then CHR 0x09
      else if c = CHR ''v'' then CHR 0x0B
      else c)"

text \<open>
  The loop of \<^verbatim>\<open>xfiredb_unescape_string\<close>. A backslash before the terminator copies the
  terminator and steps over it, so the next read is outside the source.
\<close>

fun unescape_loop :: "string \<Rightarrow> wbuf \<Rightarrow> buf_error + wbuf" where
  "unescape_loop [] b = Inr b"
| "unescape_loop (c # src) b =
     (if c = bslash then
        (case src of
           [] \<Rightarrow> (case putc (xfiredb_unescape_char (CHR 0x00)) b of
                   Inl e \<Rightarrow> Inl e | Inr b' \<Rightarrow> Inl OutOfBounds)
         | d # src' \<Rightarrow> (case putc (xfiredb_unescape_char d) b of
                          Inl e \<Rightarrow> Inl e | Inr b' \<Rightarrow> unescape_loop src' b'))
      else (case putc c b of Inl e \<Rightarrow> Inl e | Inr b' \<Rightarrow> unescape_loop src b'))"

text \<open>The \<^verbatim>\<open>switch\<close> of \<^verbatim>\<open>xfiredb_escape_string\<close>: the bytes stored for one source byte.\<close>

definition escape_char :: "char \<Rightarrow> string" where
  "escape_char c =
     (if c = CHR 0x07 then [bslash, CHR ''a'']
      else if c = CHR 0x08 then [bslash, CHR ''b'']
      else if c = CHR 0x0C then [bslash, CHR ''f'']
      else if c = CHR 0x0A then [bslash, CHR ''n'']
      else if c = CHR 0x0D then [bslash, CHR ''r'']
      else if c = CHR 0x09 then [bslash, CHR ''t'']
      else if c = CHR 0x0B then [bslash, CHR ''v'']
      else if c = bslash then [bslash, bslash]
      else if c = CHR 0x22 then [bslash, CHR 0x22]
      else if c = CHR 0x27 then [bslash, CHR 0x27]
      else [c])"

primrec escape_loop :: "string \<Rightarrow> wbuf \<Rightarrow> buf_error + wbuf" where
  "escape_loop [] b = Inr b"
| "escape_loop (c # src) b =
     (case puts (escape_char c) b of Inl e \<Rightarrow> Inl e | Inr b' \<Rightarrow> escape_loop src b')"

text \<open>
  The engine's versions shrink the block to \<^verbatim>\<open>strlen(orig)\<close> bytes, without room for the
  terminator.
\<close>

definition xfiredb_unescape_string :: "string \<Rightarrow> buf_error + string" where
  "xfiredb_unescape_string src =
     (case block_size 1 src of
        Inl e \<Rightarrow> Inl e
      | Inr len \<Rightarrow> (case unescape_loop src (len, []) of
          Inl e \<Rightarrow> Inl e
        | Inr b \<Rightarrow> (case putc (CHR 0x00) b of
            Inl e \<Rightarrow> Inl e
          | Inr (cap, w) \<Rightarrow> Inr (take (block_strlen w) w))))"

definition xfiredb_escape_string :: "string \<Rightarrow> buf_error + string" where
  "xfiredb_escape_string src =
     (case block_size 2 src of
        Inl e \<Rightarrow> Inl e
      | Inr len \<Rightarrow> (case escape_loop src (len, []) of
          Inl e \<Rightarrow> Inl e
        | Inr b \<Rightarrow> (case putc (CHR 0x00) b of
            Inl e \<Rightarrow> Inl e
          | Inr (cap, w) \<Rightarrow> Inr (take (block_strlen w) w))))"

section \<open>clients/c/client.c\<close>

text \<open>The client library's copies keep the terminator when they shrink the block.\<close>

definition client_unescape_string :: "string \<Rightarrow> buf_error + string" where
  "client_unescape_string src =
     (case block_size 1 src of
        Inl e \<Rightarrow> Inl e
      | Inr len \<Rightarrow> (case unescape_loop src (len, []) of
          Inl e \<Rightarrow> Inl e
        | Inr b \<Rightarrow> (case putc (CHR 0x00) b of
            Inl e \<Rightarrow> Inl e
          | Inr (cap, w) \<Rightarrow> Inr (take (block_strlen w + 1) w))))"

definition client_escape_string :: "string \<Rightarrow> buf_error + string" where
  "client_escape_string src =
     (case block_size 2 src of
        Inl e \<Rightarrow> Inl e
      | Inr len \<Rightarrow> (case escape_loop src (len, []) of
          Inl e \<Rightarrow> Inl e
        | Inr b \<Rightarrow> (case putc (CHR 0x00) b of
            Inl e \<Rightarrow> Inl e
          | Inr (cap, w) \<Rightarrow> Inr (take (block_strlen w + 1) w))))"

section \<open>Lemmas\<close>

text \<open>The text the loops produce, without the bounds.\<close>

definition escape_text :: "string \<Rightarrow> string" where
  "escape_text s = concat (map escape_char s)"

fun unescape_text :: "string \<Rightarrow> string option" where
  "unescape_text [] = Some []"
| "unescape_text (c # s) =
     (if c = bslash then
        (case s of [] \<Rightarrow> None | d # s' \<Rightarrow> map_option ((#) (xfiredb_unescape_char d)) (unescape_text s'))
      else map_option ((#) c) (unescape_text s))"

definition special :: "char \<Rightarrow> bool" where
  "special c \<longleftrightarrow> length (escape_char c) = 2"

lemma putc_eq: "0 < cap \<Longrightarrow> putc c (cap, w) = (if length w < cap then Inr (cap, w @ [c]) else Inl OutOfBounds)"
  by (simp add: putc_def)

lemma puts_eq:
  "0 < cap \<Longrightarrow> length w \<le> cap \<Longrightarrow>
   puts cs (cap, w) = (if length w + length cs \<le> cap then Inr (cap, w @ cs) else Inl OutOfBounds)"
  by (induction cs arbitrary: w) (auto simp: putc_eq)

lemma escape_loop_eq:
  "0 < cap \<Longrightarrow> length w \<le> cap \<Longrightarrow>
   escape_loop s (cap, w) =
     (if length w + length (escape_text s) \<le> cap then Inr (cap, w @ escape_text s)
      else Inl OutOfBounds)"
proof (induction s arbitrary: w)
  case Nil
  then show ?case by (simp add: escape_text_def)
next
  case (Cons c s)
  show ?case
  proof (cases "length w + length (escape_char c) \<le> cap")
    case True
    then show ?thesis
      using Cons.IH [of "w @ escape_char c"] Cons.prems by (simp add: puts_eq escape_text_def add.assoc)
  next
    case False
    then show ?thesis
      using Cons.prems by (simp add: puts_eq escape_text_def)
  qed
qed

lemma unescape_loop_cases:
  "unescape_loop [bslash] b =
     (case putc (CHR 0x00) b of Inl e \<Rightarrow> Inl e | Inr b' \<Rightarrow> Inl OutOfBounds)"
  "unescape_loop (bslash # d # s) b =
     (case putc (xfiredb_unescape_char d) b of Inl e \<Rightarrow> Inl e | Inr b' \<Rightarrow> unescape_loop s b')"
  "c \<noteq> bslash \<Longrightarrow> unescape_loop (c # s) b =
     (case putc c b of Inl e \<Rightarrow> Inl e | Inr b' \<Rightarrow> unescape_loop s b')"
  by (simp_all add: xfiredb_unescape_char_def)

lemma unescape_text_cases:
  "unescape_text [bslash] = None"
  "unescape_text (bslash # d # s) = map_option ((#) (xfiredb_unescape_char d)) (unescape_text s)"
  "c \<noteq> bslash \<Longrightarrow> unescape_text (c # s) = map_option ((#) c) (unescape_text s)"
  by simp_all

lemmas unescape_simps = unescape_loop_cases unescape_text_cases

declare unescape_loop.simps(2) [simp del] unescape_text.simps(2) [simp del]

lemma escape_induct [case_names Nil Lone Esc Plain]:
  "P [] \<Longrightarrow> P [bslash] \<Longrightarrow> (\<And>d s. P s \<Longrightarrow> P (bslash # d # s)) \<Longrightarrow>
   (\<And>c s. c \<noteq> bslash \<Longrightarrow> P s \<Longrightarrow> P (c # s)) \<Longrightarrow> P s"
proof (induction s rule: unescape_text.induct)
  case (2 c s)
  show ?case
  proof (cases "c = bslash")
    case True
    then show ?thesis
      using "2.IH"(1) "2.prems" by (cases s) metis+
  next
    case False
    then show ?thesis
      using "2.IH"(2) "2.prems" by metis
  qed
qed

lemma unescape_loop_eq:
  "0 < cap \<Longrightarrow> length w \<le> cap \<Longrightarrow>
   unescape_loop s (cap, w) =
     (case unescape_text s of
        Some t \<Rightarrow> if length w + length t \<le> cap then Inr (cap, w @ t) else Inl OutOfBounds
      | None \<Rightarrow> Inl OutOfBounds)"
proof (induction s arbitrary: w rule: escape_induct)
  case Nil
  then show ?case by simp
next
  case Lone
  then show ?case by (simp add: unescape_simps putc_eq)
next
  case (Esc d s)
  from Esc.prems Esc.IH [of "w @ [xfiredb_unescape_char d]"] show ?case
    by (simp add: unescape_simps putc_eq split: option.split)
next
  case (Plain c s)
  from Plain.prems Plain.hyps Plain.IH [of "w @ [c]"] show ?case
    by (simp add: unescape_simps putc_eq split: option.split)
qed

lemma unescape_escape_char:
  "unescape_text (escape_char c @ s) = map_option ((#) c) (unescape_text s)"
  by (simp add: escape_char_def xfiredb_unescape_char_def unescape_simps)

lemma unescape_escape_text: "unescape_text (escape_text s) = Some s"
  by (induction s) (simp_all add: escape_text_def unescape_escape_char)

lemma length_escape_char: "length (escape_char c) = (if special c then 2 else 1)"
  by (simp add: special_def escape_char_def)

lemma length_escape_text: "length (escape_text s) = length s + length (filter special s)"
  by (induction s) (simp_all add: escape_text_def length_escape_char)

lemma special_iff: "special c \<longleftrightarrow> escape_char c \<noteq> [c]"
  by (simp add: special_def escape_char_def)

lemma escape_char_no_nul: "c \<noteq> CHR 0x00 \<Longrightarrow> CHR 0x00 \<notin> set (escape_char c)"
  unfolding escape_char_def
  by (simp only: if_distrib [of set] if_distrib [of "\<lambda>s. CHR 0x00 \<notin> s"]) simp

lemma cstr_escape_text:
  assumes "cstr s"
  shows "cstr (escape_text s)"
proof -
  have "CHR 0x00 \<notin> set (escape_char c)" if "c \<in> set s" for c
    using assms that by (intro escape_char_no_nul) (auto simp: cstr_def)
  then show ?thesis
    unfolding cstr_def escape_text_def by (simp only: set_concat set_map) blast
qed

lemma takeWhile_cstr: "cstr w \<Longrightarrow> takeWhile (\<lambda>c. c \<noteq> CHR 0x00) (w @ [CHR 0x00]) = w"
  unfolding cstr_def by (induction w) auto

lemma block_strlen_nul: "cstr w \<Longrightarrow> block_strlen (w @ [CHR 0x00]) = length w"
  by (simp only: block_strlen_def takeWhile_cstr)

lemma block_cstr_nul: "cstr w \<Longrightarrow> block_cstr (w @ [CHR 0x00]) = Some w"
  by (simp add: block_cstr_def takeWhile_cstr)

lemma escape_room: "length (escape_text s) < length s * 2 \<longleftrightarrow> \<not> list_all special s"
proof (induction s)
  case Nil
  then show ?case by (simp add: escape_text_def)
next
  case (Cons c s)
  have "length (escape_text s) \<le> length s * 2"
    using length_filter_le [of special s] by (simp add: length_escape_text)
  with Cons show ?case
    by (auto simp: escape_text_def length_escape_char)
qed

lemma unescape_text_length:
  "unescape_text s = Some t \<Longrightarrow> length t \<le> length s \<and> (length t < length s \<longleftrightarrow> bslash \<in> set s)"
proof (induction s arbitrary: t rule: escape_induct)
  case Nil
  then show ?case by simp
next
  case Lone
  then show ?case by (simp add: unescape_simps)
next
  case (Esc d s)
  then obtain t' where "unescape_text s = Some t'" and "t = xfiredb_unescape_char d # t'"
    by (auto simp: unescape_simps)
  with Esc.IH [of t'] show ?case by simp
next
  case (Plain c s)
  then obtain t' where "unescape_text s = Some t'" and "t = c # t'"
    by (auto simp: unescape_simps)
  with Plain.IH [of t'] Plain.hyps show ?case by auto
qed

lemma escape_loop_nul:
  assumes "cstr s"
  shows "(case escape_loop s (length s * 2, []) of Inl e \<Rightarrow> Inl e | Inr b \<Rightarrow> putc (CHR 0x00) b) =
    (if s = [] then Inl NullDeref else if list_all special s then Inl OutOfBounds
     else Inr (length s * 2, escape_text s @ [CHR 0x00]))"
proof (cases "s = []")
  case True
  then show ?thesis by (simp add: putc_def)
next
  case False
  have le: "length (escape_text s) \<le> length s * 2"
    using length_filter_le [of special s] by (simp add: length_escape_text)
  show ?thesis
    using False le escape_room [of s] by (simp add: escape_loop_eq putc_eq)
qed

text \<open>C36: Escaping in the engine writes inside its buffer exactly when the string is shorter than 2^30 characters and has a
  character that needs no escape, and then returns the escaped text. From 2^30 characters on the size of the buffer overflows an
  \<^verbatim>\<open>int\<close>, on the empty string the terminator is
  written through the null pointer, and on a string of only special characters the terminator
  falls one byte outside the buffer.\<close>

theorem escape_string_bounds:
  assumes "cstr s"
  shows "xfiredb_escape_string s =
    (if 2 ^ 30 \<le> length s then Inl IntOverflow else if s = [] then Inl NullDeref
     else if list_all special s then Inl OutOfBounds else Inr (concat (map escape_char s)))"
proof (cases "2 ^ 30 \<le> length s")
  case True
  then show ?thesis
    by (simp add: xfiredb_escape_string_def block_size_def)
next
  case False
  then have "xfiredb_escape_string s =
    (case (case escape_loop s (length s * 2, []) of Inl e \<Rightarrow> Inl e | Inr b \<Rightarrow> putc (CHR 0x00) b) of
       Inl e \<Rightarrow> Inl e | Inr (cap, w) \<Rightarrow> Inr (take (block_strlen w) w))"
    by (simp add: xfiredb_escape_string_def block_size_def split: sum.split)
  then show ?thesis
    using cstr_escape_text [OF assms] False
    by (simp add: escape_loop_nul [OF assms] block_strlen_nul) (simp add: escape_text_def)
qed

theorem escape_string_bounds_witness:
  "cstr ''a'' \<and> cstr [CHR 0x0A] \<and> xfiredb_escape_string ''a'' = Inr ''a'' \<and>
   xfiredb_escape_string [CHR 0x0A] = Inl OutOfBounds \<and>
   xfiredb_escape_string (replicate (2 ^ 30) (CHR ''a'')) = Inl IntOverflow"
proof -
  have a: "cstr ''a''" and n: "cstr [CHR 0x0A]" and l: "cstr (replicate (2 ^ 30) (CHR ''a''))"
    by (simp_all add: cstr_def del: power_numeral)
  have "xfiredb_escape_string (replicate (2 ^ 30) (CHR ''a'')) = Inl IntOverflow"
    using escape_string_bounds [OF l] by (simp del: power_numeral)
  moreover have "xfiredb_escape_string ''a'' = Inr ''a''" "xfiredb_escape_string [CHR 0x0A] = Inl OutOfBounds"
    using escape_string_bounds [OF a] escape_string_bounds [OF n] by (simp_all add: special_def escape_char_def)
  ultimately show ?thesis
    using a n by blast
qed

lemma unescape_string_eq:
  assumes "unescape_text s = Some t" and "cstr t" and "s \<noteq> []" and "length s < 2 ^ 31"
  shows "xfiredb_unescape_string s = (if bslash \<in> set s then Inr t else Inl OutOfBounds)"
    and "client_unescape_string s = (if bslash \<in> set s then Inr (t @ [CHR 0x00]) else Inl OutOfBounds)"
  using assms unescape_text_length [OF assms(1)]
  by (auto simp: xfiredb_unescape_string_def client_unescape_string_def block_size_def unescape_loop_eq putc_eq
      block_strlen_nul)

lemma unescape_plain: "bslash \<notin> set s \<Longrightarrow> unescape_text s = Some s"
  by (induction s) (simp_all add: unescape_text_cases(3) [OF not_sym])

text \<open>Unescaping a string that contains no escape at all writes its terminator one byte
  past the buffer, in the engine and in the client library.\<close>

theorem unescape_plain_overflows:
  assumes "cstr s" and "s \<noteq> []" and "bslash \<notin> set s" and "length s < 2 ^ 31"
  shows "xfiredb_unescape_string s = Inl OutOfBounds \<and> client_unescape_string s = Inl OutOfBounds"
  using unescape_string_eq [OF unescape_plain [OF assms(3)] assms(1,2,4)] assms(3) by simp

theorem unescape_plain_overflows_witness:
  "cstr ''key'' \<and> ''key'' \<noteq> [] \<and> bslash \<notin> set ''key'' \<and>
   xfiredb_unescape_string ''key'' = Inl OutOfBounds"
proof -
  have h: "cstr ''key''" "''key'' \<noteq> []" "bslash \<notin> set ''key''" "length ''key'' < 2 ^ 31"
    by (simp_all add: cstr_def)
  show ?thesis
    using h unescape_plain_overflows [OF h] by simp
qed

lemma escape_text_bslash: "list_ex special s \<Longrightarrow> bslash \<in> set (escape_text s)"
proof (induction s)
  case Nil
  then show ?case by simp
next
  case (Cons c s)
  have "length (escape_char c) = 2 \<longrightarrow> bslash \<in> set (escape_char c)"
    by (simp add: escape_char_def)
  with Cons show ?case
    by (auto simp: escape_text_def special_def)
qed

text \<open>C34: Escape and unescape of the client library are inverse: for every C string of fewer than 2^30 characters with at
  least one special and one plain character, both calls stay inside their buffers and the
  reader gets the original string back.\<close>

theorem client_escape_roundtrip:
  assumes "cstr s" and "list_ex special s" and "\<not> list_all special s" and "length s < 2 ^ 30"
  shows "\<exists>blk e blk'. client_escape_string s = Inr blk \<and> block_cstr blk = Some e \<and>
    client_unescape_string e = Inr blk' \<and> block_cstr blk' = Some s"
proof -
  have ne: "s \<noteq> []" and b: "bslash \<in> set (escape_text s)"
    using assms(2) escape_text_bslash by auto
  have "client_escape_string s =
    (case (case escape_loop s (length s * 2, []) of Inl e \<Rightarrow> Inl e | Inr b \<Rightarrow> putc (CHR 0x00) b) of
       Inl e \<Rightarrow> Inl e | Inr (cap, w) \<Rightarrow> Inr (take (block_strlen w + 1) w))"
    using assms(4) by (simp add: client_escape_string_def block_size_def split: sum.split)
  then have esc: "client_escape_string s = Inr (escape_text s @ [CHR 0x00])"
    using ne assms(3) cstr_escape_text [OF assms(1)]
    by (simp add: escape_loop_nul [OF assms(1)] block_strlen_nul)
  have "escape_text s \<noteq> []" "length (escape_text s) < 2 ^ 31"
    using b assms(4) escape_room [of s] assms(3) by auto
  then have une: "client_unescape_string (escape_text s) = Inr (s @ [CHR 0x00])"
    using unescape_string_eq(2) [OF unescape_escape_text assms(1)] b by simp
  show ?thesis
    using esc une block_cstr_nul [OF assms(1)] block_cstr_nul [OF cstr_escape_text [OF assms(1)]]
    by blast
qed

theorem client_escape_roundtrip_witness:
  "cstr [CHR ''a'', CHR 0x0A] \<and> list_ex special [CHR ''a'', CHR 0x0A] \<and>
   \<not> list_all special [CHR ''a'', CHR 0x0A] \<and>
   (\<exists>blk e blk'. client_escape_string [CHR ''a'', CHR 0x0A] = Inr blk \<and> block_cstr blk = Some e \<and>
     client_unescape_string e = Inr blk' \<and> block_cstr blk' = Some [CHR ''a'', CHR 0x0A])"
proof -
  have h: "cstr [CHR ''a'', CHR 0x0A]" "list_ex special [CHR ''a'', CHR 0x0A]"
    "\<not> list_all special [CHR ''a'', CHR 0x0A]" "length [CHR ''a'', CHR 0x0A] < 2 ^ 30"
    by (simp_all add: cstr_def special_def escape_char_def)
  show ?thesis
    using h client_escape_roundtrip [OF h] by blast
qed

end
