(* ===== verification/Crc16.thy ===== *)
theory Crc16
  imports XPrelude
begin

text \<open>
  \<^verbatim>\<open>libxfiredbengine/crc16.c\<close>: the table-driven CRC16 that maps keys to cluster slots.
  The table is transcribed entry by entry; the reference is the bit-serial CRC with the
  polynomial \<open>x^16 + x^12 + x^5 + 1\<close> (0x1021, initial value 0, no reflection).
\<close>

section \<open>The code\<close>

definition crc16tab :: "u16 list" where
  "crc16tab =
    [0x0000, 0x1021, 0x2042, 0x3063, 0x4084, 0x50a5, 0x60c6, 0x70e7,
     0x8108, 0x9129, 0xa14a, 0xb16b, 0xc18c, 0xd1ad, 0xe1ce, 0xf1ef,
     0x1231, 0x0210, 0x3273, 0x2252, 0x52b5, 0x4294, 0x72f7, 0x62d6,
     0x9339, 0x8318, 0xb37b, 0xa35a, 0xd3bd, 0xc39c, 0xf3ff, 0xe3de,
     0x2462, 0x3443, 0x0420, 0x1401, 0x64e6, 0x74c7, 0x44a4, 0x5485,
     0xa56a, 0xb54b, 0x8528, 0x9509, 0xe5ee, 0xf5cf, 0xc5ac, 0xd58d,
     0x3653, 0x2672, 0x1611, 0x0630, 0x76d7, 0x66f6, 0x5695, 0x46b4,
     0xb75b, 0xa77a, 0x9719, 0x8738, 0xf7df, 0xe7fe, 0xd79d, 0xc7bc,
     0x48c4, 0x58e5, 0x6886, 0x78a7, 0x0840, 0x1861, 0x2802, 0x3823,
     0xc9cc, 0xd9ed, 0xe98e, 0xf9af, 0x8948, 0x9969, 0xa90a, 0xb92b,
     0x5af5, 0x4ad4, 0x7ab7, 0x6a96, 0x1a71, 0x0a50, 0x3a33, 0x2a12,
     0xdbfd, 0xcbdc, 0xfbbf, 0xeb9e, 0x9b79, 0x8b58, 0xbb3b, 0xab1a,
     0x6ca6, 0x7c87, 0x4ce4, 0x5cc5, 0x2c22, 0x3c03, 0x0c60, 0x1c41,
     0xedae, 0xfd8f, 0xcdec, 0xddcd, 0xad2a, 0xbd0b, 0x8d68, 0x9d49,
     0x7e97, 0x6eb6, 0x5ed5, 0x4ef4, 0x3e13, 0x2e32, 0x1e51, 0x0e70,
     0xff9f, 0xefbe, 0xdfdd, 0xcffc, 0xbf1b, 0xaf3a, 0x9f59, 0x8f78,
     0x9188, 0x81a9, 0xb1ca, 0xa1eb, 0xd10c, 0xc12d, 0xf14e, 0xe16f,
     0x1080, 0x00a1, 0x30c2, 0x20e3, 0x5004, 0x4025, 0x7046, 0x6067,
     0x83b9, 0x9398, 0xa3fb, 0xb3da, 0xc33d, 0xd31c, 0xe37f, 0xf35e,
     0x02b1, 0x1290, 0x22f3, 0x32d2, 0x4235, 0x5214, 0x6277, 0x7256,
     0xb5ea, 0xa5cb, 0x95a8, 0x8589, 0xf56e, 0xe54f, 0xd52c, 0xc50d,
     0x34e2, 0x24c3, 0x14a0, 0x0481, 0x7466, 0x6447, 0x5424, 0x4405,
     0xa7db, 0xb7fa, 0x8799, 0x97b8, 0xe75f, 0xf77e, 0xc71d, 0xd73c,
     0x26d3, 0x36f2, 0x0691, 0x16b0, 0x6657, 0x7676, 0x4615, 0x5634,
     0xd94c, 0xc96d, 0xf90e, 0xe92f, 0x99c8, 0x89e9, 0xb98a, 0xa9ab,
     0x5844, 0x4865, 0x7806, 0x6827, 0x18c0, 0x08e1, 0x3882, 0x28a3,
     0xcb7d, 0xdb5c, 0xeb3f, 0xfb1e, 0x8bf9, 0x9bd8, 0xabbb, 0xbb9a,
     0x4a75, 0x5a54, 0x6a37, 0x7a16, 0x0af1, 0x1ad0, 0x2ab3, 0x3a92,
     0xfd2e, 0xed0f, 0xdd6c, 0xcd4d, 0xbdaa, 0xad8b, 0x9de8, 0x8dc9,
     0x7c26, 0x6c07, 0x5c64, 0x4c45, 0x3ca2, 0x2c83, 0x1ce0, 0x0cc1,
     0xef1f, 0xff3e, 0xcf5d, 0xdf7c, 0xaf9b, 0xbfba, 0x8fd9, 0x9ff8,
     0x6e17, 0x7e36, 0x4e55, 0x5e74, 0x2e93, 0x3eb2, 0x0ed1, 0x1ef0]"

text \<open>
  One loop iteration. \<^verbatim>\<open>crc >> 8\<close> and the signed \<^verbatim>\<open>char\<close> are promoted to \<^verbatim>\<open>int\<close>, masked
  with \<^verbatim>\<open>0x00FF\<close>; the result is truncated to 16 bits by the assignment.
\<close>

definition crc16_step :: "u16 \<Rightarrow> char \<Rightarrow> u16" where
  "crc16_step crc c =
     ucast (push_bit 8 (ucast crc :: u32) XOR
            ucast (crc16tab ! unat ((drop_bit 8 (ucast crc :: u32) XOR schar c) AND 0x00FF)))"

text \<open>The loop counts up to the length of the key, which the code keeps in an \<^verbatim>\<open>int\<close>.\<close>

definition xfiredb_crc16 :: "string \<Rightarrow> u16" where
  "xfiredb_crc16 str = foldl crc16_step 0 str"

section \<open>The bit-serial reference\<close>

definition crc_bit :: "u16 \<Rightarrow> u16" where
  "crc_bit x = push_bit 1 x XOR (if bit x 15 then 0x1021 else 0)"

definition crc_byte :: "u16 \<Rightarrow> u16" where
  "crc_byte x = crc_bit (crc_bit (crc_bit (crc_bit (crc_bit (crc_bit (crc_bit (crc_bit x)))))))"

definition crc16_ref :: "string \<Rightarrow> u16" where
  "crc16_ref str = foldl (\<lambda>crc c. crc_byte (crc XOR push_bit 8 (uchar c))) 0 str"

section \<open>Lemmas\<close>

lemma length_crc16tab: "length crc16tab = 256"
  by (simp add: crc16tab_def)

lemma crc_bit_xor: "crc_bit (x XOR y) = crc_bit x XOR crc_bit y"
  by (rule bit_word_eqI) (auto simp: crc_bit_def bit_xor_iff bit_push_bit_iff)

lemma crc_byte_xor: "crc_byte (x XOR y) = crc_byte x XOR crc_byte y"
  by (simp add: crc_byte_def crc_bit_xor)

text \<open>
  The table is the exclusive-or span of its eight power-of-two entries, and so is the
  bit-serial CRC of a byte, by linearity.
\<close>

primrec xor_span :: "u16 list \<Rightarrow> u16 list" where
  "xor_span [] = [0]"
| "xor_span (e # es) = xor_span es @ map (\<lambda>x. x XOR e) (xor_span es)"

lemma length_xor_span [simp]: "length (xor_span es) = 2 ^ length es"
  by (induction es) auto

lemma crc16tab_span:
  "crc16tab = xor_span (map crc_byte [0x8000, 0x4000, 0x2000, 0x1000, 0x800, 0x400, 0x200, 0x100])"
  by (simp add: crc16tab_def crc_byte_def crc_bit_def)

primrec byte_basis :: "nat \<Rightarrow> u16 list" where
  "byte_basis 0 = []"
| "byte_basis (Suc n) = crc_byte (push_bit 8 (2 ^ n)) # byte_basis n"

lemma length_byte_basis [simp]: "length (byte_basis n) = n"
  by (induction n) auto

lemma exp_add_xor: "j < 2 ^ n \<Longrightarrow> 2 ^ n + j = (2 ^ n) XOR (j::nat)"
  by (rule disjunctive_add_eq_xor) (simp add: and.commute and_exp_eq_0_iff_not_bit bit_iff_odd)

lemma xor_span_basis:
  "i < 2 ^ n \<Longrightarrow> xor_span (byte_basis n) ! i = crc_byte (push_bit 8 (of_nat i))"
proof (induction n arbitrary: i)
  case 0
  then show ?case by (simp add: crc_byte_def crc_bit_def)
next
  case (Suc n)
  show ?case
  proof (cases "i < 2 ^ n")
    case True
    then show ?thesis using Suc.IH by (simp add: nth_append)
  next
    case False
    then obtain j where i: "i = 2 ^ n + j" and j: "j < 2 ^ n"
      using Suc.prems by (metis add_less_cancel_left le_add_diff_inverse mult_2 not_less power_Suc)
    have "(of_nat i :: u16) = 2 ^ n XOR of_nat j"
      unfolding i exp_add_xor [OF j] by (simp add: of_nat_xor_eq)
    then show ?thesis
      using Suc.IH [OF j] i j
      by (simp add: nth_append crc_byte_xor xor.commute del: of_nat_add push_bit_of_1)
  qed
qed

text \<open>The 256 table entries are the bit-serial CRCs of the 256 one-byte values.\<close>

lemma crc16tab_nth: "i < 256 \<Longrightarrow> crc16tab ! i = crc_byte (push_bit 8 (of_nat i))"
  using xor_span_basis [of i 8] by (simp add: crc16tab_span eval_nat_numeral)

text \<open>The low byte of the register is only shifted by eight bit-serial steps.\<close>

lemma crc_bit_low: "k < 8 \<Longrightarrow> crc_bit (push_bit k (take_bit 8 x)) = push_bit (Suc k) (take_bit 8 x)"
  by (rule bit_word_eqI) (auto simp: crc_bit_def bit_xor_iff bit_push_bit_iff bit_take_bit_iff)

lemma crc_byte_low: "crc_byte (take_bit 8 x) = push_bit 8 x"
proof -
  have "crc_byte (push_bit 0 (take_bit 8 x)) = push_bit 8 (take_bit 8 x)"
    unfolding crc_byte_def by (simp only: crc_bit_low) (simp add: crc_bit_low eval_nat_numeral)
  also have "\<dots> = push_bit 8 x"
    by (rule bit_word_eqI) (auto simp: bit_push_bit_iff bit_take_bit_iff)
  finally show ?thesis by simp
qed

lemma crc_byte_split: "crc_byte x = crc_byte (push_bit 8 (drop_bit 8 x)) XOR push_bit 8 x"
proof -
  have "x = push_bit 8 (drop_bit 8 x) XOR take_bit 8 x"
    by (rule bit_word_eqI)
       (auto simp: bit_xor_iff bit_push_bit_iff bit_drop_bit_eq bit_take_bit_iff)
  then show ?thesis
    by (metis crc_byte_xor crc_byte_low)
qed

lemma bit_schar_low: "n < 8 \<Longrightarrow> bit (schar c :: u32) n \<longleftrightarrow> bit (uchar c :: u16) n"
  by (cases c) (simp add: schar_def uchar_def bit_signed_iff bit_1_iff of_char_def)

text \<open>One table step is eight bit-serial steps on the register with the byte mixed in.\<close>

lemma crc16_step_byte: "crc16_step crc c = crc_byte (crc XOR push_bit 8 (uchar c))"
proof -
  define i where "i = (drop_bit 8 (ucast crc :: u32) XOR schar c) AND 0x00FF"
  define x where "x = crc XOR push_bit 8 (uchar c)"
  have m: "i = take_bit 8 (drop_bit 8 (ucast crc :: u32) XOR schar c)"
    by (simp add: i_def take_bit_eq_mask mask_eq_exp_minus_1)
  have lt: "unat i < 256"
    unfolding m unsigned_take_bit_eq
    by (rule order.strict_trans2 [OF take_bit_nat_less_exp]) simp
  have ix: "(of_nat (unat i) :: u16) = ucast i"
    by simp
  have "push_bit 8 (ucast i :: u16) = push_bit 8 (drop_bit 8 x)"
    by (rule bit_word_eqI)
       (auto simp: m x_def bit_push_bit_iff bit_ucast_iff bit_take_bit_iff bit_xor_iff
         bit_drop_bit_eq bit_schar_low)
  moreover have "push_bit 8 x = push_bit 8 crc"
    by (rule bit_word_eqI) (auto simp: x_def bit_push_bit_iff bit_xor_iff)
  moreover have "(ucast (push_bit 8 (ucast crc :: u32) XOR ucast y) :: u16) = push_bit 8 crc XOR y"
    for y :: u16
    by (rule bit_word_eqI)
       (auto simp: bit_ucast_iff bit_xor_iff bit_push_bit_iff)
  ultimately show ?thesis
    unfolding crc16_step_def i_def [symmetric] crc16tab_nth [OF lt] ix x_def [symmetric]
    by (metis crc_byte_split xor.commute)
qed

lemma xor_right_cancel: "x XOR k = y XOR k \<Longrightarrow> x = (y :: u16)"
  by (metis xor.assoc xor_self_eq xor.right_neutral)

lemma crc_bit_inj: "crc_bit x = crc_bit y \<Longrightarrow> x = y"
proof -
  assume "crc_bit x = crc_bit y"
  then have z: "crc_bit (x XOR y) = 0"
    by (simp add: crc_bit_xor)
  define d where "d = x XOR y"
  have top: "\<not> bit d 15"
  proof
    assume b: "bit d 15"
    have "bit (crc_bit d) 0"
      using b by (simp add: crc_bit_def bit_0 even_xor_iff)
    with z show False by (simp add: d_def)
  qed
  then have p: "push_bit 1 d = 0"
    using z by (simp add: crc_bit_def d_def)
  have "d = 0"
  proof (rule bit_word_eqI)
    fix n assume "n < LENGTH(16)"
    then have "bit (push_bit 1 d) (Suc n) = bit d n" if "n \<noteq> 15"
      using that by (subst bit_push_bit_iff) auto
    with p top show "bit d n = bit 0 n"
      by (cases "n = 15") auto
  qed
  then show "x = y"
    using xor_right_cancel [of x y y] by (simp add: d_def)
qed

lemma crc_byte_inj: "crc_byte x = crc_byte y \<Longrightarrow> x = y"
  unfolding crc_byte_def by (auto dest!: crc_bit_inj)

section \<open>Properties\<close>

text \<open>C35: The table-driven checksum of every key (its length is an \<^verbatim>\<open>int\<close>, so below 2^31 bytes) equals the bit-serial CRC16 with polynomial
  0x1021: the 256 table constants and the shift, index and truncation arithmetic are right,
  also for characters above 127, whose \<^verbatim>\<open>char\<close> value is negative.\<close>

theorem crc16_table_driven: "xfiredb_crc16 str = crc16_ref str"
proof -
  have "foldl crc16_step crc s = foldl (\<lambda>crc c. crc_byte (crc XOR push_bit 8 (uchar c))) crc s"
    for crc s
    by (induction s arbitrary: crc) (simp_all add: crc16_step_byte)
  then show ?thesis
    by (simp add: xfiredb_crc16_def crc16_ref_def)
qed

lemma crc16_step_inj_reg: "crc16_step r c = crc16_step r' c \<Longrightarrow> r = r'"
  by (auto simp: crc16_step_byte dest!: crc_byte_inj xor_right_cancel)

lemma unat_uchar: "unat (uchar c :: u16) = of_char c"
proof -
  have "(uchar c :: u16) = of_nat (of_char c)"
    by (simp add: uchar_def of_nat_of_char)
  moreover have "of_char c < (65536::nat)"
    using nat_of_char_less_256 [of c] by linarith
  ultimately show ?thesis
    by (simp add: unat_of_nat)
qed

lemma uchar_push_inj:
  assumes h: "push_bit 8 (uchar a :: u16) = push_bit 8 (uchar b)"
  shows "a = b"
proof -
  have "bit (uchar a :: u16) n = bit (uchar b :: u16) n" if "n < 8" for n
    using arg_cong [OF h, of "\<lambda>w. bit w (n + 8)"] that by (simp add: bit_push_bit_iff)
  then have "take_bit 8 (uchar a :: u16) = take_bit 8 (uchar b)"
    by (intro bit_word_eqI) (auto simp: bit_take_bit_iff)
  from arg_cong [OF this, of unat] have "take_bit 8 (of_char a) = (take_bit 8 (of_char b) :: nat)"
    by (simp only: unsigned_take_bit_eq unat_uchar)
  then show "a = b"
    by (simp add: take_bit_nat_eq_self)
qed

lemma crc16_step_inj_char: "crc16_step r a = crc16_step r b \<Longrightarrow> a = b"
  by (metis crc16_step_byte crc_byte_inj uchar_push_inj xor.commute xor_right_cancel)

lemma foldl_crc16_inj: "foldl crc16_step r s = foldl crc16_step r' s \<Longrightarrow> r = r'"
  by (induction s arbitrary: r r') (auto dest!: crc16_step_inj_reg)

text \<open>Two keys that differ in exactly one character have different checksums.\<close>

theorem crc16_single_change:
  "xfiredb_crc16 (xs @ a # ys) = xfiredb_crc16 (xs @ b # ys) \<longleftrightarrow> a = b"
  by (auto simp: xfiredb_crc16_def dest!: foldl_crc16_inj crc16_step_inj_char)

end
