(* ===== verification/RbString.thy ===== *)
theory RbString
  imports RbModel Quotearg Crc16
begin

text \<open>
  The methods that \<^verbatim>\<open>string.c\<close> and \<^verbatim>\<open>digest.c\<close> of the Ruby extension add: \<^verbatim>\<open>escape\<close> and \<^verbatim>\<open>unescape\<close> of a string,
  and the CRC16 of a key. \<^verbatim>\<open>rb_str_new2\<close> reads the block that the engine returns up to its terminator.
\<close>

definition rb_str_new2 :: "buf_error + string \<Rightarrow> rval option" where
  "rb_str_new2 blk = (case blk of Inl e \<Rightarrow> None | Inr w \<Rightarrow> map_option RText (block_cstr w))"

text \<open>\<^verbatim>\<open>StringValueCStr\<close> raises an exception for a string with an embedded NUL.\<close>

datatype rb_exception = ArgumentError

definition StringValueCStr :: "string \<Rightarrow> rb_exception + string" where
  "StringValueCStr text = (if CHR 0x00 \<in> set text then Inl ArgumentError else Inr text)"

text \<open>An exception is a value of the left summand; \<^const>\<open>None\<close> is undefined behaviour.\<close>

definition rb_string_escape :: "string \<Rightarrow> (rb_exception + rval) option" where
  "rb_string_escape text =
     (case StringValueCStr text of
        Inl e \<Rightarrow> Some (Inl e)
      | Inr x \<Rightarrow> map_option Inr (rb_str_new2 (xfiredb_escape_string x)))"

definition rb_string_unescape :: "string \<Rightarrow> (rb_exception + rval) option" where
  "rb_string_unescape text =
     (case StringValueCStr text of
        Inl e \<Rightarrow> Some (Inl e)
      | Inr x \<Rightarrow> map_option Inr (rb_str_new2 (xfiredb_unescape_string x)))"

definition rb_digest_crc16 :: "string \<Rightarrow> rb_exception + rval" where
  "rb_digest_crc16 text =
     (case StringValueCStr text of Inl e \<Rightarrow> Inl e | Inr x \<Rightarrow> Inr (RNum (uint (xfiredb_crc16 x))))"

lemma block_cstr_cut: "block_cstr (take (block_strlen w) w) = None"
proof -
  have "take (block_strlen w) w = takeWhile (\<lambda>c. c \<noteq> CHR 0x00) w"
    by (simp add: block_strlen_def takeWhile_eq_take [symmetric])
  then show ?thesis
    by (auto simp: block_cstr_def dest: set_takeWhileD)
qed

text \<open>
  The methods \<^verbatim>\<open>escape\<close> and \<^verbatim>\<open>unescape\<close> of a Ruby string without an embedded NUL are undefined: the engine either writes
  outside its block or cuts the terminator from it, and the conversion to a Ruby string reads past the end.
\<close>

lemma rb_escape_unterminated:
  assumes "cstr text"
  shows "rb_string_escape text = None" "rb_string_unescape text = None"
  using assms
  by (auto simp: rb_string_escape_def rb_string_unescape_def StringValueCStr_def cstr_def rb_str_new2_def xfiredb_escape_string_def
      xfiredb_unescape_string_def block_cstr_cut split: sum.splits prod.splits)

text \<open>The digest is a number of 16 bits, computed from the bit-serial checksum of the key.\<close>

lemma rb_digest_range: "cstr text \<Longrightarrow> \<exists>n. rb_digest_crc16 text = Inr (RNum n) \<and> 0 \<le> n \<and> n < 2 ^ 16"
  using uint_lt2p [of "xfiredb_crc16 text"] by (simp add: rb_digest_crc16_def StringValueCStr_def cstr_def)

end
