(* ===== verification/RbProps.thy ===== *)
theory RbProps
  imports RbRun RbPairs RbString
begin

text \<open>The properties of the Ruby binding.\<close>

section \<open>Samples\<close>

lemma sample_new: "rb_rep rb_db_new Map.empty" "e_io sample_conf (rb_eng rb_db_new) []" "rb_room rb_db_new" "rb_map rb_db_new D = Map.empty"
  using rb_db_new_ok [of sample_conf] by (simp_all add: sample_conf_def)

text \<open>A new list, and the list stored under a key.\<close>

lemma sample_rb_list:
  obtains p st where "rb_new CList rb_db_new = (0, st)" "rb_rep st [p \<mapsto> ([], VList [])]" "e_io sample_conf (rb_eng st) []"
    "rb_obj st 0 = Some p" "rb_bind st = Map.empty" "e_next (rb_eng st) = 2" "e_load (rb_eng st) = False"
proof -
  have r: "e_next (rb_eng rb_db_new) < 2 ^ 64" "rb_next rb_db_new = 0" "e_next (rb_eng rb_db_new) = 1" "\<not> e_load (rb_eng rb_db_new)"
    by (simp_all add: rb_db_new_def engine_init_def)
  obtain p st where s: "rb_new CList rb_db_new = (rb_next rb_db_new, st)" "rb_obj st (rb_next rb_db_new) = Some p"
      "rb_rep st (Map.empty(p \<mapsto> ([], new_val CList)))" "rb_bind st = rb_bind rb_db_new" "e_bio (rb_eng st) = e_bio (rb_eng rb_db_new)"
      "e_load (rb_eng st) = e_load (rb_eng rb_db_new)" "e_next (rb_eng st) = e_next (rb_eng rb_db_new) + 1"
    using rb_new_ok [OF sample_new(1) _ r(1), of CList] by (metis rclass.distinct(1))
  have "rb_bind rb_db_new = Map.empty"
    using db_alloc_ok [of "''xfire-database''"] by (simp add: rb_bind_def rb_db_new_def)
  then show thesis
    using that [of st p] s r sample_new(2) by (simp add: e_io_def)
qed

lemma sample_stored:
  obtains p st st1 D1 where "rb_new CList rb_db_new = (0, st)" "rb_db_store sample_conf ''k'' (RObj 0) st = Some (RObj 0, st1)"
    "rb_rep st1 D1" "e_io sample_conf (rb_eng st1) []" "rb_map st1 D1 = [''k'' \<mapsto> VList []]" "rb_obj st1 0 = Some p"
    "rb_bind st1 ''k'' = Some p"
proof -
  obtain p st where s: "rb_new CList rb_db_new = (0, st)" "rb_rep st [p \<mapsto> ([], VList [])]" "e_io sample_conf (rb_eng st) []"
      "rb_obj st 0 = Some p" "rb_bind st = Map.empty" "e_next (rb_eng st) = 2" "e_load (rb_eng st) = False"
    by (rule sample_rb_list)
  obtain en where en: "rb_ent st p = Some en"
    using objs_okD(1) [OF rb_repD(5) [OF s(2)] s(4)] by blast
  have "\<not> en_intree en"
    using bound_okD(2) [OF rb_repD(4) [OF s(2)] en] s(5) by auto
  then have "storable_data st ''k'' (RObj 0)"
    using en s(4,5) by (auto simp: rb_entry_iff deletable_def)
  then have "stored sample_conf st [p \<mapsto> ([], VList [])] [] ''k'' (RObj 0)"
    by (intro rb_db_store_ok [OF s(2,3)]) (use s(5,6) in simp_all)
  then obtain st1 D1 items where t: "rb_db_store sample_conf ''k'' (RObj 0) st = Some (RObj 0, st1)" "rb_rep st1 D1"
      "rb_map st1 D1 = (rb_map st [p \<mapsto> ([], VList [])])(''k'' := data_val st [p \<mapsto> ([], VList [])] (RObj 0))"
      "rb_obj st1 = rb_obj st" "e_io sample_conf (rb_eng st1) ([] @ items)" "mset items = {#}" "rb_bind st1 ''k'' = rb_obj st 0"
    unfolding stored_def using s(7) by auto
  have "rb_map st [p \<mapsto> ([], VList [])] = Map.empty"
    using s(5) by (simp add: rb_map_def fun_eq_iff)
  then show thesis
    using that [of st st1 D1 p] s(1,4) t by simp
qed

lemma sample_storable: "storable_data rb_db_new ''k'' (RText ''v'')"
proof -
  have "rb_bind rb_db_new ''k'' = None"
    using sample_new(1) db_alloc_ok [of "''xfire-database''"] by (simp add: rb_bind_def rb_db_new_def)
  then show ?thesis
    by (simp add: deletable_def)
qed


section \<open>Methods\<close>

text \<open>
  C7: a method of a list, a hash map or a set returns what its specification on the value of the object says,
  changes the value of this object only, and queues one disk operation for each change when the object has
  a key and the engine is loaded. Emptying methods queue one operation for each element.
\<close>

theorem rb_methods_refine:
  assumes "rb_rep st D" "e_io x (rb_eng st) Q" "rb_entry self st = Some (p, en)" "D p = Some (ns, v)"
    and "e_cont (rb_eng st) p = Some ct" "call_ok c ct ns v"
  shows "\<exists>e' ns' items. rb_call x self c st = Some (fst (spec_call self c v), st\<lparr>rb_eng := e'\<rparr>) \<and>
    rb_rep (st\<lparr>rb_eng := e'\<rparr>) (D(p \<mapsto> (ns', fst (snd (spec_call self c v))))) \<and>
    rb_bind (st\<lparr>rb_eng := e'\<rparr>) = rb_bind st \<and> e_io x e' (Q @ items) \<and>
    mset items = told (e_load (rb_eng st)) en (snd (snd (spec_call self c v)))"
  using rb_call_ok [OF assms] by (auto simp: becomes_def rb_bind_def split: prod.splits)

theorem rb_methods_refine_witness:
  "\<exists>st e' p ns'. rb_new CList rb_db_new = (0, st) \<and>
     rb_call sample_conf 0 (LPush ''a'') st = Some (RObj 0, st\<lparr>rb_eng := e'\<rparr>) \<and>
     rb_rep (st\<lparr>rb_eng := e'\<rparr>) [p \<mapsto> (ns', VList [''a''])]"
proof -
  obtain p st where s: "rb_new CList rb_db_new = (0, st)" "rb_rep st [p \<mapsto> ([], VList [])]" "e_io sample_conf (rb_eng st) []"
      "rb_obj st 0 = Some p"
    using sample_rb_list by metis
  obtain en where "rb_ent st p = Some en"
    using objs_okD(1) [OF rb_repD(5) [OF s(2)] s(4)] by blast
  then have en: "rb_entry 0 st = Some (p, en)"
    using s(4) by (simp add: rb_entry_iff)
  obtain ct where ct: "e_cont (rb_eng st) p = Some ct"
    using rb_entryE [OF s(2) en] by metis
  have "call_ok (LPush ''a'') ct [] (VList [])" "[p \<mapsto> ([], VList [])] p = Some ([], VList [])"
    by (simp_all add: call_ok_def)
  then show ?thesis
    using rb_methods_refine [OF s(2,3) en _ ct, of "[]" "VList []" "LPush ''a''"] s(1)
    by (auto simp: spec_call_def)
qed

text \<open>
  C21: \<^verbatim>\<open>each\<close> passes every element of a list in order, every pair of a hash map once and every key of a set
  once to its block.
\<close>

theorem rb_each_enumerates:
  assumes "rb_rep st D" "rb_entry self st = Some (p, en)" "D p = Some (ns, v)"
  shows "case v of
      VList xs \<Rightarrow> length xs < 2 ^ 31 \<longrightarrow> rb_list_each self st = Some (map RText xs)
    | VMap f \<Rightarrow> (\<exists>kvs. rb_hashmap_each self st = Some kvs \<and> distinct (map fst kvs) \<and> map_of kvs = f)
    | VSet X \<Rightarrow> (\<exists>ks. rb_set_each self st = Some ks \<and> distinct ks \<and> set ks = X)
    | VString s \<Rightarrow> True"
proof (cases v)
  case (VMap f)
  obtain kvs where "rb_hashmap_each self st = Some kvs" "distinct (map fst kvs)" "map_of kvs = f"
    by (rule rb_hashmap_each_ok [OF assms(1,2) assms(3) [unfolded VMap]])
  then show ?thesis
    by (simp add: VMap)
next
  case (VSet X)
  obtain ks where "rb_set_each self st = Some ks" "distinct ks" "set ks = X"
    by (rule rb_set_each_ok [OF assms(1,2) assms(3) [unfolded VSet]])
  then show ?thesis
    by (simp add: VSet)
qed (use assms rb_list_each_ok [OF assms(1,2)] in simp_all)

theorem rb_each_enumerates_witness:
  "\<exists>st st'. rb_new CList rb_db_new = (0, st) \<and> rb_list_push sample_conf 0 ''a'' st = Some (RObj 0, st') \<and>
     rb_list_each 0 st' = Some [RText ''a'']"
proof -
  obtain p st where s: "rb_new CList rb_db_new = (0, st)" "rb_rep st [p \<mapsto> ([], VList [])]" "e_io sample_conf (rb_eng st) []"
      "rb_obj st 0 = Some p"
    using sample_rb_list by metis
  obtain en where "rb_ent st p = Some en"
    using objs_okD(1) [OF rb_repD(5) [OF s(2)] s(4)] by blast
  then have en: "rb_entry 0 st = Some (p, en)" "[p \<mapsto> ([], VList [])] p = Some ([], VList [])"
    using s(4) by (simp_all add: rb_entry_iff)
  obtain e' ns' where e': "rb_list_push sample_conf 0 ''a'' st = Some (RObj 0, st\<lparr>rb_eng := e'\<rparr>)"
      "rb_rep (st\<lparr>rb_eng := e'\<rparr>) [p \<mapsto> (ns', VList [''a''])]"
    using rb_list_push_ok [OF s(2,3) en, of "''a''"] unfolding becomes_def prod.case append_Nil fun_upd_upd by blast
  have "rb_entry 0 (st\<lparr>rb_eng := e'\<rparr>) = Some (p, en)"
    using en(1) by (simp add: rb_entry_iff)
  from rb_each_enumerates [OF e'(2) this] show ?thesis
    using s(1) e'(1) by simp
qed

section \<open>The database\<close>

text \<open>
  C6: the database object is a map from keys to values. Storing a string or an object that is not bound to another
  key binds the key; reading gives nothing for an absent key, the text of a string, or an object of the
  entry of the key; deleting removes the key. The disk operations are queued accordingly: storing an object
  again under its own key queues all its elements once more.
\<close>

theorem rb_database_refines_map:
  assumes "rb_rep st D" "e_io x (rb_eng st) Q" "rb_room st" "storable_data st k data"
  shows "(\<exists>st' D' items. rb_db_store x k data st = Some (data, st') \<and> rb_rep st' D' \<and>
      rb_map st' D' = (rb_map st D)(k := data_val st D data) \<and> e_io x (rb_eng st') (Q @ items) \<and>
      mset items = (if e_load (rb_eng st) then told_key k (store_notes st D k data) else {#})) \<and>
    (\<exists>r st'. rb_db_ref k st = Some (r, st') \<and> rb_rep st' D \<and> rb_map st' D = rb_map st D \<and> shows_key st' k (rb_map st D k) r) \<and>
    (\<exists>st' D' items. rb_db_delete x k st = Some (if rb_map st D k = None then Qnil else RText k, st') \<and> rb_rep st' D' \<and>
      rb_map st' D' = (rb_map st D)(k := None) \<and> e_io x (rb_eng st') (Q @ items) \<and>
      mset items = (case rb_map st D k of
        Some v \<Rightarrow> if e_load (rb_eng st) then image_mset (\<lambda>(arg, data, op). (Some k, arg, data, op)) (removes v) else {#}
      | None \<Rightarrow> {#}))"
proof (intro conjI)
  have "stored x st D Q k data"
    using rb_db_store_ok [OF assms(1,2) _ _ assms(4)] assms(3) by (simp add: rb_room_def)
  then show "\<exists>st' D' items. rb_db_store x k data st = Some (data, st') \<and> rb_rep st' D' \<and>
      rb_map st' D' = (rb_map st D)(k := data_val st D data) \<and> e_io x (rb_eng st') (Q @ items) \<and>
      mset items = (if e_load (rb_eng st) then told_key k (store_notes st D k data) else {#})"
    unfolding stored_def by blast
  show "\<exists>r st'. rb_db_ref k st = Some (r, st') \<and> rb_rep st' D \<and> rb_map st' D = rb_map st D \<and> shows_key st' k (rb_map st D k) r"
    using rb_db_ref_ok [OF assms(1)] by blast
  have "deletable st k"
    using assms(4) by (cases data) simp_all
  then show "\<exists>st' D' items. rb_db_delete x k st = Some (if rb_map st D k = None then Qnil else RText k, st') \<and> rb_rep st' D' \<and>
      rb_map st' D' = (rb_map st D)(k := None) \<and> e_io x (rb_eng st') (Q @ items) \<and>
      mset items = (case rb_map st D k of
        Some v \<Rightarrow> if e_load (rb_eng st) then image_mset (\<lambda>(arg, data, op). (Some k, arg, data, op)) (removes v) else {#}
      | None \<Rightarrow> {#})"
    by (rule rb_db_delete_ok [OF assms(1,2)]) blast
qed

theorem rb_database_refines_map_witness:
  "\<exists>st' D'. rb_db_store sample_conf ''k'' (RText ''v'') rb_db_new = Some (RText ''v'', st') \<and> rb_rep st' D' \<and>
     rb_map st' D' = [''k'' \<mapsto> VString ''v'']"
  using rb_database_refines_map [OF sample_new(1-3) sample_storable] by (auto simp: sample_new(4))



section \<open>Garbage collection\<close>

text \<open>
  C19: when the garbage collector takes an object, the map from keys to values stays the same. If the
  object was bound to a key, reading the key afterwards gives a new object of the same entry, with the same
  value; if not, its entry is freed.
\<close>

theorem rb_gc_keeps_database:
  assumes "rb_rep st D" "e_io x (rb_eng st) Q" "rb_obj st v = Some p" "rb_ent st p = Some en"
  shows "if en_intree en
    then \<exists>k st1 st2 w. rb_bind st k = Some p \<and> rb_release x v st = Some st1 \<and> rb_db_ref k st1 = Some (RObj w, st2) \<and>
      rb_obj st1 v = None \<and> rb_obj st2 w = Some p \<and> rb_rep st2 D \<and> rb_map st2 D = rb_map st D
    else \<exists>st1. rb_release x v st = Some st1 \<and> rb_obj st1 v = None \<and> rb_ent st1 p = None \<and>
      rb_rep st1 (D(p := None)) \<and> rb_map st1 (D(p := None)) = rb_map st D"
proof -
  have en: "rb_entry v st = Some (p, en)"
    using assms(3,4) by (simp add: rb_entry_iff)
  obtain ns u where d: "D p = Some (ns, u)"
    using rb_entryE [OF assms(1) en] by metis
  show ?thesis
  proof (cases "en_intree en")
    case True
    obtain k where k: "rb_bind st k = Some p"
      using bound_okD(2) [OF rb_repD(4) [OF assms(1)] assms(4) True] by blast
    obtain st1 where s: "rb_release x v st = Some st1" "rb_rep st1 D" "rb_bind st1 = rb_bind st" "rb_obj st1 = (rb_obj st)(v := None)"
      using rb_release_bound [OF assms(1) en True] by metis
    obtain r st2 where r: "rb_db_ref k st1 = Some (r, st2)" "rb_rep st2 D" "rb_map st2 D = rb_map st1 D" "rb_bind st2 = rb_bind st1"
        "shows_key st2 k (rb_map st1 D k) r"
      using rb_db_ref_ok [OF s(2)] by metis
    have m: "rb_map st1 D = rb_map st D" "rb_map st1 D k = Some u"
      using s(3) k d by (simp_all add: rb_map_def fun_eq_iff)
    have "en_type en \<noteq> CString"
      using objs_okD(1) [OF rb_repD(5) [OF assms(1)] assms(3)] assms(4) by auto
    moreover have "type_of u = class_type (en_type en)"
      using rb_entryE [OF assms(1) en] d by (metis option.inject prod.inject)
    ultimately have "type_of u \<noteq> CONTAINER_STRING"
      by (cases "en_type en") auto
    then obtain w where "r = RObj w" "rb_obj st2 w = Some p"
      using r(4,5) m(2) s(3) k by (cases u) (auto simp: shows_key_def)
    then show ?thesis
      using True k s r m by auto
  next
    case False
    obtain st1 items where s: "rb_release x v st = Some st1" "rb_rep st1 (D(p := None))" "rb_obj st1 = (rb_obj st)(v := None)"
        "rb_map st1 (D(p := None)) = rb_map st D"
      using rb_release_free [OF assms(1,2) en d False] by metis
    moreover have "rb_ent st1 p = None"
      using rb_heap_okD(4) [OF rb_repD(2) [OF s(2)]] by auto
    ultimately show ?thesis
      using False by simp
  qed
qed

theorem rb_gc_keeps_database_witness:
  "\<exists>st st1. rb_new CList rb_db_new = (0, st) \<and> rb_release sample_conf 0 st = Some st1 \<and> rb_obj st1 0 = None"
proof -
  obtain p st where s: "rb_new CList rb_db_new = (0, st)" "rb_rep st [p \<mapsto> ([], VList [])]" "e_io sample_conf (rb_eng st) []"
      "rb_obj st 0 = Some p"
    using sample_rb_list by metis
  obtain en where "rb_ent st p = Some en"
    using objs_okD(1) [OF rb_repD(5) [OF s(2)] s(4)] by blast
  from rb_gc_keeps_database [OF s(2-4) this] show ?thesis
    using s(1) by (auto split: if_splits)
qed

text \<open>
  C22: deleting a key whose object the garbage collector has taken before is a use of freed memory: the entry is
  freed, and then its field \<^verbatim>\<open>obj\<close> is written.
\<close>

theorem rb_delete_after_gc_crashes:
  assumes "rb_rep st D" "e_io x (rb_eng st) Q" "rb_obj st v = Some p" "rb_bind st k = Some p" "rb_release x v st = Some st1"
  shows "rb_db_delete x k st1 = None"
proof -
  obtain en where en: "rb_ent st p = Some en" "en_intree en \<or> en_type en = CString" "en_type en \<noteq> CString"
    using objs_okD(1) [OF rb_repD(5) [OF assms(1)] assms(3)] bound_okD(1) [OF rb_repD(4) [OF assms(1)] assms(4)] by auto
  have e: "rb_entry v st = Some (p, en)" "en_intree en"
    using assms(3) en by (auto simp: rb_entry_iff)
  obtain st' where s: "rb_release x v st = Some st'" "rb_rep st' D" "rb_bind st' = rb_bind st" "rb_eng st' = rb_eng st"
    using rb_release_bound [OF assms(1) e] by metis
  have "rb_ent st1 p = Some (en\<lparr>en_released := True\<rparr>)" "st1 = st'"
    using assms(5) s(1) e en(1) by (auto simp: rb_release_def rb_set_entry_def)
  then have "\<not> deletable st1 k"
    using assms(4) s(3) by (simp add: deletable_def)
  then show ?thesis
    using rb_db_delete_released [OF s(2)] s(4) assms(2) \<open>st1 = st'\<close> by simp
qed

theorem rb_delete_after_gc_crashes_witness:
  "\<exists>st st1 st2. rb_new CList rb_db_new = (0, st) \<and> rb_db_store sample_conf ''k'' (RObj 0) st = Some (RObj 0, st1) \<and>
     rb_release sample_conf 0 st1 = Some st2 \<and> rb_db_delete sample_conf ''k'' st2 = None"
proof -
  obtain p st st1 D1 where s: "rb_new CList rb_db_new = (0, st)" "rb_db_store sample_conf ''k'' (RObj 0) st = Some (RObj 0, st1)"
      "rb_rep st1 D1" "e_io sample_conf (rb_eng st1) []" "rb_obj st1 0 = Some p" "rb_bind st1 ''k'' = Some p"
    using sample_stored by metis
  obtain st2 where "rb_release sample_conf 0 st1 = Some st2"
    using acted_gc [OF s(3-5)] by (auto simp: acted_def)
  then show ?thesis
    using rb_delete_after_gc_crashes [OF s(3-6)] s(1,2) by blast
qed

text \<open>
  Clearing a hash map keeps its counter: \<^verbatim>\<open>size\<close> of the empty object is the number it was before.
\<close>

lemma rb_hashmap_clear_keeps_size:
  assumes rep: "rb_rep st D" and io: "e_io x (rb_eng st) Q" and en: "rb_entry self st = Some (p, en)"
    and d: "D p = Some (ns, VMap f)"
  shows "\<exists>st'. rb_hashmap_clear x self st = Some (RObj self, st') \<and> rb_hashmap_size self st' = rb_hashmap_size self st"
proof -
  obtain m where m: "hm_ok (m\<lparr>h_num := of_nat (length ns)\<rparr>) ns" "obj_to_map self st = Some m"
    using rb_mapE [OF rep en d] by metis
  have sl: "sl_ok (h_list m) ns" "keyed (h_list m) ns (h_key m)" "it_current (hashmap_new_iterator m) = HEADER"
    using m(1) by (simp_all add: hm_ok_def hashmap_new_iterator_def skiplist_iterator_new_def)
  obtain c where c: "e_cont (rb_eng st) p = Some c" "get_map c = Some m"
    using m(2) en by (auto simp: obj_to_map_def bind_eq_Some_conv)
  obtain m' b where lp: "rb_hashmap_remove_loop x en m (hashmap_new_iterator m) (rb_eng st) =
      Some (m', (rb_eng st)\<lparr>e_bio := b, e_strs := (e_strs (rb_eng st)) |` (- set ns)\<rparr>)" "h_num m' = h_num m"
    using rb_hashmap_remove_loop_ok [OF sl io, of en] by blast
  have "get_map (c\<lparr>c_data := DMap m'\<rparr>) = Some m'"
    using c(2) by (auto simp: get_map_def container_get_data_def split: container_type.splits cdata.splits)
  moreover have "rb_entry self (st\<lparr>rb_eng := e'\<rparr>) = Some (p, en)" for e'
    using en by (simp add: rb_entry_iff)
  ultimately show ?thesis
    using en c lp by (simp add: rb_hashmap_clear_def rb_hashmap_remove_def e_put_def rb_hashmap_size_def obj_to_map_def hashmap_size_def)
qed

section \<open>Runs\<close>

text \<open>
  C5: no sequence of allowed actions of a program and the garbage collector reaches undefined behaviour: in every
  reachable state the objects, the entries and the database belong together, and every allowed action
  returns and changes the map from keys to values as specified.
\<close>

theorem rb_reachable_safe:
  assumes "rb_reach x st" "0 \<le> x_plvl x" "x_plvl x < 3" "rb_room st" "rb_rep st D" "act_ok st D a"
  shows "\<exists>r st' D'. rb_act x a st = Some (r, st') \<and> rb_reach x st' \<and> rb_rep st' D' \<and> rb_map st' D' = act_map st D a"
proof -
  obtain Q where "e_io x (rb_eng st) Q"
    using rb_reach_ok [OF assms(1-3)] by blast
  then obtain r st' D' where a: "rb_act x a st = Some (r, st')" "rb_rep st' D'" "rb_map st' D' = act_map st D a"
    using rb_act_ok [OF assms(5) _ assms(4,6)] unfolding acted_def by blast
  moreover have "rb_reach x st'"
    using rb_reach.act [OF assms(1) _ a(1)] assms(4-6) by (auto simp: allowed_act_def)
  ultimately show ?thesis
    by blast
qed

theorem rb_reachable_safe_witness:
  "\<exists>r st' D'. rb_act sample_conf (RNew CSet) rb_db_new = Some (r, st') \<and> rb_reach sample_conf st' \<and> rb_rep st' D' \<and>
     rb_map st' D' = Map.empty"
  using rb_reachable_safe [OF rb_reach.new _ _ sample_new(3,1), of sample_conf "RNew CSet"]
  by (simp add: sample_conf_def sample_new(4))

end
